(* ===== verification/Prelude.thy ===== *)
theory Prelude
  imports Main "HOL-Library.Word" "HOL-Library.Monad_Syntax" "HOL-Library.Multiset"
begin

text \<open>
  Shared vocabulary of the development: machine types, checked accesses to C arrays, the
  allocator, and the generic lemmas on them.

  A C function that can run into undefined behaviour (an access outside its object, a shift
  by the width of its type, an endless loop) is modelled with a result of type option:
  None is that outcome, Some carries the return value and the changed state.  Error returns
  of the code are ordinary values inside Some.
\<close>

unbundle bit_operations_syntax

section \<open>Machine types\<close>

type_synonym byte = "8 word"
type_synonym u32 = "32 word"
type_synonym u64 = "64 word"

text \<open>Values of the C type size\_t and of unsigned int, kept as nat with the wrap-around explicit.\<close>

definition szw :: "nat \<Rightarrow> nat" where
  "szw n = n mod 2 ^ 64"

definition u32w :: "nat \<Rightarrow> nat" where
  "u32w n = n mod 2 ^ 32"

definition size_max :: nat where
  "size_max = 2 ^ 64 - 1"

text \<open>The allocator: whether a request of this many bytes succeeds is decided outside the code.\<close>

type_synonym alloc = "nat \<Rightarrow> bool"

named_theorems mem_simps \<open>characterisations of successful array accesses\<close>

section \<open>Checked array accesses\<close>

definition rd :: "'a list \<Rightarrow> nat \<Rightarrow> 'a option" where
  "rd xs i = (if i < length xs then Some (xs ! i) else None)"

definition wr :: "'a list \<Rightarrow> nat \<Rightarrow> 'a \<Rightarrow> 'a list option" where
  "wr xs i v = (if i < length xs then Some (xs[i := v]) else None)"

text \<open>Reading and writing a block, as memcpy and memmove do.\<close>

definition rd_blk :: "'a list \<Rightarrow> nat \<Rightarrow> nat \<Rightarrow> 'a list option" where
  "rd_blk xs off n = (if off + n \<le> length xs then Some (take n (drop off xs)) else None)"

definition wr_blk :: "'a list \<Rightarrow> nat \<Rightarrow> 'a list \<Rightarrow> 'a list option" where
  "wr_blk xs off ys =
     (if off + length ys \<le> length xs
      then Some (take off xs @ ys @ drop (off + length ys) xs) else None)"

lemma rd_in [simp]: "i < length xs \<Longrightarrow> rd xs i = Some (xs ! i)"
  by (simp add: rd_def)

lemma rd_eq_Some [mem_simps]: "rd xs i = Some v \<longleftrightarrow> i < length xs \<and> v = xs ! i"
  by (auto simp: rd_def)

lemma rd_eq_None [mem_simps]: "rd xs i = None \<longleftrightarrow> length xs \<le> i"
  by (auto simp: rd_def)

lemma wr_in [simp]: "i < length xs \<Longrightarrow> wr xs i v = Some (xs[i := v])"
  by (simp add: wr_def)

lemma wr_eq_Some [mem_simps]: "wr xs i v = Some ys \<longleftrightarrow> i < length xs \<and> ys = xs[i := v]"
  by (auto simp: wr_def)

lemma rd_blk_eq_Some [mem_simps]:
  "rd_blk xs off n = Some ys \<longleftrightarrow> off + n \<le> length xs \<and> ys = take n (drop off xs)"
  by (auto simp: rd_blk_def)

lemma wr_blk_eq_Some [mem_simps]:
  "wr_blk xs off ys = Some zs \<longleftrightarrow>
     off + length ys \<le> length xs \<and> zs = take off xs @ ys @ drop (off + length ys) xs"
  by (auto simp: wr_blk_def)

lemma length_wr_blk: "wr_blk xs off ys = Some zs \<Longrightarrow> length zs = length xs"
  by (auto simp: mem_simps)

text \<open>Appending at the end of the part of a buffer that is already written.\<close>

lemma wr_blk_append:
  "length ys \<le> length rest \<Longrightarrow>
   wr_blk (pre @ rest) (length pre) ys = Some (pre @ ys @ drop (length ys) rest)"
  by (simp add: wr_blk_def)

lemma in_set_take_nth: "y \<in> set (take p xs) \<Longrightarrow> \<exists>i < p. i < length xs \<and> y = xs ! i"
  by (force simp: in_set_conv_nth)

lemma in_set_drop_nth: "y \<in> set (drop p xs) \<Longrightarrow> \<exists>i. p + i < length xs \<and> y = xs ! (p + i)"
proof -
  assume "y \<in> set (drop p xs)"
  then obtain i where "i < length (drop p xs)" "drop p xs ! i = y" by (meson in_set_conv_nth)
  then show ?thesis by (intro exI [of _ i]) (auto simp: less_diff_conv add.commute)
qed

section \<open>Wrap-around\<close>

lemma szw_id [simp]: "n < 2 ^ 64 \<Longrightarrow> szw n = n"
  by (simp add: szw_def)

lemma u32w_id [simp]: "n < 2 ^ 32 \<Longrightarrow> u32w n = n"
  by (simp add: u32w_def)

lemma szw_bound: "szw n < 2 ^ 64"
  by (simp add: szw_def)

section \<open>Bits\<close>

lemma bit_nat_less: "(m::nat) < 2 ^ k \<Longrightarrow> bit m j \<Longrightarrow> j < k"
proof (rule ccontr)
  assume m: "m < 2 ^ k" and b: "bit m j" and "\<not> j < k"
  then have "m < 2 ^ j" by (meson less_le_trans linorder_not_less one_le_numeral power_increasing)
  with b show False by (simp add: bit_iff_odd)
qed

lemma bit_word_less: "unat w < 2 ^ k \<Longrightarrow> bit w j \<Longrightarrow> j < k"
  for w :: "'a::len word"
proof -
  assume u: "unat w < 2 ^ k" and b: "bit w j"
  then have "bit (unat w) j" by (auto simp: bit_unsigned_iff dest: bit_imp_le_length)
  with u show ?thesis by (rule bit_nat_less)
qed

lemma bit_pow_int: "bit (2 ^ m :: int) k \<longleftrightarrow> k = m"
  by (auto simp: bit_exp_iff)

lemma bit_literals:
  "bit (1 :: int) k \<longleftrightarrow> k = 0" "bit (2 :: int) k \<longleftrightarrow> k = 1" "bit (4 :: int) k \<longleftrightarrow> k = 2"
  "bit (8 :: int) k \<longleftrightarrow> k = 3" "bit (16 :: int) k \<longleftrightarrow> k = 4" "bit (32 :: int) k \<longleftrightarrow> k = 5"
  "bit (64 :: int) k \<longleftrightarrow> k = 6" "bit (128 :: int) k \<longleftrightarrow> k = 7"
  using bit_pow_int [of 0 k] bit_pow_int [of 1 k] bit_pow_int [of 2 k] bit_pow_int [of 3 k]
    bit_pow_int [of 4 k] bit_pow_int [of 5 k] bit_pow_int [of 6 k] bit_pow_int [of 7 k]
  by simp_all

lemma bit_mask_int: "bit (2 ^ m - 1 :: int) k \<longleftrightarrow> k < m"
  using bit_mask_iff [of m k, where 'a = int] by (simp add: mask_eq_exp_minus_1)

lemma bit_mask_literals:
  "bit (127 :: int) k \<longleftrightarrow> k < 7" "bit (255 :: int) k \<longleftrightarrow> k < 8" "bit (15 :: int) k \<longleftrightarrow> k < 4"
  using bit_mask_int [of 7 k] bit_mask_int [of 8 k] bit_mask_int [of 4 k] by simp_all

text \<open>Widening casts keep the value.\<close>

lemma unat_ucast_u32 [simp]: "unat (ucast (w :: u32) :: u64) = unat w"
  using unsigned_less [of w, where ?'a = nat]
  by (simp add: unsigned_ucast_eq take_bit_nat_eq_self)

lemma unat_ucast_byte [simp]: "unat (ucast (w :: byte) :: u64) = unat w"
  using unsigned_less [of w, where ?'a = nat]
  by (simp add: unsigned_ucast_eq take_bit_nat_eq_self)

lemma unat_ucast_byte32 [simp]: "unat (ucast (w :: byte) :: u32) = unat w"
  using unsigned_less [of w, where ?'a = nat]
  by (simp add: unsigned_ucast_eq take_bit_nat_eq_self)

text \<open>A statement about one byte, decided for all 256 values.\<close>

lemma byte_forall: "list_all P (map (word_of_nat :: nat \<Rightarrow> byte) [0..<256]) \<Longrightarrow> P w"
proof -
  assume "list_all P (map (word_of_nat :: nat \<Rightarrow> byte) [0..<256])"
  then have *: "P (word_of_nat k)" if "k < 256" for k using that by (simp add: list_all_iff)
  have "unat w < 256" using unsigned_less [of w, where ?'a = nat] by simp
  from * [OF this] have "P (word_of_nat (unat w))" .
  then show "P w" by simp
qed

end
