(* ===== verification/DeltaDefs.thy ===== *)
theory DeltaDefs
  imports Prelude
begin

text \<open>
  The binary delta of packfiles: todo-later/libgit2/src/delta.c (index and encoder), delta.h
  and delta-apply.c (decoder).  Pointers into the reference buffer, the target and the delta
  are positions, or the list of bytes still ahead of them; an access outside a buffer is None.
  The output buffer of the encoder is the list of the outpos bytes written so far together
  with its allocated size outsize; bytes above outpos are dead and not kept.
\<close>

unbundle bit_operations_syntax

section \<open>Decoding (delta-apply.c)\<close>

text \<open>
  hdr\_sz reads a little-endian base-128 size.  The shift is done on unsigned int, so
  it is undefined from 32 on.  The result is Inl (-1) when the data ends too early.
\<close>

primrec hdr_sz_loop :: "byte list \<Rightarrow> u64 \<Rightarrow> nat \<Rightarrow> (int + u64 \<times> byte list) option" where
  "hdr_sz_loop [] r shift = Some (Inl (-1))"
| "hdr_sz_loop (c # d) r shift =
     (if 32 \<le> shift then None
      else let r' = r OR ucast (push_bit shift (ucast (c AND 0x7f) :: u32))
           in if c AND 0x80 \<noteq> 0 then hdr_sz_loop d r' (shift + 7)
              else Some (Inr (r', d)))"

definition hdr_sz :: "byte list \<Rightarrow> (int + u64 \<times> byte list) option" where
  "hdr_sz d = hdr_sz_loop d 0 0"

definition git__delta_read_header :: "byte list \<Rightarrow> (int + u64 \<times> u64) option" where
  "git__delta_read_header d = do {
     a \<leftarrow> hdr_sz d;
     (case a of Inl e \<Rightarrow> Some (Inl (-1))
      | Inr (base_sz, d1) \<Rightarrow> do {
          b \<leftarrow> hdr_sz d1;
          (case b of Inl e \<Rightarrow> Some (Inl (-1))
           | Inr (res_sz, d2) \<Rightarrow> Some (Inr (base_sz, res_sz)))})}"

text \<open>The same format read by git\_delta\_get\_hdr\_size of delta.h, which stops at the end of the data.\<close>

primrec hdr_size_loop :: "byte list \<Rightarrow> u64 \<Rightarrow> nat \<Rightarrow> (u64 \<times> byte list) option" where
  "hdr_size_loop [] sz i = None"
| "hdr_size_loop (cmd # data) sz i =
     (if 64 \<le> i then None
      else let sz' = sz OR push_bit i (ucast cmd AND 0x7f)
           in if cmd AND 0x80 \<noteq> 0 \<and> data \<noteq> [] then hdr_size_loop data sz' (i + 7)
              else Some (sz', data))"

definition git_delta_get_hdr_size :: "byte list \<Rightarrow> (u64 \<times> byte list) option" where
  "git_delta_get_hdr_size data = hdr_size_loop data 0 0"

record git_rawobj =
  robj_data :: "byte list option"
  robj_len :: u64

text \<open>
  One optional argument byte of a copy instruction, and the promotion of a byte to int before
  it is shifted and widened to size\_t: bit 31 of the shifted value is the sign.
\<close>

definition opt_byte :: "bool \<Rightarrow> byte list \<Rightarrow> (byte \<times> byte list) option" where
  "opt_byte present ds =
     (if present then (case ds of [] \<Rightarrow> None | b # ds' \<Rightarrow> Some (b, ds')) else Some (0, ds))"

definition int_shl :: "byte \<Rightarrow> nat \<Rightarrow> u64" where
  "int_shl b n = scast (push_bit n (ucast b :: u32))"

definition delta_copy_args :: "byte \<Rightarrow> byte list \<Rightarrow> (u64 \<times> u64 \<times> byte list) option" where
  "delta_copy_args cmd ds = do {
     (o0, ds) \<leftarrow> opt_byte (cmd AND 0x01 \<noteq> 0) ds;
     (o1, ds) \<leftarrow> opt_byte (cmd AND 0x02 \<noteq> 0) ds;
     (o2, ds) \<leftarrow> opt_byte (cmd AND 0x04 \<noteq> 0) ds;
     (o3, ds) \<leftarrow> opt_byte (cmd AND 0x08 \<noteq> 0) ds;
     (l0, ds) \<leftarrow> opt_byte (cmd AND 0x10 \<noteq> 0) ds;
     (l1, ds) \<leftarrow> opt_byte (cmd AND 0x20 \<noteq> 0) ds;
     (l2, ds) \<leftarrow> opt_byte (cmd AND 0x40 \<noteq> 0) ds;
     (let off = int_shl o0 0 OR int_shl o1 8 OR int_shl o2 16 OR int_shl o3 24;
          len = int_shl l0 0 OR int_shl l1 8 OR int_shl l2 16
      in Some (off, if len = 0 then 0x10000 else len, ds))}"

lemma opt_byte_length: "opt_byte p ds = Some (b, ds') \<Longrightarrow> length ds' \<le> length ds"
  by (auto simp: opt_byte_def split: if_splits list.splits)

lemma delta_copy_args_length:
  "delta_copy_args cmd ds = Some (off, len, ds') \<Longrightarrow> length ds' \<le> length ds"
  by (fastforce simp: delta_copy_args_def Let_def split: Option.bind_splits prod.splits
      dest!: opt_byte_length)

text \<open>
  The instruction loop of git\_\_delta\_apply.  buf is the result buffer, dp the offset of
  res\_dp in it and res\_sz the room left.
\<close>

function delta_apply_loop ::
  "byte list \<Rightarrow> byte list \<Rightarrow> byte list \<Rightarrow> nat \<Rightarrow> u64 \<Rightarrow> (int + byte list \<times> u64) option" where
  "delta_apply_loop base [] buf dp res_sz = Some (Inr (buf, res_sz))"
| "delta_apply_loop base (cmd # ds) buf dp res_sz =
     (if cmd AND 0x80 \<noteq> 0 then
        Option.bind (delta_copy_args cmd ds) (\<lambda>(off, len, ds').
          if word_of_nat (length base) < off + len \<or> res_sz < len then Some (Inl (-1))
          else Option.bind (rd_blk base (unat off) (unat len)) (\<lambda>blk.
            Option.bind (wr_blk buf dp blk) (\<lambda>buf'.
              delta_apply_loop base ds' buf' (dp + unat len) (res_sz - len))))
      else if cmd \<noteq> 0 then
        (if length ds < unat cmd \<or> res_sz < ucast cmd then Some (Inl (-1))
         else Option.bind (wr_blk buf dp (take (unat cmd) ds)) (\<lambda>buf'.
           delta_apply_loop base (drop (unat cmd) ds) buf' (dp + unat cmd) (res_sz - ucast cmd)))
      else Some (Inl (-1)))"
  by pat_completeness auto
termination
  by (relation "measure (\<lambda>(base, ds, buf, dp, res_sz). length ds)")
    (auto dest: delta_copy_args_length)

text \<open>The new block of the result has arbitrary contents, given by junk.\<close>

definition git__delta_apply ::
  "(nat \<Rightarrow> byte) \<Rightarrow> alloc \<Rightarrow> git_rawobj \<Rightarrow> byte list \<Rightarrow> byte list \<Rightarrow> (int \<times> git_rawobj) option" where
  "git__delta_apply junk ok out base delta = do {
     a \<leftarrow> hdr_sz delta;
     (case a of
        Inl e \<Rightarrow> Some (-1, out)
      | Inr (base_sz, d1) \<Rightarrow>
          if base_sz \<noteq> word_of_nat (length base) then Some (-1, out)
          else do {
            b \<leftarrow> hdr_sz d1;
            (case b of
               Inl e \<Rightarrow> Some (-1, out)
             | Inr (res_sz, d2) \<Rightarrow>
                 if \<not> ok (unat (res_sz + 1)) then Some (-1, out)
                 else do {
                   buf0 \<leftarrow> wr (map junk [0..<unat (res_sz + 1)]) (unat res_sz) 0;
                   r \<leftarrow> delta_apply_loop base d2 buf0 0 res_sz;
                   (case r of
                      Inl e \<Rightarrow> Some (-1, out\<lparr>robj_data := None, robj_len := res_sz\<rparr>)
                    | Inr (buf, left) \<Rightarrow>
                        if left \<noteq> 0 then Some (-1, out\<lparr>robj_data := None, robj_len := res_sz\<rparr>)
                        else Some (0, out\<lparr>robj_data := Some buf, robj_len := res_sz\<rparr>))})})}"

section \<open>Rabin fingerprints (delta.c)\<close>

definition delta_T :: "u32 list" where
  "delta_T = [
     0x00000000, 0xab59b4d1, 0x56b369a2, 0xfdeadd73, 0x063f6795, 0xad66d344,
     0x508c0e37, 0xfbd5bae6, 0x0c7ecf2a, 0xa7277bfb, 0x5acda688, 0xf1941259,
     0x0a41a8bf, 0xa1181c6e, 0x5cf2c11d, 0xf7ab75cc, 0x18fd9e54, 0xb3a42a85,
     0x4e4ef7f6, 0xe5174327, 0x1ec2f9c1, 0xb59b4d10, 0x48719063, 0xe32824b2,
     0x1483517e, 0xbfdae5af, 0x423038dc, 0xe9698c0d, 0x12bc36eb, 0xb9e5823a,
     0x440f5f49, 0xef56eb98, 0x31fb3ca8, 0x9aa28879, 0x6748550a, 0xcc11e1db,
     0x37c45b3d, 0x9c9defec, 0x6177329f, 0xca2e864e, 0x3d85f382, 0x96dc4753,
     0x6b369a20, 0xc06f2ef1, 0x3bba9417, 0x90e320c6, 0x6d09fdb5, 0xc6504964,
     0x2906a2fc, 0x825f162d, 0x7fb5cb5e, 0xd4ec7f8f, 0x2f39c569, 0x846071b8,
     0x798aaccb, 0xd2d3181a, 0x25786dd6, 0x8e21d907, 0x73cb0474, 0xd892b0a5,
     0x23470a43, 0x881ebe92, 0x75f463e1, 0xdeadd730, 0x63f67950, 0xc8afcd81,
     0x354510f2, 0x9e1ca423, 0x65c91ec5, 0xce90aa14, 0x337a7767, 0x9823c3b6,
     0x6f88b67a, 0xc4d102ab, 0x393bdfd8, 0x92626b09, 0x69b7d1ef, 0xc2ee653e,
     0x3f04b84d, 0x945d0c9c, 0x7b0be704, 0xd05253d5, 0x2db88ea6, 0x86e13a77,
     0x7d348091, 0xd66d3440, 0x2b87e933, 0x80de5de2, 0x7775282e, 0xdc2c9cff,
     0x21c6418c, 0x8a9ff55d, 0x714a4fbb, 0xda13fb6a, 0x27f92619, 0x8ca092c8,
     0x520d45f8, 0xf954f129, 0x04be2c5a, 0xafe7988b, 0x5432226d, 0xff6b96bc,
     0x02814bcf, 0xa9d8ff1e, 0x5e738ad2, 0xf52a3e03, 0x08c0e370, 0xa39957a1,
     0x584ced47, 0xf3155996, 0x0eff84e5, 0xa5a63034, 0x4af0dbac, 0xe1a96f7d,
     0x1c43b20e, 0xb71a06df, 0x4ccfbc39, 0xe79608e8, 0x1a7cd59b, 0xb125614a,
     0x468e1486, 0xedd7a057, 0x103d7d24, 0xbb64c9f5, 0x40b17313, 0xebe8c7c2,
     0x16021ab1, 0xbd5bae60, 0x6cb54671, 0xc7ecf2a0, 0x3a062fd3, 0x915f9b02,
     0x6a8a21e4, 0xc1d39535, 0x3c394846, 0x9760fc97, 0x60cb895b, 0xcb923d8a,
     0x3678e0f9, 0x9d215428, 0x66f4eece, 0xcdad5a1f, 0x3047876c, 0x9b1e33bd,
     0x7448d825, 0xdf116cf4, 0x22fbb187, 0x89a20556, 0x7277bfb0, 0xd92e0b61,
     0x24c4d612, 0x8f9d62c3, 0x7836170f, 0xd36fa3de, 0x2e857ead, 0x85dcca7c,
     0x7e09709a, 0xd550c44b, 0x28ba1938, 0x83e3ade9, 0x5d4e7ad9, 0xf617ce08,
     0x0bfd137b, 0xa0a4a7aa, 0x5b711d4c, 0xf028a99d, 0x0dc274ee, 0xa69bc03f,
     0x5130b5f3, 0xfa690122, 0x0783dc51, 0xacda6880, 0x570fd266, 0xfc5666b7,
     0x01bcbbc4, 0xaae50f15, 0x45b3e48d, 0xeeea505c, 0x13008d2f, 0xb85939fe,
     0x438c8318, 0xe8d537c9, 0x153feaba, 0xbe665e6b, 0x49cd2ba7, 0xe2949f76,
     0x1f7e4205, 0xb427f6d4, 0x4ff24c32, 0xe4abf8e3, 0x19412590, 0xb2189141,
     0x0f433f21, 0xa41a8bf0, 0x59f05683, 0xf2a9e252, 0x097c58b4, 0xa225ec65,
     0x5fcf3116, 0xf49685c7, 0x033df00b, 0xa86444da, 0x558e99a9, 0xfed72d78,
     0x0502979e, 0xae5b234f, 0x53b1fe3c, 0xf8e84aed, 0x17bea175, 0xbce715a4,
     0x410dc8d7, 0xea547c06, 0x1181c6e0, 0xbad87231, 0x4732af42, 0xec6b1b93,
     0x1bc06e5f, 0xb099da8e, 0x4d7307fd, 0xe62ab32c, 0x1dff09ca, 0xb6a6bd1b,
     0x4b4c6068, 0xe015d4b9, 0x3eb80389, 0x95e1b758, 0x680b6a2b, 0xc352defa,
     0x3887641c, 0x93ded0cd, 0x6e340dbe, 0xc56db96f, 0x32c6cca3, 0x999f7872,
     0x6475a501, 0xcf2c11d0, 0x34f9ab36, 0x9fa01fe7, 0x624ac294, 0xc9137645,
     0x26459ddd, 0x8d1c290c, 0x70f6f47f, 0xdbaf40ae, 0x207afa48, 0x8b234e99,
     0x76c993ea, 0xdd90273b, 0x2a3b52f7, 0x8162e626, 0x7c883b55, 0xd7d18f84,
     0x2c043562, 0x875d81b3, 0x7ab75cc0, 0xd1eee811
   ]"

definition delta_U :: "u32 list" where
  "delta_U = [
     0x00000000, 0x7eb5200d, 0x5633f4cb, 0x2886d4c6, 0x073e5d47, 0x798b7d4a,
     0x510da98c, 0x2fb88981, 0x0e7cba8e, 0x70c99a83, 0x584f4e45, 0x26fa6e48,
     0x0942e7c9, 0x77f7c7c4, 0x5f711302, 0x21c4330f, 0x1cf9751c, 0x624c5511,
     0x4aca81d7, 0x347fa1da, 0x1bc7285b, 0x65720856, 0x4df4dc90, 0x3341fc9d,
     0x1285cf92, 0x6c30ef9f, 0x44b63b59, 0x3a031b54, 0x15bb92d5, 0x6b0eb2d8,
     0x4388661e, 0x3d3d4613, 0x39f2ea38, 0x4747ca35, 0x6fc11ef3, 0x11743efe,
     0x3eccb77f, 0x40799772, 0x68ff43b4, 0x164a63b9, 0x378e50b6, 0x493b70bb,
     0x61bda47d, 0x1f088470, 0x30b00df1, 0x4e052dfc, 0x6683f93a, 0x1836d937,
     0x250b9f24, 0x5bbebf29, 0x73386bef, 0x0d8d4be2, 0x2235c263, 0x5c80e26e,
     0x740636a8, 0x0ab316a5, 0x2b7725aa, 0x55c205a7, 0x7d44d161, 0x03f1f16c,
     0x2c4978ed, 0x52fc58e0, 0x7a7a8c26, 0x04cfac2b, 0x73e5d470, 0x0d50f47d,
     0x25d620bb, 0x5b6300b6, 0x74db8937, 0x0a6ea93a, 0x22e87dfc, 0x5c5d5df1,
     0x7d996efe, 0x032c4ef3, 0x2baa9a35, 0x551fba38, 0x7aa733b9, 0x041213b4,
     0x2c94c772, 0x5221e77f, 0x6f1ca16c, 0x11a98161, 0x392f55a7, 0x479a75aa,
     0x6822fc2b, 0x1697dc26, 0x3e1108e0, 0x40a428ed, 0x61601be2, 0x1fd53bef,
     0x3753ef29, 0x49e6cf24, 0x665e46a5, 0x18eb66a8, 0x306db26e, 0x4ed89263,
     0x4a173e48, 0x34a21e45, 0x1c24ca83, 0x6291ea8e, 0x4d29630f, 0x339c4302,
     0x1b1a97c4, 0x65afb7c9, 0x446b84c6, 0x3adea4cb, 0x1258700d, 0x6ced5000,
     0x4355d981, 0x3de0f98c, 0x15662d4a, 0x6bd30d47, 0x56ee4b54, 0x285b6b59,
     0x00ddbf9f, 0x7e689f92, 0x51d01613, 0x2f65361e, 0x07e3e2d8, 0x7956c2d5,
     0x5892f1da, 0x2627d1d7, 0x0ea10511, 0x7014251c, 0x5facac9d, 0x21198c90,
     0x099f5856, 0x772a785b, 0x4c921c31, 0x32273c3c, 0x1aa1e8fa, 0x6414c8f7,
     0x4bac4176, 0x3519617b, 0x1d9fb5bd, 0x632a95b0, 0x42eea6bf, 0x3c5b86b2,
     0x14dd5274, 0x6a687279, 0x45d0fbf8, 0x3b65dbf5, 0x13e30f33, 0x6d562f3e,
     0x506b692d, 0x2ede4920, 0x06589de6, 0x78edbdeb, 0x5755346a, 0x29e01467,
     0x0166c0a1, 0x7fd3e0ac, 0x5e17d3a3, 0x20a2f3ae, 0x08242768, 0x76910765,
     0x59298ee4, 0x279caee9, 0x0f1a7a2f, 0x71af5a22, 0x7560f609, 0x0bd5d604,
     0x235302c2, 0x5de622cf, 0x725eab4e, 0x0ceb8b43, 0x246d5f85, 0x5ad87f88,
     0x7b1c4c87, 0x05a96c8a, 0x2d2fb84c, 0x539a9841, 0x7c2211c0, 0x029731cd,
     0x2a11e50b, 0x54a4c506, 0x69998315, 0x172ca318, 0x3faa77de, 0x411f57d3,
     0x6ea7de52, 0x1012fe5f, 0x38942a99, 0x46210a94, 0x67e5399b, 0x19501996,
     0x31d6cd50, 0x4f63ed5d, 0x60db64dc, 0x1e6e44d1, 0x36e89017, 0x485db01a,
     0x3f77c841, 0x41c2e84c, 0x69443c8a, 0x17f11c87, 0x38499506, 0x46fcb50b,
     0x6e7a61cd, 0x10cf41c0, 0x310b72cf, 0x4fbe52c2, 0x67388604, 0x198da609,
     0x36352f88, 0x48800f85, 0x6006db43, 0x1eb3fb4e, 0x238ebd5d, 0x5d3b9d50,
     0x75bd4996, 0x0b08699b, 0x24b0e01a, 0x5a05c017, 0x728314d1, 0x0c3634dc,
     0x2df207d3, 0x534727de, 0x7bc1f318, 0x0574d315, 0x2acc5a94, 0x54797a99,
     0x7cffae5f, 0x024a8e52, 0x06852279, 0x78300274, 0x50b6d6b2, 0x2e03f6bf,
     0x01bb7f3e, 0x7f0e5f33, 0x57888bf5, 0x293dabf8, 0x08f998f7, 0x764cb8fa,
     0x5eca6c3c, 0x207f4c31, 0x0fc7c5b0, 0x7172e5bd, 0x59f4317b, 0x27411176,
     0x1a7c5765, 0x64c97768, 0x4c4fa3ae, 0x32fa83a3, 0x1d420a22, 0x63f72a2f,
     0x4b71fee9, 0x35c4dee4, 0x1400edeb, 0x6ab5cde6, 0x42331920, 0x3c86392d,
     0x133eb0ac, 0x6d8b90a1, 0x450d4467, 0x3bb8646a
   ]"

definition rabin_window :: nat where
  "rabin_window = 16"

definition hash_limit :: nat where
  "hash_limit = 64"

definition max_op_size :: nat where
  "max_op_size = 5 + 5 + 1 + rabin_window + 7"

text \<open>val = ((val << 8) | byte) ^ T[val >> RABIN\_SHIFT], for one byte and for a window.\<close>

definition rabin_step :: "u32 \<Rightarrow> byte \<Rightarrow> u32 option" where
  "rabin_step v b = do {
     t \<leftarrow> rd delta_T (unat (drop_bit 23 v));
     Some ((push_bit 8 v OR ucast b) XOR t)}"

primrec rabin_fold :: "u32 \<Rightarrow> byte list \<Rightarrow> u32 option" where
  "rabin_fold v [] = Some v"
| "rabin_fold v (b # bs) = do { v' \<leftarrow> rabin_step v b; rabin_fold v' bs }"

section \<open>The index (delta.c)\<close>

text \<open>
  A hash bucket is the list of its entries in the order of the next links.
\<close>

record index_entry =
  ie_ptr :: nat
  ie_val :: u32

record git_delta_index =
  memsize :: nat
  src_buf :: "byte list"
  hash_mask :: u32
  hash_tab :: "index_entry list list"

function index_bits :: "nat \<Rightarrow> nat \<Rightarrow> nat" where
  "index_bits hsize i = (if 2 ^ i < hsize \<and> i < 31 then index_bits hsize (Suc i) else i)"
  by pat_completeness auto
termination
  by (relation "measure (\<lambda>(hsize, i). 31 - i)") auto

declare index_bits.simps [simp del]

definition index_entries :: "nat \<Rightarrow> nat" where
  "index_entries bufsize =
     (if 0xffffffff \<le> bufsize then 0xfffffffe div rabin_window
      else u32w (bufsize - 1) div rabin_window)"

text \<open>
  The loop that populates the table, from the last window to the first; k windows are left
  and n entries have been written.  Two equal consecutive fingerprints keep the lower block:
  entry[-1], the entry written last, is the head of the bucket of that fingerprint.
\<close>

primrec index_fill ::
  "byte list \<Rightarrow> u32 \<Rightarrow> nat \<Rightarrow> nat \<Rightarrow> u32 \<Rightarrow> index_entry list list \<Rightarrow> nat list \<Rightarrow>
   (index_entry list list \<times> nat list) option" where
  "index_fill buf hmask 0 n prev_val hash hash_count = Some (hash, hash_count)"
| "index_fill buf hmask (Suc k) n prev_val hash hash_count = do {
     win \<leftarrow> rd_blk buf (k * rabin_window + 1) rabin_window;
     val \<leftarrow> rabin_fold 0 win;
     (let i = unat (val AND hmask); p = k * rabin_window + rabin_window in do {
        chain \<leftarrow> rd hash i;
        (if val = prev_val then
           (case chain of
              [] \<Rightarrow> None
            | e # es \<Rightarrow>
                if n = 0 then None
                else index_fill buf hmask k n prev_val (hash[i := e\<lparr>ie_ptr := p\<rparr> # es]) hash_count)
         else do {
           c \<leftarrow> rd hash_count i;
           index_fill buf hmask k (Suc n) val
             (hash[i := \<lparr>ie_ptr = p, ie_val = val\<rparr> # chain]) (hash_count[i := Suc c])})})}"

text \<open>Culling: do entry = entry->next while (--skip \<and> entry), then keep->next = entry.\<close>

function cull_skip :: "int \<Rightarrow> 'a list \<Rightarrow> 'a list" where
  "cull_skip skip es = (if skip - 1 \<noteq> 0 \<and> es \<noteq> [] then cull_skip (skip - 1) (tl es) else es)"
  by pat_completeness auto
termination
  by (relation "measure (\<lambda>(skip, es). length es)") auto

declare cull_skip.simps [simp del]

lemma cull_skip_length: "length (cull_skip skip es) \<le> length es"
proof (induction skip es rule: cull_skip.induct)
  case (1 skip es)
  then show ?case by (subst cull_skip.simps) fastforce
qed

function cull_chain :: "int \<Rightarrow> 'a list \<Rightarrow> 'a list" where
  "cull_chain skip [] = []"
| "cull_chain skip (e # es) = e # cull_chain skip (cull_skip skip es)"
  by pat_completeness auto
termination
  by (relation "measure (\<lambda>(skip, es). length es)") (auto simp: cull_skip_length le_imp_less_Suc)

definition cull_bucket :: "nat \<Rightarrow> 'a list \<Rightarrow> 'a list" where
  "cull_bucket cnt chain =
     (if cnt < hash_limit then chain else cull_chain (int (cnt div hash_limit div 2)) chain)"

text \<open>Sizes on an LP64 target: 32 bytes of struct, 8 per bucket, 24 per entry.\<close>

definition git_delta_create_index :: "alloc \<Rightarrow> byte list \<Rightarrow> git_delta_index option option" where
  "git_delta_create_index ok buf =
     (if buf = [] then Some None
      else
        let bufsize = length buf;
            entries = index_entries bufsize;
            bits = index_bits (entries div 4) 4;
            hsize = 2 ^ bits;
            hmask = word_of_nat (hsize - 1);
            msize = 32 + 8 * hsize + 24 * entries
        in if \<not> ok msize \<or> \<not> ok (8 * hsize) then Some None
           else do {
             (hash, hash_count) \<leftarrow>
               index_fill buf hmask entries 0 0xffffffff (replicate hsize []) (replicate hsize 0);
             Some (Some \<lparr>memsize = msize, src_buf = buf, hash_mask = hmask,
                         hash_tab = map2 cull_bucket hash_count hash\<rparr>)})"

definition git_delta_sizeof_index :: "git_delta_index option \<Rightarrow> nat" where
  "git_delta_sizeof_index index = (case index of Some ix \<Rightarrow> memsize ix | None \<Rightarrow> 0)"

section \<open>The encoder (delta.c)\<close>

text \<open>out[outpos++] = b, and a store into a slot at or below outpos.\<close>

definition put :: "nat \<Rightarrow> byte list \<Rightarrow> byte \<Rightarrow> byte list option" where
  "put outsize out b = (if length out < outsize then Some (out @ [b]) else None)"

definition set_slot :: "nat \<Rightarrow> byte list \<Rightarrow> int \<Rightarrow> byte \<Rightarrow> byte list option" where
  "set_slot outsize out i b =
     (if 0 \<le> i \<and> i < int (length out) then Some (out[nat i := b])
      else if 0 \<le> i \<and> i < int outsize then Some out
      else None)"

function put_size :: "nat \<Rightarrow> byte list \<Rightarrow> nat \<Rightarrow> byte list option" where
  "put_size outsize out i =
     (if 0x80 \<le> i
      then Option.bind (put outsize out (word_of_nat i OR 0x80)) (\<lambda>out'. put_size outsize out' (i div 128))
      else put outsize out (word_of_nat i))"
  by pat_completeness auto
termination
  by (relation "measure (\<lambda>(outsize, out, i). i)") auto

declare put_size.simps [simp del]

text \<open>The first window: copied as literals while its fingerprint is computed.\<close>

primrec put_window :: "nat \<Rightarrow> byte list \<Rightarrow> u32 \<Rightarrow> byte list \<Rightarrow> (byte list \<times> u32) option" where
  "put_window outsize out val [] = Some (out, val)"
| "put_window outsize out val (b # bs) = do {
     out' \<leftarrow> put outsize out b;
     val' \<leftarrow> rabin_step val b;
     put_window outsize out' val' bs}"

text \<open>while (ref\_size-- \<and> *src++ == *ref) ref++: the number of equal bytes, at most n.\<close>

primrec match_len :: "byte list \<Rightarrow> nat \<Rightarrow> byte list \<Rightarrow> nat \<Rightarrow> nat \<Rightarrow> nat option" where
  "match_len ref r trg s 0 = Some 0"
| "match_len ref r trg s (Suc n) = do {
     a \<leftarrow> rd trg s;
     b \<leftarrow> rd ref r;
     (if a = b then do { m \<leftarrow> match_len ref (Suc r) trg (Suc s) n; Some (Suc m) } else Some 0)}"

primrec delta_search ::
  "byte list \<Rightarrow> byte list \<Rightarrow> nat \<Rightarrow> u32 \<Rightarrow> index_entry list \<Rightarrow> nat \<Rightarrow> nat \<Rightarrow> (nat \<times> nat) option" where
  "delta_search ref trg pos val [] msize moff = Some (msize, moff)"
| "delta_search ref trg pos val (e # es) msize moff =
     (if ie_val e \<noteq> val then delta_search ref trg pos val es msize moff
      else if length ref < ie_ptr e then None
      else
        let ref_size = min (u32w (length ref - ie_ptr e)) (u32w (length trg - pos))
        in if ref_size \<le> msize then Some (msize, moff)
           else do {
             m \<leftarrow> match_len ref (ie_ptr e) trg pos ref_size;
             (if msize < u32w m then
                (if 4096 \<le> u32w m then Some (u32w m, u32w (ie_ptr e))
                 else delta_search ref trg pos val es (u32w m) (u32w (ie_ptr e)))
              else delta_search ref trg pos val es msize moff)})"

record dstate =
  d_out :: "byte list"
  d_outsize :: nat
  d_inscnt :: int
  d_pos :: nat
  d_moff :: nat
  d_msize :: nat
  d_val :: u32

text \<open>The search at the head of the loop body.\<close>

definition delta_find :: "git_delta_index \<Rightarrow> byte list \<Rightarrow> dstate \<Rightarrow> dstate option" where
  "delta_find index trg s =
     (if d_msize s < 4096 then do {
        old \<leftarrow> (if d_pos s < rabin_window then None else rd trg (d_pos s - rabin_window));
        u \<leftarrow> rd delta_U (unat old);
        b \<leftarrow> rd trg (d_pos s);
        val \<leftarrow> rabin_step (d_val s XOR u) b;
        chain \<leftarrow> rd (hash_tab index) (unat (val AND hash_mask index));
        (msize, moff) \<leftarrow> delta_search (src_buf index) trg (d_pos s) val chain (d_msize s) (d_moff s);
        Some (s\<lparr>d_val := val, d_msize := msize, d_moff := moff\<rparr>)}
      else Some s)"

text \<open>No match: the byte joins the pending literals; a full run of 127 gets its count.\<close>

definition delta_insert :: "byte list \<Rightarrow> dstate \<Rightarrow> dstate option" where
  "delta_insert trg s = do {
     out1 \<leftarrow> (if d_inscnt s = 0 then put (d_outsize s) (d_out s) 0 else Some (d_out s));
     b \<leftarrow> rd trg (d_pos s);
     out2 \<leftarrow> put (d_outsize s) out1 b;
     (let inscnt = d_inscnt s + 1 in
      if inscnt = 0x7f then do {
        out3 \<leftarrow> set_slot (d_outsize s) out2 (int (length out2) - inscnt - 1) (word_of_int inscnt);
        Some (s\<lparr>d_out := out3, d_inscnt := 0, d_pos := d_pos s + 1, d_msize := 0\<rparr>)}
      else Some (s\<lparr>d_out := out2, d_inscnt := inscnt, d_pos := d_pos s + 1, d_msize := 0\<rparr>))}"

text \<open>Extending the match backwards over pending literals.\<close>

primrec delta_back ::
  "byte list \<Rightarrow> byte list \<Rightarrow> byte list \<Rightarrow> int \<Rightarrow> nat \<Rightarrow> nat \<Rightarrow> nat \<Rightarrow>
   (byte list \<times> int \<times> nat \<times> nat \<times> nat) option" where
  "delta_back ref trg out inscnt pos 0 msize = Some (out, inscnt, pos, 0, msize)"
| "delta_back ref trg out inscnt pos (Suc moff) msize = do {
     a \<leftarrow> rd ref moff;
     b \<leftarrow> (if pos = 0 then None else rd trg (pos - 1));
     (if a = b then
        (if out = [] then None
         else if inscnt - 1 \<noteq> 0 then
           delta_back ref trg (butlast out) (inscnt - 1) (pos - 1) moff (u32w (msize + 1))
         else if butlast out = [] then None
         else Some (butlast (butlast out), - 1, pos - 1, moff, u32w (msize + 1)))
      else Some (out, inscnt, pos, Suc moff, msize))}"

definition put_if ::
  "nat \<Rightarrow> bool \<Rightarrow> u32 \<Rightarrow> byte \<Rightarrow> byte list \<times> byte \<Rightarrow> (byte list \<times> byte) option" where
  "put_if outsize c v flag oi =
     (if c then do { out' \<leftarrow> put outsize (fst oi) (ucast v); Some (out', snd oi OR flag) }
      else Some oi)"

definition put_copy :: "nat \<Rightarrow> byte list \<Rightarrow> u32 \<Rightarrow> u32 \<Rightarrow> byte list option" where
  "put_copy outsize out moff msize = do {
     out1 \<leftarrow> put outsize out 0;
     oi \<leftarrow> put_if outsize (moff AND 0x000000ff \<noteq> 0) moff 0x01 (out1, 0x80);
     oi \<leftarrow> put_if outsize (moff AND 0x0000ff00 \<noteq> 0) (drop_bit 8 moff) 0x02 oi;
     oi \<leftarrow> put_if outsize (moff AND 0x00ff0000 \<noteq> 0) (drop_bit 16 moff) 0x04 oi;
     oi \<leftarrow> put_if outsize (moff AND 0xff000000 \<noteq> 0) (drop_bit 24 moff) 0x08 oi;
     oi \<leftarrow> put_if outsize (msize AND 0x00ff \<noteq> 0) msize 0x10 oi;
     oi \<leftarrow> put_if outsize (msize AND 0xff00 \<noteq> 0) (drop_bit 8 msize) 0x20 oi;
     set_slot outsize (fst oi) (int (length out)) (snd oi)}"

definition delta_copy :: "git_delta_index \<Rightarrow> byte list \<Rightarrow> dstate \<Rightarrow> dstate option" where
  "delta_copy index trg s = do {
     (out, pos, moff, msize) \<leftarrow>
       (if d_inscnt s \<noteq> 0 then do {
          (out, inscnt, pos, moff, msize) \<leftarrow>
            delta_back (src_buf index) trg (d_out s) (d_inscnt s) (d_pos s) (d_moff s) (d_msize s);
          out' \<leftarrow> set_slot (d_outsize s) out (int (length out) - inscnt - 1) (word_of_int inscnt);
          Some (out', pos, moff, msize)}
        else Some (d_out s, d_pos s, d_moff s, d_msize s));
     (let left = (if msize < 0x10000 then 0 else msize - 0x10000); m = msize - left in do {
        out' \<leftarrow> put_copy (d_outsize s) out (word_of_nat moff) (word_of_nat m);
        val \<leftarrow> (if left < 4096 then
                  (if pos + m < rabin_window then None
                   else do { win \<leftarrow> rd_blk trg (pos + m - rabin_window) rabin_window; rabin_fold 0 win })
                else Some (d_val s));
        Some (s\<lparr>d_out := out', d_inscnt := 0, d_pos := pos + m,
                d_moff := u32w (moff + m), d_msize := left, d_val := val\<rparr>)})}"

text \<open>
  Growing the output at the end of the loop body: Inl is the break of the size limit (Inl True)
  or the failed realloc (Inl False).
\<close>

definition delta_grow :: "alloc \<Rightarrow> nat \<Rightarrow> dstate \<Rightarrow> (bool \<times> dstate) + dstate" where
  "delta_grow ok max_size s =
     (if u32w (d_outsize s + 2 ^ 32 - max_op_size) \<le> length (d_out s) then
        let sz1 = u32w (d_outsize s * 3) div 2;
            sz2 = (if max_size \<noteq> 0 \<and> max_size \<le> sz1 then u32w (max_size + max_op_size + 1) else sz1)
        in if max_size \<noteq> 0 \<and> max_size < length (d_out s) then Inl (True, s\<lparr>d_outsize := sz2\<rparr>)
           else if \<not> ok sz2 then Inl (False, s)
           else Inr (s\<lparr>d_outsize := sz2\<rparr>)
      else Inr s)"

definition delta_step :: "git_delta_index \<Rightarrow> byte list \<Rightarrow> dstate \<Rightarrow> dstate option" where
  "delta_step index trg s = do {
     s1 \<leftarrow> delta_find index trg s;
     (if d_msize s1 < 4 then delta_insert trg s1 else delta_copy index trg s1)}"

text \<open>The loop; Inl is a failed allocation.\<close>

partial_function (option) delta_loop ::
  "alloc \<Rightarrow> git_delta_index \<Rightarrow> byte list \<Rightarrow> nat \<Rightarrow> dstate \<Rightarrow> (unit + dstate) option" where
  "delta_loop ok index trg max_size s =
     (if d_pos s < length trg then
        Option.bind (delta_step index trg s) (\<lambda>s1.
          case delta_grow ok max_size s1 of
            Inl (True, s2) \<Rightarrow> Some (Inr s2)
          | Inl (False, s2) \<Rightarrow> Some (Inl ())
          | Inr s2 \<Rightarrow> delta_loop ok index trg max_size s2)
      else Some (Inr s))"

declare delta_loop.simps [code]

text \<open>
  The part before the loop, with the initial output size as a parameter, then the function.
\<close>

definition delta_outsize0 :: "nat \<Rightarrow> nat" where
  "delta_outsize0 max_size =
     (if max_size \<noteq> 0 \<and> max_size \<le> 8192 then u32w (max_size + max_op_size + 1) else 8192)"

definition delta_start :: "git_delta_index \<Rightarrow> byte list \<Rightarrow> nat \<Rightarrow> dstate option" where
  "delta_start index trg outsize = do {
     out1 \<leftarrow> put_size outsize [] (u32w (length (src_buf index)));
     out2 \<leftarrow> put_size outsize out1 (u32w (length trg));
     out3 \<leftarrow> put outsize out2 0;
     (out4, val) \<leftarrow> put_window outsize out3 0 (take rabin_window trg);
     Some \<lparr>d_out = out4, d_outsize = outsize, d_inscnt = int (length (take rabin_window trg)),
           d_pos = length (take rabin_window trg), d_moff = 0, d_msize = 0, d_val = val\<rparr>}"

definition git_delta_create ::
  "alloc \<Rightarrow> git_delta_index \<Rightarrow> byte list \<Rightarrow> nat \<Rightarrow> byte list option option" where
  "git_delta_create ok index trg max_size =
     (if trg = [] then Some None
      else if \<not> ok (delta_outsize0 max_size) then Some None
      else do {
        s0 \<leftarrow> delta_start index trg (delta_outsize0 max_size);
        r \<leftarrow> delta_loop ok index trg max_size s0;
        (case r of
           Inl _ \<Rightarrow> Some None
         | Inr s \<Rightarrow> do {
             out \<leftarrow> (if d_inscnt s \<noteq> 0
                     then set_slot (d_outsize s) (d_out s)
                            (int (length (d_out s)) - d_inscnt s - 1) (word_of_int (d_inscnt s))
                     else Some (d_out s));
             (if max_size \<noteq> 0 \<and> max_size < length out then Some None else Some (Some out))})})"

definition git_delta ::
  "alloc \<Rightarrow> byte list \<Rightarrow> byte list \<Rightarrow> nat \<Rightarrow> byte list option option" where
  "git_delta ok src trg max_size = do {
     ix \<leftarrow> git_delta_create_index ok src;
     (case ix of None \<Rightarrow> Some None | Some index \<Rightarrow> git_delta_create ok index trg max_size)}"

end
