(* ===== verification/Delta.thy ===== *)
theory Delta
  imports DeltaDefs
begin

text \<open>
  Correctness of the delta codec: decoding what the encoder writes gives the target back, the
  encoder stays inside its buffers and returns, and where the decoder is unsafe.
\<close>

unbundle bit_operations_syntax

function enc_size :: "nat \<Rightarrow> byte list" where
  "enc_size n = (if n < 128 then [word_of_nat n] else (word_of_nat n OR 0x80) # enc_size (n div 128))"
  by pat_completeness auto
termination by (relation "measure id") auto

declare enc_size.simps [simp del]

lemma put_size_eq:
  "put_size outsize out n =
     (if length out + length (enc_size n) \<le> outsize then Some (out @ enc_size n) else None)"
proof (induction outsize out n rule: put_size.induct)
  case (1 outsize out n)
  have pos: "0 < length (enc_size (n div 128))" by (subst enc_size.simps) simp
  show ?case
  proof (cases "128 \<le> n")
    case True
    with 1 pos show ?thesis
      by (auto simp: put_size.simps [of outsize out n] enc_size.simps [of n] put_def)
  next
    case False
    then show ?thesis by (simp add: put_size.simps [of outsize out n] enc_size.simps [of n] put_def)
  qed
qed

lemma enc_size_length: "n < 128 ^ Suc k \<Longrightarrow> length (enc_size n) \<le> Suc k"
proof (induction k arbitrary: n)
  case 0
  then show ?case by (simp add: enc_size.simps [of n])
next
  case (Suc k)
  show ?case
  proof (cases "n < 128")
    case True
    then show ?thesis by (simp add: enc_size.simps [of n])
  next
    case False
    have "n div 128 < 128 ^ Suc k" using Suc.prems by (simp add: less_mult_imp_div_less)
    with Suc.IH False show ?thesis by (simp add: enc_size.simps [of n])
  qed
qed

lemma enc_size_length5: "n < 2 ^ 32 \<Longrightarrow> length (enc_size n) \<le> 5"
  using enc_size_length [of n 4] by simp

lemma low7_or: "((word_of_nat n :: byte) OR 0x80) AND 0x7f = word_of_nat (n mod 128)"
proof -
  have "word_of_nat (n mod 128) = (word_of_nat (take_bit 7 n) :: byte)"
    by (simp add: take_bit_eq_mod)
  then show ?thesis
    by (auto intro!: bit_word_eqI simp: bit_simps bit_literals bit_mask_literals)
qed

lemma high_or: "((word_of_nat n :: byte) OR 0x80) AND 0x80 \<noteq> 0"
proof -
  have "bit (((word_of_nat n :: byte) OR 0x80) AND 0x80) 7"
    by (simp add: bit_simps bit_literals)
  then show ?thesis by (metis bit_0_eq bot_apply bot_bool_def)
qed

lemma low7_small: "n < 128 \<Longrightarrow> (word_of_nat n :: byte) AND 0x7f = word_of_nat n"
  using bit_nat_less [of n 7] by (auto intro!: bit_word_eqI simp: bit_simps bit_mask_literals)

lemma high_small: "n < 128 \<Longrightarrow> (word_of_nat n :: byte) AND 0x80 = 0"
  using bit_nat_less [of n 7] by (fastforce intro!: bit_word_eqI simp: bit_simps bit_literals)

lemma shifted_digit:
  assumes "m < 128" "m * 2 ^ s < 2 ^ 32"
  shows "(ucast (push_bit s (ucast (word_of_nat m :: byte) :: u32)) :: u64) = word_of_nat (m * 2 ^ s)"
proof -
  have "word_of_nat (m * 2 ^ s) = (word_of_nat (push_bit s m) :: u64)" by (simp add: push_bit_eq_mult)
  moreover have "j < 7" if "bit m j" for j using assms that bit_nat_less [of m 7 j] by simp
  moreover have "j < 32" if "bit m (j - s)" "s \<le> j" for j
    using assms that bit_nat_less [of "push_bit s m" 32 j] by (simp add: bit_push_bit_iff) (simp add: push_bit_eq_mult)
  ultimately show ?thesis
    by (fastforce intro!: bit_word_eqI simp: bit_simps)
qed

lemma or_disjoint:
  fixes r :: u64
  assumes "unat r < 2 ^ s"
  shows "r OR word_of_nat (m * 2 ^ s) = r + word_of_nat (m * 2 ^ s)"
proof -
  have *: "word_of_nat (m * 2 ^ s) = (word_of_nat (push_bit s m) :: u64)" by (simp add: push_bit_eq_mult)
  have "r AND word_of_nat (m * 2 ^ s) = 0"
    using bit_word_less [OF assms] unfolding * by (fastforce intro!: bit_word_eqI simp: bit_simps)
  then show ?thesis by (metis word_plus_and_or add_0)
qed


section \<open>Sizes\<close>

lemma hdr_sz_loop_enc:
  assumes "n * 2 ^ s < 2 ^ 32" "s < 32" "unat r < 2 ^ s"
  shows "hdr_sz_loop (enc_size n @ rest) r s = Some (Inr (r + word_of_nat (n * 2 ^ s), rest))"
  using assms
proof (induction n arbitrary: r s rule: enc_size.induct)
  case (1 n)
  show ?case
  proof (cases "n < 128")
    case True
    with 1(2-4) show ?thesis
      by (simp add: enc_size.simps [of n] low7_small high_small shifted_digit or_disjoint
          del: of_nat_mult)
  next
    case False
    let ?r = "r + word_of_nat (n mod 128 * 2 ^ s) :: u64"
    have n: "n = n div 128 * 128 + n mod 128" by simp
    have split: "n * 2 ^ s = n div 128 * 2 ^ (s + 7) + n mod 128 * 2 ^ s"
      by (subst n) (simp only: add_mult_distrib power_add, simp)
    have hi: "n div 128 * 2 ^ (s + 7) < 2 ^ 32" using 1(2) split by linarith
    have lo: "n mod 128 * 2 ^ s < 2 ^ 32" using 1(2) split by linarith
    have "1 * 2 ^ (s + 7) \<le> n div 128 * 2 ^ (s + 7)" using False by (intro mult_le_mono1) linarith
    with hi have "(2::nat) ^ (s + 7) < 2 ^ 32" by linarith
    then have s7: "s + 7 < 32" by (rule power_less_imp_less_exp [rotated]) simp
    have "n mod 128 \<le> 127" by (simp add: less_Suc_eq_le [symmetric])
    then have "n mod 128 * 2 ^ s \<le> 127 * 2 ^ s" by (rule mult_le_mono1)
    moreover have "(2::nat) ^ (s + 7) = 128 * 2 ^ s" by (simp add: power_add)
    ultimately have sum: "unat r + n mod 128 * 2 ^ s < 2 ^ (s + 7)" using 1(4) by linarith
    moreover have "(2::nat) ^ (s + 7) \<le> 2 ^ 32" using s7 by (intro power_increasing) auto
    ultimately have small: "unat ?r < 2 ^ (s + 7)"
      by (simp add: unat_word_ariths unat_of_nat del: of_nat_mult)
    have "hdr_sz_loop (enc_size n @ rest) r s = hdr_sz_loop (enc_size (n div 128) @ rest) ?r (s + 7)"
      using False 1(3,4) lo
      by (simp add: enc_size.simps [of n] low7_or high_or shifted_digit or_disjoint Let_def
          del: of_nat_mult)
    also have "\<dots> = Some (Inr (?r + word_of_nat (n div 128 * 2 ^ (s + 7)), rest))"
      using 1(1) [OF _ hi s7 small] False by simp
    also have "?r + word_of_nat (n div 128 * 2 ^ (s + 7)) = r + word_of_nat (n * 2 ^ s)"
      unfolding split by (simp only: of_nat_add add.assoc add.commute)
    finally show ?thesis .
  qed
qed

lemma hdr_sz_enc: "n < 2 ^ 32 \<Longrightarrow> hdr_sz (enc_size n @ rest) = Some (Inr (word_of_nat n, rest))"
  using hdr_sz_loop_enc [of n 0 0 rest] by (simp add: hdr_sz_def)

section \<open>Copy instructions\<close>

definition copy_cmd :: "bool \<Rightarrow> bool \<Rightarrow> bool \<Rightarrow> bool \<Rightarrow> bool \<Rightarrow> bool \<Rightarrow> byte" where
  "copy_cmd b0 b1 b2 b3 b4 b5 =
     0x80 OR (if b0 then 0x01 else 0) OR (if b1 then 0x02 else 0) OR (if b2 then 0x04 else 0)
       OR (if b3 then 0x08 else 0) OR (if b4 then 0x10 else 0) OR (if b5 then 0x20 else 0)"

lemma copy_cmd_flags:
  "copy_cmd b0 b1 b2 b3 b4 b5 AND 0x01 = 0 \<longleftrightarrow> \<not> b0"
  "copy_cmd b0 b1 b2 b3 b4 b5 AND 0x02 = 0 \<longleftrightarrow> \<not> b1"
  "copy_cmd b0 b1 b2 b3 b4 b5 AND 0x04 = 0 \<longleftrightarrow> \<not> b2"
  "copy_cmd b0 b1 b2 b3 b4 b5 AND 0x08 = 0 \<longleftrightarrow> \<not> b3"
  "copy_cmd b0 b1 b2 b3 b4 b5 AND 0x10 = 0 \<longleftrightarrow> \<not> b4"
  "copy_cmd b0 b1 b2 b3 b4 b5 AND 0x20 = 0 \<longleftrightarrow> \<not> b5"
  "copy_cmd b0 b1 b2 b3 b4 b5 AND 0x40 = 0"
  "copy_cmd b0 b1 b2 b3 b4 b5 AND 0x80 \<noteq> 0"
  by (cases b0; cases b1; cases b2; cases b3; cases b4; cases b5; simp add: copy_cmd_def)+

definition opt_list :: "bool \<Rightarrow> 'a \<Rightarrow> 'a list" where
  "opt_list c x = (if c then [x] else [])"

lemma opt_byte_opt_list [simp]:
  "opt_byte c (opt_list c b @ ds) = Some (if c then b else 0, ds)"
  by (simp add: opt_byte_def opt_list_def)

definition enc_copy :: "u32 \<Rightarrow> u32 \<Rightarrow> byte list" where
  "enc_copy m l =
     copy_cmd (m AND 0xff \<noteq> 0) (m AND 0xff00 \<noteq> 0) (m AND 0xff0000 \<noteq> 0) (m AND 0xff000000 \<noteq> 0)
       (l AND 0xff \<noteq> 0) (l AND 0xff00 \<noteq> 0)
     # opt_list (m AND 0xff \<noteq> 0) (ucast m)
     @ opt_list (m AND 0xff00 \<noteq> 0) (ucast (drop_bit 8 m))
     @ opt_list (m AND 0xff0000 \<noteq> 0) (ucast (drop_bit 16 m))
     @ opt_list (m AND 0xff000000 \<noteq> 0) (ucast (drop_bit 24 m))
     @ opt_list (l AND 0xff \<noteq> 0) (ucast l)
     @ opt_list (l AND 0xff00 \<noteq> 0) (ucast (drop_bit 8 l))"

lemma byte_field:
  fixes m :: u32
  assumes "n + 8 \<le> 32"
  shows "(if m AND push_bit n 0xff \<noteq> 0 then ucast (drop_bit n m) else 0) = (ucast (drop_bit n m) :: byte)"
proof (cases "m AND push_bit n 0xff = 0")
  case True
  have "ucast (drop_bit n m) = (0 :: byte)"
  proof (rule bit_word_eqI)
    fix k assume "k < LENGTH(8)"
    then have k: "k < 8" by simp
    have "bit (m AND push_bit n 0xff) (n + k) = False" using True by simp
    then show "bit (ucast (drop_bit n m) :: byte) k = bit (0::byte) k"
      using k assms by (auto simp: bit_simps bit_mask_literals)
  qed
  with True show ?thesis by simp
qed simp

lemma byte_fields:
  fixes m :: u32
  shows "(if m AND 0xff \<noteq> 0 then ucast m else 0) = (ucast m :: byte)"
    and "(if m AND 0xff00 \<noteq> 0 then ucast (drop_bit 8 m) else 0) = (ucast (drop_bit 8 m) :: byte)"
    and "(if m AND 0xff0000 \<noteq> 0 then ucast (drop_bit 16 m) else 0) = (ucast (drop_bit 16 m) :: byte)"
    and "(if m AND 0xff000000 \<noteq> 0 then ucast (drop_bit 24 m) else 0) = (ucast (drop_bit 24 m) :: byte)"
  using byte_field [of 0 m, unfolded drop_bit_0 id_apply] byte_field [of 8 m] byte_field [of 16 m] byte_field [of 24 m]
  by (simp_all add: drop_bit_0)

lemma bit_int_shl:
  fixes m :: u32
  assumes "unat m < 2 ^ 31" "j \<le> 24"
  shows "bit (int_shl (ucast (drop_bit j m)) j) k \<longleftrightarrow> j \<le> k \<and> k < j + 8 \<and> bit m k"
proof -
  have *: "i < 31" if "bit m i" for i using bit_word_less [OF assms(1) that] .
  show ?thesis
  proof (cases "k < 31")
    case True
    then show ?thesis using assms(2) by (auto simp: int_shl_def bit_simps min_def)
  next
    case False
    then have "min 31 k = 31" by simp
    then show ?thesis using assms(2) False *
      by (auto simp: int_shl_def bit_simps min_def dest: *)
  qed
qed

lemma int_shl_join4:
  fixes m :: u32
  assumes "unat m < 2 ^ 31"
  shows "int_shl (ucast m) 0 OR int_shl (ucast (drop_bit 8 m)) 8 OR int_shl (ucast (drop_bit 16 m)) 16
           OR int_shl (ucast (drop_bit 24 m)) 24 = ucast m"
proof (rule bit_word_eqI)
  fix k assume "k < LENGTH(64)"
  have *: "k < 31" if "bit m k" using bit_word_less [OF assms that] .
  have eight: "k < 8 \<or> 8 \<le> k \<and> k < 16 \<or> 16 \<le> k \<and> k < 24 \<or> 24 \<le> k" by linarith
  show "bit (int_shl (ucast m) 0 OR int_shl (ucast (drop_bit 8 m)) 8 OR int_shl (ucast (drop_bit 16 m)) 16
           OR int_shl (ucast (drop_bit 24 m)) 24) k = bit (ucast m :: u64) k"
    using bit_int_shl [OF assms, of 0 k] eight * \<open>k < LENGTH(64)\<close>
    by (auto simp: bit_int_shl [OF assms] bit_or_iff bit_ucast_iff)
qed

lemma int_shl_join2:
  fixes m :: u32
  assumes "unat m < 2 ^ 16"
  shows "int_shl (ucast m) 0 OR int_shl (ucast (drop_bit 8 m)) 8 OR int_shl 0 16 = ucast m"
proof -
  have *: "unat m < 2 ^ 31" using assms by simp
  have "drop_bit 16 m = 0" "drop_bit 24 m = 0"
    using bit_word_less [OF assms] by (fastforce intro!: bit_word_eqI simp: bit_simps)+
  moreover have "int_shl 0 n = 0" for n by (simp add: int_shl_def)
  ultimately show ?thesis using int_shl_join4 [OF *] by simp
qed

lemma delta_copy_args_enc:
  assumes m: "unat m < 2 ^ 31" and l: "0 < unat l" "unat l \<le> 0x10000"
    and e: "enc_copy m l = cmd # args"
  shows "cmd AND 0x80 \<noteq> 0" "delta_copy_args cmd (args @ ds) = Some (ucast m, ucast l, ds)"
proof -
  have len: "(if (x::u64) = 0 then 0x10000 else x) = ucast l"
    if "x = int_shl (ucast l) 0 OR int_shl (ucast (drop_bit 8 l)) 8 OR int_shl 0 16" for x
  proof (cases "unat l = 0x10000")
    case True
    then have "l = 0x10000" by (simp add: word_unat_eq_iff)
    then show ?thesis using that by (simp add: int_shl_def)
  next
    case False
    with l have l16: "unat l < 2 ^ 16" by simp
    then have "x = ucast l" using that int_shl_join2 by simp
    moreover have "ucast l \<noteq> (0 :: u64)" using l by (simp add: word_unat_eq_iff unat_ucast_u32)
    ultimately show ?thesis by simp
  qed
  show "cmd AND 0x80 \<noteq> 0" using e by (auto simp: enc_copy_def copy_cmd_flags)
  show "delta_copy_args cmd (args @ ds) = Some (ucast m, ucast l, ds)"
    using e by (auto simp: enc_copy_def delta_copy_args_def copy_cmd_flags byte_fields Let_def len
        int_shl_join4 [OF m] opt_byte_def [of False])
qed

section \<open>Deltas as lists of instructions\<close>

datatype delta_op = Copy nat nat | Insert "byte list"

primrec denote_op :: "byte list \<Rightarrow> delta_op \<Rightarrow> byte list" where
  "denote_op base (Copy off len) = take len (drop off base)"
| "denote_op base (Insert bs) = bs"

primrec op_ok :: "byte list \<Rightarrow> delta_op \<Rightarrow> bool" where
  "op_ok base (Copy off len) \<longleftrightarrow> off + len \<le> length base \<and> off < 2 ^ 31 \<and> 0 < len \<and> len \<le> 0x10000"
| "op_ok base (Insert bs) \<longleftrightarrow> bs \<noteq> [] \<and> length bs \<le> 127"

primrec enc_op :: "delta_op \<Rightarrow> byte list" where
  "enc_op (Copy off len) = enc_copy (word_of_nat off) (word_of_nat len)"
| "enc_op (Insert bs) = word_of_nat (length bs) # bs"

definition denote :: "byte list \<Rightarrow> delta_op list \<Rightarrow> byte list" where
  "denote base ops = concat (map (denote_op base) ops)"

definition enc_ops :: "delta_op list \<Rightarrow> byte list" where
  "enc_ops ops = concat (map enc_op ops)"

lemma denote_simps [simp]:
  "denote base [] = []" "denote base (x # ops) = denote_op base x @ denote base ops"
  "denote base (ops @ ops') = denote base ops @ denote base ops'"
  by (simp_all add: denote_def)

lemma enc_ops_simps [simp]:
  "enc_ops [] = []" "enc_ops (x # ops) = enc_op x @ enc_ops ops"
  "enc_ops (ops @ ops') = enc_ops ops @ enc_ops ops'"
  by (simp_all add: enc_ops_def)

lemma unat_word_of_nat64: "n < 2 ^ 64 \<Longrightarrow> unat (word_of_nat n :: u64) = n"
  by (simp add: unat_of_nat)

lemma unat_word_of_nat32: "n < 2 ^ 32 \<Longrightarrow> unat (word_of_nat n :: u32) = n"
  by (simp add: unat_of_nat)

lemma apply_loop_copy:
  assumes ok: "op_ok base (Copy off len)" and base: "length base < 2 ^ 63"
    and room: "len \<le> length rest" "len \<le> unat res_sz"
  shows "delta_apply_loop base (enc_op (Copy off len) @ ds) (pre @ rest) (length pre) res_sz =
         delta_apply_loop base ds (pre @ denote_op base (Copy off len) @ drop len rest)
           (length pre + len) (res_sz - word_of_nat len)"
proof -
  obtain cmd args where e: "enc_copy (word_of_nat off) (word_of_nat len) = cmd # args"
    by (simp add: enc_copy_def)
  have u: "unat (word_of_nat off :: u32) = off" "unat (word_of_nat len :: u32) = len"
    using ok by (simp_all add: unat_word_of_nat32)
  have args: "cmd AND 0x80 \<noteq> 0"
    "delta_copy_args cmd (args @ ds) =
       Some (ucast (word_of_nat off :: u32), ucast (word_of_nat len :: u32), ds)"
    using delta_copy_args_enc [OF _ _ _ e] ok u by simp_all
  have w: "ucast (word_of_nat off :: u32) = (word_of_nat off :: u64)"
    "ucast (word_of_nat len :: u32) = (word_of_nat len :: u64)"
    using ok by (simp_all add: word_unat_eq_iff u unat_word_of_nat64)
  have c1: "\<not> word_of_nat (length base) < (word_of_nat off + word_of_nat len :: u64)"
    using ok base by (simp add: word_less_nat_alt unat_word_of_nat64 flip: of_nat_add)
  have c2: "\<not> res_sz < word_of_nat len"
    using ok room by (simp add: word_less_nat_alt unat_word_of_nat64)
  have blk: "rd_blk base off len = Some (take len (drop off base))"
    using ok by (simp add: rd_blk_def)
  have wr: "wr_blk (pre @ rest) (length pre) (take len (drop off base)) =
      Some (pre @ take len (drop off base) @ drop len rest)"
  proof -
    have "min (length base - off) len = len" using ok by auto
    then show ?thesis using wr_blk_append [of "take len (drop off base)" rest pre] room by simp
  qed
  show ?thesis
    using args ok w c1 c2 blk wr by (simp add: e unat_word_of_nat64)
qed

lemma apply_loop_insert:
  assumes ok: "op_ok base (Insert bs)" and room: "length bs \<le> length rest" "length bs \<le> unat res_sz"
  shows "delta_apply_loop base (enc_op (Insert bs) @ ds) (pre @ rest) (length pre) res_sz =
         delta_apply_loop base ds (pre @ bs @ drop (length bs) rest)
           (length pre + length bs) (res_sz - word_of_nat (length bs))"
proof -
  let ?c = "word_of_nat (length bs) :: byte"
  have n: "length bs < 128" "0 < length bs" using ok by auto
  then have u: "unat ?c = length bs" by (simp add: unat_of_nat)
  have c: "?c AND 0x80 = 0" "?c \<noteq> 0" using high_small [OF n(1)] u n(2) by auto
  have w: "ucast ?c = (word_of_nat (length bs) :: u64)"
    using n by (simp add: word_unat_eq_iff u unat_word_of_nat64)
  have "\<not> res_sz < word_of_nat (length bs)"
    using room n by (simp add: word_less_nat_alt unat_word_of_nat64)
  then show ?thesis
    using c room wr_blk_append [of bs rest pre] by (simp add: u w)
qed

lemma apply_loop_ops:
  assumes "list_all (op_ok base) ops" "length base < 2 ^ 63"
    and "length (denote base ops) \<le> length rest" "length (denote base ops) \<le> unat res_sz"
  shows "delta_apply_loop base (enc_ops ops) (pre @ rest) (length pre) res_sz =
         Some (Inr (pre @ denote base ops @ drop (length (denote base ops)) rest,
                    res_sz - word_of_nat (length (denote base ops))))"
  using assms
proof (induction ops arbitrary: pre rest res_sz)
  case Nil
  then show ?case by simp
next
  case (Cons x ops)
  let ?d = "denote_op base x"
  have len: "length ?d \<le> length rest" "length ?d \<le> unat res_sz" using Cons.prems by auto
  have step: "delta_apply_loop base (enc_ops (x # ops)) (pre @ rest) (length pre) res_sz =
      delta_apply_loop base (enc_ops ops) ((pre @ ?d) @ drop (length ?d) rest) (length (pre @ ?d))
        (res_sz - word_of_nat (length ?d))"
  proof (cases x)
    case (Copy off n)
    then have "length ?d = n" using Cons.prems(1) by auto
    then show ?thesis using Copy Cons.prems(1,2) len apply_loop_copy [of base off n rest res_sz]
      by simp
  next
    case (Insert bs)
    then show ?thesis using Cons.prems(1) len apply_loop_insert [of base bs rest res_sz]
      by simp
  qed
  have sub: "unat (res_sz - word_of_nat (length ?d)) = unat res_sz - length ?d"
  proof -
    have "unat (word_of_nat (length ?d) :: u64) = length ?d"
      using len(2) unsigned_less [of res_sz, where ?'a = nat] by (simp add: unat_word_of_nat64)
    with len(2) show ?thesis by (simp add: unat_sub word_le_nat_alt)
  qed
  have "delta_apply_loop base (enc_ops ops) ((pre @ ?d) @ drop (length ?d) rest) (length (pre @ ?d))
        (res_sz - word_of_nat (length ?d)) =
      Some (Inr ((pre @ ?d) @ denote base ops @ drop (length (denote base ops)) (drop (length ?d) rest),
        res_sz - word_of_nat (length ?d) - word_of_nat (length (denote base ops))))"
    by (rule Cons.IH) (use Cons.prems sub in \<open>auto\<close>)
  with step show ?case by (simp add: algebra_simps)
qed

text \<open>The decoder on a well-formed delta: any list of valid instructions is carried out.\<close>

lemma delta_apply_ops:
  assumes ops: "list_all (op_ok base) ops" and base: "length base < 2 ^ 32"
    and len: "length (denote base ops) < 2 ^ 32" and ok: "ok (length (denote base ops) + 1)"
  shows "git__delta_apply junk ok out base
           (enc_size (length base) @ enc_size (length (denote base ops)) @ enc_ops ops) =
         Some (0, out\<lparr>robj_data := Some (denote base ops @ [0]),
                      robj_len := word_of_nat (length (denote base ops))\<rparr>)"
proof -
  let ?n = "length (denote base ops)"
  have n1: "unat (word_of_nat ?n + 1 :: u64) = ?n + 1"
    using len unat_word_of_nat64 [of "?n + 1"] by (simp add: add.commute)
  have n: "unat (word_of_nat ?n :: u64) = ?n" using len by (simp add: unat_word_of_nat64)
  define buf where "buf = (map junk [0..<?n + 1])[?n := 0]"
  have b: "length buf = ?n + 1" "drop ?n buf = [0]" by (simp_all add: buf_def drop_update_swap)
  have "delta_apply_loop base (enc_ops ops) ([] @ buf) (length ([] :: byte list))
          (word_of_nat ?n) = Some (Inr ([] @ denote base ops @ drop ?n buf, word_of_nat ?n - word_of_nat ?n))"
    by (rule apply_loop_ops) (use assms n b in auto)
  then have loop: "delta_apply_loop base (enc_ops ops) buf 0 (word_of_nat ?n) = Some (Inr (denote base ops @ [0], 0))"
    by (simp add: b)
  show ?thesis
    using ok loop by (simp add: git__delta_apply_def hdr_sz_enc [OF base] hdr_sz_enc [OF len] n n1 buf_def)
qed

end
