(* ===== verification/DeltaIndex.thy ===== *)
theory DeltaIndex
  imports DeltaDefs
begin

text \<open>
  The index of delta.c: the fingerprints stay inside the tables T and U, building the index
  touches only the buffer, and every entry of the finished index points into it.
\<close>

unbundle bit_operations_syntax

section \<open>Fingerprints stay below 2^31\<close>

lemma delta_T_length [simp]: "length delta_T = 256"
  by (simp add: delta_T_def)

lemma delta_U_length [simp]: "length delta_U = 256"
  by (simp add: delta_U_def)

lemma delta_T_list: "map (\<lambda>t. bit t 31) delta_T = map odd [0..<256]"
  by code_simp

lemma delta_U_list: "list_all (\<lambda>u. \<not> bit u 31) delta_U"
  by code_simp

lemma delta_T_bit31: "i < 256 \<Longrightarrow> bit (delta_T ! i) 31 \<longleftrightarrow> odd i"
  using arg_cong [OF delta_T_list, of "\<lambda>xs. xs ! i"] by simp

lemma delta_U_bit31: "i < 256 \<Longrightarrow> \<not> bit (delta_U ! i) 31"
  using delta_U_list by (auto simp: list_all_length)

text \<open>A word is below 2^31 exactly when its top bit is clear.\<close>

lemma below_31: "unat (v :: u32) < 2 ^ 31 \<longleftrightarrow> \<not> bit v 31"
proof
  show "unat v < 2 ^ 31 \<Longrightarrow> \<not> bit v 31" using bit_word_less [of v 31 31] by auto
next
  assume b: "\<not> bit v 31"
  have "take_bit 31 v = v"
  proof (rule bit_word_eqI)
    fix n assume "n < LENGTH(32)"
    then have "n < 31 \<or> n = 31" by auto
    with b show "bit (take_bit 31 v) n = bit v n" by (auto simp: bit_simps)
  qed
  then have "unat v = take_bit 31 (unat v)" by (metis unsigned_take_bit_eq)
  also have "\<dots> < 2 ^ 31" by (rule take_bit_nat_less_exp)
  finally show "unat v < 2 ^ 31" .
qed

lemma rabin_step_ok:
  assumes "unat v < 2 ^ 31"
  shows "\<exists>v'. rabin_step v b = Some v' \<and> unat v' < 2 ^ 31"
proof -
  have d: "unat (drop_bit 23 v) = drop_bit 23 (unat v)"
    by (rule bit_eqI) (auto simp: bit_simps dest: bit_imp_le_length)
  have "unat v div 2 ^ 23 < 256" using assms by (intro less_mult_imp_div_less) simp
  then have i: "unat (drop_bit 23 v) < 256" unfolding d by (simp only: drop_bit_eq_div)
  have "odd (unat (drop_bit 23 v)) \<longleftrightarrow> bit v 23"
    unfolding d even_drop_bit_iff_not_bit by (simp add: bit_unsigned_iff)
  then have "\<not> bit ((push_bit 8 v OR ucast b) XOR delta_T ! unat (drop_bit 23 v)) 31"
    by (auto simp: bit_simps delta_T_bit31 [OF i] dest: bit_imp_le_length)
  with i show ?thesis unfolding below_31 by (simp add: rabin_step_def)
qed

lemma rabin_fold_ok:
  "unat v < 2 ^ 31 \<Longrightarrow> \<exists>v'. rabin_fold v bs = Some v' \<and> unat v' < 2 ^ 31"
proof (induction bs arbitrary: v)
  case (Cons b bs)
  obtain v1 where "rabin_step v b = Some v1" "unat v1 < 2 ^ 31"
    using rabin_step_ok [OF Cons.prems] by blast
  then show ?case using Cons.IH [of v1] by simp
qed simp

lemma xor_U_ok:
  assumes "unat (v :: u32) < 2 ^ 31"
  shows "unat (v XOR delta_U ! unat (b :: byte)) < 2 ^ 31"
proof -
  have "unat b < 256" using unsigned_less [of b, where ?'a = nat] by simp
  then show ?thesis using assms unfolding below_31 by (simp add: bit_xor_iff delta_U_bit31)
qed

section \<open>Building the index\<close>

lemma index_bits_bounds: "i \<le> 31 \<Longrightarrow> i \<le> index_bits h i \<and> index_bits h i \<le> 31"
proof (induction h i rule: index_bits.induct)
  case (1 h i)
  then show ?case by (subst (1 2) index_bits.simps) auto
qed

lemma index_bits_enough: "h \<le> 2 ^ 31 \<Longrightarrow> i \<le> 31 \<Longrightarrow> h \<le> 2 ^ index_bits h i"
proof (induction h i rule: index_bits.induct)
  case (1 h i)
  show ?case
  proof (cases "2 ^ i < h \<and> i < 31")
    case True
    with 1 show ?thesis by (subst index_bits.simps) simp
  next
    case False
    then have "h \<le> 2 ^ i" using "1.prems" by (cases "i < 31") auto
    with False show ?thesis by (subst index_bits.simps) simp
  qed
qed

lemma mask_below: "unat ((v :: u32) AND word_of_nat (2 ^ k - 1)) < 2 ^ k" if "k \<le> 31"
proof -
  have "(word_of_nat (2 ^ k - 1) :: u32) = mask k"
    by (simp add: mask_eq_exp_minus_1 of_nat_diff)
  then have "v AND word_of_nat (2 ^ k - 1) = take_bit k v" by (simp add: take_bit_eq_mask)
  then show ?thesis by (simp only: unsigned_take_bit_eq) (rule take_bit_nat_less_exp)
qed

definition entries_in :: "byte list \<Rightarrow> index_entry list list \<Rightarrow> bool" where
  "entries_in buf hash \<longleftrightarrow> (\<forall>chain \<in> set hash. \<forall>e \<in> set chain. ie_ptr e \<le> length buf)"

lemma entries_in_update:
  "entries_in buf hash \<Longrightarrow> (\<And>e. e \<in> set chain \<Longrightarrow> ie_ptr e \<le> length buf) \<Longrightarrow>
   entries_in buf (hash[i := chain])"
  using set_update_subset_insert [of hash i chain] unfolding entries_in_def by blast

lemma entries_in_nth: "entries_in buf hash \<Longrightarrow> i < length hash \<Longrightarrow> e \<in> set (hash ! i) \<Longrightarrow> ie_ptr e \<le> length buf"
  by (auto simp: entries_in_def)

text \<open>
  The invariant of the populating loop: the table keeps its size, and when the fingerprint
  before is a real one its bucket is not empty, so that entry[-1] is an entry of that bucket.
\<close>

definition fill_inv ::
  "byte list \<Rightarrow> nat \<Rightarrow> u32 \<Rightarrow> nat \<Rightarrow> u32 \<Rightarrow> index_entry list list \<Rightarrow> nat list \<Rightarrow> bool" where
  "fill_inv buf k hmask n pv hash cnt \<longleftrightarrow>
     k * 16 < length buf \<and> (\<forall>v. unat (v AND hmask) < length hash) \<and> length cnt = length hash \<and>
     entries_in buf hash \<and>
     (unat pv < 2 ^ 31 \<longrightarrow> 0 < n \<and> hash ! unat (pv AND hmask) \<noteq> [])"

lemma index_fill_ok:
  "fill_inv buf k hmask n pv hash cnt \<Longrightarrow>
   \<exists>hash' cnt'. index_fill buf hmask k n pv hash cnt = Some (hash', cnt') \<and>
     length hash' = length hash \<and> length cnt' = length hash \<and> entries_in buf hash'"
proof (induction k arbitrary: n pv hash cnt)
  case 0
  then show ?case by (simp add: fill_inv_def)
next
  case (Suc k)
  define win where "win = take 16 (drop (Suc (k * 16)) buf)"
  note inv = Suc.prems [unfolded fill_inv_def]
  have win: "rd_blk buf (Suc (k * 16)) 16 = Some win"
    using inv by (auto simp: rd_blk_def win_def)
  obtain v where v: "rabin_fold 0 win = Some v" "unat v < 2 ^ 31"
    using rabin_fold_ok [of 0 win] by auto
  let ?i = "unat (v AND hmask)" and ?p = "k * 16 + 16"
  have i: "?i < length hash" and c: "length cnt = length hash" and ent: "entries_in buf hash"
    and p: "?p \<le> length buf" "k * 16 < length buf" using inv by auto
  show ?case
  proof (cases "v = pv")
    case True
    then obtain e es where e: "hash ! ?i = e # es" "0 < n"
      using inv v(2) by (cases "hash ! ?i") auto
    have "entries_in buf (hash[?i := e\<lparr>ie_ptr := ?p\<rparr> # es])"
      using ent p entries_in_nth [OF ent i] e by (intro entries_in_update) auto
    then have "fill_inv buf k hmask n pv (hash[?i := e\<lparr>ie_ptr := ?p\<rparr> # es]) cnt"
      using inv True i e unfolding fill_inv_def by (auto simp: nth_list_update)
    from Suc.IH [OF this] show ?thesis
      using True win v e i by (simp add: rabin_window_def add.commute Let_def)
  next
    case False
    let ?h = "hash[?i := \<lparr>ie_ptr = ?p, ie_val = v\<rparr> # hash ! ?i]"
    have "entries_in buf ?h"
      using ent p entries_in_nth [OF ent i] by (intro entries_in_update) auto
    then have "fill_inv buf k hmask (Suc n) v ?h (cnt[?i := Suc (cnt ! ?i)])"
      using inv i unfolding fill_inv_def by (auto simp: nth_list_update)
    from Suc.IH [OF this] show ?thesis
      using False win v i c by (simp add: rabin_window_def add.commute Let_def)
  qed
qed

lemma set_cull_skip: "set (cull_skip s es) \<subseteq> set es"
proof (induction s es rule: cull_skip.induct)
  case (1 s es)
  then show ?case by (subst cull_skip.simps) (auto dest: list.set_sel(2))
qed

lemma set_cull_chain: "set (cull_chain s es) \<subseteq> set es"
proof (induction s es rule: cull_chain.induct)
  case (2 s e es)
  then show ?case using set_cull_skip [of s es] by auto
qed simp

lemma set_cull_bucket: "set (cull_bucket c es) \<subseteq> set es"
  by (simp add: cull_bucket_def set_cull_chain)

text \<open>What the encoder relies on.\<close>

definition ix_ok :: "byte list \<Rightarrow> git_delta_index \<Rightarrow> bool" where
  "ix_ok base ix \<longleftrightarrow>
     src_buf ix = base \<and> (\<forall>v. unat (v AND hash_mask ix) < length (hash_tab ix)) \<and>
     entries_in base (hash_tab ix)"

lemma index_entries_bound: "0 < n \<Longrightarrow> n < 2 ^ 32 - 1 \<Longrightarrow> index_entries n * 16 < n"
proof -
  assume n: "0 < n" "n < 2 ^ 32 - 1"
  then have "index_entries n = (n - 1) div 16"
    by (simp add: index_entries_def rabin_window_def)
  moreover have "(n - 1) div 16 * 16 \<le> n - 1" by simp
  ultimately show ?thesis using n by linarith
qed

lemma create_index_ok:
  assumes "length buf < 2 ^ 32 - 1"
  shows "\<exists>r. git_delta_create_index ok buf = Some r \<and>
    (\<forall>ix. r = Some ix \<longrightarrow> ix_ok buf ix) \<and> ((\<forall>n. ok n) \<and> buf \<noteq> [] \<longrightarrow> r \<noteq> None)"
proof (cases "buf = []")
  case True
  then show ?thesis by (simp add: git_delta_create_index_def)
next
  case False
  define ents where "ents = index_entries (length buf)"
  define bits where "bits = index_bits (ents div 4) 4"
  define hmask where "hmask = (word_of_nat (2 ^ bits - 1) :: u32)"
  have b31: "bits \<le> 31" unfolding bits_def using index_bits_bounds [of 4] by simp
  have "entries_in buf (replicate (2 ^ bits) [])" by (simp add: entries_in_def)
  moreover have "ents * 16 < length buf" using index_entries_bound [of "length buf"] assms False
    by (simp add: ents_def)
  moreover have "unat (v AND hmask) < 2 ^ bits" for v
    unfolding hmask_def using mask_below [OF b31] .
  ultimately have "fill_inv buf ents hmask 0 0xffffffff (replicate (2 ^ bits) []) (replicate (2 ^ bits) 0)"
    unfolding fill_inv_def by simp
  from index_fill_ok [OF this] obtain hash cnt where
    fill: "index_fill buf hmask ents 0 0xffffffff (replicate (2 ^ bits) []) (replicate (2 ^ bits) 0)
             = Some (hash, cnt)"
    and len: "length hash = 2 ^ bits" "length cnt = 2 ^ bits" and ent: "entries_in buf hash" by auto
  have "entries_in buf (map2 cull_bucket cnt hash)"
    using ent set_cull_bucket unfolding entries_in_def
    by (fastforce dest!: set_zip_rightD)
  then show ?thesis
    using False fill len \<open>\<And>v. unat (v AND hmask) < 2 ^ bits\<close>
    unfolding git_delta_create_index_def Let_def ents_def [symmetric] bits_def [symmetric]
      hmask_def [symmetric]
    by (auto simp: ix_ok_def)
qed

end
