(* ===== verification/DeltaEnc.thy ===== *)
theory DeltaEnc
  imports Delta DeltaIndex
begin

text \<open>
  The encoder of delta.c: the loop invariant that what has been written so far decodes to the
  part of the target already consumed, its preservation by every branch of the loop body, and
  the space the output needs.
\<close>

unbundle bit_operations_syntax

section \<open>Matches\<close>

text \<open>The best match found so far: msize bytes at moff of the reference equal those at pos of the target.\<close>

definition match_at :: "byte list \<Rightarrow> byte list \<Rightarrow> nat \<Rightarrow> nat \<Rightarrow> nat \<Rightarrow> bool" where
  "match_at ref trg pos moff msize \<longleftrightarrow>
     moff + msize \<le> length ref \<and> pos + msize \<le> length trg \<and>
     take msize (drop moff ref) = take msize (drop pos trg)"

lemma match_at_drop:
  assumes "match_at ref trg pos moff msize" "k \<le> msize"
  shows "match_at ref trg (pos + k) (moff + k) (msize - k)"
proof -
  have "take (msize - k) (drop k (drop moff ref)) = take (msize - k) (drop k (drop pos trg))"
    using assms by (metis drop_take match_at_def)
  then show ?thesis using assms by (simp add: match_at_def add.commute)
qed

lemma match_at_take:
  assumes "match_at ref trg pos moff msize" "k \<le> msize"
  shows "match_at ref trg pos moff k"
proof -
  have "take k (take msize (drop moff ref)) = take k (take msize (drop pos trg))"
    using assms by (simp add: match_at_def)
  then show ?thesis using assms by (simp add: match_at_def min_absorb1)
qed

lemma match_at_extend:
  assumes "match_at ref trg pos (Suc moff) msize" "0 < pos" "ref ! moff = trg ! (pos - 1)"
  shows "match_at ref trg (pos - 1) moff (Suc msize)"
proof -
  have lt: "moff < length ref" "pos - 1 < length trg" using assms by (auto simp: match_at_def)
  have "drop moff ref = ref ! moff # drop (Suc moff) ref"
    "drop (pos - 1) trg = trg ! (pos - 1) # drop pos trg"
    using Cons_nth_drop_Suc [OF lt(1)] Cons_nth_drop_Suc [OF lt(2)] assms(2) by simp_all
  with assms show ?thesis by (auto simp: match_at_def)
qed

lemma match_len_ok:
  "r + n \<le> length ref \<Longrightarrow> s + n \<le> length trg \<Longrightarrow>
   \<exists>m. match_len ref r trg s n = Some m \<and> m \<le> n \<and> match_at ref trg s r m"
proof (induction n arbitrary: r s)
  case 0
  then show ?case by (simp add: match_at_def)
next
  case (Suc n)
  obtain m where m: "match_len ref (Suc r) trg (Suc s) n = Some m" "m \<le> n"
    "match_at ref trg (Suc s) (Suc r) m"
    using Suc.IH [of "Suc r" "Suc s"] Suc.prems by auto
  show ?case
  proof (cases "trg ! s = ref ! r")
    case True
    then have "match_at ref trg s r (Suc m)"
      using match_at_extend [OF m(3)] by simp
    with m True Suc.prems show ?thesis by simp
  next
    case False
    with Suc.prems show ?thesis by (simp add: match_at_def)
  qed
qed

lemma delta_search_ok:
  assumes "length ref < 2 ^ 32" "length trg < 2 ^ 32" "pos \<le> length trg"
  shows "\<forall>e \<in> set chain. ie_ptr e \<le> length ref \<Longrightarrow> match_at ref trg pos moff msize \<Longrightarrow>
    \<exists>msize' moff'. delta_search ref trg pos val chain msize moff = Some (msize', moff') \<and>
      match_at ref trg pos moff' msize'"
proof (induction chain arbitrary: msize moff)
  case Nil
  then show ?case by simp
next
  case (Cons e es)
  have p: "ie_ptr e \<le> length ref" and es: "\<forall>e \<in> set es. ie_ptr e \<le> length ref"
    using Cons.prems by auto
  note IH = Cons.IH [OF es]
  let ?n = "min (length ref - ie_ptr e) (length trg - pos)"
  have w: "u32w (length ref - ie_ptr e) = length ref - ie_ptr e"
    "u32w (length trg - pos) = length trg - pos" using assms by simp_all
  have n: "ie_ptr e + ?n \<le> length ref" "pos + ?n \<le> length trg" using p assms(3) by linarith+
  obtain m where m: "match_len ref (ie_ptr e) trg pos ?n = Some m" "m \<le> ?n"
    "match_at ref trg pos (ie_ptr e) m"
    using match_len_ok [OF n] by blast
  have wm: "u32w m = m" "u32w (ie_ptr e) = ie_ptr e"
    using m(2) p assms by (auto intro!: u32w_id elim: order_le_less_trans [rotated])
  show ?case
    using IH [OF m(3)] IH [OF Cons.prems(2)] m p Cons.prems(2)
    by (simp add: w wm Let_def del: u32w_id)
qed

section \<open>The invariant of the encoder loop\<close>

text \<open>
  What has been written decodes to the target up to pos: a header, complete instructions, and
  the run of literals that still waits for its count.
\<close>

definition pending :: "byte \<Rightarrow> byte list \<Rightarrow> byte list" where
  "pending slot lits = (if lits = [] then [] else slot # lits)"

definition enc_inv ::
  "byte list \<Rightarrow> byte list \<Rightarrow> byte list \<Rightarrow> dstate \<Rightarrow> delta_op list \<Rightarrow> byte list \<Rightarrow> bool" where
  "enc_inv base trg hdr s ops lits \<longleftrightarrow>
     list_all (op_ok base) ops \<and> (\<exists>slot. d_out s = hdr @ enc_ops ops @ pending slot lits) \<and>
     d_inscnt s = int (length lits) \<and> length lits < 127 \<and>
     denote base ops @ lits = take (d_pos s) trg \<and> (d_pos s = length trg \<or> 16 \<le> d_pos s) \<and>
     match_at base trg (d_pos s) (d_moff s) (d_msize s) \<and> unat (d_val s) < 2 ^ 31 \<and>
     length (enc_ops ops) \<le> 2 * length (denote base ops)"

lemma enc_inv_pos: "enc_inv base trg hdr s ops lits \<Longrightarrow> d_pos s \<le> length trg"
  by (auto simp: enc_inv_def match_at_def)

lemma enc_inv_length:
  "enc_inv base trg hdr s ops lits \<Longrightarrow> length (d_out s) \<le> length hdr + 2 * d_pos s"
proof -
  assume inv: "enc_inv base trg hdr s ops lits"
  then have len: "length (denote base ops @ lits) = d_pos s"
    using enc_inv_pos [OF inv] by (simp add: enc_inv_def)
  from inv obtain slot where "d_out s = hdr @ enc_ops ops @ pending slot lits"
    "length (enc_ops ops) \<le> 2 * length (denote base ops)" by (auto simp: enc_inv_def)
  moreover have "length (pending slot lits) \<le> 2 * length lits"
    by (cases lits) (auto simp: pending_def)
  ultimately show ?thesis using len by simp
qed

lemma delta_find_ok:
  assumes inv: "enc_inv base trg hdr s ops lits" and lt: "d_pos s < length trg"
    and ix: "ix_ok base index" and len: "length base < 2 ^ 32" "length trg < 2 ^ 32"
  shows "\<exists>s1. delta_find index trg s = Some s1 \<and> enc_inv base trg hdr s1 ops lits \<and>
    d_out s1 = d_out s \<and> d_outsize s1 = d_outsize s \<and> d_pos s1 = d_pos s"
proof (cases "d_msize s < 4096")
  case False
  with inv show ?thesis by (simp add: delta_find_def)
next
  case True
  have p16: "16 \<le> d_pos s" and v: "unat (d_val s) < 2 ^ 31"
    and m: "match_at base trg (d_pos s) (d_moff s) (d_msize s)"
    using inv lt by (auto simp: enc_inv_def)
  let ?old = "trg ! (d_pos s - 16)"
  have ui: "unat ?old < 256" using unsigned_less [of ?old, where ?'a = nat] by simp
  obtain val where val: "rabin_step (d_val s XOR delta_U ! unat ?old) (trg ! d_pos s) = Some val"
    "unat val < 2 ^ 31" using rabin_step_ok [OF xor_U_ok [OF v]] by blast
  let ?i = "unat (val AND hash_mask index)"
  have i: "?i < length (hash_tab index)" and src: "src_buf index = base"
    and ent: "\<forall>e \<in> set (hash_tab index ! ?i). ie_ptr e \<le> length base"
    using ix entries_in_nth unfolding ix_ok_def by blast+
  obtain ms mo where "delta_search base trg (d_pos s) val (hash_tab index ! ?i) (d_msize s) (d_moff s)
      = Some (ms, mo)" "match_at base trg (d_pos s) mo ms"
    using delta_search_ok [OF len _ ent m] lt by (metis less_imp_le)
  then show ?thesis
    using True p16 lt ui val i src inv
    by (auto simp: delta_find_def rabin_window_def enc_inv_def)
qed

lemma set_slot_pending:
  assumes "lits \<noteq> []"
  shows "set_slot outsize (pre @ pending slot lits)
           (int (length (pre @ pending slot lits)) - int (length lits) - 1) b =
         Some (pre @ pending b lits)"
proof -
  have "int (length (pre @ pending slot lits)) - int (length lits) - 1 = int (length pre)"
    using assms by (simp add: pending_def)
  then show ?thesis using assms by (simp add: set_slot_def pending_def)
qed

lemma pending_insert: "lits \<noteq> [] \<Longrightarrow> pending (word_of_int (int (length lits))) lits = enc_op (Insert lits)"
  by (simp add: pending_def)

lemma delta_insert_ok:
  assumes inv: "enc_inv base trg hdr s ops lits" and lt: "d_pos s < length trg"
    and room: "length (d_out s) + 2 \<le> d_outsize s"
  shows "\<exists>s' ops' lits'. delta_insert trg s = Some s' \<and> enc_inv base trg hdr s' ops' lits' \<and>
    d_pos s' = d_pos s + 1 \<and> d_outsize s' = d_outsize s \<and>
    length (d_out s') \<le> length (d_out s) + 2"
proof -
  note inv' = inv [unfolded enc_inv_def]
  obtain slot where out: "d_out s = hdr @ enc_ops ops @ pending slot lits" using inv' by blast
  define b where "b = trg ! d_pos s"
  define slot' where "slot' = (if lits = [] then 0 else slot)"
  define out2 where "out2 = hdr @ enc_ops ops @ pending slot' (lits @ [b])"
  define out1 where "out1 = (if lits = [] then d_out s @ [0] else d_out s)"
  have o1: "(if d_inscnt s = 0 then put (d_outsize s) (d_out s) 0 else Some (d_out s)) = Some out1"
    using room inv' by (cases "lits = []") (auto simp: put_def out1_def)
  have o2: "put (d_outsize s) out1 b = Some out2"
    using room out by (cases "lits = []") (auto simp: put_def out1_def out2_def pending_def slot'_def)
  have b: "rd trg (d_pos s) = Some b" using lt by (simp add: b_def)
  have ins: "delta_insert trg s =
      (if d_inscnt s + 1 = 0x7f then
         Option.bind (set_slot (d_outsize s) out2 (int (length out2) - (d_inscnt s + 1) - 1)
             (word_of_int (d_inscnt s + 1)))
           (\<lambda>out3. Some (s\<lparr>d_out := out3, d_inscnt := 0, d_pos := d_pos s + 1, d_msize := 0\<rparr>))
       else Some (s\<lparr>d_out := out2, d_inscnt := d_inscnt s + 1, d_pos := d_pos s + 1, d_msize := 0\<rparr>))"
    unfolding delta_insert_def by (simp only: o1 o2 b Option.bind.simps Let_def)
  have cnt: "d_inscnt s = int (length lits)" "length lits < 127" using inv' by blast+
  have len2: "length out2 \<le> length (d_out s) + 2"
    using out by (auto simp: out2_def pending_def)
  have tk: "denote base ops @ lits @ [b] = take (Suc (d_pos s)) trg"
    using inv' lt by (metis append_assoc b_def take_Suc_conv_app_nth)
  have m0: "match_at base trg (Suc (d_pos s)) (d_moff s) 0"
    using inv' lt by (auto simp: match_at_def)
  show ?thesis
  proof (cases "length lits = 126")
    case False
    let ?s = "s\<lparr>d_out := out2, d_inscnt := int (length (lits @ [b])), d_pos := d_pos s + 1, d_msize := 0\<rparr>"
    have "delta_insert trg s = Some ?s"
      using ins cnt False by simp
    moreover have "enc_inv base trg hdr ?s ops (lits @ [b])"
      using inv' False tk m0 lt by (auto simp: enc_inv_def out2_def)
    ultimately show ?thesis
      using len2 by - (rule exI [of _ ?s], rule exI [of _ ops], rule exI [of _ "lits @ [b]"], simp)
  next
    case True
    let ?l = "lits @ [b]"
    let ?s = "s\<lparr>d_out := hdr @ enc_ops (ops @ [Insert ?l]), d_inscnt := 0, d_pos := d_pos s + 1,
                d_msize := 0\<rparr>"
    have l: "length ?l = 127" "?l \<noteq> []" using True by auto
    have "set_slot (d_outsize s) out2 (int (length out2) - 127 - 1) (word_of_int 127) =
        Some (hdr @ enc_ops (ops @ [Insert ?l]))"
      using set_slot_pending [OF l(2), of "d_outsize s" "hdr @ enc_ops ops" slot' "word_of_int 127"]
        pending_insert [OF l(2)] l by (simp add: out2_def)
    then have "delta_insert trg s = Some ?s"
      using ins cnt True by simp
    moreover have "enc_inv base trg hdr ?s (ops @ [Insert ?l]) []"
    proof -
      have "denote base ops @ lits = take (d_pos s) trg" using inv' by blast
      from arg_cong [OF this, of length] have "length (denote base ops) + length lits = d_pos s"
        using lt by simp
      then show ?thesis using inv' l tk m0 lt by (auto simp: enc_inv_def pending_def)
    qed
    moreover have "length (d_out ?s) = length out2" using l by (simp add: out2_def pending_def)
    ultimately show ?thesis
      using len2 by - (rule exI [of _ ?s], rule exI [of _ "ops @ [Insert ?l]"], rule exI [of _ "[]"], simp)
  qed
qed

text \<open>Backing up over literals keeps the match and takes the literals off again.\<close>

lemma delta_back_ok:
  assumes "lits \<noteq> []" "out = pre @ slot # lits" "inscnt = int (length lits)"
    and "D @ lits = take pos trg" "pos \<le> length trg" "match_at ref trg pos moff msize"
    and "length trg < 2 ^ 32"
  shows "\<exists>lits' inscnt' pos' moff' msize'.
    delta_back ref trg out inscnt pos moff msize =
      Some (pre @ pending slot lits', inscnt', pos', moff', msize') \<and> inscnt' = (if lits' = [] then - 1 else int (length lits')) \<and>
    D @ lits' = take pos' trg \<and> match_at ref trg pos' moff' msize' \<and>
    pos' \<le> pos \<and> pos' + msize' = pos + msize \<and> length lits' \<le> length lits \<and>
    pos - pos' = length lits - length lits'"
  using assms
proof (induction moff arbitrary: lits out inscnt pos msize)
  case 0
  then show ?case by (intro exI [of _ lits]) (auto simp: pending_def)
next
  case (Suc moff)
  obtain l x where lx: "lits = l @ [x]" using Suc.prems(1) by (metis append_butlast_last_id)
  have plen: "pos = length D + length lits" using arg_cong [OF Suc.prems(4), of length] Suc.prems(5)
    by simp
  then have pos: "0 < pos" "pos - 1 < length trg" using Suc.prems(5) lx by auto
  have rng: "moff < length ref" "msize < length trg" using Suc.prems(6) pos Suc.prems(5) by (auto simp: match_at_def)
  have dl: "D @ l = take (pos - 1) trg"
    using arg_cong [OF Suc.prems(4), of butlast] lx pos Suc.prems(5)
    by (simp add: butlast_append butlast_take)
  show ?case
  proof (cases "ref ! moff = trg ! (pos - 1)")
    case False
    with pos rng Suc.prems show ?thesis
      by (intro exI [of _ lits]) (auto simp: pending_def)
  next
    case True
    have m: "match_at ref trg (pos - 1) moff (Suc msize)"
      using match_at_extend [OF Suc.prems(6) pos(1) True] .
    have w: "u32w (msize + 1) = Suc msize" using rng Suc.prems(7) by simp
    show ?thesis
    proof (cases "l = []")
      case l: True
      then have "inscnt = 1" "out = pre @ [slot, x]" using Suc.prems lx by auto
      then have "delta_back ref trg out inscnt pos (Suc moff) msize =
          Some (pre, - 1, pos - 1, moff, Suc msize)"
        using True pos rng w by (simp add: butlast_append)
      then show ?thesis using dl m l lx pos
        by (intro exI [of _ "[]"]) (auto simp: pending_def)
    next
      case l: False
      have "delta_back ref trg out inscnt pos (Suc moff) msize =
          delta_back ref trg (pre @ slot # l) (int (length l)) (pos - 1) moff (Suc msize)"
        using True pos rng w Suc.prems(2,3) lx l by (simp add: butlast_append)
      then show ?thesis
        using Suc.IH [of l "pre @ slot # l" "int (length l)" "pos - 1" "Suc msize"] l dl m pos lx
          Suc.prems(7) plen by fastforce
    qed
  qed
qed

section \<open>Writing a copy instruction\<close>

lemma enc_copy_length: "length (enc_copy m l) \<le> 7"
  by (simp add: enc_copy_def opt_list_def)

lemma put_if_eq:
  "length out < outsize \<Longrightarrow>
   put_if outsize c v flag (out, i) =
     Some (out @ opt_list c (ucast v), i OR (if c then flag else 0))"
  by (simp add: put_if_def put_def opt_list_def)

lemma put_copy_eq:
  assumes "length out + 7 \<le> outsize"
  shows "put_copy outsize out m l = Some (out @ enc_copy m l)"
proof -
  define c0 c1 c2 c3 d0 d1 where c: "c0 \<longleftrightarrow> m AND 0xff \<noteq> 0" "c1 \<longleftrightarrow> m AND 0xff00 \<noteq> 0"
    "c2 \<longleftrightarrow> m AND 0xff0000 \<noteq> 0" "c3 \<longleftrightarrow> m AND 0xff000000 \<noteq> 0"
    "d0 \<longleftrightarrow> l AND 0xff \<noteq> 0" "d1 \<longleftrightarrow> l AND 0xff00 \<noteq> 0"
  have o: "length (opt_list b (x :: byte)) \<le> 1" for b x by (simp add: opt_list_def)
  define o1 where "o1 = out @ [0]"
  define o2 where "o2 = o1 @ opt_list c0 (ucast m)"
  define o3 where "o3 = o2 @ opt_list c1 (ucast (drop_bit 8 m))"
  define o4 where "o4 = o3 @ opt_list c2 (ucast (drop_bit 16 m))"
  define o5 where "o5 = o4 @ opt_list c3 (ucast (drop_bit 24 m))"
  define o6 where "o6 = o5 @ opt_list d0 (ucast l)"
  define o7 where "o7 = o6 @ opt_list d1 (ucast (drop_bit 8 l))"
  have l1: "length o1 < outsize" using assms by (simp add: o1_def)
  have l2: "length o2 + 5 \<le> outsize" using assms o [of c0 "ucast m"] by (simp add: o2_def o1_def)
  have l3: "length o3 + 4 \<le> outsize" using l2 o [of c1 "ucast (drop_bit 8 m)"] by (simp add: o3_def)
  have l4: "length o4 + 3 \<le> outsize" using l3 o [of c2 "ucast (drop_bit 16 m)"] by (simp add: o4_def)
  have l5: "length o5 + 2 \<le> outsize" using l4 o [of c3 "ucast (drop_bit 24 m)"] by (simp add: o5_def)
  have l6: "length o6 + 1 \<le> outsize" using l5 o [of d0 "ucast l"] by (simp add: o6_def)
  have p1: "put outsize out 0 = Some o1" using assms by (simp add: put_def o1_def)
  have "put_copy outsize out m l = set_slot outsize o7 (int (length out)) (copy_cmd c0 c1 c2 c3 d0 d1)"
    unfolding put_copy_def c [symmetric] p1 Option.bind.simps copy_cmd_def
    using l1 l2 l3 l4 l5 l6
    by (simp add: put_if_eq o2_def [symmetric] o3_def [symmetric] o4_def [symmetric]
        o5_def [symmetric] o6_def [symmetric] o7_def [symmetric] or.assoc del: append_assoc)
  also have "o7 = out @ 0 # opt_list c0 (ucast m) @ opt_list c1 (ucast (drop_bit 8 m))
      @ opt_list c2 (ucast (drop_bit 16 m)) @ opt_list c3 (ucast (drop_bit 24 m))
      @ opt_list d0 (ucast l) @ opt_list d1 (ucast (drop_bit 8 l))"
    by (simp add: o1_def o2_def o3_def o4_def o5_def o6_def o7_def)
  finally show ?thesis by (simp add: set_slot_def enc_copy_def c)
qed

lemma delta_copy_ok:
  assumes inv: "enc_inv base trg hdr s ops lits" and lt: "d_pos s < length trg"
    and ix: "src_buf index = base" and len: "length base < 2 ^ 31" "length trg < 2 ^ 32"
    and room: "length (d_out s) + 7 \<le> d_outsize s" and big: "4 \<le> d_msize s"
  shows "\<exists>s' ops'. delta_copy index trg s = Some s' \<and> enc_inv base trg hdr s' ops' [] \<and>
    d_pos s < d_pos s' \<and> d_outsize s' = d_outsize s \<and> length (d_out s') \<le> length (d_out s) + 7"
proof -
  note inv' = inv [unfolded enc_inv_def]
  obtain slot where out: "d_out s = hdr @ enc_ops ops @ pending slot lits" using inv' by blast
  have m: "match_at base trg (d_pos s) (d_moff s) (d_msize s)" and cnt: "d_inscnt s = int (length lits)"
    and l126: "length lits < 127" and tk: "denote base ops @ lits = take (d_pos s) trg"
    and ops: "list_all (op_ok base) ops" and esz: "length (enc_ops ops) \<le> 2 * length (denote base ops)"
    and v: "unat (d_val s) < 2 ^ 31" and p16: "16 \<le> d_pos s" using inv' lt by auto
  \<comment> \<open>the state after backing up and closing the run of literals\<close>
  obtain out2 pos moff msize lits' where
    bk: "(if d_inscnt s \<noteq> 0 then
        Option.bind (delta_back base trg (d_out s) (d_inscnt s) (d_pos s) (d_moff s) (d_msize s))
          (\<lambda>(out, inscnt, pos, moff, msize).
            Option.bind (set_slot (d_outsize s) out (int (length out) - inscnt - 1) (word_of_int inscnt))
              (\<lambda>out'. Some (out', pos, moff, msize)))
      else Some (d_out s, d_pos s, d_moff s, d_msize s)) = Some (out2, pos, moff, msize)"
    and out2: "out2 = hdr @ enc_ops (ops @ (if lits' = [] then [] else [Insert lits']))"
    and tk2: "denote base ops @ lits' = take pos trg" and m2: "match_at base trg pos moff msize"
    and pos2: "pos \<le> d_pos s" "pos + msize = d_pos s + d_msize s" "d_pos s - pos \<le> length lits"
    and lits': "length lits' \<le> length lits"
  proof (cases "lits = []")
    case True
    then show ?thesis using that [of "d_out s" "d_pos s" "d_moff s" "d_msize s" "[]"] out cnt tk m
      by (simp add: pending_def)
  next
    case False
    obtain lits' inscnt' pos' moff' msize' where b:
      "delta_back base trg (d_out s) (d_inscnt s) (d_pos s) (d_moff s) (d_msize s) =
        Some ((hdr @ enc_ops ops) @ pending slot lits', inscnt', pos', moff', msize')"
      "inscnt' = (if lits' = [] then - 1 else int (length lits'))"
      "denote base ops @ lits' = take pos' trg" "match_at base trg pos' moff' msize'"
      "pos' \<le> d_pos s" "pos' + msize' = d_pos s + d_msize s" "length lits' \<le> length lits"
      "d_pos s - pos' = length lits - length lits'"
      using delta_back_ok [OF False _ cnt tk _ m len(2), of "d_out s" "hdr @ enc_ops ops" slot]
        False out lt by (auto simp: pending_def)
    have "set_slot (d_outsize s) ((hdr @ enc_ops ops) @ pending slot lits')
        (int (length ((hdr @ enc_ops ops) @ pending slot lits')) - inscnt' - 1) (word_of_int inscnt') =
        Some (hdr @ enc_ops (ops @ (if lits' = [] then [] else [Insert lits'])))"
    proof (cases "lits' = []")
      case True
      then show ?thesis using b(2) room out by (simp add: set_slot_def pending_def)
    next
      case False
      then show ?thesis
        using b(2) pending_insert [OF False] set_slot_pending [OF False, of "d_outsize s"
            "hdr @ enc_ops ops" slot "word_of_int inscnt'"] by simp
    qed
    with b False cnt show ?thesis
      by (intro that [of "hdr @ enc_ops (ops @ (if lits' = [] then [] else [Insert lits']))"
          pos' moff' msize' lits']) auto
  qed
  let ?ops = "ops @ (if lits' = [] then [] else [Insert lits'])"
  define left where "left = (if msize < 0x10000 then 0 else msize - 0x10000)"
  define n where "n = msize - left"
  have msz: "4 \<le> msize" "moff + msize \<le> length base" "pos + msize \<le> length trg"
    using m2 pos2 big by (auto simp: match_at_def)
  have n: "4 \<le> n" "n \<le> 0x10000" "n \<le> msize" "left \<le> msize" "left = msize - n"
    using msz by (auto simp: n_def left_def)
  have adv: "d_pos s < pos + n"
    using pos2 l126 big lits' by (auto simp: n_def left_def)
  have okc: "op_ok base (Copy moff n)" using msz n len by simp
  have lenout2: "length out2 \<le> length (d_out s)"
    using lits' unfolding out2 out by (auto simp: pending_def)
  have pc: "put_copy (d_outsize s) out2 (word_of_nat moff) (word_of_nat n) =
      Some (out2 @ enc_op (Copy moff n))"
    using put_copy_eq [of out2 "d_outsize s"] lenout2 room by simp
  have win: "16 \<le> pos + n" using p16 adv by simp
  obtain val where val: "(if left < 4096 then
        (if pos + n < rabin_window then None
         else Option.bind (rd_blk trg (pos + n - rabin_window) rabin_window) (rabin_fold 0))
      else Some (d_val s)) = Some val" "unat val < 2 ^ 31"
  proof -
    obtain v0 where v0: "rabin_fold 0 (take 16 (drop (pos + n - 16) trg)) = Some v0" "unat v0 < 2 ^ 31"
      using rabin_fold_ok [of 0] by auto
    have "rd_blk trg (pos + n - 16) 16 = Some (take 16 (drop (pos + n - 16) trg))"
      using win msz n by (simp add: rd_blk_def)
    with v0 win have "(if pos + n < rabin_window then None
         else Option.bind (rd_blk trg (pos + n - rabin_window) rabin_window) (rabin_fold 0)) = Some v0"
      by (simp add: rabin_window_def)
    then show ?thesis using that [of v0] that [of "d_val s"] v v0(2) by (cases "left < 4096") auto
  qed
  let ?s = "s\<lparr>d_out := out2 @ enc_op (Copy moff n), d_inscnt := 0, d_pos := pos + n,
              d_moff := u32w (moff + n), d_msize := left, d_val := val\<rparr>"
  have run: "delta_copy index trg s = Some ?s"
    unfolding delta_copy_def ix bk Option.bind.simps Let_def prod.case
      left_def [symmetric] n_def [symmetric] pc val(1) by simp
  have den: "denote base (?ops @ [Copy moff n]) = take (pos + n) trg"
  proof -
    have "take n (drop moff base) = take n (drop pos trg)"
      using match_at_take [OF m2 n(3)] by (simp add: match_at_def)
    moreover have "denote base ?ops = denote base ops @ lits'" by simp
    ultimately show ?thesis using tk2 by (simp add: take_add)
  qed
  have wm: "u32w (moff + n) = moff + n" using msz n len by simp
  define ops2 where "ops2 = ?ops @ [Copy moff n]"
  have sz: "length (enc_ops ops2) \<le> 2 * length (denote base ops2)"
    using esz enc_copy_length [of "word_of_nat moff" "word_of_nat n"] n msz
    by (cases lits') (auto simp: min_def ops2_def)
  have okl: "list_all (op_ok base) ops2" using ops okc lits' l126 by (auto simp: ops2_def)
  have mt: "match_at base trg (pos + n) (moff + n) left" using match_at_drop [OF m2 n(3)] n(5) by simp
  have o: "out2 @ enc_op (Copy moff n) = hdr @ enc_ops ops2" by (simp add: out2 ops2_def)
  have "enc_inv base trg hdr ?s ops2 []"
    using sz okl mt o den win val(2) wm unfolding enc_inv_def ops2_def [symmetric]
    by (simp add: pending_def)
  moreover have "length (d_out ?s) \<le> length (d_out s) + 7"
    using lenout2 enc_copy_length [of "word_of_nat moff" "word_of_nat n"] by simp
  ultimately show ?thesis using run adv
    by - (rule exI [of _ ?s], rule exI [of _ ops2], simp)
qed

section \<open>The loop\<close>

text \<open>Room: one more loop body fits, and the size can still be tripled in unsigned int.\<close>

definition room_ok :: "nat \<Rightarrow> dstate \<Rightarrow> bool" where
  "room_ok n s \<longleftrightarrow> length (d_out s) + 7 \<le> d_outsize s \<and> 36 \<le> d_outsize s \<and> d_outsize s < 2 ^ 32"

lemma delta_step_ok:
  assumes inv: "enc_inv base trg hdr s ops lits" and lt: "d_pos s < length trg"
    and ix: "ix_ok base index" and len: "length base < 2 ^ 31" "length trg < 2 ^ 32"
    and room: "length (d_out s) + 7 \<le> d_outsize s"
  shows "\<exists>s' ops' lits'. delta_step index trg s = Some s' \<and> enc_inv base trg hdr s' ops' lits' \<and>
    d_pos s < d_pos s' \<and> d_outsize s' = d_outsize s \<and> length (d_out s') \<le> length (d_out s) + 7"
proof -
  have len32: "length base < 2 ^ 32" using len(1) by simp
  obtain s1 where s1: "delta_find index trg s = Some s1" "enc_inv base trg hdr s1 ops lits"
    "d_out s1 = d_out s" "d_outsize s1 = d_outsize s" "d_pos s1 = d_pos s"
    using delta_find_ok [OF inv lt ix len32 len(2)] by blast
  have lt1: "d_pos s1 < length trg" using lt s1 by simp
  have src: "src_buf index = base" using ix by (simp add: ix_ok_def)
  show ?thesis
  proof (cases "d_msize s1 < 4")
    case True
    then show ?thesis
      using delta_insert_ok [OF s1(2) lt1] room s1 unfolding delta_step_def by fastforce
  next
    case False
    then show ?thesis
      using delta_copy_ok [OF s1(2) lt1 src len] room s1 unfolding delta_step_def by fastforce
  qed
qed

lemma delta_grow_cases:
  assumes out: "length (d_out s) \<le> d_outsize s" and sz: "36 \<le> d_outsize s" "d_outsize s < 2 ^ 32"
    and small: "length (d_out s) < 2 ^ 30"
  shows "(\<exists>sz2. delta_grow ok max_size s = Inl (True, s\<lparr>d_outsize := sz2\<rparr>) \<and>
            max_size < length (d_out s) \<and> max_size \<noteq> 0) \<or>
         ((\<exists>n. \<not> ok n) \<and> delta_grow ok max_size s = Inl (False, s)) \<or>
         (\<exists>sz2. delta_grow ok max_size s = Inr (s\<lparr>d_outsize := sz2\<rparr>) \<and>
            room_ok max_size (s\<lparr>d_outsize := sz2\<rparr>))"
proof (cases "u32w (d_outsize s + 2 ^ 32 - max_op_size) \<le> length (d_out s)")
  case False
  have "d_outsize s + 2 ^ 32 - max_op_size = 2 ^ 32 + (d_outsize s - max_op_size)"
    using sz(1) by (simp add: max_op_size_def rabin_window_def)
  then have "u32w (d_outsize s + 2 ^ 32 - max_op_size) = (d_outsize s - max_op_size) mod 2 ^ 32"
    by (simp only: u32w_def mod_add_self1)
  then have w: "u32w (d_outsize s + 2 ^ 32 - max_op_size) = d_outsize s - 34"
    using sz by (simp add: max_op_size_def rabin_window_def)
  have "s\<lparr>d_outsize := d_outsize s\<rparr> = s" by simp
  then show ?thesis using False w sz unfolding delta_grow_def room_ok_def
    by - (rule disjI2, rule disjI2, rule exI [of _ "d_outsize s"], simp)
next
  case True
  have "d_outsize s + 2 ^ 32 - max_op_size = 2 ^ 32 + (d_outsize s - max_op_size)"
    using sz(1) by (simp add: max_op_size_def rabin_window_def)
  then have "u32w (d_outsize s + 2 ^ 32 - max_op_size) = (d_outsize s - max_op_size) mod 2 ^ 32"
    by (simp only: u32w_def mod_add_self1)
  then have w: "d_outsize s - 34 \<le> length (d_out s)"
    using sz True by (simp add: max_op_size_def rabin_window_def)
  have t: "u32w (d_outsize s * 3) = d_outsize s * 3" using w small by (intro u32w_id) simp
  define sz1 where "sz1 = d_outsize s * 3 div 2"
  define sz2 where "sz2 = (if max_size \<noteq> 0 \<and> max_size \<le> sz1 then u32w (max_size + max_op_size + 1) else sz1)"
  have g: "delta_grow ok max_size s =
      (if max_size \<noteq> 0 \<and> max_size < length (d_out s) then Inl (True, s\<lparr>d_outsize := sz2\<rparr>)
       else if \<not> ok sz2 then Inl (False, s) else Inr (s\<lparr>d_outsize := sz2\<rparr>))"
    using True unfolding delta_grow_def t Let_def sz1_def [symmetric] sz2_def [symmetric] by simp
  have s1: "length (d_out s) + 7 \<le> sz1" "36 \<le> sz1" "sz1 < 2 ^ 31"
    using out sz w small by (auto simp: sz1_def)
  show ?thesis
  proof (cases "max_size \<noteq> 0 \<and> max_size \<le> sz1")
    case False
    then have "sz2 = sz1" by (auto simp: sz2_def)
    then show ?thesis using g s1 by (auto simp: room_ok_def)
  next
    case capped: True
    then have "sz2 = max_size + 35" using s1 by (auto simp: sz2_def max_op_size_def rabin_window_def)
    then show ?thesis using g s1 capped by (auto simp: room_ok_def)
  qed
qed

text \<open>The loop ends with the whole target consumed, or with the size limit passed.\<close>

lemma delta_loop_ok:
  assumes ix: "ix_ok base index" and len: "length base < 2 ^ 31" "length trg < 2 ^ 28"
    and hdr: "length hdr \<le> 10"
  shows "enc_inv base trg hdr s ops lits \<Longrightarrow> room_ok max_size s \<Longrightarrow>
    (\<exists>n. \<not> ok n) \<and> delta_loop ok index trg max_size s = Some (Inl ()) \<or>
    (\<exists>s' ops' lits'. delta_loop ok index trg max_size s = Some (Inr s') \<and>
       enc_inv base trg hdr s' ops' lits' \<and>
       (d_pos s' = length trg \<or> max_size \<noteq> 0 \<and> max_size < length (d_out s')))"
proof (induction "length trg - d_pos s" arbitrary: s ops lits rule: less_induct)
  case less
  note inv = less.prems(1) and room = less.prems(2)
  show ?case
  proof (cases "d_pos s < length trg")
    case False
    then have "d_pos s = length trg" using enc_inv_pos [OF inv] by simp
    with False inv show ?thesis by (subst (1 2) delta_loop.simps) auto
  next
    case True
    have len32: "length trg < 2 ^ 32" using len by simp
    obtain s1 ops1 lits1 where s1: "delta_step index trg s = Some s1"
      "enc_inv base trg hdr s1 ops1 lits1" "d_pos s < d_pos s1" "d_outsize s1 = d_outsize s"
      "length (d_out s1) \<le> length (d_out s) + 7"
      using delta_step_ok [OF inv True ix len(1) len32] room by (auto simp: room_ok_def)
    have "length (d_out s1) < 2 ^ 30"
      using enc_inv_length [OF s1(2)] enc_inv_pos [OF s1(2)] hdr len by simp
    then consider sz2 where "delta_grow ok max_size s1 = Inl (True, s1\<lparr>d_outsize := sz2\<rparr>)"
        "max_size < length (d_out s1)" "max_size \<noteq> 0"
      | "\<exists>n. \<not> ok n" "delta_grow ok max_size s1 = Inl (False, s1)"
      | sz2 where "delta_grow ok max_size s1 = Inr (s1\<lparr>d_outsize := sz2\<rparr>)"
        "room_ok max_size (s1\<lparr>d_outsize := sz2\<rparr>)"
      using delta_grow_cases [of s1 ok max_size] room s1 by (fastforce simp: room_ok_def)
    then show ?thesis
    proof cases
      case 1
      have "enc_inv base trg hdr (s1\<lparr>d_outsize := sz2\<rparr>) ops1 lits1" using s1(2) by (simp add: enc_inv_def)
      then show ?thesis using 1 True s1(1)
        by (subst (1 2) delta_loop.simps) auto
    next
      case 2
      then show ?thesis using True s1(1) by (subst (1 2) delta_loop.simps) auto
    next
      case 3
      let ?s = "s1\<lparr>d_outsize := sz2\<rparr>"
      have inv2: "enc_inv base trg hdr ?s ops1 lits1" using s1(2) by (simp add: enc_inv_def)
      have "length trg - d_pos ?s < length trg - d_pos s" using s1(3) True by simp
      from less.hyps [OF this inv2 3(2)] show ?thesis
        using 3(1) True s1(1) by (subst (1 2) delta_loop.simps) auto
    qed
  qed
qed

section \<open>The whole encoder\<close>

lemma put_window_ok:
  "length out + length bs \<le> outsize \<Longrightarrow> unat v < 2 ^ 31 \<Longrightarrow>
   \<exists>v'. put_window outsize out v bs = Some (out @ bs, v') \<and> unat v' < 2 ^ 31"
proof (induction bs arbitrary: out v)
  case (Cons b bs)
  obtain v1 where v1: "rabin_step v b = Some v1" "unat v1 < 2 ^ 31"
    using rabin_step_ok [OF Cons.prems(2)] by blast
  show ?case using Cons.IH [of "out @ [b]" v1] Cons.prems v1 by (auto simp: put_def)
qed simp

definition delta_hdr :: "byte list \<Rightarrow> byte list \<Rightarrow> byte list" where
  "delta_hdr base trg = enc_size (length base) @ enc_size (length trg)"

lemma delta_hdr_length:
  "length base < 2 ^ 32 \<Longrightarrow> length trg < 2 ^ 32 \<Longrightarrow> length (delta_hdr base trg) \<le> 10"
  using enc_size_length5 [of "length base"] enc_size_length5 [of "length trg"] by (simp add: delta_hdr_def)

lemma delta_outsize0_bounds: "max_size < 2 ^ 32 \<Longrightarrow> 36 \<le> delta_outsize0 max_size \<and> delta_outsize0 max_size \<le> 8227"
  by (auto simp: delta_outsize0_def max_op_size_def rabin_window_def)

lemma delta_start_ok:
  assumes trg: "trg \<noteq> []" and len: "length base < 2 ^ 32" "length trg < 2 ^ 32"
    and src: "src_buf index = base" and sz: "36 \<le> outsize" "outsize < 2 ^ 32"
  shows "\<exists>s. delta_start index trg outsize = Some s \<and>
    enc_inv base trg (delta_hdr base trg) s [] (take 16 trg) \<and> room_ok max_size s"
proof -
  let ?w = "take 16 trg" and ?h = "delta_hdr base trg"
  have h: "length ?h \<le> 10" using delta_hdr_length [OF len] .
  have w: "?w \<noteq> []" "length ?w \<le> 16" using trg by auto
  have p1: "put_size outsize [] (length base) = Some (enc_size (length base))"
    and p2: "put_size outsize (enc_size (length base)) (length trg) = Some ?h"
    and p3: "put outsize ?h 0 = Some (?h @ [0])"
    using h sz by (auto simp: put_size_eq delta_hdr_def put_def)
  obtain v where v: "put_window outsize (?h @ [0]) 0 ?w = Some ((?h @ [0]) @ ?w, v)" "unat v < 2 ^ 31"
  proof -
    have "length (?h @ [0]) + length ?w \<le> outsize" using h w sz by simp
    from put_window_ok [OF this, of 0] show ?thesis using that by auto
  qed
  let ?s = "\<lparr>d_out = (?h @ [0]) @ ?w, d_outsize = outsize, d_inscnt = int (length ?w),
     d_pos = length ?w, d_moff = 0, d_msize = 0, d_val = v\<rparr>"
  have "delta_start index trg outsize = Some ?s"
    using len unfolding delta_start_def src rabin_window_def by (simp add: p1 p2 p3 v(1) del: append_assoc)
  moreover have "enc_inv base trg ?h ?s [] ?w"
    using w v(2) by (auto simp: enc_inv_def pending_def match_at_def min_def)
  moreover have "room_ok max_size ?s" using h w sz by (simp add: room_ok_def)
  ultimately show ?thesis by blast
qed

text \<open>Closing the last run of literals.\<close>

lemma delta_finish:
  assumes "enc_inv base trg hdr s ops lits"
  shows "\<exists>ops'. (if d_inscnt s \<noteq> 0
      then set_slot (d_outsize s) (d_out s) (int (length (d_out s)) - d_inscnt s - 1) (word_of_int (d_inscnt s))
      else Some (d_out s)) = Some (hdr @ enc_ops ops') \<and> list_all (op_ok base) ops' \<and>
    denote base ops' = take (d_pos s) trg \<and> length (hdr @ enc_ops ops') = length (d_out s)"
proof (cases "lits = []")
  case True
  with assms show ?thesis by (intro exI [of _ ops]) (auto simp: enc_inv_def pending_def)
next
  case False
  obtain slot where out: "d_out s = hdr @ enc_ops ops @ pending slot lits" and c: "d_inscnt s = int (length lits)"
    using assms by (auto simp: enc_inv_def)
  have "set_slot (d_outsize s) (d_out s) (int (length (d_out s)) - d_inscnt s - 1) (word_of_int (d_inscnt s)) =
      Some (hdr @ enc_ops (ops @ [Insert lits]))"
    using set_slot_pending [OF False, of "d_outsize s" "hdr @ enc_ops ops" slot "word_of_int (int (length lits))"]
      pending_insert [OF False] out c by simp
  moreover have "length (hdr @ enc_ops (ops @ [Insert lits])) = length (d_out s)"
    using False out by (simp add: pending_def)
  ultimately show ?thesis using assms False
    by (intro exI [of _ "ops @ [Insert lits]"]) (auto simp: enc_inv_def)
qed

text \<open>
  The encoder on any valid index: it returns, and what it returns is the header followed by
  valid instructions for the target.
\<close>

lemma git_delta_create_ok:
  assumes ix: "ix_ok base index" and len: "length base < 2 ^ 31" "length trg < 2 ^ 28"
    and trg: "trg \<noteq> []" and max: "max_size < 2 ^ 32"
  shows "\<exists>r. git_delta_create ok index trg max_size = Some r \<and>
    (\<forall>d. r = Some d \<longrightarrow> (\<exists>ops. d = delta_hdr base trg @ enc_ops ops \<and> list_all (op_ok base) ops \<and>
        denote base ops = trg) \<and> length d \<le> 10 + 2 * length trg \<and>
        (max_size \<noteq> 0 \<longrightarrow> length d \<le> max_size)) \<and>
    ((\<forall>n. ok n) \<and> max_size = 0 \<longrightarrow> r \<noteq> None)"
proof (cases "ok (delta_outsize0 max_size)")
  case False
  then show ?thesis using trg by (auto simp: git_delta_create_def)
next
  case True
  have src: "src_buf index = base" using ix by (simp add: ix_ok_def)
  have len32: "length base < 2 ^ 32" "length trg < 2 ^ 32" using len by simp_all
  have hdr: "length (delta_hdr base trg) \<le> 10" using delta_hdr_length [OF len32] .
  have sz: "36 \<le> delta_outsize0 max_size" "delta_outsize0 max_size < 2 ^ 32"
    using delta_outsize0_bounds [OF max] by simp_all
  obtain s0 where s0: "delta_start index trg (delta_outsize0 max_size) = Some s0"
    "enc_inv base trg (delta_hdr base trg) s0 [] (take 16 trg)" "room_ok max_size s0"
    using delta_start_ok [OF trg len32 src sz] by blast
  consider "\<exists>n. \<not> ok n" "delta_loop ok index trg max_size s0 = Some (Inl ())"
    | s ops lits where "delta_loop ok index trg max_size s0 = Some (Inr s)"
       "enc_inv base trg (delta_hdr base trg) s ops lits"
       "d_pos s = length trg \<or> max_size \<noteq> 0 \<and> max_size < length (d_out s)"
    using delta_loop_ok [OF ix len hdr s0(2,3), of ok] by blast
  then show ?thesis
  proof cases
    case 1
    then show ?thesis using trg True s0(1) by (auto simp: git_delta_create_def)
  next
    case 2
    obtain ops' where fin: "(if d_inscnt s \<noteq> 0
      then set_slot (d_outsize s) (d_out s) (int (length (d_out s)) - d_inscnt s - 1) (word_of_int (d_inscnt s))
      else Some (d_out s)) = Some (delta_hdr base trg @ enc_ops ops')"
      and ops': "list_all (op_ok base) ops'" "denote base ops' = take (d_pos s) trg"
        "length (delta_hdr base trg @ enc_ops ops') = length (d_out s)"
      using delta_finish [OF 2(2)] by blast
    let ?d = "delta_hdr base trg @ enc_ops ops'"
    have run: "git_delta_create ok index trg max_size =
        Some (if max_size \<noteq> 0 \<and> max_size < length ?d then None else Some ?d)"
      unfolding git_delta_create_def using trg True s0(1) 2(1) by (simp add: fin)
    have "length ?d \<le> 10 + 2 * length trg"
      using enc_inv_length [OF 2(2)] enc_inv_pos [OF 2(2)] hdr ops'(3) by linarith
    moreover have "d_pos s = length trg \<or> max_size \<noteq> 0 \<and> max_size < length ?d"
      using 2(3) unfolding ops'(3) .
    ultimately show ?thesis using run ops' by auto
  qed
qed

end
