(* ===== verification/DeltaDecode.thy ===== *)
theory DeltaDecode
  imports Delta
begin

text \<open>
  What the decoder of deltas makes of arbitrary bytes: the instructions that a delta spells, read
  with numbers instead of words, and the loop of git\_\_delta\_apply in terms of them.
\<close>

unbundle bit_operations_syntax

section \<open>Reading instructions\<close>

text \<open>The bytes of the arguments that are there, 0 for the others.\<close>

primrec fetch :: "bool list \<Rightarrow> byte list \<Rightarrow> (nat list \<times> byte list) option" where
  "fetch [] ds = Some ([], ds)"
| "fetch (p # ps) ds =
     (if p then (case ds of [] \<Rightarrow> None | b # ds' \<Rightarrow> map_option (apfst ((#) (unat b))) (fetch ps ds'))
      else map_option (apfst ((#) 0)) (fetch ps ds))"

primrec little_endian :: "nat list \<Rightarrow> nat" where
  "little_endian [] = 0"
| "little_endian (x # xs) = x + 256 * little_endian xs"

definition copy_args :: "byte \<Rightarrow> byte list \<Rightarrow> (nat \<times> nat \<times> byte list) option" where
  "copy_args cmd ds = (case fetch (map (bit cmd) [0..<7]) ds of
       None \<Rightarrow> None
     | Some (xs, ds') \<Rightarrow> let n = little_endian (drop 4 xs) in Some (little_endian (take 4 xs), if n = 0 then 65536 else n, ds'))"

definition next_op :: "byte list \<Rightarrow> (delta_op \<times> byte list) option" where
  "next_op ds = (case ds of
       [] \<Rightarrow> None
     | cmd # args \<Rightarrow>
         if bit cmd 7 then map_option (\<lambda>(off, n, ds'). (Copy off n, ds')) (copy_args cmd args)
         else if cmd \<noteq> 0 \<and> unat cmd \<le> length args then Some (Insert (take (unat cmd) args), drop (unat cmd) args)
         else None)"

text \<open>The bytes ds begin with these instructions, and rest is behind them.\<close>

inductive reads :: "byte list \<Rightarrow> delta_op list \<Rightarrow> byte list \<Rightarrow> bool" where
  reads_Nil: "reads ds [] ds"
| reads_Cons: "next_op ds = Some (x, ds') \<Longrightarrow> reads ds' ops rest \<Longrightarrow> reads ds (x # ops) rest"

inductive_cases reads_ConsE: "reads ds (x # ops) rest"
inductive_cases reads_NilE: "reads ds [] rest"

primrec inside :: "byte list \<Rightarrow> delta_op \<Rightarrow> bool" where
  "inside base (Copy off n) = (off + n \<le> length base)"
| "inside base (Insert bs) = True"

text \<open>The next instruction is a copy that lacks arguments, or one that fits into the k bytes that are left and whose end is below
  the size of the base only because the offset, negative as an int, wraps.\<close>

definition stuck :: "byte list \<Rightarrow> nat \<Rightarrow> byte list \<Rightarrow> bool" where
  "stuck base k ds = (case ds of
       [] \<Rightarrow> False
     | cmd # args \<Rightarrow> bit cmd 7 \<and>
         (case copy_args cmd args of
            None \<Rightarrow> True
          | Some (off, n, _) \<Rightarrow> n \<le> k \<and> 2 ^ 31 \<le> off \<and> 2 ^ 32 \<le> off + n \<and> off + n - 2 ^ 32 \<le> length base))"

section \<open>The arguments of a copy\<close>

lemma cmd_bits:
  fixes cmd :: byte
  shows "cmd AND 0x01 \<noteq> 0 \<longleftrightarrow> bit cmd 0" "cmd AND 0x02 \<noteq> 0 \<longleftrightarrow> bit cmd 1" "cmd AND 0x04 \<noteq> 0 \<longleftrightarrow> bit cmd 2"
    "cmd AND 0x08 \<noteq> 0 \<longleftrightarrow> bit cmd 3" "cmd AND 0x10 \<noteq> 0 \<longleftrightarrow> bit cmd 4" "cmd AND 0x20 \<noteq> 0 \<longleftrightarrow> bit cmd 5"
    "cmd AND 0x40 \<noteq> 0 \<longleftrightarrow> bit cmd 6" "cmd AND 0x80 \<noteq> 0 \<longleftrightarrow> bit cmd 7"
proof -
  have *: "cmd AND push_bit k 1 \<noteq> 0 \<longleftrightarrow> bit cmd k" if "k < 8" for k
  proof
    assume "bit cmd k"
    then have "bit (cmd AND push_bit k 1) k" using that by (simp add: bit_simps)
    then show "cmd AND push_bit k 1 \<noteq> 0" by (metis bit_0_eq bot_apply bot_bool_def)
  next
    assume "cmd AND push_bit k 1 \<noteq> 0"
    then obtain j where "bit (cmd AND push_bit k 1) j" by (metis bit_eqI bit_0_eq bot_apply bot_bool_def)
    then show "bit cmd k" by (auto simp: bit_simps)
  qed
  show "cmd AND 0x01 \<noteq> 0 \<longleftrightarrow> bit cmd 0" "cmd AND 0x02 \<noteq> 0 \<longleftrightarrow> bit cmd 1" "cmd AND 0x04 \<noteq> 0 \<longleftrightarrow> bit cmd 2"
    "cmd AND 0x08 \<noteq> 0 \<longleftrightarrow> bit cmd 3" "cmd AND 0x10 \<noteq> 0 \<longleftrightarrow> bit cmd 4" "cmd AND 0x20 \<noteq> 0 \<longleftrightarrow> bit cmd 5"
    "cmd AND 0x40 \<noteq> 0 \<longleftrightarrow> bit cmd 6" "cmd AND 0x80 \<noteq> 0 \<longleftrightarrow> bit cmd 7"
    using * [of 0] * [of 1] * [of 2] * [of 3] * [of 4] * [of 5] * [of 6] * [of 7] by (simp_all add: push_bit_eq_mult)
qed

lemma or_shift:
  fixes x y :: u32
  assumes "unat x < 2 ^ s"
  shows "x OR push_bit s y = x + push_bit s y"
proof -
  have "x AND push_bit s y = 0"
    using bit_word_less [OF assms] by (fastforce intro!: bit_word_eqI simp: bit_simps)
  then show ?thesis by (metis word_plus_and_or add_0)
qed

lemma scast_or: "scast (x OR y) = (scast x OR scast y :: u64)" for x y :: u32
  by (rule bit_word_eqI) (auto simp: bit_simps)

lemma shl_sum:
  fixes a b c d :: byte
  shows "int_shl a 0 OR int_shl b 8 OR int_shl c 16 OR int_shl d 24 =
      scast (word_of_nat (little_endian [unat a, unat b, unat c, unat d]) :: u32)"
proof -
  have w: "(ucast x :: u32) = word_of_nat (unat x)" for x :: byte by (simp add: unsigned_ucast_eq)
  have l: "unat x < 256" for x :: byte using unsigned_less [of x] by simp
  have s: "push_bit k (word_of_nat n) = (word_of_nat (n * 2 ^ k) :: u32)" for k n by (simp add: push_bit_eq_mult)
  define x where "x = word_of_nat (unat a) OR (push_bit 8 (word_of_nat (unat b)) :: u32)"
  have x: "x = word_of_nat (unat a + 256 * unat b)" "unat x < 2 ^ 16"
  proof -
    have p: "unat (word_of_nat (unat a) :: u32) < 2 ^ 8" using l [of a] by (simp add: unat_word_of_nat32)
    show "x = word_of_nat (unat a + 256 * unat b)" unfolding x_def or_shift [OF p] unfolding s by (simp add: mult.commute)
    then show "unat x < 2 ^ 16" using l [of a] l [of b] by (simp add: unat_word_of_nat32 del: of_nat_add of_nat_mult)
  qed
  define y where "y = x OR (push_bit 16 (word_of_nat (unat c)) :: u32)"
  have y: "y = word_of_nat (unat a + 256 * unat b + 65536 * unat c)" "unat y < 2 ^ 24"
  proof -
    show "y = word_of_nat (unat a + 256 * unat b + 65536 * unat c)" unfolding y_def or_shift [OF x(2)] unfolding x(1) s by (simp add: mult.commute)
    then show "unat y < 2 ^ 24" using l [of a] l [of b] l [of c] by (simp add: unat_word_of_nat32 del: of_nat_add of_nat_mult)
  qed
  have z: "y OR (push_bit 24 (word_of_nat (unat d)) :: u32) = word_of_nat (unat a + 256 * unat b + 65536 * unat c + 16777216 * unat d)"
    unfolding or_shift [OF y(2)] unfolding y(1) s by (simp add: mult.commute)
  have "int_shl a 0 OR int_shl b 8 OR int_shl c 16 OR int_shl d 24 = (scast (y OR push_bit 24 (word_of_nat (unat d))) :: u64)"
    unfolding int_shl_def w y_def x_def scast_or by (simp add: or.assoc)
  then show ?thesis unfolding z by (simp add: algebra_simps)
qed

lemma little_endian4: "little_endian [unat a, unat b, unat c, unat d] < 2 ^ 32" for a b c d :: byte
  using unsigned_less [of a, where ?'a = nat] unsigned_less [of b, where ?'a = nat] unsigned_less [of c, where ?'a = nat] unsigned_less [of d, where ?'a = nat] by simp

lemma little_endian3: "little_endian [unat a, unat b, unat c] < 2 ^ 24" for a b c :: byte
  using unsigned_less [of a, where ?'a = nat] unsigned_less [of b, where ?'a = nat] unsigned_less [of c, where ?'a = nat] by simp

lemma scast_small: "n < 2 ^ 31 \<Longrightarrow> scast (word_of_nat n :: u32) = (word_of_nat n :: u64)"
proof (rule bit_word_eqI)
  fix k assume n: "n < 2 ^ 31" and k: "k < LENGTH(64)"
  have "j < 31" if "bit n j" for j using bit_nat_less [OF n that] .
  then have "\<not> bit n 31" "bit n k \<Longrightarrow> k < 31" by blast+
  then show "bit (scast (word_of_nat n :: u32) :: u64) k = bit (word_of_nat n :: u64) k"
    using k by (cases "k < 31") (auto simp: bit_simps min_def)
qed

lemma copy_args_bind:
  "copy_args cmd ds = do {
     (a, ds) \<leftarrow> opt_byte (bit cmd 0) ds;
     (b, ds) \<leftarrow> opt_byte (bit cmd 1) ds;
     (c, ds) \<leftarrow> opt_byte (bit cmd 2) ds;
     (d, ds) \<leftarrow> opt_byte (bit cmd 3) ds;
     (l, ds) \<leftarrow> opt_byte (bit cmd 4) ds;
     (m, ds) \<leftarrow> opt_byte (bit cmd 5) ds;
     (h, ds) \<leftarrow> opt_byte (bit cmd 6) ds;
     (let n = little_endian [unat l, unat m, unat h] in
      Some (little_endian [unat a, unat b, unat c, unat d], if n = 0 then 65536 else n, ds)) }"
proof -
  have f: "fetch (p # ps) ds = do { (b, ds) \<leftarrow> opt_byte p ds; (xs, ds) \<leftarrow> fetch ps ds; Some (unat b # xs, ds) }" for p ps ds
    by (cases "fetch ps ds"; cases ds; cases "fetch ps (tl ds)") (auto simp: opt_byte_def)
  have u: "map (bit cmd) [0..<7] = [bit cmd 0, bit cmd 1, bit cmd 2, bit cmd 3, bit cmd 4, bit cmd 5, bit cmd 6]"
    by (simp add: upt_rec eval_nat_numeral)
  have d: "drop 4 [a, b, c, d, l, m, h] = [l, m, h]" "take 4 [a, b, c, d, l, m, h] = [a, b, c, d]" for a b c d l m h :: nat
    by (simp_all add: eval_nat_numeral)
  have c: "(case Option.bind o1 g of None \<Rightarrow> None | Some (xs, ds') \<Rightarrow> k xs ds') = Option.bind o1 (\<lambda>x. case g x of None \<Rightarrow> None | Some (xs, ds') \<Rightarrow> k xs ds')"
    for o1 :: "(byte \<times> byte list) option" and g and k :: "nat list \<Rightarrow> byte list \<Rightarrow> (nat \<times> nat \<times> byte list) option" by (cases o1) auto
  show ?thesis
    unfolding copy_args_def u f
    by (auto simp: d Let_def split: Option.bind_splits option.splits)
qed

lemma copy_args_ok:
  "delta_copy_args cmd ds = map_option (\<lambda>(off, n, ds'). (scast (word_of_nat off :: u32), word_of_nat n, ds')) (copy_args cmd ds)" (is ?A)
  "copy_args cmd ds = Some (off, n, ds') \<Longrightarrow> off < 2 ^ 32 \<and> 0 < n \<and> n < 2 ^ 24" (is "?P \<Longrightarrow> ?B")
proof -
  have z: "int_shl 0 24 = 0" by (simp add: int_shl_def)
  have l3: "int_shl a 0 OR int_shl b 8 OR int_shl c 16 = word_of_nat (little_endian [unat a, unat b, unat c])" for a b c
    using shl_sum [of a b c 0] little_endian3 [of a b c] scast_small [of "little_endian [unat a, unat b, unat c, unat (0 :: byte)]"] by (simp add: z)
  have n0: "(word_of_nat (little_endian [unat a, unat b, unat c]) :: u64) = 0 \<longleftrightarrow> little_endian [unat a, unat b, unat c] = 0" for a b c :: byte
    using little_endian3 [of a b c] by (simp add: word_unat_eq_iff unat_word_of_nat64 del: of_nat_add of_nat_mult)
  show ?A
    unfolding delta_copy_args_def copy_args_bind cmd_bits shl_sum l3 Let_def n0
    by (auto split: Option.bind_splits simp del: little_endian.simps)
  show ?B if ?P
    using that little_endian4 little_endian3 unfolding copy_args_bind Let_def
    by (auto split: Option.bind_splits if_splits simp del: little_endian.simps)
qed

section \<open>The loop\<close>

lemma wide_offset:
  assumes "off < 2 ^ 32" "0 < n" "n < 2 ^ 24"
  shows "unat (scast (word_of_nat off :: u32) :: u64) = (if off < 2 ^ 31 then off else off + (2 ^ 64 - 2 ^ 32))"
    "unat (scast (word_of_nat off :: u32) + word_of_nat n :: u64) =
      (if off < 2 ^ 31 then off + n else if off + n < 2 ^ 32 then off + n + (2 ^ 64 - 2 ^ 32) else off + n - 2 ^ 32)"
proof -
  have n: "unat (word_of_nat n :: u64) = n" using assms(3) by (simp add: unat_word_of_nat64)
  show w: "unat (scast (word_of_nat off :: u32) :: u64) = (if off < 2 ^ 31 then off else off + (2 ^ 64 - 2 ^ 32))"
  proof (cases "off < 2 ^ 31")
    case True
    then show ?thesis using scast_small [OF True] by (simp add: unat_word_of_nat64)
  next
    case False
    have A: "(scast (word_of_nat off :: u32) :: u64) = word_of_int (sint (word_of_nat off :: u32))" by (rule scast_eq)
    have B: "sint (word_of_nat off :: u32) = int off - 2 ^ 32"
    proof -
      have "sint (word_of_nat off :: u32) = (int off + 2 ^ 31) mod 2 ^ 32 - 2 ^ 31"
        by (simp add: signed_of_nat signed_take_bit_eq_take_bit_shift take_bit_eq_mod)
      also have "(int off + 2 ^ 31) mod 2 ^ 32 = int off + 2 ^ 31 - 2 ^ 32" using False assms(1) by (simp add: mod_pos_geq)
      finally show ?thesis by simp
    qed
    have "uint (scast (word_of_nat off :: u32) :: u64) = (int off - 2 ^ 32) mod 2 ^ 64" unfolding A B uint_word_of_int by simp
    also have "\<dots> = int off - 2 ^ 32 + 2 ^ 64" using False assms(1) mod_add_self2 [of "int off - 2 ^ 32" "2 ^ 64"] by simp
    finally have "int (unat (scast (word_of_nat off :: u32) :: u64)) = int (off + (2 ^ 64 - 2 ^ 32))" by (simp only: uint_nat [symmetric]) simp
    then have "unat (scast (word_of_nat off :: u32) :: u64) = off + (2 ^ 64 - 2 ^ 32)" by (simp only: of_nat_eq_iff)
    then show ?thesis by (simp only: False if_False)
  qed
  show "unat (scast (word_of_nat off :: u32) + word_of_nat n :: u64) =
      (if off < 2 ^ 31 then off + n else if off + n < 2 ^ 32 then off + n + (2 ^ 64 - 2 ^ 32) else off + n - 2 ^ 32)"
    unfolding unat_word_ariths w n using assms by (auto simp: mod_if)
qed

text \<open>One instruction: carried out when it can be, undefined when it is stuck, and refused otherwise.\<close>

lemma apply_loop_step:
  assumes base: "length base < 2 ^ 31" and room: "dp + unat room \<le> length buf"
  shows "delta_apply_loop base (cmd # args) buf dp room =
    (case next_op (cmd # args) of
       Some (x, ds') \<Rightarrow>
         let d = denote_op base x in
         if inside base x \<and> length d \<le> unat room
         then delta_apply_loop base ds' (take dp buf @ d @ drop (dp + length d) buf) (dp + length d) (room - word_of_nat (length d))
         else if stuck base (unat room) (cmd # args) then None else Some (Inl (-1))
     | None \<Rightarrow> if stuck base (unat room) (cmd # args) then None else Some (Inl (-1)))"
proof (cases "bit cmd 7")
  case True
  then have c: "(cmd AND 0x80 \<noteq> 0) = True" using cmd_bits(8) by blast
  show ?thesis
  proof (cases "copy_args cmd args")
    case None
    then show ?thesis using True c copy_args_ok(1) [of cmd args] by (simp add: next_op_def stuck_def)
  next
    case (Some p)
    obtain off n ds' where p: "copy_args cmd args = Some (off, n, ds')" using Some by (cases p) auto
    note b = copy_args_ok(2) [OF p]
    define o64 where "o64 = (scast (word_of_nat off :: u32) :: u64)"
    have w: "unat o64 = (if off < 2 ^ 31 then off else off + (2 ^ 64 - 2 ^ 32))"
      "unat (o64 + word_of_nat n) = (if off < 2 ^ 31 then off + n else if off + n < 2 ^ 32 then off + n + (2 ^ 64 - 2 ^ 32) else off + n - 2 ^ 32)"
      using wide_offset [of off n] b by (simp_all only: o64_def)
    have n: "unat (word_of_nat n :: u64) = n" using b by (simp add: unat_word_of_nat64)
    have lb: "unat (word_of_nat (length base) :: u64) = length base" using base by (simp add: unat_word_of_nat64)
    have a: "delta_copy_args cmd args = Some (o64, word_of_nat n, ds')" using copy_args_ok(1) [of cmd args] p by (simp add: o64_def)
    have L: "delta_apply_loop base (cmd # args) buf dp room =
      (if length base < unat (o64 + word_of_nat n) \<or> unat room < n then Some (Inl (-1))
       else Option.bind (rd_blk base (unat o64) n) (\<lambda>blk. Option.bind (wr_blk buf dp blk) (\<lambda>buf'.
         delta_apply_loop base ds' buf' (dp + n) (room - word_of_nat n))))"
      using c by (simp add: a word_less_nat_alt lb n)
    have x: "next_op (cmd # args) = Some (Copy off n, ds')" using True p by (simp add: next_op_def)
    have st: "stuck base (unat room) (cmd # args) \<longleftrightarrow> n \<le> unat room \<and> 2 ^ 31 \<le> off \<and> 2 ^ 32 \<le> off + n \<and> off + n - 2 ^ 32 \<le> length base"
      using True p by (simp add: stuck_def)
    show ?thesis
    proof (cases "off < 2 ^ 31")
      case small: True
      then have ns: "\<not> stuck base (unat room) (cmd # args)" by (simp add: st)
      show ?thesis
      proof (cases "off + n \<le> length base \<and> n \<le> unat room")
        case True
        then have r: "rd_blk base off n = Some (take n (drop off base))" "length (take n (drop off base)) = n" by (auto simp: rd_blk_def)
        have "wr_blk buf dp (take n (drop off base)) = Some (take dp buf @ take n (drop off base) @ drop (dp + n) buf)"
          using r(2) room True by (simp add: wr_blk_def)
        then show ?thesis unfolding L x using True small w r by (simp add: Let_def)
      next
        case False
        then have "length base < unat (o64 + word_of_nat n) \<or> unat room < n" using small w by auto
        moreover have "\<not> (inside base (Copy off n) \<and> length (denote_op base (Copy off n)) \<le> unat room)" using False by auto
        ultimately show ?thesis unfolding L x option.case prod.case Let_def using ns by (simp only: if_True if_False simp_thms)
      qed
    next
      case False
      then have ni: "\<not> inside base (Copy off n)" using base by simp
      have "rd_blk base (unat o64) n = None" using False w(1) base by (simp add: rd_blk_def)
      moreover have "length base < unat (o64 + word_of_nat n) \<or> unat room < n \<longleftrightarrow> \<not> stuck base (unat room) (cmd # args)"
        using False w(2) base b by (auto simp: st)
      ultimately show ?thesis unfolding L x using ni by (simp add: Let_def)
    qed
  qed
next
  case False
  then have c: "(cmd AND 0x80 \<noteq> 0) = False" "\<not> stuck base (unat room) (cmd # args)" using cmd_bits(8) by (auto simp: stuck_def)
  have u: "unat (ucast cmd :: u64) = unat cmd" by (simp add: unsigned_ucast_eq take_bit_nat_eq_self order_less_le_trans [OF unsigned_less])
  show ?thesis
  proof (cases "cmd \<noteq> 0 \<and> unat cmd \<le> length args")
    case True
    let ?d = "take (unat cmd) args"
    have l: "length ?d = unat cmd" using True by simp
    have x: "next_op (cmd # args) = Some (Insert ?d, drop (unat cmd) args)" using True False by (simp add: next_op_def)
    have "wr_blk buf dp ?d = Some (take dp buf @ ?d @ drop (dp + unat cmd) buf)" if "unat cmd \<le> unat room"
      using l room that by (simp add: wr_blk_def)
    moreover have "room - word_of_nat (length ?d) = room - ucast cmd" by (simp only: l) simp
    ultimately show ?thesis unfolding x using True c by (simp add: Let_def word_less_nat_alt u l not_less [symmetric])
  next
    case False
    then show ?thesis using c \<open>\<not> bit cmd 7\<close> by (auto simp: next_op_def)
  qed
qed

lemma next_op_length: "next_op ds = Some (x, ds') \<Longrightarrow> length ds' < length ds"
proof -
  have f: "length ds' \<le> length ds" if "fetch ps ds = Some (xs, ds')" for ps ds xs ds'
    using that by (induction ps arbitrary: ds xs) (fastforce split: if_splits list.splits)+
  then have "length ds' \<le> length ds" if "copy_args cmd ds = Some (off, n, ds')" for cmd ds off n ds'
    using that by (auto simp: copy_args_def Let_def split: option.splits)
  then show "next_op ds = Some (x, ds') \<Longrightarrow> length ds' < length ds"
    by (fastforce simp: next_op_def split: list.splits if_splits)
qed

lemma reads_iff:
  "reads ds ops rest \<longleftrightarrow> (case ops of [] \<Rightarrow> rest = ds | x # ops' \<Rightarrow> \<exists>ds'. next_op ds = Some (x, ds') \<and> reads ds' ops' rest)"
  by (cases ops) (auto intro: reads.intros elim: reads_NilE reads_ConsE)

lemma inside_not_stuck:
  "length base < 2 ^ 31 \<Longrightarrow> next_op ds = Some (x, ds') \<Longrightarrow> inside base x \<Longrightarrow> \<not> stuck base k ds"
  by (auto simp: next_op_def stuck_def split: list.splits if_splits option.splits)

text \<open>What the loop does to instructions that are carried out one after the other.\<close>

definition carried_out :: "byte list \<Rightarrow> nat \<Rightarrow> delta_op list \<Rightarrow> bool" where
  "carried_out base k ops = (list_all (inside base) ops \<and> length (denote base ops) \<le> k)"

lemma carried_out_Cons:
  "carried_out base k (x # ops) \<longleftrightarrow> inside base x \<and> length (denote_op base x) \<le> k \<and> carried_out base (k - length (denote_op base x)) ops"
  by (auto simp: carried_out_def)

lemma loop_outcome:
  assumes "length base < 2 ^ 31" "dp + unat room \<le> length buf"
  shows "(delta_apply_loop base ds buf dp room = Some (Inr (buf', left)) \<longleftrightarrow>
      (\<exists>ops. reads ds ops [] \<and> carried_out base (unat room) ops \<and> left = room - word_of_nat (length (denote base ops)) \<and>
        buf' = take dp buf @ denote base ops @ drop (dp + length (denote base ops)) buf)) \<and>
    (delta_apply_loop base ds buf dp room = None \<longleftrightarrow>
      (\<exists>ops rest. reads ds ops rest \<and> carried_out base (unat room) ops \<and> stuck base (unat room - length (denote base ops)) rest))"
  using assms(2)
proof (induction "length ds" arbitrary: ds buf dp room rule: less_induct)
  case less
  show ?case
  proof (cases ds)
    case Nil
    have r: "reads [] ops rest \<longleftrightarrow> ops = [] \<and> rest = []" for ops rest
      by (subst reads_iff) (auto simp: next_op_def split: list.splits)
    show ?thesis unfolding Nil r by (auto simp: carried_out_def stuck_def)
  next
    case (Cons cmd args)
    note st = apply_loop_step [OF assms(1) less.prems, of cmd args, folded Cons]
    show ?thesis
    proof (cases "\<exists>x ds'. next_op ds = Some (x, ds') \<and> inside base x \<and> length (denote_op base x) \<le> unat room")
      case True
      then obtain x ds' where x: "next_op ds = Some (x, ds')" "inside base x" "length (denote_op base x) \<le> unat room" by blast
      define d where "d = denote_op base x"
      define buf1 where "buf1 = take dp buf @ d @ drop (dp + length d) buf"
      have L: "delta_apply_loop base ds buf dp room = delta_apply_loop base ds' buf1 (dp + length d) (room - word_of_nat (length d))"
        unfolding st x(1) using x(2,3) by (simp add: d_def buf1_def Let_def)
      have u: "unat (room - word_of_nat (length d)) = unat room - length d"
      proof -
        have "unat (word_of_nat (length d) :: u64) = length d" using x(3) unsigned_less [of room, where ?'a = nat] by (simp add: unat_word_of_nat64 d_def)
        then show ?thesis using x(3) by (simp add: unat_sub word_le_nat_alt d_def)
      qed
      have ld: "length d \<le> unat room" using x(3) by (simp add: d_def)
      have "dp + length d + unat (room - word_of_nat (length d)) \<le> length buf1" using less.prems ld by (simp add: u buf1_def)
      note IH = less.hyps [OF next_op_length [OF x(1)] this]
      have t: "take (dp + length d) buf1 = take dp buf @ d" "drop (dp + length d + k) buf1 = drop (dp + length d + k) buf" for k
        using less.prems ld by (simp_all add: buf1_def ac_simps)
      have nst: "\<not> stuck base k ds" for k using inside_not_stuck [OF assms(1) x(1,2)] .
      have r: "reads ds ops rest \<and> carried_out base (unat room) ops \<and> P ops rest \<longleftrightarrow>
          ops = [] \<and> rest = ds \<and> P [] ds \<or> (\<exists>ops'. ops = x # ops' \<and> reads ds' ops' rest \<and> carried_out base (unat room - length d) ops' \<and> P (x # ops') rest)" for ops rest P
        by (subst reads_iff) (use x in \<open>auto simp: carried_out_Cons d_def carried_out_def split: list.splits\<close>)
      have E: "(\<exists>ops. reads ds ops [] \<and> carried_out base (unat room) ops \<and> P ops) \<longleftrightarrow>
          (\<exists>ops. reads ds' ops [] \<and> carried_out base (unat room - length d) ops \<and> P (x # ops))" for P
        using r [of _ "[]" "\<lambda>ops _. P ops"] Cons by auto
      have S: "(\<exists>ops. reads ds ops [] \<and> carried_out base (unat room) ops \<and> left = room - word_of_nat (length (denote base ops)) \<and>
          buf' = take dp buf @ denote base ops @ drop (dp + length (denote base ops)) buf) \<longleftrightarrow>
        (\<exists>ops. reads ds' ops [] \<and> carried_out base (unat room - length d) ops \<and> left = room - word_of_nat (length d) - word_of_nat (length (denote base ops)) \<and>
          buf' = take (dp + length d) buf1 @ denote base ops @ drop (dp + length d + length (denote base ops)) buf1)"
        unfolding E t by (simp add: d_def ac_simps diff_diff_eq)
      have E2: "(\<exists>ops rest. reads ds ops rest \<and> carried_out base (unat room) ops \<and> P ops rest) \<longleftrightarrow>
          P [] ds \<or> (\<exists>ops rest. reads ds' ops rest \<and> carried_out base (unat room - length d) ops \<and> P (x # ops) rest)" for P
        using r [where P = P] by (metis (no_types, lifting))
      have N: "(\<exists>ops rest. reads ds ops rest \<and> carried_out base (unat room) ops \<and> stuck base (unat room - length (denote base ops)) rest) \<longleftrightarrow>
        (\<exists>ops rest. reads ds' ops rest \<and> carried_out base (unat room - length d) ops \<and> stuck base (unat room - length d - length (denote base ops)) rest)"
        unfolding E2 using nst by (simp add: d_def)
      show ?thesis using IH unfolding S N L u .
    next
      case False
      then have L: "delta_apply_loop base ds buf dp room = (if stuck base (unat room) ds then None else Some (Inl (-1)))"
        unfolding st by (cases "next_op ds") (auto simp: Let_def)
      have r: "reads ds ops rest \<and> carried_out base (unat room) ops \<longleftrightarrow> ops = [] \<and> rest = ds" for ops rest
        by (subst reads_iff) (use False in \<open>auto simp: carried_out_Cons carried_out_def split: list.splits\<close>)
      have E: "(\<exists>ops. reads ds ops [] \<and> carried_out base (unat room) ops \<and> P ops) \<longleftrightarrow> False" for P
        using r [of _ "[]"] Cons by (metis (no_types, lifting) list.distinct(1))
      have E2: "(\<exists>ops rest. reads ds ops rest \<and> carried_out base (unat room) ops \<and> P ops rest) \<longleftrightarrow> P [] ds" for P
        using r by (metis (no_types, lifting))
      show ?thesis unfolding L E E2 by simp
    qed
  qed
qed

end
