(* ===== verification/DeltaProps.thy ===== *)
theory DeltaProps
  imports DeltaEnc DeltaDecode
begin

text \<open>
  The properties of the delta codec (delta.c, delta.h, delta-apply.c), and what the decoder
  returns on arbitrary bytes.
\<close>

unbundle bit_operations_syntax

section \<open>Results of the decoder on arbitrary input\<close>

definition new_result :: "(nat \<Rightarrow> byte) \<Rightarrow> nat \<Rightarrow> byte list" where
  "new_result junk n = (map junk [0..<n + 1])[n := 0]"

lemma new_result_shape: "length (new_result junk n) = n + 1" "drop n (new_result junk n) = [0]"
  by (simp_all add: new_result_def drop_update_swap)

lemma apply_by_loop:
  assumes "hdr_sz delta = Some (Inr (word_of_nat (length base), d1))" "hdr_sz d1 = Some (Inr (len, body))"
    and "ok (unat len + 1)" "unat len + 1 < 2 ^ 64"
  shows "git__delta_apply junk ok out base delta = (case delta_apply_loop base body (new_result junk (unat len)) 0 len of
      None \<Rightarrow> None
    | Some (Inl _) \<Rightarrow> Some (-1, out\<lparr>robj_data := None, robj_len := len\<rparr>)
    | Some (Inr (buf, left)) \<Rightarrow> if left \<noteq> 0 then Some (-1, out\<lparr>robj_data := None, robj_len := len\<rparr>)
        else Some (0, out\<lparr>robj_data := Some buf, robj_len := len\<rparr>))"
proof -
  have u: "unat (len + 1) = unat len + 1" using assms(4) by (simp add: unat_word_ariths)
  have "wr (map junk [0..<unat (len + 1)]) (unat len) 0 = Some (new_result junk (unat len))" by (simp add: u new_result_def)
  then show "git__delta_apply junk ok out base delta = (case delta_apply_loop base body (new_result junk (unat len)) 0 len of
      None \<Rightarrow> None
    | Some (Inl _) \<Rightarrow> Some (-1, out\<lparr>robj_data := None, robj_len := len\<rparr>)
    | Some (Inr (buf, left)) \<Rightarrow> if left \<noteq> 0 then Some (-1, out\<lparr>robj_data := None, robj_len := len\<rparr>)
        else Some (0, out\<lparr>robj_data := Some buf, robj_len := len\<rparr>))"
    using assms(1-3) u by (simp add: git__delta_apply_def split: option.splits sum.splits)
qed

lemma apply_needs_header:
  assumes "git__delta_apply junk ok out base delta = Some (0, out')"
  shows "\<exists>d1 len body. hdr_sz delta = Some (Inr (word_of_nat (length base), d1)) \<and> hdr_sz d1 = Some (Inr (len, body)) \<and>
    ok (unat len + 1) \<and> unat len + 1 < 2 ^ 64"
proof -
  obtain d1 len body where h: "hdr_sz delta = Some (Inr (word_of_nat (length base), d1))" "hdr_sz d1 = Some (Inr (len, body))"
    "ok (unat (len + 1))" "unat len < unat (len + 1)"
    using assms by (auto simp: git__delta_apply_def wr_def split: Option.bind_splits sum.splits if_splits)
  have "1 + len \<noteq> 0" using h(4) by (auto simp: add.commute)
  then have "unat (len + 1) = unat len + 1" using unatSuc [of len] by (simp add: add.commute)
  moreover have "unat (len + 1) < 2 ^ 64" using unsigned_less [of "len + 1", where ?'a = nat] by simp
  ultimately show ?thesis using h by auto
qed

lemma git_delta_defined:
  assumes "length base < 2 ^ 31" "length trg < 2 ^ 28" "max_size < 2 ^ 32"
  shows "\<exists>r. git_delta ok base trg max_size = Some r \<and>
    (\<forall>d. r = Some d \<longrightarrow> length d \<le> 10 + 2 * length trg \<and> (max_size \<noteq> 0 \<longrightarrow> length d \<le> max_size)) \<and>
    ((\<forall>n. ok n) \<and> base \<noteq> [] \<and> trg \<noteq> [] \<and> max_size = 0 \<longrightarrow> r \<noteq> None)"
proof -
  have len: "length base < 2 ^ 32 - 1" using assms(1) by simp
  obtain r where r: "git_delta_create_index ok base = Some r" "\<And>ix. r = Some ix \<Longrightarrow> ix_ok base ix"
    "(\<forall>n. ok n) \<and> base \<noteq> [] \<Longrightarrow> r \<noteq> None"
    using create_index_ok [OF len, of ok] by blast
  consider "r = None" | "trg = []" | ix where "r = Some ix" "trg \<noteq> []" by blast
  then show ?thesis
  proof cases
    case 3
    then show ?thesis
      using git_delta_create_ok [OF r(2) [OF 3(1)] assms(1,2) 3(2) assms(3), of ok] r(1,3)
      by (auto simp: git_delta_def)
  qed (use r in \<open>auto simp: git_delta_def git_delta_create_def split: option.splits\<close>)
qed

section \<open>Properties\<close>

text \<open>C1: Delta compression is lossless.  Whatever delta git\_delta makes for a non-empty target
  below 256 MB from a reference below 2 GB, git\_\_delta\_apply on the reference and that delta
  succeeds and its result is exactly the target followed by the NUL byte; no access of either
  side leaves its buffer, and the stated length is the target's.\<close>

theorem delta_roundtrip:
  assumes "git_delta ok base trg max_size = Some (Some d)"
    and "length base < 2 ^ 31" "length trg < 2 ^ 28" "max_size < 2 ^ 32" "ok' (length trg + 1)"
  shows "git__delta_apply junk ok' out base d =
    Some (0, out\<lparr>robj_data := Some (trg @ [0]), robj_len := word_of_nat (length trg)\<rparr>)"
proof -
  have len: "length base < 2 ^ 32 - 1" using assms(2) by simp
  obtain index where ix: "git_delta_create_index ok base = Some (Some index)"
    and run: "git_delta_create ok index trg max_size = Some (Some d)"
    using assms(1) by (auto simp: git_delta_def split: Option.bind_splits option.splits)
  have ok: "ix_ok base index" using create_index_ok [OF len, of ok] ix by auto
  have trg: "trg \<noteq> []" using run by (auto simp: git_delta_create_def)
  obtain ops where "d = delta_hdr base trg @ enc_ops ops" "list_all (op_ok base) ops" "denote base ops = trg"
    using git_delta_create_ok [OF ok assms(2,3) trg assms(4), of ok] run by auto
  then show ?thesis
    using delta_apply_ops [of base ops ok' junk out] assms(2,3,5) by (simp add: delta_hdr_def)
qed

definition sample_base :: "byte list" where
  "sample_base = [1, 2, 3, 4, 5, 6, 7, 8, 9, 10, 11, 12, 13, 14, 15, 16, 17, 18, 19, 20]"

definition sample_trg :: "byte list" where
  "sample_trg = [9, 8, 1]"

lemma sample_delta: "\<exists>d. git_delta (\<lambda>n. True) sample_base sample_trg 0 = Some (Some d)"
  using git_delta_defined [of sample_base sample_trg 0 "\<lambda>n. True"]
  by (auto simp: sample_base_def sample_trg_def)

theorem delta_roundtrip_witness:
  "\<exists>d. git_delta (\<lambda>n. True) sample_base sample_trg 0 = Some (Some d) \<and>
    git__delta_apply (\<lambda>n. 7) (\<lambda>n. True) \<lparr>robj_data = None, robj_len = 0\<rparr> sample_base d =
      Some (0, \<lparr>robj_data = Some [9, 8, 1, 0], robj_len = 3\<rparr>)"
proof -
  obtain d where d: "git_delta (\<lambda>n. True) sample_base sample_trg 0 = Some (Some d)"
    using sample_delta by blast
  show ?thesis
    using delta_roundtrip [OF d, of "\<lambda>n. True" "\<lambda>n. 7" "\<lparr>robj_data = None, robj_len = 0\<rparr>"] d
    by (simp add: sample_base_def sample_trg_def)
qed

text \<open>C2: The encoder is total and bounded.  For every allocator, reference and target within the
  size limits, git\_delta returns without undefined behaviour (every access of the index, the tables,
  the reference, the target and the growing output buffer is inside its object, and the loop ends);
  a delta it returns has at most 10 + 2 * |target| bytes and respects max\_size; and it can only
  fail on an empty input, a failed allocation or the size limit.\<close>

theorem git_delta_total:
  assumes "length base < 2 ^ 31" "length trg < 2 ^ 28" "max_size < 2 ^ 32"
  shows "\<exists>r. git_delta ok base trg max_size = Some r \<and>
    (\<forall>d. r = Some d \<longrightarrow> length d \<le> 10 + 2 * length trg \<and> (max_size \<noteq> 0 \<longrightarrow> length d \<le> max_size)) \<and>
    ((\<forall>n. ok n) \<and> base \<noteq> [] \<and> trg \<noteq> [] \<and> max_size = 0 \<longrightarrow> r \<noteq> None)"
  using assms by (rule git_delta_defined)

theorem git_delta_total_witness:
  "\<exists>r. git_delta (\<lambda>n. True) sample_base sample_trg 0 = Some r \<and> r \<noteq> None"
  using git_delta_total [of sample_base sample_trg 0 "\<lambda>n. True"]
  by (auto simp: sample_base_def sample_trg_def)

text \<open>C3: The decoder implements the instruction semantics.  On the encoding of any list of
  instructions that are valid for the base (copies inside it of 1 to 65536 bytes from an offset
  below 2 GB, inserts of 1 to 127 bytes), git\_\_delta\_apply returns what the list denotes.\<close>

theorem delta_apply_denotes:
  assumes "list_all (op_ok base) ops" "length base < 2 ^ 32" "length (denote base ops) < 2 ^ 32"
    and "ok (length (denote base ops) + 1)"
  shows "git__delta_apply junk ok out base
           (enc_size (length base) @ enc_size (length (denote base ops)) @ enc_ops ops) =
         Some (0, out\<lparr>robj_data := Some (denote base ops @ [0]),
                      robj_len := word_of_nat (length (denote base ops))\<rparr>)"
  using assms by (rule delta_apply_ops)

definition sample_ops :: "delta_op list" where
  "sample_ops = [Copy 2 5, Insert [0, 7]]"

lemma sample_base_length: "length sample_base = 20"
  by (simp add: sample_base_def)

lemma sample_ops_ok: "list_all (op_ok sample_base) sample_ops" "denote sample_base sample_ops = [3, 4, 5, 6, 7, 0, 7]"
  by (simp_all add: sample_ops_def sample_base_def)

theorem delta_apply_denotes_witness:
  "git__delta_apply (\<lambda>n. 7) (\<lambda>n. True) \<lparr>robj_data = None, robj_len = 0\<rparr> sample_base
      (enc_size 20 @ enc_size (length [3, 4, 5, 6, 7, 0, 7 :: byte]) @ enc_ops sample_ops) =
    Some (0, \<lparr>robj_data = Some [3, 4, 5, 6, 7, 0, 7, 0], robj_len = 7\<rparr>)"
  using delta_apply_denotes [OF sample_ops_ok(1), of "\<lambda>n. True" "\<lambda>n. 7" "\<lparr>robj_data = None, robj_len = 0\<rparr>",
      unfolded sample_ops_ok(2) sample_base_length]
  by simp

text \<open>C4: The decoder accepts exactly the complete and valid deltas.  For arbitrary bytes and a base below 2 GB,
  git\_\_delta\_apply succeeds if and only if the header states the size of the base, the bytes behind it spell a list of
  instructions to the last byte, all copies lie inside of the base, and what the list denotes has exactly the size in the
  header (and the result can be allocated); the result is what the list denotes with a NUL behind it.\<close>

theorem delta_apply_success:
  assumes "length base < 2 ^ 31"
  shows "git__delta_apply junk ok out base delta = Some (0, out') \<longleftrightarrow>
    (\<exists>d1 len body ops. hdr_sz delta = Some (Inr (word_of_nat (length base), d1)) \<and> hdr_sz d1 = Some (Inr (len, body)) \<and>
      reads body ops [] \<and> list_all (inside base) ops \<and> length (denote base ops) = unat len \<and>
      unat len + 1 < 2 ^ 64 \<and> ok (unat len + 1) \<and>
      out' = out\<lparr>robj_data := Some (denote base ops @ [0]), robj_len := len\<rparr>)" (is "?L \<longleftrightarrow> ?R")
proof
  assume ?L
  then obtain d1 len body where h: "hdr_sz delta = Some (Inr (word_of_nat (length base), d1))" "hdr_sz d1 = Some (Inr (len, body))"
    "ok (unat len + 1)" "unat len + 1 < 2 ^ 64" using apply_needs_header by blast
  note l = apply_by_loop [where ok = ok, OF h, of junk out]
  obtain buf where b: "delta_apply_loop base body (new_result junk (unat len)) 0 len = Some (Inr (buf, 0))"
    "out' = out\<lparr>robj_data := Some buf, robj_len := len\<rparr>"
    using \<open>?L\<close> unfolding l by (auto split: option.splits sum.splits prod.splits if_splits)
  obtain ops where o: "reads body ops []" "carried_out base (unat len) ops" "0 = len - word_of_nat (length (denote base ops))"
    "buf = denote base ops @ drop (length (denote base ops)) (new_result junk (unat len))"
    using b(1) loop_outcome [OF assms, of 0 len "new_result junk (unat len)" body buf 0] new_result_shape by auto
  have "length (denote base ops) = unat len"
    using o(2,3) h(4) unat_word_of_nat64 [of "length (denote base ops)"] by (auto simp: carried_out_def)
  then show ?R using h o b(2) new_result_shape by (auto simp: carried_out_def)
next
  assume ?R
  then obtain d1 len body ops where h: "hdr_sz delta = Some (Inr (word_of_nat (length base), d1))" "hdr_sz d1 = Some (Inr (len, body))"
    "ok (unat len + 1)" "unat len + 1 < 2 ^ 64"
    and o: "reads body ops []" "list_all (inside base) ops" "length (denote base ops) = unat len"
      "out' = out\<lparr>robj_data := Some (denote base ops @ [0]), robj_len := len\<rparr>" by blast
  note l = apply_by_loop [where ok = ok, OF h, of junk out]
  have "delta_apply_loop base body (new_result junk (unat len)) 0 len = Some (Inr (denote base ops @ [0], 0))"
    using loop_outcome [OF assms, of 0 len "new_result junk (unat len)" body "denote base ops @ [0]" 0] new_result_shape o
    by (auto simp: carried_out_def)
  then show ?L unfolding l using o(4) by simp
qed

lemma sample_header: "hdr_sz [20, 2, 2, 5, 6] = Some (Inr (20, [2, 2, 5, 6]))" "hdr_sz [2, 2, 5, 6] = Some (Inr (2, [2, 5, 6]))"
  by code_simp+

theorem delta_apply_success_witness:
  "git__delta_apply (\<lambda>n. 7) (\<lambda>n. True) \<lparr>robj_data = None, robj_len = 0\<rparr> sample_base [20, 2, 2, 5, 6] =
    Some (0, \<lparr>robj_data = Some [5, 6, 0], robj_len = 2\<rparr>)"
proof -
  have "next_op [2, 5, 6] = Some (Insert [5, 6], [])" by code_simp
  then have r: "reads [2, 5, 6] [Insert [5, 6]] []" by (rule reads_Cons) (rule reads_Nil)
  have l: "length sample_base < 2 ^ 31" by (simp add: sample_base_length)
  show ?thesis unfolding delta_apply_success [OF l]
    by (rule exI [of _ "[2, 2, 5, 6]"], rule exI [of _ 2], rule exI [of _ "[2, 5, 6]"], rule exI [of _ "[Insert [5, 6]]"])
      (use r sample_header in \<open>simp add: sample_base_length\<close>)
qed

text \<open>C5: When the decoder leaves its memory, the shift of a byte into the sign of an int being taken as compilers do it.  Behind a header that states the size of a base below 2 GB, for a result that can be
  allocated, git\_\_delta\_apply has undefined behaviour if and only if after some instructions that can be carried out the next
  one is a copy whose argument bytes are missing, which reads behind the delta, or a copy of no more than the rest of the result with
  an offset of 2 to the 31 or more that passes the bounds check because it is sign extended and the end off + len wraps to
  at most the size of the base, which reads in front of the base.  Everything else is carried out or refused.\<close>

theorem delta_apply_unsafe:
  assumes "length base < 2 ^ 31" "hdr_sz delta = Some (Inr (word_of_nat (length base), d1))" "hdr_sz d1 = Some (Inr (len, body))"
    and "ok (unat len + 1)" "unat len + 1 < 2 ^ 64"
  shows "git__delta_apply junk ok out base delta = None \<longleftrightarrow>
    (\<exists>ops cmd args. reads body ops (cmd # args) \<and> list_all (inside base) ops \<and> length (denote base ops) \<le> unat len \<and> bit cmd 7 \<and>
      (case copy_args cmd args of
         None \<Rightarrow> True
       | Some (off, n, _) \<Rightarrow> length (denote base ops) + n \<le> unat len \<and>
           2 ^ 31 \<le> off \<and> 2 ^ 32 \<le> off + n \<and> off + n - 2 ^ 32 \<le> length base))"
proof -
  note l = apply_by_loop [where ok = ok, OF assms(2-5), of junk out]
  have e: "carried_out base (unat len) ops \<and> stuck base (unat len - length (denote base ops)) (cmd # args) \<longleftrightarrow>
      list_all (inside base) ops \<and> length (denote base ops) \<le> unat len \<and> bit cmd 7 \<and>
      (case copy_args cmd args of
         None \<Rightarrow> True
       | Some (off, n, _) \<Rightarrow> length (denote base ops) + n \<le> unat len \<and>
           2 ^ 31 \<le> off \<and> 2 ^ 32 \<le> off + n \<and> off + n - 2 ^ 32 \<le> length base)" for ops cmd args
    by (cases "copy_args cmd args") (auto simp: carried_out_def stuck_def)
  have "git__delta_apply junk ok out base delta = None \<longleftrightarrow>
      delta_apply_loop base body (new_result junk (unat len)) 0 len = None"
    unfolding l by (auto split: option.splits sum.splits prod.splits)
  also have "\<dots> \<longleftrightarrow> (\<exists>ops rest. reads body ops rest \<and> carried_out base (unat len) ops \<and> stuck base (unat len - length (denote base ops)) rest)"
    using loop_outcome [OF assms(1), of 0 len "new_result junk (unat len)" body] new_result_shape by auto
  also have "\<dots> \<longleftrightarrow> (\<exists>ops cmd args. reads body ops (cmd # args) \<and> carried_out base (unat len) ops \<and> stuck base (unat len - length (denote base ops)) (cmd # args))"
    by (metis (no_types, lifting) list.exhaust list.simps(4) stuck_def)
  finally show ?thesis unfolding e .
qed

theorem delta_apply_unsafe_witness:
  "git__delta_apply (\<lambda>n. 7) (\<lambda>n. True) \<lparr>robj_data = None, robj_len = 0\<rparr> [1, 2, 3, 4] [4, 1, 0x9f, 0xff, 0xff, 0xff, 0xff, 1] = None \<and>
   git__delta_apply (\<lambda>n. 7) (\<lambda>n. True) \<lparr>robj_data = None, robj_len = 0\<rparr> [1, 2, 3, 4] [4, 1, 0x91, 0] = None"
proof -
  have h: "hdr_sz [4, 1, 0x9f, 0xff, 0xff, 0xff, 0xff, 1] = Some (Inr (word_of_nat (length [1, 2, 3, 4 :: byte]), [1, 0x9f, 0xff, 0xff, 0xff, 0xff, 1]))"
    "hdr_sz [1, 0x9f, 0xff, 0xff, 0xff, 0xff, 1] = Some (Inr (1, [0x9f, 0xff, 0xff, 0xff, 0xff, 1]))"
    "hdr_sz [4, 1, 0x91, 0] = Some (Inr (word_of_nat (length [1, 2, 3, 4 :: byte]), [1, 0x91, 0]))" "hdr_sz [1, 0x91, 0] = Some (Inr (1, [0x91, 0]))"
    by (simp_all add: hdr_sz_def)
  have b: "bit (0x9f :: byte) 7" "bit (0x91 :: byte) 7" by simp_all
  have c: "copy_args 0x9f [0xff, 0xff, 0xff, 0xff, 1] = Some (2 ^ 32 - 1, 1, [])" "copy_args 0x91 [0] = None"
    by (simp_all add: copy_args_bind opt_byte_def)
  have s: "length [1, 2, 3, 4 :: byte] < 2 ^ 31" "unat (1 :: u64) + 1 < 2 ^ 64" by simp_all
  show ?thesis
    unfolding delta_apply_unsafe [OF s(1) h(1,2) TrueI s(2)] delta_apply_unsafe [OF s(1) h(3,4) TrueI s(2)]
    using reads_Nil b c by (intro conjI exI [of _ "[]"]) (fastforce simp: denote_def)+
qed

text \<open>Culling of long hash chains.  A bucket of fewer than 64 entries is left alone; one of 64
  to 127 entries is reduced to its first entry only (the skip count 0 is decremented before it is
  tested), and one of 128 to 255 entries is not culled at all, although the comment asks for a
  uniform culling down to the limit.\<close>

theorem cull_bucket_sizes:
  "(cnt < 64 \<longrightarrow> cull_bucket cnt xs = xs) \<and>
   (64 \<le> cnt \<and> cnt < 128 \<and> xs \<noteq> [] \<longrightarrow> cull_bucket cnt xs = [hd xs]) \<and>
   (128 \<le> cnt \<and> cnt < 256 \<longrightarrow> cull_bucket cnt xs = xs)"
proof -
  have skip: "k \<le> 0 \<Longrightarrow> cull_skip k ys = []" for k :: int and ys :: "'a list"
    by (induction ys arbitrary: k) (subst cull_skip.simps; simp)+
  have one': "cull_skip 1 ys = ys" for ys :: "'a list" by (simp add: cull_skip.simps)
  have one: "cull_chain 1 ys = ys" for ys :: "'a list" by (induction ys) (simp_all add: one')
  have "cnt div hash_limit div 2 = 0" if "cnt < 128" using that div_mult2_eq [of cnt 64 2] by (simp add: hash_limit_def)
  moreover have "cnt div hash_limit div 2 = 1" if "128 \<le> cnt" "cnt < 256"
    using that div_mult2_eq [of cnt 64 2] by (simp add: hash_limit_def)
  ultimately show ?thesis
    by (cases xs) (auto simp: cull_bucket_def skip one one' hash_limit_def)
qed

theorem cull_bucket_sizes_witness: "cull_bucket 64 [0 ..< 64] = [0 :: nat]"
  using cull_bucket_sizes [of 64 "[0 ..< 64]"] by (simp add: upt_rec [of 0])

end
