(* ===== verification/Comparators.thy ===== *)
theory Comparators
  imports Prelude
begin

text \<open>
  The comparison contract between the sorting and searching routines and their callers, what it
  means to be sorted for it, and git\_\_bsearch and git\_\_bsearch\_r of
  todo-later/libgit2/src/util.c.
\<close>

section \<open>The contract of a comparison function\<close>

locale cmp_order =
  fixes cmp :: "'a \<Rightarrow> 'a \<Rightarrow> int"
  assumes cmp_anti: "sgn (cmp x y) = - sgn (cmp y x)"
    and cmp_trans: "cmp x y \<le> 0 \<Longrightarrow> cmp y z \<le> 0 \<Longrightarrow> cmp x z \<le> 0"
begin

lemma cmp_refl [simp]: "cmp x x = 0"
  using cmp_anti [of x x] by (simp add: sgn_if split: if_splits)

lemma cmp_flip: "cmp x y \<le> 0 \<longleftrightarrow> 0 \<le> cmp y x" "cmp x y < 0 \<longleftrightarrow> 0 < cmp y x" "cmp x y = 0 \<longleftrightarrow> cmp y x = 0"
  using cmp_anti [of x y] by (auto simp: sgn_if split: if_splits)

lemma cmp_total: "cmp x y \<le> 0 \<or> cmp y x \<le> 0"
  using cmp_flip [of x y] by linarith

lemma cmp_less_le: "cmp x y < 0 \<Longrightarrow> cmp y z \<le> 0 \<Longrightarrow> cmp x z < 0"
  using cmp_trans [of z x y] cmp_trans [of y z x] cmp_flip by (smt (verit))

lemma cmp_le_less: "cmp x y \<le> 0 \<Longrightarrow> cmp y z < 0 \<Longrightarrow> cmp x z < 0"
  using cmp_trans [of z x y] cmp_flip by (smt (verit))

lemma cmp_eq_cong: "cmp x y = 0 \<Longrightarrow> cmp x z \<le> 0 \<longleftrightarrow> cmp y z \<le> 0"
  using cmp_trans [of x y z] cmp_trans [of y x z] cmp_flip(3) [of x y] by auto

end

text \<open>Sorted for a comparison, and the same elements with equal ones in the same order.\<close>

definition csorted :: "('a \<Rightarrow> 'a \<Rightarrow> int) \<Rightarrow> 'a list \<Rightarrow> bool" where
  "csorted cmp xs = sorted_wrt (\<lambda>x y. cmp x y \<le> 0) xs"

definition cls_eq :: "('a \<Rightarrow> 'a \<Rightarrow> int) \<Rightarrow> 'a list \<Rightarrow> 'a list \<Rightarrow> bool" where
  "cls_eq cmp xs ys \<longleftrightarrow> (\<forall>x. filter (\<lambda>y. cmp x y = 0) xs = filter (\<lambda>y. cmp x y = 0) ys)"

lemma csorted_append:
  "csorted cmp (xs @ ys) \<longleftrightarrow> csorted cmp xs \<and> csorted cmp ys \<and> (\<forall>x\<in>set xs. \<forall>y\<in>set ys. cmp x y \<le> 0)"
  by (simp add: csorted_def sorted_wrt_append)

lemma csorted_Cons: "csorted cmp (x # xs) \<longleftrightarrow> csorted cmp xs \<and> (\<forall>y\<in>set xs. cmp x y \<le> 0)"
  by (auto simp: csorted_def)

lemma csorted_Nil [simp]: "csorted cmp []"
  by (simp add: csorted_def)

lemma csorted_single [simp]: "csorted cmp [x]"
  by (simp add: csorted_def)

lemma csorted_nth: "csorted cmp xs \<Longrightarrow> i < j \<Longrightarrow> j < length xs \<Longrightarrow> cmp (xs ! i) (xs ! j) \<le> 0"
  unfolding csorted_def by (rule sorted_wrt_nth_less [where P = "\<lambda>x y. cmp x y \<le> 0"])

lemma cls_eq_refl [simp]: "cls_eq cmp xs xs"
  by (simp add: cls_eq_def)

lemma cls_eq_trans: "cls_eq cmp xs ys \<Longrightarrow> cls_eq cmp ys zs \<Longrightarrow> cls_eq cmp xs zs"
  by (simp add: cls_eq_def)

lemma cls_eq_append: "cls_eq cmp xs ys \<Longrightarrow> cls_eq cmp xs' ys' \<Longrightarrow> cls_eq cmp (xs @ xs') (ys @ ys')"
  by (simp add: cls_eq_def)

context cmp_order
begin

lemma csorted_snoc: "csorted cmp (xs @ [x]) \<longleftrightarrow> csorted cmp xs \<and> (xs = [] \<or> cmp (last xs) x \<le> 0)"
proof (cases xs rule: rev_cases)
  case (snoc ys y)
  show ?thesis
  proof
    assume *: "csorted cmp xs \<and> (xs = [] \<or> cmp (last xs) x \<le> 0)"
    then have "cmp z x \<le> 0" if "z \<in> set xs" for z
      using that snoc cmp_trans [of z y x] by (auto simp: csorted_append)
    then show "csorted cmp (xs @ [x])" using * by (simp add: csorted_append)
  qed (auto simp: csorted_append csorted_Cons snoc)
qed simp

lemma csorted_Cons_hd: "csorted cmp (x # xs) \<longleftrightarrow> csorted cmp xs \<and> (xs = [] \<or> cmp x (hd xs) \<le> 0)"
  by (cases xs) (auto simp: csorted_Cons intro: cmp_trans)

lemma cls_eq_mset: "cls_eq cmp xs ys \<Longrightarrow> mset xs = mset ys"
proof (rule multiset_eqI)
  fix a assume "cls_eq cmp xs ys"
  then have f: "filter (\<lambda>y. cmp a y = 0) xs = filter (\<lambda>y. cmp a y = 0) ys" by (simp add: cls_eq_def)
  have "count (mset zs) a = count (mset (filter (\<lambda>y. cmp a y = 0) zs)) a" for zs
    by simp
  with f show "count (mset xs) a = count (mset ys) a" by metis
qed

text \<open>Elements that are never equal can be swapped.\<close>

lemma cls_eq_swap:
  assumes "\<And>x y. x \<in> set xs \<Longrightarrow> y \<in> set ys \<Longrightarrow> cmp x y \<noteq> 0"
  shows "cls_eq cmp (xs @ ys) (ys @ xs)"
proof -
  have "filter (\<lambda>y. cmp a y = 0) xs = [] \<or> filter (\<lambda>y. cmp a y = 0) ys = []" for a
  proof (rule ccontr)
    assume "\<not> ?thesis"
    then obtain x y where "x \<in> set xs" "y \<in> set ys" "cmp a x = 0" "cmp a y = 0"
      by (auto simp: filter_empty_conv)
    moreover have "cmp x y = 0"
      using calculation(3,4) cmp_eq_cong [of a x y] cmp_eq_cong [of a y x] cmp_flip by (smt (verit))
    ultimately show False using assms by blast
  qed
  then show ?thesis unfolding cls_eq_def filter_append by (metis append.right_neutral append_Nil)
qed

lemma csorted_strict_rev:
  assumes "sorted_wrt (\<lambda>x y. 0 < cmp x y) xs"
  shows "csorted cmp (rev xs)" "cls_eq cmp xs (rev xs)"
proof -
  have "sorted_wrt (\<lambda>x y. 0 < cmp y x) (rev xs)" using assms by (simp add: sorted_wrt_rev)
  then show "csorted cmp (rev xs)" unfolding csorted_def
    by (rule sorted_wrt_mono_rel [rotated]) (use cmp_flip in \<open>simp add: order_less_imp_le\<close>)
  show "cls_eq cmp xs (rev xs)" using assms
  proof (induction xs)
    case (Cons x xs)
    then have "cls_eq cmp ([x] @ xs) (xs @ [x])" by (intro cls_eq_swap) fastforce
    moreover have "cls_eq cmp (xs @ [x]) (rev xs @ [x])" using Cons by (intro cls_eq_append) auto
    ultimately show ?case using cls_eq_trans by fastforce
  qed simp
qed

end

section \<open>Binary search (util.c)\<close>

definition GIT_ENOTFOUND :: int where
  "GIT_ENOTFOUND = -3"

text \<open>
  The loop of git\_\_bsearch: base is the offset of the pointer base in the array, and the result is
  the final base with the last comparison.
\<close>

function bsearch_loop ::
  "('k \<Rightarrow> 'a \<Rightarrow> int) \<Rightarrow> 'a list \<Rightarrow> 'k \<Rightarrow> nat \<Rightarrow> nat \<Rightarrow> int \<Rightarrow> (nat \<times> int) option" where
  "bsearch_loop compare arr key base lim c =
     (if lim = 0 then Some (base, c)
      else Option.bind (rd arr (base + lim div 2)) (\<lambda>part.
        if compare key part = 0 then Some (base + lim div 2, 0)
        else if 0 < compare key part then
          bsearch_loop compare arr key (base + lim div 2 + 1) ((lim - 1) div 2) (compare key part)
        else bsearch_loop compare arr key base (lim div 2) (compare key part)))"
  by pat_completeness auto
termination
  by (relation "measure (\<lambda>(compare, arr, key, base, lim, c). lim)") auto

declare bsearch_loop.simps [simp del]

definition git__bsearch ::
  "'a list \<Rightarrow> nat \<Rightarrow> 'k \<Rightarrow> ('k \<Rightarrow> 'a \<Rightarrow> int) \<Rightarrow> (int \<times> nat) option" where
  "git__bsearch array array_len key compare = do {
     (base, c) \<leftarrow> bsearch_loop compare array key 0 array_len (-1);
     Some (if c = 0 then 0 else GIT_ENOTFOUND, base)}"

definition git__bsearch_r ::
  "'a list \<Rightarrow> nat \<Rightarrow> 'k \<Rightarrow> ('k \<Rightarrow> 'a \<Rightarrow> 'p \<Rightarrow> int) \<Rightarrow> 'p \<Rightarrow> (int \<times> nat) option" where
  "git__bsearch_r array array_len key compare_r payload = do {
     (base, c) \<leftarrow> bsearch_loop (\<lambda>k x. compare_r k x payload) array key 0 array_len (-1);
     Some (if c = 0 then 0 else GIT_ENOTFOUND, base)}"

text \<open>What the search needs: the comparison with the key is positive, then zero, then negative.\<close>

definition key_sorted :: "('k \<Rightarrow> 'a \<Rightarrow> int) \<Rightarrow> 'k \<Rightarrow> 'a list \<Rightarrow> bool" where
  "key_sorted compare key xs = sorted_wrt (\<lambda>x y. sgn (compare key y) \<le> sgn (compare key x)) xs"

text \<open>A position that splits the array: everything before it is below the key, the rest above.\<close>

definition splits_at :: "('k \<Rightarrow> 'a \<Rightarrow> int) \<Rightarrow> 'k \<Rightarrow> 'a list \<Rightarrow> nat \<Rightarrow> bool" where
  "splits_at compare key xs p \<longleftrightarrow>
     p \<le> length xs \<and> list_all (\<lambda>x. 0 < compare key x) (take p xs) \<and> list_all (\<lambda>x. compare key x < 0) (drop p xs)"

lemma key_sorted_nth:
  "key_sorted compare key xs \<Longrightarrow> i \<le> j \<Longrightarrow> j < length xs \<Longrightarrow>
   sgn (compare key (xs ! j)) \<le> sgn (compare key (xs ! i))"
  unfolding key_sorted_def
  by (cases "i = j")
    (auto intro: sorted_wrt_nth_less [where P = "\<lambda>x y. sgn (compare key y) \<le> sgn (compare key x)"])

lemma bsearch_loop_ok:
  assumes "key_sorted compare key arr" "base + lim \<le> length arr" "c \<noteq> 0"
    and "\<forall>i < base. 0 < compare key (arr ! i)"
    and "\<forall>i < length arr. base + lim \<le> i \<longrightarrow> compare key (arr ! i) < 0"
  shows "\<exists>p c'. bsearch_loop compare arr key base lim c = Some (p, c') \<and>
    (c' = 0 \<longrightarrow> p < length arr \<and> compare key (arr ! p) = 0) \<and> (c' \<noteq> 0 \<longrightarrow> splits_at compare key arr p)"
  using assms
proof (induction compare arr key base lim c rule: bsearch_loop.induct)
  case (1 compare arr key base lim c)
  show ?case
  proof (cases "lim = 0")
    case True
    then show ?thesis
      using 1(4-) by (auto simp: bsearch_loop.simps splits_at_def list_all_length nth_append)
  next
    case False
    let ?m = "base + lim div 2"
    have m: "?m < length arr" using 1(4) False by auto
    note ks = key_sorted_nth [OF 1(3)]
    consider "compare key (arr ! ?m) = 0" | "0 < compare key (arr ! ?m)" | "compare key (arr ! ?m) < 0"
      by linarith
    then show ?thesis
    proof cases
      case 1
      then show ?thesis using m False by (subst bsearch_loop.simps) simp
    next
      case 2
      have low: "\<forall>i < ?m + 1. 0 < compare key (arr ! i)"
      proof (intro allI impI)
        fix i assume "i < ?m + 1"
        then have "sgn (compare key (arr ! ?m)) \<le> sgn (compare key (arr ! i))" using ks m by simp
        with 2 show "0 < compare key (arr ! i)" by (simp add: sgn_if split: if_splits)
      qed
      have e: "?m + 1 + (lim - 1) div 2 = base + lim" using False by presburger
      show ?thesis
        using "1.IH"(1) [OF False rd_in [OF m] _ 2 "1.prems"(1)] 2 m False "1.prems"(2,5) low e
        by (subst bsearch_loop.simps) simp
    next
      case 3
      have not: "\<not> 0 < compare key (arr ! ?m)" "compare key (arr ! ?m) \<noteq> 0" using 3 by simp_all
      have high: "\<forall>i < length arr. ?m \<le> i \<longrightarrow> compare key (arr ! i) < 0"
      proof (intro allI impI)
        fix i assume "i < length arr" "?m \<le> i"
        then have "sgn (compare key (arr ! i)) \<le> sgn (compare key (arr ! ?m))" using ks by simp
        with 3 show "compare key (arr ! i) < 0" by (simp add: sgn_if split: if_splits)
      qed
      show ?thesis
        using "1.IH"(2) [OF False rd_in [OF m] _ _ "1.prems"(1)] not m False "1.prems"(2,4) high
        by (subst bsearch_loop.simps) simp
    qed
  qed
qed

lemma bsearch_ok:
  assumes "key_sorted compare key arr"
  shows "\<exists>rc p. git__bsearch arr (length arr) key compare = Some (rc, p) \<and>
    (rc = 0 \<and> p < length arr \<and> compare key (arr ! p) = 0 \<or>
     rc = GIT_ENOTFOUND \<and> splits_at compare key arr p)"
  using bsearch_loop_ok [OF assms, of 0 "length arr" "-1"]
  by (force simp: git__bsearch_def)

context cmp_order
begin

lemma csorted_key_sorted: "csorted cmp xs \<Longrightarrow> key_sorted cmp key xs"
  unfolding csorted_def key_sorted_def
proof (rule sorted_wrt_mono_rel [rotated])
  fix x y assume "cmp x y \<le> 0"
  then show "sgn (cmp key y) \<le> sgn (cmp key x)"
    using cmp_trans [of key x y] cmp_less_le [of key x y] cmp_flip by (smt (verit) sgn_if)
qed

lemma bsearch_member:
  assumes "csorted cmp xs" "x \<in> set xs"
  shows "\<exists>p. git__bsearch xs (length xs) x cmp = Some (0, p) \<and> p < length xs \<and> cmp x (xs ! p) = 0"
proof -
  have "x \<in> set (take p xs @ drop p xs)" for p using assms(2) by simp
  then have mem: "x \<in> set (take p xs) \<or> x \<in> set (drop p xs)" for p by (simp only: set_append Un_iff)
  have "\<not> splits_at cmp x xs p" for p
  proof
    assume "splits_at cmp x xs p"
    then have "list_all (\<lambda>y. 0 < cmp x y) (take p xs)" "list_all (\<lambda>y. cmp x y < 0) (drop p xs)"
      by (simp_all add: splits_at_def)
    with mem [of p] have "0 < cmp x x \<or> cmp x x < 0" unfolding list_all_iff by blast
    then show False by simp
  qed
  then show ?thesis using bsearch_ok [OF csorted_key_sorted [OF assms(1)], of x] by blast
qed

lemma insert_at_split:
  assumes "csorted cmp xs" "splits_at cmp x xs p \<or> p < length xs \<and> cmp x (xs ! p) = 0"
  shows "csorted cmp (take p xs @ x # drop p xs)"
proof -
  have le: "cmp y x \<le> 0" if y: "y \<in> set (take p xs)" for y
  proof (cases "splits_at cmp x xs p")
    case True
    then have "0 < cmp x y" using y by (simp add: splits_at_def list_all_iff)
    then show ?thesis using cmp_flip(1) [of y x] by simp
  next
    case False
    with assms have p: "p < length xs" "cmp x (xs ! p) = 0" by auto
    obtain i where i: "y = xs ! i" "i < p" using in_set_take_nth [OF y] by blast
    have "cmp y (xs ! p) \<le> 0" using csorted_nth [OF assms(1) i(2) p(1)] i by simp
    moreover have "cmp (xs ! p) x = 0" using p(2) cmp_flip(3) [of x] by simp
    ultimately show ?thesis using cmp_trans [of y "xs ! p" x] by simp
  qed
  have ge: "cmp x y \<le> 0" if y: "y \<in> set (drop p xs)" for y
  proof (cases "splits_at cmp x xs p")
    case True
    with y show ?thesis by (auto simp: splits_at_def list_all_iff less_imp_le)
  next
    case False
    with assms have p: "p < length xs" "cmp x (xs ! p) = 0" by auto
    obtain i where i: "y = xs ! (p + i)" "p + i < length xs"
      using in_set_drop_nth [OF y] by (metis add.commute)
    then have "cmp (xs ! p) y \<le> 0"
      using csorted_nth [OF assms(1), of p "p + i"] by (cases "i = 0") auto
    then show ?thesis using p cmp_trans [of x "xs ! p" y] by simp
  qed
  have s: "csorted cmp (take p xs @ drop p xs)" using assms(1) by simp
  show ?thesis unfolding csorted_append csorted_Cons
    using s [unfolded csorted_append] le ge by auto
qed

end

end
