(* ===== verification/Tsort.thy ===== *)
theory Tsort
  imports Comparators
begin

text \<open>
  git\_\_tsort of todo-later/libgit2/src/tsort.c: binary insertion sort, runs, the run stack, the
  merges through temporary storage, and the driver.  The array is a list; &dst[curr] is the list
  from that position.  The int positions of binsearch and bisort are nat: they are only used on
  fewer than 2^31 elements (at most 64 when called from the driver).
\<close>

section \<open>Binary insertion sort\<close>

text \<open>Advancing over elements equal to x.\<close>

function skip_equal :: "('a \<Rightarrow> 'a \<Rightarrow> int) \<Rightarrow> 'a list \<Rightarrow> 'a \<Rightarrow> nat \<Rightarrow> nat option" where
  "skip_equal cmp dst x i =
     Option.bind (rd dst i) (\<lambda>y. if cmp x y = 0 then skip_equal cmp dst x (i + 1) else Some i)"
  by pat_completeness auto
termination
  by (relation "measure (\<lambda>(cmp, dst, x, i). length dst - i)") (auto simp: mem_simps)

declare skip_equal.simps [simp del]

text \<open>The loop of binsearch; c is recomputed from l and r at the head of each round.\<close>

function binsearch_loop :: "('a \<Rightarrow> 'a \<Rightarrow> int) \<Rightarrow> 'a list \<Rightarrow> 'a \<Rightarrow> nat \<Rightarrow> nat \<Rightarrow> nat option" where
  "binsearch_loop cmp dst x l r =
     Option.bind (rd dst (l + (r - l) div 2)) (\<lambda>cx.
       if cmp x cx < 0 then
         (if (l + (r - l) div 2) - l \<le> 1 then Some (l + (r - l) div 2)
          else binsearch_loop cmp dst x l (l + (r - l) div 2))
       else if 0 < cmp x cx then
         (if r - (l + (r - l) div 2) \<le> 1 then Some (l + (r - l) div 2 + 1)
          else binsearch_loop cmp dst x (l + (r - l) div 2) r)
       else skip_equal cmp dst x (l + (r - l) div 2 + 1))"
  by pat_completeness auto
termination
  by (relation "measure (\<lambda>(cmp, dst, x, l, r). r - l)") auto

declare binsearch_loop.simps [simp del]

definition binsearch :: "('a \<Rightarrow> 'a \<Rightarrow> int) \<Rightarrow> 'a list \<Rightarrow> 'a \<Rightarrow> nat \<Rightarrow> nat option" where
  "binsearch cmp dst x sz =
     (if sz = 0 then None
      else do {
        lx \<leftarrow> rd dst 0;
        (if cmp x lx < 0 then Some 0
         else if cmp x lx = 0 then skip_equal cmp dst x 1
         else binsearch_loop cmp dst x 0 (sz - 1))})"

text \<open>for (j = i - 1; j >= location; j--) dst[j + 1] = dst[j], n rounds.\<close>

primrec shift_right :: "'a list \<Rightarrow> nat \<Rightarrow> nat \<Rightarrow> 'a list option" where
  "shift_right dst loc 0 = Some dst"
| "shift_right dst loc (Suc n) = do {
     y \<leftarrow> rd dst (loc + n);
     dst' \<leftarrow> wr dst (loc + n + 1) y;
     shift_right dst' loc n}"

primrec bisort_loop :: "('a \<Rightarrow> 'a \<Rightarrow> int) \<Rightarrow> 'a list \<Rightarrow> nat \<Rightarrow> nat \<Rightarrow> 'a list option" where
  "bisort_loop cmp dst i 0 = Some dst"
| "bisort_loop cmp dst i (Suc n) = do {
     y \<leftarrow> (if i = 0 then None else rd dst (i - 1));
     x \<leftarrow> rd dst i;
     (if cmp y x \<le> 0 then bisort_loop cmp dst (i + 1) n
      else do {
        location \<leftarrow> binsearch cmp dst x i;
        dst1 \<leftarrow> shift_right dst location (i - location);
        dst2 \<leftarrow> wr dst1 location x;
        bisort_loop cmp dst2 (i + 1) n})}"

definition bisort :: "('a \<Rightarrow> 'a \<Rightarrow> int) \<Rightarrow> 'a list \<Rightarrow> nat \<Rightarrow> nat \<Rightarrow> 'a list option" where
  "bisort cmp dst start sz = bisort_loop cmp dst start (sz - start)"

section \<open>Runs\<close>

record tsort_run =
  run_start :: nat
  run_length :: nat

text \<open>The temporary storage: its allocated size, in elements.  Its contents do not outlive a merge.\<close>

record tsort_store =
  ts_alloc :: nat

function reverse_elements :: "'a list \<Rightarrow> nat \<Rightarrow> nat \<Rightarrow> 'a list option" where
  "reverse_elements dst start fin =
     (if start < fin then
        Option.bind (rd dst start) (\<lambda>tmp.
          Option.bind (rd dst fin) (\<lambda>y.
            Option.bind (wr dst start y) (\<lambda>dst1.
              Option.bind (wr dst1 fin tmp) (\<lambda>dst2.
                reverse_elements dst2 (start + 1) (fin - 1)))))
      else Some dst)"
  by pat_completeness auto
termination
  by (relation "measure (\<lambda>(dst, start, fin). fin - start)") auto

declare reverse_elements.simps [simp del]

text \<open>while (curr < size - 1 and the next pair is in order) curr++; up tells the direction.\<close>

function run_scan :: "('a \<Rightarrow> 'a \<Rightarrow> int) \<Rightarrow> bool \<Rightarrow> 'a list \<Rightarrow> nat \<Rightarrow> nat \<Rightarrow> nat option" where
  "run_scan cmp up dst sz cur =
     (if cur < sz - 1 then
        Option.bind (rd dst (cur - 1)) (\<lambda>x.
          Option.bind (rd dst cur) (\<lambda>y.
            if (if up then cmp x y \<le> 0 else 0 < cmp x y) then run_scan cmp up dst sz (cur + 1)
            else Some cur))
      else Some cur)"
  by pat_completeness auto
termination
  by (relation "measure (\<lambda>(cmp, up, dst, sz, cur). sz - cur)") auto

declare run_scan.simps [simp del]

definition count_run :: "('a \<Rightarrow> 'a \<Rightarrow> int) \<Rightarrow> 'a list \<Rightarrow> nat \<Rightarrow> nat \<Rightarrow> ('a list \<times> nat) option" where
  "count_run cmp dst start sz =
     (if sz - start = 1 then Some (dst, 1)
      else if sz - 2 \<le> start then do {
        a \<leftarrow> rd dst (sz - 2);
        b \<leftarrow> rd dst (sz - 1);
        (if 0 < cmp a b then do {
           dst1 \<leftarrow> wr dst (sz - 1) a;
           dst2 \<leftarrow> wr dst1 (sz - 2) b;
           Some (dst2, 2)}
         else Some (dst, 2))}
      else do {
        a \<leftarrow> rd dst start;
        b \<leftarrow> rd dst (start + 1);
        (if cmp a b \<le> 0 then do {
           cur \<leftarrow> run_scan cmp True dst sz (start + 2);
           Some (dst, cur - start)}
         else do {
           cur \<leftarrow> run_scan cmp False dst sz (start + 2);
           dst' \<leftarrow> reverse_elements dst start (cur - 1);
           Some (dst', cur - start)})})"

function minrun_loop :: "nat \<Rightarrow> nat \<Rightarrow> nat" where
  "minrun_loop n r = (if 64 \<le> n then minrun_loop (n div 2) (r OR (n AND 1)) else n + r)"
  by pat_completeness auto
termination
  by (relation "measure (\<lambda>(n, r). n)") auto

declare minrun_loop.simps [simp del]

definition compute_minrun :: "nat \<Rightarrow> nat" where
  "compute_minrun n = minrun_loop n 0"

section \<open>The run stack and the merges\<close>

text \<open>
  The stack of runs is the list of its first stack\_curr entries with the top first, so that A, B
  and C of the code are the third, second and first entry.
\<close>

fun check_invariant :: "tsort_run list \<Rightarrow> bool" where
  "check_invariant [] = True"
| "check_invariant [c] = True"
| "check_invariant [b, a] = (run_length b < run_length a)"
| "check_invariant (c # b # a # rest) =
     (\<not> (run_length a \<le> run_length b + run_length c \<or> run_length b \<le> run_length c))"

definition ts_resize :: "alloc \<Rightarrow> tsort_store \<Rightarrow> nat \<Rightarrow> tsort_store option" where
  "ts_resize ok store new_size =
     (if ts_alloc store < new_size then
        (if ok (new_size * 8) then Some (store\<lparr>ts_alloc := new_size\<rparr>) else None)
      else Some store)"

text \<open>
  The loops of merge: n elements are still to be written.  In the second one k counts down,
  i1 and j1 are the i + 1 and j + 1 of the code.
\<close>

primrec merge_left :: "('a \<Rightarrow> 'a \<Rightarrow> int) \<Rightarrow> 'a list \<Rightarrow> nat \<Rightarrow> 'a list \<Rightarrow> nat \<Rightarrow> nat \<Rightarrow> nat \<Rightarrow> nat \<Rightarrow> 'a list option" where
  "merge_left cmp storage jend dst i j k 0 = Some dst"
| "merge_left cmp storage jend dst i j k (Suc n) =
     (if i < length storage \<and> j < jend then do {
        x \<leftarrow> rd storage i;
        y \<leftarrow> rd dst j;
        (if cmp x y \<le> 0 then do { dst' \<leftarrow> wr dst k x; merge_left cmp storage jend dst' (i + 1) j (k + 1) n }
         else do { dst' \<leftarrow> wr dst k y; merge_left cmp storage jend dst' i (j + 1) (k + 1) n })}
      else if i < length storage then do {
        x \<leftarrow> rd storage i; dst' \<leftarrow> wr dst k x; merge_left cmp storage jend dst' (i + 1) j (k + 1) n}
      else do {
        y \<leftarrow> rd dst j; dst' \<leftarrow> wr dst k y; merge_left cmp storage jend dst' i (j + 1) (k + 1) n})"

primrec merge_right :: "('a \<Rightarrow> 'a \<Rightarrow> int) \<Rightarrow> 'a list \<Rightarrow> nat \<Rightarrow> 'a list \<Rightarrow> nat \<Rightarrow> nat \<Rightarrow> nat \<Rightarrow> 'a list option" where
  "merge_right cmp storage cur dst i1 j1 0 = Some dst"
| "merge_right cmp storage cur dst i1 j1 (Suc n) =
     (if 0 < i1 \<and> cur < j1 then do {
        y \<leftarrow> rd dst (j1 - 1);
        x \<leftarrow> rd storage (i1 - 1);
        (if 0 < cmp y x then do { dst' \<leftarrow> wr dst (cur + n) y; merge_right cmp storage cur dst' i1 (j1 - 1) n }
         else do { dst' \<leftarrow> wr dst (cur + n) x; merge_right cmp storage cur dst' (i1 - 1) j1 n })}
      else if 0 < i1 then do {
        x \<leftarrow> rd storage (i1 - 1); dst' \<leftarrow> wr dst (cur + n) x; merge_right cmp storage cur dst' (i1 - 1) j1 n}
      else do {
        y \<leftarrow> (if j1 = 0 then None else rd dst (j1 - 1)); dst' \<leftarrow> wr dst (cur + n) y;
        merge_right cmp storage cur dst' i1 (j1 - 1) n})"

definition merge_runs ::
  "('a \<Rightarrow> 'a \<Rightarrow> int) \<Rightarrow> alloc \<Rightarrow> 'a list \<Rightarrow> tsort_run \<Rightarrow> tsort_run \<Rightarrow> tsort_store \<Rightarrow> ('a list \<times> tsort_store) option" where
  "merge_runs cmp ok dst ra rb store =
     (let A = run_length ra; B = run_length rb; cur = run_start ra in
      case ts_resize ok store (min A B) of
        None \<Rightarrow> Some (dst, store)
      | Some store' \<Rightarrow>
          if A < B then do {
            storage \<leftarrow> rd_blk dst cur A;
            dst' \<leftarrow> merge_left cmp storage (cur + A + B) dst 0 (cur + A) cur (A + B);
            Some (dst', store')}
          else do {
            storage \<leftarrow> rd_blk dst (cur + A) B;
            dst' \<leftarrow> merge_right cmp storage cur dst B (cur + A) (A + B);
            Some (dst', store')})"

text \<open>The length of the lower run after a merge.\<close>

definition joined :: "tsort_run \<Rightarrow> tsort_run \<Rightarrow> tsort_run" where
  "joined ra rb = ra\<lparr>run_length := run_length ra + run_length rb\<rparr>"

function collapse ::
  "('a \<Rightarrow> 'a \<Rightarrow> int) \<Rightarrow> alloc \<Rightarrow> nat \<Rightarrow> 'a list \<Rightarrow> tsort_run list \<Rightarrow> tsort_store \<Rightarrow>
   ('a list \<times> tsort_run list \<times> tsort_store) option" where
  "collapse cmp ok sz dst [] store = Some (dst, [], store)"
| "collapse cmp ok sz dst [c] store = Some (dst, [c], store)"
| "collapse cmp ok sz dst [b, a] store =
     (if run_length a + run_length b = sz \<or> run_length a \<le> run_length b
      then Option.bind (merge_runs cmp ok dst a b store) (\<lambda>(dst', store'). Some (dst', [joined a b], store'))
      else Some (dst, [b, a], store))"
| "collapse cmp ok sz dst (c # b # a # rest) store =
     (if run_length a \<le> run_length b + run_length c then
        (if run_length a < run_length c
         then Option.bind (merge_runs cmp ok dst a b store)
                (\<lambda>(dst', store'). collapse cmp ok sz dst' (c # joined a b # rest) store')
         else Option.bind (merge_runs cmp ok dst b c store)
                (\<lambda>(dst', store'). collapse cmp ok sz dst' (joined b c # a # rest) store'))
      else if run_length b \<le> run_length c
      then Option.bind (merge_runs cmp ok dst b c store)
             (\<lambda>(dst', store'). collapse cmp ok sz dst' (joined b c # a # rest) store')
      else Some (dst, c # b # a # rest, store))"
  by pat_completeness auto
termination
  by (relation "measure (\<lambda>(cmp, ok, sz, dst, stack, store). length stack)") auto


section \<open>The driver\<close>

text \<open>while (stack\_curr > 1) of the end of PUSH\_NEXT.\<close>

function finish_merges ::
  "('a \<Rightarrow> 'a \<Rightarrow> int) \<Rightarrow> alloc \<Rightarrow> 'a list \<Rightarrow> tsort_run list \<Rightarrow> tsort_store \<Rightarrow> 'a list option" where
  "finish_merges cmp ok dst [] store = Some dst"
| "finish_merges cmp ok dst [c] store = Some dst"
| "finish_merges cmp ok dst (b # a # rest) store =
     Option.bind (merge_runs cmp ok dst a b store)
       (\<lambda>(dst', store'). finish_merges cmp ok dst' (joined a b # rest) store')"
  by pat_completeness auto
termination
  by (relation "measure (\<lambda>(cmp, ok, dst, stack, store). length stack)") auto

record 'a tsort_state =
  ts_dst :: "'a list"
  ts_stack :: "tsort_run list"
  ts_curr :: nat
  ts_store :: tsort_store

definition run_stack_max :: nat where
  "run_stack_max = 128"

text \<open>PUSH\_NEXT: Inl is its return, with everything merged.\<close>

definition push_next ::
  "('a \<Rightarrow> 'a \<Rightarrow> int) \<Rightarrow> alloc \<Rightarrow> nat \<Rightarrow> nat \<Rightarrow> 'a tsort_state \<Rightarrow> ('a list + 'a tsort_state) option" where
  "push_next cmp ok minrun sz s = do {
     (dst1, len) \<leftarrow> count_run cmp (ts_dst s) (ts_curr s) sz;
     (let run = (if sz - ts_curr s < minrun then sz - ts_curr s else minrun) in do {
        (dst2, len2) \<leftarrow>
          (if len < run then do {
             d \<leftarrow> bisort cmp (drop (ts_curr s) dst1) len run;
             Some (take (ts_curr s) dst1 @ d, run)}
           else Some (dst1, len));
        (if length (ts_stack s) < run_stack_max then
           let stack' = \<lparr>run_start = ts_curr s, run_length = len2\<rparr> # ts_stack s;
               cur' = ts_curr s + len2
           in if cur' = sz then do {
                dst3 \<leftarrow> finish_merges cmp ok dst2 stack' (ts_store s);
                Some (Inl dst3)}
              else Some (Inr (s\<lparr>ts_dst := dst2, ts_stack := stack', ts_curr := cur'\<rparr>))
         else None)})}"

partial_function (option) tsort_loop ::
  "('a \<Rightarrow> 'a \<Rightarrow> int) \<Rightarrow> alloc \<Rightarrow> nat \<Rightarrow> nat \<Rightarrow> 'a tsort_state \<Rightarrow> 'a list option" where
  "tsort_loop cmp ok minrun sz s =
     (if \<not> check_invariant (ts_stack s) then
        Option.bind (collapse cmp ok sz (ts_dst s) (ts_stack s) (ts_store s)) (\<lambda>(dst', stack', store').
          tsort_loop cmp ok minrun sz (s\<lparr>ts_dst := dst', ts_stack := stack', ts_store := store'\<rparr>))
      else Option.bind (push_next cmp ok minrun sz s) (\<lambda>r.
          case r of Inl d \<Rightarrow> Some d | Inr s' \<Rightarrow> tsort_loop cmp ok minrun sz s'))"

declare tsort_loop.simps [code]

text \<open>The first n invocations of PUSH\_NEXT, then the loop.\<close>

primrec tsort_pushes ::
  "('a \<Rightarrow> 'a \<Rightarrow> int) \<Rightarrow> alloc \<Rightarrow> nat \<Rightarrow> nat \<Rightarrow> nat \<Rightarrow> 'a tsort_state \<Rightarrow> 'a list option" where
  "tsort_pushes cmp ok minrun sz 0 s = tsort_loop cmp ok minrun sz s"
| "tsort_pushes cmp ok minrun sz (Suc n) s = do {
     r \<leftarrow> push_next cmp ok minrun sz s;
     (case r of Inl d \<Rightarrow> Some d | Inr s' \<Rightarrow> tsort_pushes cmp ok minrun sz n s')}"

definition git__tsort_r ::
  "alloc \<Rightarrow> 'a list \<Rightarrow> nat \<Rightarrow> ('a \<Rightarrow> 'a \<Rightarrow> 'p \<Rightarrow> int) \<Rightarrow> 'p \<Rightarrow> 'a list option" where
  "git__tsort_r ok dst sz cmp payload =
     (let c = (\<lambda>a b. cmp a b payload) in
      if sz < 64 then bisort c dst 1 sz
      else tsort_pushes c ok (compute_minrun sz) sz 3
             \<lparr>ts_dst = dst, ts_stack = [], ts_curr = 0, ts_store = \<lparr>ts_alloc = 0\<rparr>\<rparr>)"

definition tsort_r_cmp :: "'a \<Rightarrow> 'a \<Rightarrow> ('a \<Rightarrow> 'a \<Rightarrow> int) \<Rightarrow> int" where
  "tsort_r_cmp a b payload = payload a b"

definition git__tsort :: "alloc \<Rightarrow> 'a list \<Rightarrow> nat \<Rightarrow> ('a \<Rightarrow> 'a \<Rightarrow> int) \<Rightarrow> 'a list option" where
  "git__tsort ok dst sz cmp = git__tsort_r ok dst sz tsort_r_cmp cmp"

section \<open>Correctness of the binary insertion sort\<close>

lemma shift_right_wr:
  "length pre = loc \<Longrightarrow> length ys = n \<Longrightarrow>
   \<exists>d. shift_right (pre @ ys @ z # post) loc n = Some d \<and> wr d loc x = Some (pre @ x # ys @ post)"
proof (induction n arbitrary: ys z post)
  case 0
  then show ?case by (simp add: list_update_append)
next
  case (Suc n)
  then obtain zs y where ys: "ys = zs @ [y]" "length zs = n" by (cases ys rule: rev_cases) auto
  show ?case using Suc.IH [OF Suc.prems(1) ys(2), of y "y # post"] ys Suc.prems(1)
    by (simp add: nth_append list_update_append)
qed

context cmp_order
begin

lemma skip_equal_ok:
  "i < sz \<Longrightarrow> sz \<le> length dst \<Longrightarrow> cmp x (dst ! (sz - 1)) < 0 \<Longrightarrow>
   \<exists>j. skip_equal cmp dst x i = Some j \<and> i \<le> j \<and> j < sz \<and> cmp x (dst ! j) \<noteq> 0 \<and>
       (\<forall>k. i \<le> k \<and> k < j \<longrightarrow> cmp x (dst ! k) = 0)"
proof (induction cmp dst x i rule: skip_equal.induct)
  case (1 cmp dst x i)
  have i: "i < length dst" using 1 by simp
  show ?case
  proof (cases "cmp x (dst ! i) = 0")
    case True
    then have "i + 1 < sz" using "1.prems" by (metis Suc_eq_plus1 diff_Suc_1 less_irrefl linorder_neqE_nat not_less_eq)
    then obtain j where "skip_equal cmp dst x (i + 1) = Some j" "i + 1 \<le> j" "j < sz" "cmp x (dst ! j) \<noteq> 0"
      "\<forall>k. i + 1 \<le> k \<and> k < j \<longrightarrow> cmp x (dst ! k) = 0"
      using "1.IH" [OF rd_in [OF i] True] "1.prems" by auto
    then show ?thesis using True i
      by (intro exI [of _ j], subst skip_equal.simps) (auto, metis Suc_leI le_neq_implies_less)
  next
    case False
    then show ?thesis using i "1.prems" by (subst skip_equal.simps) auto
  qed
qed

text \<open>The place of x among the sorted elements below sz: after the elements not above it.\<close>

definition place :: "'a list \<Rightarrow> 'a \<Rightarrow> nat \<Rightarrow> nat \<Rightarrow> bool" where
  "place dst x sz p \<longleftrightarrow> p < sz \<and> (\<forall>i < p. cmp (dst ! i) x \<le> 0) \<and> (\<forall>i < sz. p \<le> i \<longrightarrow> 0 < cmp (dst ! i) x)"

lemma placeI:
  assumes s: "csorted cmp (take sz dst)" and len: "sz \<le> length dst" and p: "p < sz"
    and below: "p = 0 \<or> 0 \<le> cmp x (dst ! (p - 1))" and above: "cmp x (dst ! p) < 0"
  shows "place dst x sz p"
proof -
  have nth: "cmp (dst ! i) (dst ! j) \<le> 0" if "i \<le> j" "j < sz" for i j
    using csorted_nth [OF s, of i j] that len by (cases "i = j") auto
  have "cmp (dst ! i) x \<le> 0" if "i < p" for i
  proof -
    have "cmp (dst ! (p - 1)) x \<le> 0" using below that cmp_flip(1) by fastforce
    moreover have "cmp (dst ! i) (dst ! (p - 1)) \<le> 0" using nth that p by simp
    ultimately show ?thesis using cmp_trans by blast
  qed
  moreover have "0 < cmp (dst ! i) x" if "p \<le> i" "i < sz" for i
    using cmp_less_le [OF above nth [OF that]] cmp_flip(2) by simp
  ultimately show ?thesis using p by (simp add: place_def)
qed

lemma skip_equal_place:
  assumes s: "csorted cmp (take sz dst)" and len: "sz \<le> length dst" and last: "cmp x (dst ! (sz - 1)) < 0"
    and i: "0 < i" "i < sz" "cmp x (dst ! (i - 1)) = 0"
  shows "\<exists>p. skip_equal cmp dst x i = Some p \<and> place dst x sz p"
proof -
  obtain j where j: "skip_equal cmp dst x i = Some j" "i \<le> j" "j < sz" "cmp x (dst ! j) \<noteq> 0"
    "\<forall>k. i \<le> k \<and> k < j \<longrightarrow> cmp x (dst ! k) = 0" using skip_equal_ok [OF i(2) len last] by auto
  have eq: "cmp x (dst ! (j - 1)) = 0" using j i by (cases "j = i") auto
  have "cmp (dst ! (j - 1)) (dst ! j) \<le> 0" using csorted_nth [OF s, of "j - 1" j] i j len by simp
  then have "cmp x (dst ! j) \<le> 0" using cmp_trans [of x "dst ! (j - 1)"] eq by simp
  with j have "cmp x (dst ! j) < 0" by simp
  with placeI [OF s len j(3)] eq j show ?thesis by simp
qed

lemma binsearch_loop_ok:
  "csorted cmp (take sz dst) \<Longrightarrow> sz \<le> length dst \<Longrightarrow> cmp x (dst ! (sz - 1)) < 0 \<Longrightarrow> l < r \<Longrightarrow> r < sz \<Longrightarrow>
   0 < cmp x (dst ! l) \<Longrightarrow> cmp x (dst ! r) < 0 \<Longrightarrow>
   \<exists>p. binsearch_loop cmp dst x l r = Some p \<and> place dst x sz p"
proof (induction "r - l" arbitrary: l r rule: less_induct)
  case less
  let ?c = "l + (r - l) div 2"
  have c: "?c < length dst" "?c < r" using less.prems by auto
  consider "cmp x (dst ! ?c) < 0" | "0 < cmp x (dst ! ?c)" | "cmp x (dst ! ?c) = 0" by linarith
  then show ?case
  proof cases
    case 1
    then have nz: "(r - l) div 2 \<noteq> 0" using less.prems(6) by (metis add_0_right order_less_asym)
    show ?thesis
    proof (cases "(r - l) div 2 \<le> 1")
      case True
      then have e: "?c = l + 1" using nz by simp
      then have "place dst x sz ?c" using placeI [OF less.prems(1,2), of ?c x] less.prems 1 c by simp
      then show ?thesis using c 1 True by (subst binsearch_loop.simps) simp
    next
      case False
      then show ?thesis using less.hyps [of ?c l] less.prems 1 c
        by (subst binsearch_loop.simps) simp
    qed
  next
    case 2
    show ?thesis
    proof (cases "r - ?c \<le> 1")
      case True
      then have e: "?c + 1 = r" using c(2) by simp
      have "place dst x sz (?c + 1)" using placeI [OF less.prems(1,2), of "?c + 1" x] less.prems 2 unfolding e
        by (metis e add_diff_cancel_right' less_imp_le)
      then show ?thesis using c 2 True by (subst binsearch_loop.simps) simp
    next
      case False
      then have "(r - l) div 2 \<noteq> 0" by presburger
      then have "r - ?c < r - l" using c(2) by linarith
      then show ?thesis using less.hyps [of r ?c] less.prems 2 c False
        by (subst binsearch_loop.simps) simp
    qed
  next
    case 3
    then show ?thesis using skip_equal_place [OF less.prems(1-3), of "?c + 1"] less.prems c
      by (subst binsearch_loop.simps) simp
  qed
qed

lemma binsearch_ok:
  assumes "csorted cmp (take sz dst)" "sz \<le> length dst" "0 < sz" "cmp x (dst ! (sz - 1)) < 0"
  shows "\<exists>p. binsearch cmp dst x sz = Some p \<and> place dst x sz p"
proof -
  have r: "rd dst 0 = Some (dst ! 0)" using assms by (intro rd_in) (cases dst, auto)
  consider "cmp x (dst ! 0) < 0" | "cmp x (dst ! 0) = 0" | "0 < cmp x (dst ! 0)" by linarith
  then show ?thesis
  proof cases
    case 1
    then show ?thesis using assms r placeI [OF assms(1,2), of 0 x] by (simp add: binsearch_def)
  next
    case 2
    then have "1 < sz" using assms(3,4) by (cases "sz = 1") auto
    then show ?thesis using skip_equal_place [OF assms(1,2,4), of 1] assms(3) r 2
      by (simp add: binsearch_def)
  next
    case 3
    then have "1 < sz" using assms(3,4) by (cases "sz = 1") auto
    then show ?thesis using binsearch_loop_ok [OF assms(1,2,4), of 0 "sz - 1"] assms(3,4) r 3
      by (simp add: binsearch_def)
  qed
qed

text \<open>Moving x to its place keeps the order of the elements equal to it.\<close>

lemma place_insert:
  assumes s: "csorted cmp (take sz dst)" and len: "sz \<le> length dst" and p: "place dst x sz p"
  shows "csorted cmp (take p dst @ x # drop p (take sz dst))"
    and "cls_eq cmp (take sz dst @ [x]) (take p dst @ x # drop p (take sz dst))"
proof -
  have t: "take sz dst = take p dst @ drop p (take sz dst)"
    using p by (metis append_take_drop_id less_imp_le min.absorb1 place_def take_take)
  have le: "cmp y x \<le> 0" if "y \<in> set (take p dst)" for y
    using in_set_take_nth [OF that] p by (auto simp: place_def)
  have gt: "0 < cmp y x" if y: "y \<in> set (drop p (take sz dst))" for y
  proof -
    obtain i where "p + i < length (take sz dst)" "y = take sz dst ! (p + i)"
      using in_set_drop_nth [OF y] by blast
    then show ?thesis using p by (simp add: place_def)
  qed
  have "cmp x y \<le> 0" if "y \<in> set (drop p (take sz dst))" for y
    using gt [OF that] cmp_flip(1) by simp
  then show "csorted cmp (take p dst @ x # drop p (take sz dst))"
    using s t le cmp_trans unfolding csorted_append csorted_Cons by (metis csorted_append list.set_intros(2) set_ConsD)
  have "cls_eq cmp (drop p (take sz dst) @ [x]) ([x] @ drop p (take sz dst))"
    using gt by (intro cls_eq_swap) fastforce
  then have "cls_eq cmp (take p dst @ (drop p (take sz dst) @ [x])) (take p dst @ ([x] @ drop p (take sz dst)))"
    by (rule cls_eq_append [OF cls_eq_refl])
  then show "cls_eq cmp (take sz dst @ [x]) (take p dst @ x # drop p (take sz dst))"
    by (metis append.assoc append_Cons append_Nil t)
qed

lemma bisort_loop_ok:
  "0 < i \<Longrightarrow> i + n \<le> length dst \<Longrightarrow> csorted cmp (take i dst) \<Longrightarrow>
   \<exists>d. bisort_loop cmp dst i n = Some d \<and> length d = length dst \<and> csorted cmp (take (i + n) d) \<and>
       drop (i + n) d = drop (i + n) dst \<and> cls_eq cmp (take (i + n) dst) (take (i + n) d)"
proof (induction n arbitrary: i dst)
  case 0
  then show ?case by simp
next
  case (Suc n)
  have i: "i < length dst" "i - 1 < length dst" using Suc.prems by simp_all
  have take_Suc: "take (i + 1) dst = take i dst @ [dst ! i]" using i by (simp add: take_Suc_conv_app_nth)
  show ?case
  proof (cases "cmp (dst ! (i - 1)) (dst ! i) \<le> 0")
    case True
    have "last (take i dst) = dst ! (i - 1)" using Suc.prems(1) i
      by (metis One_nat_def last_snoc Suc_pred take_Suc_conv_app_nth)
    then have "csorted cmp (take (i + 1) dst)"
      unfolding take_Suc using Suc.prems(3) True by (simp add: csorted_snoc)
    then show ?thesis using Suc.IH [of "i + 1" dst] Suc.prems True i by simp
  next
    case False
    let ?x = "dst ! i"
    obtain p where p: "binsearch cmp dst ?x i = Some p" "place dst ?x i p"
      using binsearch_ok [OF Suc.prems(3) _ Suc.prems(1), of ?x] i False cmp_flip(2) by auto
    have pi: "p < i" using p(2) by (simp add: place_def)
    define ins where "ins = take p dst @ ?x # drop p (take i dst)"
    have split: "dst = take p dst @ drop p (take i dst) @ ?x # drop (i + 1) dst"
      using pi i by (metis Cons_nth_drop_Suc Suc_eq_plus1 append.assoc append_take_drop_id less_imp_le min.absorb1 take_take)
    obtain d1 where d1: "shift_right dst p (i - p) = Some d1"
      "wr d1 p ?x = Some (take p dst @ ?x # drop p (take i dst) @ drop (i + 1) dst)"
      using shift_right_wr [of "take p dst" p "drop p (take i dst)" "i - p" ?x "drop (i + 1) dst" ?x]
        pi i unfolding split [symmetric] by auto
    define d2 where "d2 = ins @ drop (i + 1) dst"
    have li: "length ins = i + 1" using pi i by (simp add: ins_def)
    have d2: "length d2 = length dst" "take (i + 1) d2 = ins" "drop (i + 1) d2 = drop (i + 1) dst"
      using li i by (simp_all add: d2_def)
    have ins: "csorted cmp ins" "cls_eq cmp (take (i + 1) dst) ins"
      using place_insert [OF Suc.prems(3) _ p(2)] i take_Suc by (simp_all add: ins_def)
    obtain d where d: "bisort_loop cmp d2 (i + 1) n = Some d" "length d = length dst"
      "csorted cmp (take (i + 1 + n) d)" "drop (i + 1 + n) d = drop (i + 1 + n) d2"
      "cls_eq cmp (take (i + 1 + n) d2) (take (i + 1 + n) d)"
      using Suc.IH [of "i + 1" d2] d2 ins(1) Suc.prems by auto
    have tail: "take n (drop (i + 1) d2) = take n (drop (i + 1) dst)" using d2(3) by simp
    have "cls_eq cmp (take (i + 1) dst @ take n (drop (i + 1) dst)) (take (i + 1) d2 @ take n (drop (i + 1) d2))"
      unfolding tail using cls_eq_append [OF ins(2) cls_eq_refl] d2(2) by simp
    then have c: "cls_eq cmp (take (i + 1 + n) dst) (take (i + 1 + n) d2)" by (simp only: take_add)
    have "drop (i + 1 + n) d2 = drop (i + 1 + n) dst" using d2(3) by (metis add.commute drop_drop)
    moreover have "bisort_loop cmp dst i (Suc n) = Some d"
      using False p d1 d(1) i Suc.prems(1) by (simp add: d2_def ins_def)
    ultimately show ?thesis using d cls_eq_trans [OF c d(5)] by simp
  qed
qed

lemma bisort_ok:
  assumes "0 < start" "start \<le> sz" "sz \<le> length dst" "csorted cmp (take start dst)"
  shows "\<exists>d. bisort cmp dst start sz = Some d \<and> length d = length dst \<and> csorted cmp (take sz d) \<and>
       drop sz d = drop sz dst \<and> cls_eq cmp (take sz dst) (take sz d)"
  using bisort_loop_ok [of start "sz - start" dst] assms by (simp add: bisort_def)

end

section \<open>Runs\<close>

lemma reverse_elements_ok:
  "xs \<noteq> [] \<Longrightarrow> start = length pre \<Longrightarrow> fin + 1 = length pre + length xs \<Longrightarrow>
   reverse_elements (pre @ xs @ post) start fin = Some (pre @ rev xs @ post)"
proof (induction "length xs" arbitrary: xs pre post start fin rule: less_induct)
  case less
  show ?case
  proof (cases "start < fin")
    case False
    then have "length xs = 1" using less.prems by (cases xs) auto
    then show ?thesis using False by (subst reverse_elements.simps) (cases xs, auto)
  next
    case True
    then obtain x ys where "xs = x # ys" "ys \<noteq> []" using less.prems by (cases xs) auto
    then obtain m y where xs: "xs = x # m @ [y]" by (cases ys rule: rev_cases) auto
    have f: "fin = length pre + 1 + length m" using less.prems xs by simp
    have step: "reverse_elements (pre @ xs @ post) start fin =
        reverse_elements ((pre @ [y]) @ m @ x # post) (start + 1) (fin - 1)"
      using True less.prems xs f
      by (subst reverse_elements.simps) (simp add: nth_append list_update_append)
    show ?thesis
    proof (cases "m = []")
      case True
      then show ?thesis unfolding step using less.prems xs f by (subst reverse_elements.simps) simp
    next
      case False
      then show ?thesis unfolding step
        using less.hyps [of m "start + 1" "pre @ [y]" "fin - 1" "x # post"] less.prems xs f by simp
    qed
  qed
qed

lemma reverse_segment:
  assumes "start < c" "c \<le> length dst"
  shows "reverse_elements dst start (c - 1) =
    Some (take start dst @ rev (take (c - start) (drop start dst)) @ drop c dst)"
proof -
  have "dst = take start dst @ take (c - start) (drop start dst) @ drop c dst"
    using assms by (metis append_take_drop_id drop_drop le_add_diff_inverse2 less_imp_le)
  then show ?thesis
    using reverse_elements_ok [of "take (c - start) (drop start dst)" start "take start dst" "c - 1" "drop c dst"]
      assms by simp
qed

lemma run_scan_ok:
  "0 < cur \<Longrightarrow> cur \<le> sz \<Longrightarrow> sz \<le> length dst \<Longrightarrow>
   \<exists>c. run_scan cmp up dst sz cur = Some c \<and> cur \<le> c \<and> c \<le> max cur (sz - 1) \<and>
       (\<forall>i. cur \<le> i \<and> i < c \<longrightarrow>
          (if up then cmp (dst ! (i - 1)) (dst ! i) \<le> 0 else 0 < cmp (dst ! (i - 1)) (dst ! i)))"
proof (induction cmp up dst sz cur rule: run_scan.induct)
  case (1 cmp up dst sz cur)
  let ?ok = "\<lambda>i. if up then cmp (dst ! (i - 1)) (dst ! i) \<le> 0 else 0 < cmp (dst ! (i - 1)) (dst ! i)"
  show ?case
  proof (cases "cur < sz - 1 \<and> ?ok cur")
    case True
    have r: "rd dst (cur - 1) = Some (dst ! (cur - 1))" "rd dst cur = Some (dst ! cur)"
      using "1.prems" True by (auto intro!: rd_in)
    have le: "0 < cur + 1" "cur + 1 \<le> sz" using True by auto
    obtain c where "run_scan cmp up dst sz (cur + 1) = Some c" "cur + 1 \<le> c" "c \<le> max (cur + 1) (sz - 1)"
      "\<forall>i. cur + 1 \<le> i \<and> i < c \<longrightarrow> ?ok i"
      using "1.IH" [OF conjunct1 [OF True] r conjunct2 [OF True] le "1.prems"(3)] True by auto
    moreover have "?ok i" if "cur \<le> i" "i < c" for i
      using calculation(4) True that by (cases "i = cur") auto
    ultimately show ?thesis using True r
      by (intro exI [of _ c], subst run_scan.simps) auto
  next
    case False
    then show ?thesis using "1.prems" by (subst run_scan.simps) auto
  qed
qed

lemma sorted_wrt_stepwise:
  assumes "transp P" "\<And>i. i + 1 < length xs \<Longrightarrow> P (xs ! i) (xs ! (i + 1))"
  shows "sorted_wrt P xs"
  using assms by (simp add: sorted_wrt_iff_nth_Suc_transp)

lemma segment_steps:
  assumes "start + len \<le> length dst" "\<And>i. start < i \<Longrightarrow> i < start + len \<Longrightarrow> P (dst ! (i - 1)) (dst ! i)" "transp P"
  shows "sorted_wrt P (take len (drop start dst))"
proof (rule sorted_wrt_stepwise [OF assms(3)])
  fix i assume "i + 1 < length (take len (drop start dst))"
  then show "P (take len (drop start dst) ! i) (take len (drop start dst) ! (i + 1))"
    using assms(1) assms(2) [of "start + i + 1"] by simp
qed

context cmp_order
begin

lemma transp_le: "transp (\<lambda>x y. cmp x y \<le> 0)"
  by (rule transpI) (rule cmp_trans)

lemma transp_gt: "transp (\<lambda>x y. 0 < cmp x y)"
  by (rule transpI) (metis cmp_flip(2) cmp_less_le less_imp_le)

text \<open>What a run is: the elements of the segment, sorted, with equal ones in their old order.\<close>

definition run_at :: "'a list \<Rightarrow> nat \<Rightarrow> nat \<Rightarrow> 'a list \<Rightarrow> bool" where
  "run_at dst start len d \<longleftrightarrow> (\<exists>seg. d = take start dst @ seg @ drop (start + len) dst \<and> length seg = len \<and>
     csorted cmp seg \<and> cls_eq cmp (take len (drop start dst)) seg)"

lemma run_atI:
  assumes "start + len \<le> length dst" "csorted cmp (take len (drop start dst))"
  shows "run_at dst start len dst"
  unfolding run_at_def using assms
proof (intro exI conjI)
  show "dst = take start dst @ take len (drop start dst) @ drop (start + len) dst"
    by (metis add.commute append_take_drop_id drop_drop)
qed (use assms in simp_all)

lemma count_run_ok:
  assumes "start < length dst"
  shows "\<exists>d len. count_run cmp dst start (length dst) = Some (d, len) \<and> 0 < len \<and> start + len \<le> length dst \<and>
    run_at dst start len d"
proof -
  let ?sz = "length dst"
  consider "?sz - start = 1" | "?sz = start + 2" | "start + 2 < ?sz" using assms by linarith
  then show ?thesis
  proof cases
    case 1
    have "length (take 1 (drop start dst)) = 1" using assms 1 by simp
    then obtain a where "take 1 (drop start dst) = [a]" by (metis One_nat_def length_0_conv length_Suc_conv)
    then have "csorted cmp (take 1 (drop start dst))" by simp
    then show ?thesis using 1 run_atI [of start 1 dst] by (simp add: count_run_def)
  next
    case 2
    obtain a b where ab: "drop start dst = [a, b]" using 2
      by (metis One_nat_def add_diff_cancel_left' length_0_conv length_Suc_conv length_drop numeral_2_eq_2)
    then have dst: "dst = take start dst @ [a, b]" by (metis append_take_drop_id)
    have n: "dst ! start = a" "dst ! (start + 1) = b"
      by (subst dst, simp add: nth_append assms less_imp_le)+
    have u: "(dst[start + 1 := a])[start := b] = take start dst @ [b, a]"
      by (subst dst) (simp add: list_update_append assms less_imp_le)
    show ?thesis
    proof (cases "0 < cmp a b")
      case True
      have "cmp b a \<le> 0" using True cmp_flip(1) by simp
      moreover have "cls_eq cmp [a, b] [b, a]" using cls_eq_swap [of "[a]" "[b]"] True by simp
      ultimately have "run_at dst start 2 (take start dst @ [b, a])"
        unfolding run_at_def using 2 ab by (intro exI [of _ "[b, a]"]) (simp add: csorted_Cons)
      then show ?thesis using 2 True n u by (simp add: count_run_def)
    next
      case False
      then have "run_at dst start 2 dst" using 2 ab by (intro run_atI) (auto simp: csorted_Cons)
      then show ?thesis using 2 False n by (simp add: count_run_def)
    qed
  next
    case 3
    define up where "up \<longleftrightarrow> cmp (dst ! start) (dst ! (start + 1)) \<le> 0"
    let ?P = "\<lambda>x y. if up then cmp x y \<le> 0 else 0 < cmp x y"
    obtain c where c: "run_scan cmp up dst ?sz (start + 2) = Some c" "start + 2 \<le> c" "c \<le> max (start + 2) (?sz - 1)"
      "\<forall>i. start + 2 \<le> i \<and> i < c \<longrightarrow> ?P (dst ! (i - 1)) (dst ! i)"
      using run_scan_ok [of "start + 2" ?sz dst cmp up] 3 by auto
    have "sorted_wrt ?P (take (c - start) (drop start dst))"
    proof (rule segment_steps)
      show "start + (c - start) \<le> length dst" using c 3 by auto
      show "transp ?P" using transp_le transp_gt by (cases up) simp_all
      fix i assume "start < i" "i < start + (c - start)"
      then show "?P (dst ! (i - 1)) (dst ! i)" using c(2,4) up_def by (cases "i = start + 1") auto
    qed
    note srt = this
    have cl: "c \<le> length dst" "start < c" "\<not> length dst - 2 \<le> start" "length dst - start \<noteq> 1" using c 3 by auto
    show ?thesis
    proof (cases up)
      case True
      then have "run_at dst start (c - start) dst" using srt cl by (intro run_atI) (simp_all add: csorted_def)
      then show ?thesis using 3 True c cl by (simp add: count_run_def up_def)
    next
      case False
      let ?seg = "take (c - start) (drop start dst)"
      have "run_at dst start (c - start) (take start dst @ rev ?seg @ drop c dst)"
        unfolding run_at_def using csorted_strict_rev [of ?seg] srt False cl
        by (intro exI [of _ "rev ?seg"]) simp
      moreover have "reverse_elements dst start (c - 1) = Some (take start dst @ rev ?seg @ drop c dst)"
        using reverse_segment cl by simp
      ultimately show ?thesis using 3 False c cl by (simp add: count_run_def up_def)
    qed
  qed
qed

end

lemma minrun_loop_bounds: "32 \<le> n \<Longrightarrow> r \<le> 1 \<Longrightarrow> 32 \<le> minrun_loop n r \<and> minrun_loop n r \<le> 64"
proof (induction n r rule: minrun_loop.induct)
  case (1 n r)
  have "r OR (n AND 1) \<le> 1"
  proof -
    have "n AND 1 = n mod 2" by (simp add: and_one_eq)
    moreover have "n mod 2 = 0 \<or> n mod 2 = 1" by presburger
    moreover have "r = 0 \<or> r = 1" using "1.prems" by auto
    ultimately show ?thesis by auto
  qed
  then show ?case using 1 by (subst (1 2) minrun_loop.simps) auto
qed

lemma compute_minrun_bounds: "64 \<le> n \<Longrightarrow> 32 \<le> compute_minrun n \<and> compute_minrun n \<le> 64"
  using minrun_loop_bounds [of n 0] by (simp add: compute_minrun_def)

section \<open>Merges\<close>

text \<open>What the two loops compute, front to back and back to front.\<close>

fun cmerge :: "('a \<Rightarrow> 'a \<Rightarrow> int) \<Rightarrow> 'a list \<Rightarrow> 'a list \<Rightarrow> 'a list" where
  "cmerge cmp [] ys = ys"
| "cmerge cmp (x # xs) [] = x # xs"
| "cmerge cmp (x # xs) (y # ys) =
     (if cmp x y \<le> 0 then x # cmerge cmp xs (y # ys) else y # cmerge cmp (x # xs) ys)"

fun bmerge :: "('a \<Rightarrow> 'a \<Rightarrow> int) \<Rightarrow> 'a list \<Rightarrow> 'a list \<Rightarrow> 'a list" where
  "bmerge cmp [] ys = ys"
| "bmerge cmp (x # xs) [] = x # xs"
| "bmerge cmp (x # xs) (y # ys) =
     (if 0 < cmp x y then x # bmerge cmp xs (y # ys) else y # bmerge cmp (x # xs) ys)"

lemma mset_cmerge: "mset (cmerge cmp xs ys) = mset (xs @ ys)"
  by (induction cmp xs ys rule: cmerge.induct) auto

lemma mset_bmerge: "mset (bmerge cmp xs ys) = mset (xs @ ys)"
  by (induction cmp xs ys rule: bmerge.induct) auto

lemma set_cmerge: "set (cmerge cmp xs ys) = set xs \<union> set ys"
  using mset_cmerge [of cmp xs ys] by (metis mset_eq_setD set_append)

lemma set_bmerge: "set (bmerge cmp xs ys) = set xs \<union> set ys"
  using mset_bmerge [of cmp xs ys] by (metis mset_eq_setD set_append)

lemma length_cmerge: "length (cmerge cmp xs ys) = length xs + length ys"
  using mset_cmerge [of cmp xs ys] by (metis length_append mset_eq_length)

lemma length_bmerge: "length (bmerge cmp xs ys) = length xs + length ys"
  using mset_bmerge [of cmp xs ys] by (metis length_append mset_eq_length)

lemma merge_left_eq:
  "n = length xs + length ys \<Longrightarrow> length gap = length xs \<Longrightarrow>
   merge_left cmp (sdone @ xs) (length dn + length gap + length ys) (dn @ gap @ ys @ post)
     (length sdone) (length dn + length gap) (length dn) n =
   Some (dn @ cmerge cmp xs ys @ post)"
proof (induction n arbitrary: xs ys gap dn sdone)
  case 0
  then show ?case by simp
next
  case (Suc n)
  show ?case
  proof (cases xs)
    case Nil
    then obtain y ys' where ys: "ys = y # ys'" using Suc.prems by (cases ys) auto
    then show ?thesis
      using Suc.IH [where xs = "[]" and ys = "ys'" and gap = "[]" and dn = "dn @ [y]" and sdone = "sdone"] Suc.prems Nil
      by (simp add: nth_append list_update_append)
  next
    case (Cons x xs')
    then obtain g gap' where gap: "gap = g # gap'" "length gap' = length xs'" using Suc.prems by (cases gap) auto
    show ?thesis
    proof (cases ys)
      case Nil
      then show ?thesis
        using Suc.IH [where xs = "xs'" and ys = "[]" and gap = "gap'" and dn = "dn @ [x]" and sdone = "sdone @ [x]"] Suc.prems Cons gap
        by (cases xs') (simp_all add: nth_append list_update_append)
    next
      case ys: (Cons y ys')
      have rds: "rd (sdone @ xs) (length sdone) = Some x"
        "rd (dn @ gap @ ys @ post) (length dn + length gap) = Some y"
        using Cons ys by (simp_all add: nth_append rd_def)
      have upd: "(dn @ gap @ ys @ post)[length dn := z] = (dn @ [z]) @ gap' @ ys @ post" for z
        using gap by (simp add: list_update_append)
      have lt: "length sdone < length (sdone @ xs)" "length dn + length gap < length dn + length gap + length ys"
        "length dn < length (dn @ gap @ ys @ post)" using Cons ys by simp_all
      show ?thesis
      proof (cases "cmp x y \<le> 0")
        case True
        have ih: "merge_left cmp (sdone @ xs) (length dn + length gap + length ys) ((dn @ [x]) @ gap' @ ys @ post)
            (length sdone + 1) (length dn + length gap) (length dn + 1) n = Some ((dn @ [x]) @ cmerge cmp xs' ys @ post)"
          using Suc.IH [where xs = "xs'" and ys = "ys" and gap = "gap'" and dn = "dn @ [x]" and sdone = "sdone @ [x]"] Suc.prems Cons gap by simp
        show ?thesis using ih True rds lt upd [of x] by (simp add: Cons ys)
      next
        case False
        have ih: "merge_left cmp (sdone @ xs) (length dn + length gap + length ys)
            ((dn @ [y]) @ (gap' @ [y]) @ ys' @ post)
            (length sdone) (length dn + length gap + 1) (length dn + 1) n = Some ((dn @ [y]) @ cmerge cmp xs ys' @ post)"
          using Suc.IH [where xs = "xs" and ys = "ys'" and gap = "gap' @ [y]" and dn = "dn @ [y]" and sdone = "sdone"] Suc.prems Cons gap ys by simp
        show ?thesis using ih False rds lt upd [of y] by (simp add: Cons ys)
      qed
    qed
  qed
qed

lemma merge_right_eq:
  "n = length xs + length ys \<Longrightarrow> length gap = length ys \<Longrightarrow>
   merge_right cmp (ys @ sdone) (length pre) (pre @ xs @ gap @ post) (length ys) (length pre + length xs) n =
   Some (pre @ rev (bmerge cmp (rev xs) (rev ys)) @ post)"
proof (induction n arbitrary: xs ys gap post sdone)
  case 0
  then show ?case by simp
next
  case (Suc n)
  show ?case
  proof (cases ys rule: rev_cases)
    case Nil
    then obtain x xs' where xs: "xs = xs' @ [x]" using Suc.prems by (cases xs rule: rev_cases) auto
    then show ?thesis
      using Suc.IH [where xs = "xs'" and ys = "[]" and gap = "[]" and post = "x # post" and sdone = "sdone"] Suc.prems Nil
      by (simp add: nth_append list_update_append)
        (cases xs' rule: rev_cases, simp_all)
  next
    case (snoc ys' y)
    then obtain g gap' where gap: "gap = gap' @ [g]" "length gap' = length ys'"
      using Suc.prems by (cases gap rule: rev_cases) auto
    have k: "length pre + n = length (pre @ xs @ gap')" using Suc.prems snoc gap by simp
    have upd: "(pre @ xs @ gap @ post)[length pre + n := z] = pre @ xs @ gap' @ z # post" for z
      unfolding k gap(1) by (simp add: list_update_append)
    have wr: "wr (pre @ xs @ gap @ post) (length pre + n) z = Some (pre @ xs @ gap' @ z # post)" for z
      using k gap upd by simp
    have rdy: "rd (ys @ sdone) (length ys - 1) = Some y" using snoc by (simp add: nth_append)
    show ?thesis
    proof (cases xs rule: rev_cases)
      case Nil
      show ?thesis
        using Suc.IH [where xs = "[]" and ys = "ys'" and gap = "gap'" and post = "y # post" and sdone = "y # sdone"] Suc.prems Nil snoc gap wr [of y] rdy
        by simp
    next
      case xs: (snoc xs' x)
      have rdx: "rd (pre @ xs @ gap @ post) (length pre + length xs - 1) = Some x"
        using xs by (simp add: nth_append rd_def)
      show ?thesis
      proof (cases "0 < cmp x y")
        case True
        have "gap' @ x # post = (x # gap') @ post \<or> True" by simp
        have e: "pre @ xs @ gap' @ x # post = pre @ xs' @ (x # gap') @ x # post" using xs by simp
        have ih: "merge_right cmp (ys @ sdone) (length pre) (pre @ xs' @ (x # gap') @ x # post) (length ys)
            (length pre + length xs - 1) n = Some (pre @ rev (bmerge cmp (rev xs') (rev ys)) @ x # post)"
          using Suc.IH [where xs = xs' and ys = ys and gap = "x # gap'" and post = "x # post" and sdone = sdone] Suc.prems xs snoc gap by simp
        show ?thesis using ih True rdx rdy wr [of x] xs snoc
          by (simp only: merge_right.simps e) simp
      next
        case False
        have ih: "merge_right cmp (ys @ sdone) (length pre) (pre @ xs @ gap' @ y # post) (length ys - 1)
            (length pre + length xs) n = Some (pre @ rev (bmerge cmp (rev xs) (rev ys')) @ y # post)"
          using Suc.IH [where xs = xs and ys = ys' and gap = gap' and post = "y # post" and sdone = "y # sdone"] Suc.prems xs snoc gap by simp
        show ?thesis using ih False rdx rdy wr [of y] xs snoc
          by (simp only: merge_right.simps) simp
      qed
    qed
  qed
qed

context cmp_order
begin

lemma cmerge_ok:
  "csorted cmp xs \<Longrightarrow> csorted cmp ys \<Longrightarrow> csorted cmp (cmerge cmp xs ys) \<and> cls_eq cmp (xs @ ys) (cmerge cmp xs ys)"
proof (induction "length xs + length ys" arbitrary: xs ys rule: less_induct)
  case less
  show ?case
  proof (cases "xs = [] \<or> ys = []")
    case True
    then show ?thesis using less.prems by (cases xs) auto
  next
    case False
    then obtain x xs' y ys' where e: "xs = x # xs'" "ys = y # ys'" by (meson list.exhaust)
    have s: "csorted cmp xs'" "csorted cmp ys'" "\<forall>z\<in>set xs'. cmp x z \<le> 0" "\<forall>z\<in>set ys'. cmp y z \<le> 0"
      using less.prems e by (simp_all add: csorted_Cons)
    show ?thesis
    proof (cases "cmp x y \<le> 0")
      case True
      have ih: "csorted cmp (cmerge cmp xs' ys)" "cls_eq cmp (xs' @ ys) (cmerge cmp xs' ys)"
        using less.hyps [of xs' ys] less.prems s e by simp_all
      have "\<forall>z\<in>set (cmerge cmp xs' ys). cmp x z \<le> 0"
        using s True e cmp_trans [of x y] by (auto simp: set_cmerge)
      moreover have "cls_eq cmp ([x] @ xs' @ ys) ([x] @ cmerge cmp xs' ys)"
        using ih(2) by (rule cls_eq_append [OF cls_eq_refl])
      ultimately show ?thesis using True e ih(1) by (simp add: csorted_Cons)
    next
      case False
      have ih: "csorted cmp (cmerge cmp xs ys')" "cls_eq cmp (xs @ ys') (cmerge cmp xs ys')"
        using less.hyps [of xs ys'] less.prems s e by simp_all
      have yx: "cmp y z < 0" if "z \<in> set xs" for z
        using that e s False cmp_less_le [of y x z] cmp_flip(2) by auto
      have "\<forall>z\<in>set (cmerge cmp xs ys'). cmp y z \<le> 0"
        using s yx by (auto simp: set_cmerge less_imp_le)
      moreover have "cls_eq cmp ([y] @ xs @ ys') ([y] @ cmerge cmp xs ys')"
        using ih(2) by (rule cls_eq_append [OF cls_eq_refl])
      moreover have "cls_eq cmp (xs @ [y]) ([y] @ xs)"
        using yx cmp_flip by (intro cls_eq_swap) (fastforce)
      then have "cls_eq cmp ((xs @ [y]) @ ys') (([y] @ xs) @ ys')" by (rule cls_eq_append) simp
      ultimately show ?thesis using False e ih(1) cls_eq_trans [of cmp "xs @ ys" "[y] @ xs @ ys'"]
        by (simp add: csorted_Cons)
    qed
  qed
qed

lemma bmerge_ok:
  "csorted cmp xs \<Longrightarrow> csorted cmp ys \<Longrightarrow>
   csorted cmp (rev (bmerge cmp (rev xs) (rev ys))) \<and> cls_eq cmp (xs @ ys) (rev (bmerge cmp (rev xs) (rev ys)))"
proof (induction "length xs + length ys" arbitrary: xs ys rule: less_induct)
  case less
  show ?case
  proof (cases "xs = [] \<or> ys = []")
    case True
    then show ?thesis using less.prems by (cases "rev xs") auto
  next
    case False
    then obtain x xs' y ys' where e: "xs = xs' @ [x]" "ys = ys' @ [y]" by (meson rev_exhaust)
    have s: "csorted cmp xs'" "csorted cmp ys'" "\<forall>z\<in>set xs'. cmp z x \<le> 0" "\<forall>z\<in>set ys'. cmp z y \<le> 0"
      using less.prems e by (simp_all add: csorted_append)
    show ?thesis
    proof (cases "0 < cmp x y")
      case True
      let ?m = "rev (bmerge cmp (rev xs') (rev ys))"
      have ih: "csorted cmp ?m" "cls_eq cmp (xs' @ ys) ?m"
        using less.hyps [of xs' ys] less.prems s e by simp_all
      have yx: "cmp z x < 0" if "z \<in> set ys" for z
        using that e s True cmp_le_less [of z y x] cmp_flip(2) by auto
      have "\<forall>z\<in>set ?m. cmp z x \<le> 0" using s yx by (auto simp: set_bmerge less_imp_le)
      moreover have "cls_eq cmp ((xs' @ ys) @ [x]) (?m @ [x])" by (rule cls_eq_append [OF ih(2) cls_eq_refl])
      moreover have "cls_eq cmp ([x] @ ys) (ys @ [x])"
        using yx cmp_flip by (intro cls_eq_swap) (fastforce)
      then have "cls_eq cmp (xs' @ [x] @ ys) (xs' @ ys @ [x])" by (rule cls_eq_append [OF cls_eq_refl])
      ultimately show ?thesis using True e ih(1) cls_eq_trans [of cmp "xs @ ys" "xs' @ ys @ [x]"]
        by (simp add: csorted_append)
    next
      case False
      let ?m = "rev (bmerge cmp (rev xs) (rev ys'))"
      have ih: "csorted cmp ?m" "cls_eq cmp (xs @ ys') ?m"
        using less.hyps [of xs ys'] less.prems s e by simp_all
      have "\<forall>z\<in>set ?m. cmp z y \<le> 0"
        using s False e cmp_trans [of _ x y] by (auto simp: set_bmerge)
      moreover have "cls_eq cmp ((xs @ ys') @ [y]) (?m @ [y])" by (rule cls_eq_append [OF ih(2) cls_eq_refl])
      ultimately show ?thesis using False e ih(1) by (simp add: csorted_append)
    qed
  qed
qed

lemma merge_runs_ok:
  assumes "run_start ra = length pre" "run_length ra = length xs" "run_length rb = length ys"
  shows "\<exists>zs store'. merge_runs cmp ok (pre @ xs @ ys @ post) ra rb store = Some (pre @ zs @ post, store') \<and>
    mset zs = mset (xs @ ys) \<and> length zs = length xs + length ys \<and>
    ((\<forall>n. ok n) \<longrightarrow> csorted cmp xs \<longrightarrow> csorted cmp ys \<longrightarrow> csorted cmp zs \<and> cls_eq cmp (xs @ ys) zs)"
proof (cases "ts_resize ok store (min (length xs) (length ys))")
  case None
  then have "\<not> (\<forall>n. ok n)" by (auto simp: ts_resize_def split: if_splits)
  then show ?thesis using None assms
    by (intro exI [of _ "xs @ ys"] exI [of _ store]) (auto simp: merge_runs_def Let_def)
next
  case (Some store')
  show ?thesis
  proof (cases "length xs < length ys")
    case True
    have b: "rd_blk (pre @ xs @ ys @ post) (length pre) (length xs) = Some xs" by (simp add: rd_blk_def)
    have m: "merge_left cmp xs (length pre + length xs + length ys) (pre @ xs @ ys @ post) 0
        (length pre + length xs) (length pre) (length xs + length ys) = Some (pre @ cmerge cmp xs ys @ post)"
      using merge_left_eq [of "length xs + length ys" xs ys xs cmp "[]" pre post] by simp
    show ?thesis using True Some assms b m cmerge_ok [of xs ys]
      by (intro exI [of _ "cmerge cmp xs ys"] exI [of _ store'])
        (simp add: merge_runs_def Let_def mset_cmerge length_cmerge)
  next
    case False
    have b: "rd_blk (pre @ xs @ ys @ post) (length pre + length xs) (length ys) = Some ys" by (simp add: rd_blk_def)
    have m: "merge_right cmp ys (length pre) (pre @ xs @ ys @ post) (length ys)
        (length pre + length xs) (length xs + length ys) =
        Some (pre @ rev (bmerge cmp (rev xs) (rev ys)) @ post)"
      using merge_right_eq [of "length xs + length ys" xs ys ys cmp "[]" pre post] by simp
    show ?thesis using False Some assms b m bmerge_ok [of xs ys]
      by (intro exI [of _ "rev (bmerge cmp (rev xs) (rev ys))"] exI [of _ store'])
        (simp add: merge_runs_def Let_def mset_bmerge length_bmerge)
  qed
qed

end

section \<open>The run stack\<close>

text \<open>
  segs are the contents of the runs, top first; together they are the array up to the end of the
  last run.
\<close>

fun stack_ok :: "tsort_run list \<Rightarrow> 'a list list \<Rightarrow> bool" where
  "stack_ok [] segs \<longleftrightarrow> segs = []"
| "stack_ok (r # rs) [] \<longleftrightarrow> False"
| "stack_ok (r # rs) (s # ss) \<longleftrightarrow>
     run_length r = length s \<and> run_start r = length (concat (rev ss)) \<and> stack_ok rs ss"

lemma stack_ok_length: "stack_ok stack segs \<Longrightarrow> length stack = length segs"
  by (induction stack segs rule: stack_ok.induct) auto

lemma stack_ok_Cons: "stack_ok (r # rs) segs \<longleftrightarrow> (\<exists>s ss. segs = s # ss \<and> run_length r = length s \<and>
    run_start r = length (concat (rev ss)) \<and> stack_ok rs ss)"
  by (cases segs) auto

context cmp_order
begin

text \<open>A step that only rearranges: the elements are kept, and with enough memory the order too.\<close>

definition sort_step :: "alloc \<Rightarrow> 'a list list \<Rightarrow> 'a list \<Rightarrow> 'a list list \<Rightarrow> 'a list \<Rightarrow> bool" where
  "sort_step ok segs dst segs' dst' \<longleftrightarrow>
     mset dst' = mset dst \<and> length dst' = length dst \<and>
     length (concat (rev segs')) = length (concat (rev segs)) \<and>
     ((\<forall>n. ok n) \<longrightarrow> list_all (csorted cmp) segs \<longrightarrow> list_all (csorted cmp) segs' \<and> cls_eq cmp dst dst')"

lemma sort_step_refl: "sort_step ok segs dst segs dst"
  by (simp add: sort_step_def)

lemma sort_step_trans:
  "sort_step ok segs dst segs1 dst1 \<Longrightarrow> sort_step ok segs1 dst1 segs2 dst2 \<Longrightarrow> sort_step ok segs dst segs2 dst2"
  by (auto simp: sort_step_def intro: cls_eq_trans)

text \<open>Merging two neighbours of the stack, with the runs above it untouched.\<close>

lemma merge_neighbours:
  assumes st: "stack_ok (b # a # rest) (sb # sa # segs)"
    and dst: "dst = concat (rev (sb # sa # segs)) @ post"
  shows "\<exists>zs store' dst'. merge_runs cmp ok dst a b store = Some (dst', store') \<and>
    dst' = concat (rev (zs # segs)) @ post \<and> stack_ok (joined a b # rest) (zs # segs) \<and>
    length zs = length sa + length sb \<and>
    (\<forall>above. sort_step ok (above @ sb # sa # segs) dst (above @ zs # segs) dst')"
proof -
  have *: "run_start a = length (concat (rev segs))" "run_length a = length sa" "run_length b = length sb"
    using st by simp_all
  obtain zs store' where m: "merge_runs cmp ok (concat (rev segs) @ sa @ sb @ post) a b store =
      Some (concat (rev segs) @ zs @ post, store')" "mset zs = mset (sa @ sb)" "length zs = length sa + length sb"
    "(\<forall>n. ok n) \<longrightarrow> csorted cmp sa \<longrightarrow> csorted cmp sb \<longrightarrow> csorted cmp zs \<and> cls_eq cmp (sa @ sb) zs"
    using merge_runs_ok [OF *] by blast
  have "cls_eq cmp (concat (rev segs) @ (sa @ sb) @ post) (concat (rev segs) @ zs @ post)"
    if "cls_eq cmp (sa @ sb) zs" using that by (intro cls_eq_append cls_eq_refl)
  then have "sort_step ok (above @ sb # sa # segs) dst (above @ zs # segs) (concat (rev segs) @ zs @ post)" for above
    unfolding sort_step_def using m(2-) dst by auto
  note step = this
  have "stack_ok (joined a b # rest) (zs # segs)" using st m(3) by (simp add: joined_def)
  moreover have "merge_runs cmp ok dst a b store = Some (concat (rev (zs # segs)) @ post, store')"
    using m(1) dst by simp
  ultimately show ?thesis using step m(3) by (metis append.assoc concat_append concat.simps rev.simps(2) append_Nil2)
qed

lemma collapse_ok:
  "stack_ok stack segs \<Longrightarrow> dst = concat (rev segs) @ post \<Longrightarrow>
   \<exists>dst' stack' store' segs'. collapse cmp ok sz dst stack store = Some (dst', stack', store') \<and>
     stack_ok stack' segs' \<and> dst' = concat (rev segs') @ post \<and> sort_step ok segs dst segs' dst' \<and>
     length stack' \<le> length stack \<and> check_invariant stack'"
proof (induction "length stack" arbitrary: stack segs dst store rule: less_induct)
  case less
  note IH = less.hyps
  consider "stack = []" | c where "stack = [c]" | b a where "stack = [b, a]"
    | c b a rest where "stack = c # b # a # rest"
    by (metis list.exhaust)
  then show ?case
  proof cases
    case 1
    then show ?thesis using less.prems sort_step_refl by (intro exI [of _ segs] exI) auto
  next
    case 2
    then show ?thesis using less.prems sort_step_refl by (intro exI [of _ segs] exI) auto
  next
    case 3
    then obtain sb sa where segs: "segs = [sb, sa]" using less.prems(1) by (auto simp: stack_ok_Cons)
    show ?thesis
    proof (cases "run_length a + run_length b = sz \<or> run_length a \<le> run_length b")
      case True
      have "stack_ok [b, a] [sb, sa]" using less.prems(1) 3 segs by simp
      from merge_neighbours [OF this, of dst post ok store] obtain zs store' dst' where
        m: "merge_runs cmp ok dst a b store = Some (dst', store')" "dst' = concat (rev [zs]) @ post"
        "stack_ok [joined a b] [zs]" "sort_step ok segs dst [zs] dst'"
        using less.prems(2) segs by (metis append_Nil)
      then show ?thesis using 3 True by (intro exI [of _ dst'] exI [of _ "[joined a b]"] exI [of _ store'] exI [of _ "[zs]"]) simp
    next
      case False
      then show ?thesis using 3 less.prems sort_step_refl by (intro exI [of _ segs] exI) (auto simp del: stack_ok.simps)
    qed
  next
    case 4
    then obtain sc sb sa ss where segs: "segs = sc # sb # sa # ss" using less.prems(1)
      by (auto simp: stack_ok_Cons)
    have fin: ?thesis if "\<not> run_length a \<le> run_length b + run_length c" "\<not> run_length b \<le> run_length c"
      using that 4 less.prems sort_step_refl by (intro exI [of _ segs] exI) (auto simp del: stack_ok.simps)
    have go: ?thesis
      if run: "collapse cmp ok sz dst stack store = collapse cmp ok sz dst1 stack1 store1"
        and st1: "stack_ok stack1 segs1" "dst1 = concat (rev segs1) @ post" "sort_step ok segs dst segs1 dst1"
        and len: "length stack1 < length stack" for dst1 stack1 store1 segs1
    proof -
      obtain dst' stack' store' segs' where "collapse cmp ok sz dst1 stack1 store1 = Some (dst', stack', store')"
        "stack_ok stack' segs'" "dst' = concat (rev segs') @ post" "sort_step ok segs1 dst1 segs' dst'"
        "length stack' \<le> length stack1" "check_invariant stack'"
        using IH [OF len st1(1,2)] by blast
      then show ?thesis using run len sort_step_trans [OF st1(3)]
        by (intro exI [of _ dst'] exI [of _ stack'] exI [of _ store'] exI [of _ segs']) simp
    qed
    have bc: ?thesis if "collapse cmp ok sz dst stack store = Option.bind (merge_runs cmp ok dst b c store)
        (\<lambda>(dst', store'). collapse cmp ok sz dst' (joined b c # a # rest) store')"
    proof -
      have "stack_ok (c # b # a # rest) (sc # sb # sa # ss)" using less.prems(1) 4 segs by simp
      from merge_neighbours [OF this, of dst post ok store] obtain zs store' dst' where
        m: "merge_runs cmp ok dst b c store = Some (dst', store')" "dst' = concat (rev (zs # sa # ss)) @ post"
        "stack_ok (joined b c # a # rest) (zs # sa # ss)" "sort_step ok segs dst (zs # sa # ss) dst'"
        using less.prems(2) segs by (metis append_Nil)
      show ?thesis
        by (rule go [of dst' "joined b c # a # rest" store' "zs # sa # ss"]) (use that m 4 in simp_all)
    qed
    have ab: ?thesis if "collapse cmp ok sz dst stack store = Option.bind (merge_runs cmp ok dst a b store)
        (\<lambda>(dst', store'). collapse cmp ok sz dst' (c # joined a b # rest) store')"
    proof -
      have st: "stack_ok (b # a # rest) (sb # sa # ss)" "run_length c = length sc"
        "run_start c = length (concat (rev ss)) + length sa + length sb"
        using less.prems(1) 4 segs by simp_all
      have dst: "dst = concat (rev (sb # sa # ss)) @ sc @ post" using less.prems(2) segs by simp
      obtain zs store' dst' where
        m: "merge_runs cmp ok dst a b store = Some (dst', store')" "dst' = concat (rev (zs # ss)) @ sc @ post"
        "stack_ok (joined a b # rest) (zs # ss)" "length zs = length sa + length sb"
        "sort_step ok ([sc] @ sb # sa # ss) dst ([sc] @ zs # ss) dst'"
        using merge_neighbours [OF st(1) dst, of ok store] by blast
      have s: "sort_step ok segs dst (sc # zs # ss) dst'" using m(5) segs by simp
      have t: "stack_ok (c # joined a b # rest) (sc # zs # ss)" using m st by simp
      show ?thesis
        by (rule go [OF _ t _ s]) (use that m 4 in simp_all)
    qed
    show ?thesis
    proof (cases "run_length a \<le> run_length b + run_length c")
      case True
      show ?thesis
      proof (cases "run_length a < run_length c")
        case less: True
        show ?thesis by (rule ab) (use True less 4 in simp)
      next
        case False
        show ?thesis by (rule bc) (use True False 4 in simp)
      qed
    next
      case False
      show ?thesis
      proof (cases "run_length b \<le> run_length c")
        case le: True
        show ?thesis by (rule bc) (use False le 4 in simp)
      next
        case nle: False
        show ?thesis by (rule fin) (use False nle in simp_all)
      qed
    qed
  qed
qed

lemma finish_merges_ok:
  "stack_ok stack segs \<Longrightarrow> stack \<noteq> [] \<Longrightarrow> dst = concat (rev segs) @ post \<Longrightarrow>
   \<exists>d s. finish_merges cmp ok dst stack store = Some d \<and> d = s @ post \<and> sort_step ok segs dst [s] d"
proof (induction "length stack" arbitrary: stack segs dst store rule: less_induct)
  case less
  consider c where "stack = [c]" | b a rest where "stack = b # a # rest"
    using less.prems(2) by (metis list.exhaust)
  then show ?case
  proof cases
    case 1
    then obtain sc where "segs = [sc]" using less.prems(1) by (auto simp: stack_ok_Cons)
    then show ?thesis using 1 less.prems sort_step_refl by (intro exI [of _ dst] exI [of _ sc]) simp
  next
    case 2
    then obtain sb sa ss where segs: "segs = sb # sa # ss" using less.prems(1) by (auto simp: stack_ok_Cons)
    have "stack_ok (b # a # rest) (sb # sa # ss)" using less.prems(1) 2 segs by simp
    from merge_neighbours [OF this, of dst post ok store] obtain zs store' dst' where
      m: "merge_runs cmp ok dst a b store = Some (dst', store')" "dst' = concat (rev (zs # ss)) @ post"
      "stack_ok (joined a b # rest) (zs # ss)" "sort_step ok segs dst (zs # ss) dst'"
      using less.prems(3) segs by (metis append_Nil)
    obtain d s where "finish_merges cmp ok dst' (joined a b # rest) store' = Some d" "d = s @ post"
      "sort_step ok (zs # ss) dst' [s] d"
      using less.hyps [OF _ m(3) list.distinct(2) m(2), of store'] 2 by (metis length_Cons lessI)
    then show ?thesis using 2 m sort_step_trans [OF m(4)] by (intro exI [of _ d] exI [of _ s]) simp
  qed
qed

end

section \<open>The driver\<close>

context cmp_order
begin

lemma extend_run:
  assumes r: "run_at dst cur len d1" and len: "0 < len" "len < run" "cur + run \<le> length dst"
  shows "\<exists>b. bisort cmp (drop cur d1) len run = Some b \<and> run_at dst cur run (take cur d1 @ b)"
proof -
  obtain seg where seg: "d1 = take cur dst @ seg @ drop (cur + len) dst" "length seg = len" "csorted cmp seg"
    "cls_eq cmp (take len (drop cur dst)) seg" using r unfolding run_at_def by blast
  have lc: "length (take cur dst) = cur" using len by simp
  have d: "drop cur d1 = seg @ drop (cur + len) dst" "take cur d1 = take cur dst" using seg(1) lc by simp_all
  have "take len (drop cur d1) = seg" using d seg(2) by simp
  moreover have "run \<le> length (drop cur d1)" using len seg(2) d(1) by simp
  ultimately obtain b where b: "bisort cmp (drop cur d1) len run = Some b" "length b = length (drop cur d1)"
    "csorted cmp (take run b)" "drop run b = drop run (drop cur d1)" "cls_eq cmp (take run (drop cur d1)) (take run b)"
    using bisort_ok [of len run "drop cur d1"] len(1,2) seg(3) by auto
  have dr: "drop run (drop cur d1) = drop (cur + run) dst"
    unfolding d(1) using seg(2) len by (simp add: add.commute)
  have "take run (drop cur d1) = seg @ take (run - len) (drop (cur + len) dst)"
    unfolding d(1) using seg(2) len by simp
  moreover have "take run (drop cur dst) = take len (drop cur dst) @ take (run - len) (drop (cur + len) dst)"
    using len take_add [of len "run - len" "drop cur dst"] by (simp add: add.commute)
  ultimately have "cls_eq cmp (take run (drop cur dst)) (take run (drop cur d1))"
    using cls_eq_append [OF seg(4) cls_eq_refl] by simp
  then have "cls_eq cmp (take run (drop cur dst)) (take run b)" using b(5) cls_eq_trans by blast
  moreover have "take cur d1 @ b = take cur dst @ take run b @ drop (cur + run) dst"
    using d(2) b(4) dr by (metis append_take_drop_id)
  moreover have "length (take run b) = run" using b(2) d len seg by simp
  ultimately have "run_at dst cur run (take cur d1 @ b)"
    unfolding run_at_def using b(3) by blast
  then show ?thesis using b(1) by blast
qed

definition tinv :: "alloc \<Rightarrow> nat \<Rightarrow> 'a list \<Rightarrow> 'a tsort_state \<Rightarrow> bool" where
  "tinv ok minrun xs s \<longleftrightarrow> (\<exists>segs rest. stack_ok (ts_stack s) segs \<and> ts_dst s = concat (rev segs) @ rest \<and>
     ts_curr s = length (concat (rev segs)) \<and> mset (ts_dst s) = mset xs \<and>
     ((\<forall>n. ok n) \<longrightarrow> list_all (csorted cmp) segs \<and> cls_eq cmp xs (ts_dst s)) \<and>
     minrun * length (ts_stack s) \<le> ts_curr s)"

definition tsorted :: "alloc \<Rightarrow> 'a list \<Rightarrow> 'a list \<Rightarrow> bool" where
  "tsorted ok xs d \<longleftrightarrow> mset d = mset xs \<and> ((\<forall>n. ok n) \<longrightarrow> csorted cmp d \<and> cls_eq cmp xs d)"

lemma push_next_ok:
  assumes inv: "tinv ok minrun xs s" and cur: "ts_curr s < length xs"
    and sz: "length xs \<le> run_stack_max * minrun" "0 < minrun"
  shows "\<exists>r. push_next cmp ok minrun (length xs) s = Some r \<and>
    (case r of Inl d \<Rightarrow> tsorted ok xs d
     | Inr s' \<Rightarrow> tinv ok minrun xs s' \<and> ts_curr s < ts_curr s' \<and> ts_curr s' < length xs)"
proof -
  obtain segs rest where st: "stack_ok (ts_stack s) segs" "ts_dst s = concat (rev segs) @ rest"
    "ts_curr s = length (concat (rev segs))" "mset (ts_dst s) = mset xs"
    "(\<forall>n. ok n) \<longrightarrow> list_all (csorted cmp) segs \<and> cls_eq cmp xs (ts_dst s)"
    "minrun * length (ts_stack s) \<le> ts_curr s" using inv unfolding tinv_def by blast
  define dst where "dst = ts_dst s"
  define cu where "cu = ts_curr s"
  have len: "length dst = length xs" using st(4) unfolding dst_def by (metis mset_eq_length)
  have cl: "cu < length dst" using cur len by (simp add: cu_def)
  obtain d1 l1 where c: "count_run cmp dst cu (length xs) = Some (d1, l1)" "0 < l1" "cu + l1 \<le> length dst"
    "run_at dst cu l1 d1" using count_run_ok [OF cl] len by auto
  define run where "run = (if length xs - cu < minrun then length xs - cu else minrun)"
  define fill where "fill = (if l1 < run then do { d \<leftarrow> bisort cmp (drop cu d1) l1 run; Some (take cu d1 @ d, run) }
    else Some (d1, l1))"
  obtain d2 l2 where f: "fill = Some (d2, l2)" "run_at dst cu l2 d2" "0 < l2" "cu + l2 \<le> length dst"
    "cu + l2 < length dst \<longrightarrow> minrun \<le> l2"
  proof (cases "l1 < run")
    case True
    have le: "cu + run \<le> length dst" "cu + run < length dst \<longrightarrow> minrun \<le> run" "0 < run"
      using cl len sz(2) by (auto simp: run_def)
    from extend_run [OF c(4,2) True le(1)] obtain b where
      "bisort cmp (drop cu d1) l1 run = Some b" "run_at dst cu run (take cu d1 @ b)" by blast
    then show thesis using True that le by (simp add: fill_def)
  next
    case False
    have "cu + l1 < length dst \<longrightarrow> minrun \<le> l1"
      using False len by (cases "length xs - cu < minrun") (auto simp: run_def)
    then show thesis using False that [of d1 l1] c by (simp add: fill_def)
  qed
  obtain seg where seg: "d2 = take cu dst @ seg @ drop (cu + l2) dst" "length seg = l2" "csorted cmp seg"
    "cls_eq cmp (take l2 (drop cu dst)) seg" using f(2) unfolding run_at_def by blast
  have tk: "take cu dst = concat (rev segs)" using st(2,3) by (simp add: dst_def cu_def)
  define stack where "stack = \<lparr>run_start = cu, run_length = l2\<rparr> # ts_stack s"
  have st': "stack_ok stack (seg # segs)" "d2 = concat (rev (seg # segs)) @ drop (cu + l2) dst"
    "length (concat (rev (seg # segs))) = cu + l2"
    using st seg tk by (simp_all add: stack_def cu_def)
  have split: "dst = take cu dst @ take l2 (drop cu dst) @ drop (cu + l2) dst"
    by (metis add.commute append_take_drop_id drop_drop)
  have ce: "cls_eq cmp dst d2"
    by (subst split, subst seg(1)) (intro cls_eq_append cls_eq_refl seg(4))
  have ms: "mset d2 = mset xs" using cls_eq_mset [OF ce] st(4) by (simp add: dst_def)
  have good: "(\<forall>n. ok n) \<longrightarrow> list_all (csorted cmp) (seg # segs) \<and> cls_eq cmp xs d2"
    using st(5) ce seg(3) cls_eq_trans by (auto simp: dst_def)
  have room: "length (ts_stack s) < run_stack_max"
  proof (rule ccontr)
    assume "\<not> ?thesis"
    then have "run_stack_max * minrun \<le> minrun * length (ts_stack s)" by (simp add: mult.commute)
    with st(6) cur sz(1) show False by linarith
  qed
  have run': "push_next cmp ok minrun (length xs) s =
    (if cu + l2 = length xs then do { dst3 \<leftarrow> finish_merges cmp ok d2 stack (ts_store s); Some (Inl dst3) }
     else Some (Inr (s\<lparr>ts_dst := d2, ts_stack := stack, ts_curr := cu + l2\<rparr>)))"
    using c(1) f(1) room unfolding push_next_def fill_def run_def stack_def cu_def dst_def by (simp add: Let_def)
  show ?thesis
  proof (cases "cu + l2 = length xs")
    case True
    have "stack \<noteq> []" by (simp add: stack_def)
    from finish_merges_ok [OF st'(1) this st'(2), of ok "ts_store s"] obtain d r where
      d: "finish_merges cmp ok d2 stack (ts_store s) = Some d" "d = r @ drop (cu + l2) dst"
      "sort_step ok (seg # segs) d2 [r] d" by blast
    have "tsorted ok xs d" using d True len ms good cls_eq_trans
      unfolding tsorted_def sort_step_def by fastforce
    then show ?thesis using True d(1) run' by (intro exI [of _ "Inl d"]) simp
  next
    case False
    have "cu + l2 < length xs" using False f(4) len by simp
    moreover have "minrun * length stack \<le> cu + l2"
      using st(6) f(5) \<open>cu + l2 < length xs\<close> len by (simp add: stack_def cu_def)
    ultimately have "tinv ok minrun xs (s\<lparr>ts_dst := d2, ts_stack := stack, ts_curr := cu + l2\<rparr>)"
      unfolding tinv_def using st' ms good
      by (intro exI [of _ "seg # segs"] exI [of _ "drop (cu + l2) dst"]) simp
    then show ?thesis using False run' f(3) \<open>cu + l2 < length xs\<close>
      by (intro exI [of _ "Inr (s\<lparr>ts_dst := d2, ts_stack := stack, ts_curr := cu + l2\<rparr>)"]) (simp add: cu_def)
  qed
qed

lemma collapse_tinv:
  assumes "tinv ok minrun xs s"
  shows "\<exists>dst' stack' store'. collapse cmp ok sz (ts_dst s) (ts_stack s) (ts_store s) = Some (dst', stack', store') \<and>
    tinv ok minrun xs (s\<lparr>ts_dst := dst', ts_stack := stack', ts_store := store'\<rparr>) \<and> check_invariant stack'"
proof -
  obtain segs rest where st: "stack_ok (ts_stack s) segs" "ts_dst s = concat (rev segs) @ rest"
    "ts_curr s = length (concat (rev segs))" "mset (ts_dst s) = mset xs"
    "(\<forall>n. ok n) \<longrightarrow> list_all (csorted cmp) segs \<and> cls_eq cmp xs (ts_dst s)"
    "minrun * length (ts_stack s) \<le> ts_curr s" using assms unfolding tinv_def by blast
  obtain dst' stack' store' segs' where c: "collapse cmp ok sz (ts_dst s) (ts_stack s) (ts_store s) = Some (dst', stack', store')"
     "stack_ok stack' segs'" "dst' = concat (rev segs') @ rest" "sort_step ok segs (ts_dst s) segs' dst'"
     "length stack' \<le> length (ts_stack s)" "check_invariant stack'"
    using collapse_ok [OF st(1,2)] by blast
  have "minrun * length stack' \<le> ts_curr s" using st(6) c(5) by (meson le_trans mult_le_mono2)
  then have "tinv ok minrun xs (s\<lparr>ts_dst := dst', ts_stack := stack', ts_store := store'\<rparr>)"
    unfolding tinv_def using st c cls_eq_trans
    by (intro exI [of _ segs'] exI [of _ rest]) (auto simp: sort_step_def)
  then show ?thesis using c by blast
qed

lemma tsort_loop_ok:
  assumes sz: "length xs \<le> run_stack_max * minrun" "0 < minrun"
  shows "tinv ok minrun xs s \<Longrightarrow> ts_curr s < length xs \<Longrightarrow>
    \<exists>d. tsort_loop cmp ok minrun (length xs) s = Some d \<and> tsorted ok xs d"
proof (induction "length xs - ts_curr s" arbitrary: s rule: less_induct)
  case less
  have settled: "\<exists>d. tsort_loop cmp ok minrun (length xs) t = Some d \<and> tsorted ok xs d"
    if t: "tinv ok minrun xs t" "ts_curr t = ts_curr s" "check_invariant (ts_stack t)" for t
  proof -
    obtain r where r: "push_next cmp ok minrun (length xs) t = Some r"
      "case r of Inl d \<Rightarrow> tsorted ok xs d
       | Inr s' \<Rightarrow> tinv ok minrun xs s' \<and> ts_curr t < ts_curr s' \<and> ts_curr s' < length xs"
      using push_next_ok [OF t(1) _ sz] less.prems(2) t(2) by auto
    show ?thesis
    proof (cases r)
      case (Inl d)
      then show ?thesis using r t(3) by (subst tsort_loop.simps) simp
    next
      case (Inr s')
      then show ?thesis using r t less.hyps [of s'] less.prems by (subst tsort_loop.simps) auto
    qed
  qed
  show ?case
  proof (cases "check_invariant (ts_stack s)")
    case True
    then show ?thesis using settled less.prems by simp
  next
    case False
    obtain dst' stack' store' where c: "collapse cmp ok (length xs) (ts_dst s) (ts_stack s) (ts_store s) = Some (dst', stack', store')"
      "tinv ok minrun xs (s\<lparr>ts_dst := dst', ts_stack := stack', ts_store := store'\<rparr>)" "check_invariant stack'"
      using collapse_tinv [OF less.prems(1)] by blast
    then show ?thesis using False settled [OF c(2)] by (subst tsort_loop.simps) simp
  qed
qed

lemma tsort_pushes_ok:
  assumes sz: "length xs \<le> run_stack_max * minrun" "0 < minrun"
  shows "tinv ok minrun xs s \<Longrightarrow> ts_curr s < length xs \<Longrightarrow>
    \<exists>d. tsort_pushes cmp ok minrun (length xs) n s = Some d \<and> tsorted ok xs d"
proof (induction n arbitrary: s)
  case 0
  then show ?case using tsort_loop_ok [OF sz] by simp
next
  case (Suc n)
  obtain r where r: "push_next cmp ok minrun (length xs) s = Some r"
    "case r of Inl d \<Rightarrow> tsorted ok xs d
     | Inr s' \<Rightarrow> tinv ok minrun xs s' \<and> ts_curr s < ts_curr s' \<and> ts_curr s' < length xs"
    using push_next_ok [OF Suc.prems sz] by auto
  then show ?case using Suc.IH by (cases r) auto
qed

lemma git__tsort_sorted:
  assumes "length xs \<le> 4096"
  shows "\<exists>d. git__tsort ok xs (length xs) cmp = Some d \<and> tsorted ok xs d"
proof (cases "length xs < 64")
  case True
  have "\<exists>d. bisort cmp xs 1 (length xs) = Some d \<and> tsorted ok xs d"
  proof (cases "xs = []")
    case True
    then show ?thesis by (simp add: bisort_def tsorted_def)
  next
    case False
    then obtain x ys where "xs = x # ys" by (cases xs) auto
    then have "csorted cmp (take 1 xs)" by simp
    then obtain d where "bisort cmp xs 1 (length xs) = Some d" "length d = length xs" "csorted cmp (take (length xs) d)"
      "cls_eq cmp (take (length xs) xs) (take (length xs) d)"
      using bisort_ok [of 1 "length xs" xs] \<open>xs = x # ys\<close> by auto
    then show ?thesis using cls_eq_mset by (auto simp: tsorted_def)
  qed
  then show ?thesis using True by (simp add: git__tsort_def git__tsort_r_def tsort_r_cmp_def)
next
  case False
  define s where "s = \<lparr>ts_dst = xs, ts_stack = [], ts_curr = 0, ts_store = \<lparr>ts_alloc = 0\<rparr>\<rparr>"
  have "tinv ok (compute_minrun (length xs)) xs s"
    unfolding tinv_def s_def by (intro exI [of _ "[]"] exI [of _ xs]) simp
  moreover have "length xs \<le> run_stack_max * compute_minrun (length xs)" "0 < compute_minrun (length xs)"
    using compute_minrun_bounds [of "length xs"] False assms by (simp_all add: run_stack_max_def)
  moreover have "ts_curr s < length xs" using False by (auto simp: s_def)
  ultimately obtain d where "tsort_pushes cmp ok (compute_minrun (length xs)) (length xs) 3 s = Some d" "tsorted ok xs d"
    using tsort_pushes_ok by blast
  then show ?thesis using False by (simp add: git__tsort_def git__tsort_r_def tsort_r_cmp_def s_def Let_def)
qed

end

section \<open>The sorting contract\<close>

text \<open>What the callers of the sort rely on, for arrays of at most limit elements.\<close>

locale sorter =
  fixes sort_fn :: "alloc \<Rightarrow> 'a list \<Rightarrow> nat \<Rightarrow> ('a \<Rightarrow> 'a \<Rightarrow> int) \<Rightarrow> 'a list option"
    and limit :: nat
  assumes sort_fn_perm: "cmp_order cmp \<Longrightarrow> length xs \<le> limit \<Longrightarrow>
      \<exists>d. sort_fn ok xs (length xs) cmp = Some d \<and> mset d = mset xs"
    and sort_fn_sorts: "cmp_order cmp \<Longrightarrow> length xs \<le> limit \<Longrightarrow> \<forall>n. ok n \<Longrightarrow>
      sort_fn ok xs (length xs) cmp = Some d \<Longrightarrow> csorted cmp d \<and> cls_eq cmp xs d"
begin

lemma sort_fn_ok:
  assumes "cmp_order cmp" "length xs \<le> limit" "\<forall>n. ok n"
  obtains d where "sort_fn ok xs (length xs) cmp = Some d" "mset d = mset xs" "csorted cmp d" "cls_eq cmp xs d"
    "length d = length xs"
proof -
  obtain d where d: "sort_fn ok xs (length xs) cmp = Some d" "mset d = mset xs"
    using sort_fn_perm [OF assms(1,2), of ok] by blast
  then show thesis using that sort_fn_sorts [OF assms(1-3) d(1)] mset_eq_length [OF d(2)] by simp
qed

lemma sort_then_search:
  assumes "cmp_order cmp" "length xs \<le> limit" "\<forall>n. ok n" "x \<in> set xs"
  shows "\<exists>d p. sort_fn ok xs (length xs) cmp = Some d \<and> git__bsearch d (length d) x cmp = Some (0, p) \<and>
    p < length d \<and> cmp x (d ! p) = 0"
proof -
  obtain d where d: "sort_fn ok xs (length xs) cmp = Some d" "mset d = mset xs" "csorted cmp d"
    using sort_fn_ok [OF assms(1-3)] .
  have "x \<in> set d" using d(2) assms(4) by (metis mset_eq_setD)
  from cmp_order.bsearch_member [OF assms(1) d(3) this] obtain p where
    "git__bsearch d (length d) x cmp = Some (0, p)" "p < length d" "cmp x (d ! p) = 0" by blast
  with d(1) show ?thesis by blast
qed

end

lemma tsort_perm:
  assumes "cmp_order cmp" "length xs \<le> 4096"
  shows "\<exists>d. git__tsort ok xs (length xs) cmp = Some d \<and> mset d = mset xs"
  using cmp_order.git__tsort_sorted [OF assms, of ok] cmp_order.tsorted_def [OF assms(1)] by auto

lemma tsort_sorted:
  assumes "cmp_order cmp" "length xs \<le> 4096" "\<forall>n. ok n" "git__tsort ok xs (length xs) cmp = Some d"
  shows "csorted cmp d \<and> cls_eq cmp xs d"
  using cmp_order.git__tsort_sorted [OF assms(1,2), of ok] cmp_order.tsorted_def [OF assms(1)] assms(3,4) by auto

interpretation tsorter: sorter git__tsort 4096
  by unfold_locales (rule tsort_perm tsort_sorted; assumption)+

end
