(* ===== verification/Vector.thy ===== *)
theory Vector
  imports Tsort
begin

text \<open>
  The growable pointer array of todo-later/libgit2/src/vector.c and vector.h.  A pointer is a value
  of the type 'a with null one of them; contents holds the length entries in use, and the
  allocated size is kept beside it, so that a store past it is None.
\<close>

record 'a git_vector =
  v_alloc :: nat
  v_cmp :: "('a \<Rightarrow> 'a \<Rightarrow> int) option"
  v_contents :: "'a list"
  v_sorted :: bool

definition v_length :: "'a git_vector \<Rightarrow> nat" where
  "v_length v = length (v_contents v)"

definition compute_new_size :: "'a git_vector \<Rightarrow> nat" where
  "compute_new_size v =
     (if v_alloc v < 8 then 8
      else if v_alloc v \<le> size_max div 3 * 2 then v_alloc v + v_alloc v div 2
      else size_max)"

text \<open>The result is the vector, or None for the error return -1.\<close>

definition resize_vector :: "alloc \<Rightarrow> 'a git_vector \<Rightarrow> nat \<Rightarrow> 'a git_vector option" where
  "resize_vector ok v new_size =
     (let new_bytes = szw (new_size * 8) in
      if new_bytes div 8 \<noteq> new_size then None
      else if \<not> ok new_bytes then None
      else Some (v\<lparr>v_alloc := new_size, v_contents := take new_size (v_contents v)\<rparr>))"

text \<open>On failure the copy is left without contents; it must not be used.\<close>

definition git_vector_dup ::
  "alloc \<Rightarrow> 'a git_vector \<Rightarrow> ('a \<Rightarrow> 'a \<Rightarrow> int) option \<Rightarrow> bool \<Rightarrow> int + 'a git_vector" where
  "git_vector_dup ok src cmp same_cmp =
     (if \<not> ok (szw (v_length src * 8)) then Inl (-1)
      else Inr \<lparr>v_alloc = v_length src, v_cmp = cmp, v_contents = v_contents src,
                v_sorted = (v_sorted src \<and> same_cmp)\<rparr>)"

definition git_vector_free :: "'a git_vector \<Rightarrow> 'a git_vector" where
  "git_vector_free v = v\<lparr>v_contents := [], v_alloc := 0\<rparr>"

definition git_vector_init ::
  "alloc \<Rightarrow> nat \<Rightarrow> ('a \<Rightarrow> 'a \<Rightarrow> int) option \<Rightarrow> int \<times> 'a git_vector" where
  "git_vector_init ok initial_size cmp =
     (let v = \<lparr>v_alloc = 0, v_cmp = cmp, v_contents = [], v_sorted = True\<rparr> in
      case resize_vector ok v (max initial_size 8) of None \<Rightarrow> (-1, v) | Some v' \<Rightarrow> (0, v'))"

text \<open>if (v->length >= v->\_alloc\_size and resize\_vector(...) < 0) return -1.\<close>

definition make_room :: "alloc \<Rightarrow> 'a git_vector \<Rightarrow> 'a git_vector option" where
  "make_room ok v =
     (if v_alloc v \<le> v_length v then resize_vector ok v (compute_new_size v) else Some v)"

definition git_vector_insert :: "alloc \<Rightarrow> 'a git_vector \<Rightarrow> 'a \<Rightarrow> (int \<times> 'a git_vector) option" where
  "git_vector_insert ok v element =
     (case make_room ok v of
        None \<Rightarrow> Some (-1, v)
      | Some v1 \<Rightarrow>
          if v_length v1 < v_alloc v1
          then Some (0, v1\<lparr>v_contents := v_contents v1 @ [element], v_sorted := False\<rparr>)
          else None)"

definition git_vector_sort :: "alloc \<Rightarrow> 'a git_vector \<Rightarrow> 'a git_vector option" where
  "git_vector_sort ok v =
     (case v_cmp v of
        None \<Rightarrow> Some v
      | Some cmp \<Rightarrow>
          if v_sorted v then Some v
          else do {
            d \<leftarrow> git__tsort ok (v_contents v) (v_length v) cmp;
            Some (v\<lparr>v_contents := d, v_sorted := True\<rparr>)})"

text \<open>
  on\_dup may replace the old entry: it maps the old and the new element to its return code and the
  new content of the slot.  A vector without comparison fails the assertion.
\<close>

definition git_vector_insert_sorted ::
  "alloc \<Rightarrow> 'a git_vector \<Rightarrow> 'a \<Rightarrow> ('a \<Rightarrow> 'a \<Rightarrow> int \<times> 'a) option \<Rightarrow> (int \<times> 'a git_vector) option" where
  "git_vector_insert_sorted ok v element on_dup =
     (case v_cmp v of
        None \<Rightarrow> None
      | Some cmp \<Rightarrow> do {
          v1 \<leftarrow> git_vector_sort ok v;
          (case make_room ok v1 of
             None \<Rightarrow> Some (-1, v1)
           | Some v2 \<Rightarrow> do {
               (rc, pos) \<leftarrow> git__bsearch (v_contents v2) (v_length v2) element cmp;
               (result, v3) \<leftarrow>
                 (case on_dup of
                    Some f \<Rightarrow>
                      if rc = 0 then do {
                        old \<leftarrow> rd (v_contents v2) pos;
                        Some (fst (f old element), v2\<lparr>v_contents := (v_contents v2)[pos := snd (f old element)]\<rparr>)}
                      else Some (0, v2)
                  | None \<Rightarrow> Some (0, v2));
               (if result < 0 then Some (result, v3)
                else if v_length v3 < v_alloc v3 \<and> pos \<le> v_length v3
                then Some (0, v3\<lparr>v_contents := take pos (v_contents v3) @ element # drop pos (v_contents v3)\<rparr>)
                else None)})})"

text \<open>The position is written through at\_pos also when nothing is found; -1 leaves it alone.\<close>

definition git_vector_bsearch2 ::
  "alloc \<Rightarrow> 'a git_vector \<Rightarrow> ('k \<Rightarrow> 'a \<Rightarrow> int) \<Rightarrow> 'k \<Rightarrow> (int \<times> nat option \<times> 'a git_vector) option" where
  "git_vector_bsearch2 ok v key_lookup key =
     (case v_cmp v of
        None \<Rightarrow> Some (-1, None, v)
      | Some cmp \<Rightarrow> do {
          v1 \<leftarrow> git_vector_sort ok v;
          (rc, pos) \<leftarrow> git__bsearch (v_contents v1) (v_length v1) key key_lookup;
          Some (rc, Some pos, v1)})"

definition git_vector_bsearch ::
  "alloc \<Rightarrow> 'a git_vector \<Rightarrow> 'a \<Rightarrow> (int \<times> nat option \<times> 'a git_vector) option" where
  "git_vector_bsearch ok v key =
     (case v_cmp v of None \<Rightarrow> None | Some cmp \<Rightarrow> git_vector_bsearch2 ok v cmp key)"

primrec search_loop :: "('k \<Rightarrow> 'a \<Rightarrow> int) \<Rightarrow> 'k \<Rightarrow> 'a list \<Rightarrow> nat \<Rightarrow> int \<times> nat option" where
  "search_loop key_lookup key [] i = (GIT_ENOTFOUND, None)"
| "search_loop key_lookup key (x # xs) i =
     (if key_lookup key x = 0 then (0, Some i) else search_loop key_lookup key xs (i + 1))"

definition git_vector_search2 ::
  "'a git_vector \<Rightarrow> ('k \<Rightarrow> 'a \<Rightarrow> int) \<Rightarrow> 'k \<Rightarrow> int \<times> nat option" where
  "git_vector_search2 v key_lookup key = search_loop key_lookup key (v_contents v) 0"

definition strict_comparison :: "'a \<Rightarrow> 'a \<Rightarrow> int" where
  "strict_comparison a b = (if a = b then 0 else -1)"

definition cmp_or_strict :: "'a git_vector \<Rightarrow> 'a \<Rightarrow> 'a \<Rightarrow> int" where
  "cmp_or_strict v = (case v_cmp v of Some cmp \<Rightarrow> cmp | None \<Rightarrow> strict_comparison)"

definition git_vector_search :: "'a git_vector \<Rightarrow> 'a \<Rightarrow> int \<times> nat option" where
  "git_vector_search v entry = git_vector_search2 v (cmp_or_strict v) entry"

definition git_vector_remove :: "'a git_vector \<Rightarrow> nat \<Rightarrow> int \<times> 'a git_vector" where
  "git_vector_remove v idx =
     (if v_length v \<le> idx then (GIT_ENOTFOUND, v)
      else (0, v\<lparr>v_contents := take idx (v_contents v) @ drop (idx + 1) (v_contents v)\<rparr>))"

definition git_vector_pop :: "'a git_vector \<Rightarrow> 'a git_vector" where
  "git_vector_pop v = (if 0 < v_length v then v\<lparr>v_contents := butlast (v_contents v)\<rparr> else v)"

text \<open>The loop of git\_vector\_uniq over the n indices from j; freed collects the calls of git\_free\_cb.\<close>

primrec uniq_loop ::
  "('a \<Rightarrow> 'a \<Rightarrow> int) \<Rightarrow> 'a list \<Rightarrow> nat \<Rightarrow> nat \<Rightarrow> 'a list \<Rightarrow> nat \<Rightarrow> ('a list \<times> nat \<times> 'a list) option" where
  "uniq_loop cmp xs i j freed 0 = Some (xs, i, freed)"
| "uniq_loop cmp xs i j freed (Suc n) = do {
     a \<leftarrow> rd xs i;
     b \<leftarrow> rd xs j;
     (if cmp a b = 0 then do {
        xs' \<leftarrow> wr xs i b;
        uniq_loop cmp xs' i (j + 1) (freed @ [a]) n}
      else do {
        xs' \<leftarrow> wr xs (i + 1) b;
        uniq_loop cmp xs' (i + 1) (j + 1) freed n})}"

definition git_vector_uniq :: "alloc \<Rightarrow> 'a git_vector \<Rightarrow> ('a git_vector \<times> 'a list) option" where
  "git_vector_uniq ok v =
     (if v_length v \<le> 1 then Some (v, [])
      else do {
        v1 \<leftarrow> git_vector_sort ok v;
        (xs, i, freed) \<leftarrow> uniq_loop (cmp_or_strict v1) (v_contents v1) 0 1 [] (v_length v1 - 1);
        Some (v1\<lparr>v_contents := take (i + 1) xs\<rparr>, freed)})"

primrec remove_matching_loop ::
  "('a list \<Rightarrow> nat \<Rightarrow> bool) \<Rightarrow> 'a list \<Rightarrow> nat \<Rightarrow> nat \<Rightarrow> nat \<Rightarrow> ('a list \<times> nat) option" where
  "remove_matching_loop match xs i j 0 = Some (xs, i)"
| "remove_matching_loop match xs i j (Suc n) = do {
     b \<leftarrow> rd xs j;
     xs' \<leftarrow> wr xs i b;
     remove_matching_loop match xs' (if match xs' i then i else i + 1) (j + 1) n}"

definition git_vector_remove_matching ::
  "'a git_vector \<Rightarrow> ('a list \<Rightarrow> nat \<Rightarrow> bool) \<Rightarrow> 'a git_vector option" where
  "git_vector_remove_matching v match = do {
     (xs, i) \<leftarrow> remove_matching_loop match (v_contents v) 0 0 (v_length v);
     Some (v\<lparr>v_contents := take i xs\<rparr>)}"

definition git_vector_clear :: "'a git_vector \<Rightarrow> 'a git_vector" where
  "git_vector_clear v = v\<lparr>v_contents := [], v_sorted := True\<rparr>"

definition git_vector_swap :: "'a git_vector \<times> 'a git_vector \<Rightarrow> 'a git_vector \<times> 'a git_vector" where
  "git_vector_swap ab = (snd ab, fst ab)"

definition git_vector_resize_to ::
  "'a \<Rightarrow> alloc \<Rightarrow> 'a git_vector \<Rightarrow> nat \<Rightarrow> int \<times> 'a git_vector" where
  "git_vector_resize_to null ok v new_length =
     (case (if v_alloc v < new_length then resize_vector ok v new_length else Some v) of
        None \<Rightarrow> (-1, v)
      | Some v1 \<Rightarrow>
          (0, v1\<lparr>v_contents := take new_length (v_contents v1) @ replicate (new_length - v_length v1) null\<rparr>))"

text \<open>The old entry is returned beside the code.\<close>

definition git_vector_set ::
  "'a \<Rightarrow> alloc \<Rightarrow> 'a git_vector \<Rightarrow> nat \<Rightarrow> 'a \<Rightarrow> (int \<times> 'a option \<times> 'a git_vector) option" where
  "git_vector_set null ok v position value =
     (let (rc, v1) = git_vector_resize_to null ok v (szw (position + 1)) in
      if rc < 0 then Some (-1, None, v1)
      else do {
        old \<leftarrow> rd (v_contents v1) position;
        Some (0, Some old, v1\<lparr>v_contents := (v_contents v1)[position := value]\<rparr>)})"

definition git_vector_get :: "'a \<Rightarrow> 'a git_vector \<Rightarrow> nat \<Rightarrow> 'a" where
  "git_vector_get null v position = (if position < v_length v then v_contents v ! position else null)"

definition git_vector_last :: "'a \<Rightarrow> 'a git_vector \<Rightarrow> 'a" where
  "git_vector_last null v = (if 0 < v_length v then git_vector_get null v (v_length v - 1) else null)"

definition git_vector_set_cmp :: "'a git_vector \<Rightarrow> ('a \<Rightarrow> 'a \<Rightarrow> int) option \<Rightarrow> bool \<Rightarrow> 'a git_vector" where
  "git_vector_set_cmp v cmp same_cmp = (if same_cmp then v else v\<lparr>v_cmp := cmp, v_sorted := False\<rparr>)"

section \<open>Correctness\<close>

definition vec_ok :: "'a git_vector \<Rightarrow> bool" where
  "vec_ok v \<longleftrightarrow> v_length v \<le> v_alloc v \<and>
     (v_sorted v \<longrightarrow> (case v_cmp v of None \<Rightarrow> True | Some cmp \<Rightarrow> csorted cmp (v_contents v)))"

lemma compute_new_size_grows: "v_alloc v < size_max \<Longrightarrow> v_alloc v < compute_new_size v"
  by (auto simp: compute_new_size_def)

lemma make_room_ok:
  assumes "vec_ok v" "v_length v < size_max" "make_room ok v = Some v1"
  shows "\<exists>a. v1 = v\<lparr>v_alloc := a\<rparr> \<and> v_length v < a"
proof (cases "v_alloc v \<le> v_length v")
  case True
  then have "v_alloc v = v_length v" using assms(1) by (simp add: vec_ok_def)
  then have "v_length v < compute_new_size v" using compute_new_size_grows [of v] assms(2) by simp
  then show ?thesis using assms(3) True
    by (auto simp: make_room_def resize_vector_def Let_def v_length_def split: if_splits)
next
  case False
  then show ?thesis using assms(3) by (intro exI [of _ "v_alloc v"]) (simp add: make_room_def)
qed

lemma make_room_small:
  assumes "v_length v \<le> 4096" "\<forall>n. ok n"
  shows "make_room ok v \<noteq> None"
proof (cases "v_alloc v \<le> v_length v")
  case True
  have "compute_new_size v \<le> 6144"
    using True assms(1) by (auto simp: compute_new_size_def size_max_def)
  then show ?thesis using assms(2) by (simp add: make_room_def resize_vector_def Let_def)
qed (simp add: make_room_def)

lemma vector_sort_ok:
  assumes "cmp_order cmp" "v_cmp v = Some cmp" "vec_ok v" "v_length v \<le> 4096" "\<forall>n. ok n"
  shows "\<exists>d. git_vector_sort ok v = Some (v\<lparr>v_contents := d, v_sorted := True\<rparr>) \<and> csorted cmp d \<and>
    mset d = mset (v_contents v) \<and> vec_ok (v\<lparr>v_contents := d, v_sorted := True\<rparr>)"
proof (cases "v_sorted v")
  case True
  then show ?thesis using assms(2,3) by (intro exI [of _ "v_contents v"]) (simp add: git_vector_sort_def vec_ok_def v_length_def)
next
  case False
  obtain d where d: "git__tsort ok (v_contents v) (length (v_contents v)) cmp = Some d"
    "mset d = mset (v_contents v)" "csorted cmp d" "length d = length (v_contents v)"
    using tsorter.sort_fn_ok [OF assms(1), of "v_contents v" ok] assms(4,5) unfolding v_length_def by metis
  then show ?thesis using False assms(2,3) by (intro exI [of _ d]) (simp add: git_vector_sort_def vec_ok_def v_length_def)
qed

lemma insert_sorted_ok:
  assumes o: "cmp_order cmp" and v: "v_cmp v = Some cmp" "vec_ok v" "v_length v \<le> 4096" and ok: "\<forall>n. ok n"
  shows "\<exists>v'. git_vector_insert_sorted ok v e None = Some (0, v') \<and> vec_ok v' \<and> v_sorted v' \<and> v_cmp v' = Some cmp \<and>
    csorted cmp (v_contents v') \<and> mset (v_contents v') = add_mset e (mset (v_contents v))"
proof -
  obtain d where d: "git_vector_sort ok v = Some (v\<lparr>v_contents := d, v_sorted := True\<rparr>)" "csorted cmp d"
    "mset d = mset (v_contents v)" "vec_ok (v\<lparr>v_contents := d, v_sorted := True\<rparr>)"
    using vector_sort_ok [OF o v ok] by blast
  let ?v1 = "v\<lparr>v_contents := d, v_sorted := True\<rparr>"
  have len: "v_length ?v1 \<le> 4096" using v(3) mset_eq_length [OF d(3)] by (simp add: v_length_def)
  obtain v2 where v2: "make_room ok ?v1 = Some v2" using make_room_small [OF len ok] by blast
  obtain a where a: "v2 = ?v1\<lparr>v_alloc := a\<rparr>" "v_length ?v1 < a"
    using make_room_ok [OF d(4) _ v2] len by (auto simp: size_max_def)
  obtain rc p where s: "git__bsearch d (length d) e cmp = Some (rc, p)"
    "rc = 0 \<and> p < length d \<and> cmp e (d ! p) = 0 \<or> rc = GIT_ENOTFOUND \<and> splits_at cmp e d p"
    using bsearch_ok [OF cmp_order.csorted_key_sorted [OF o d(2)], of e] by blast
  then have p: "p \<le> length d" by (auto simp: splits_at_def)
  have srt: "csorted cmp (take p d @ e # drop p d)"
    using cmp_order.insert_at_split [OF o d(2)] s(2) by blast
  have "mset (take p d) + mset (drop p d) = mset d" by (metis append_take_drop_id mset_append)
  then have ms: "mset (take p d @ e # drop p d) = add_mset e (mset (v_contents v))" using d(3) by simp
  define v' where "v' = v2\<lparr>v_contents := take p d @ e # drop p d\<rparr>"
  have "git_vector_insert_sorted ok v e None = Some (0, v')"
    using v d(1) v2 a s(1) p by (simp add: git_vector_insert_sorted_def v_length_def v'_def)
  moreover have "vec_ok v' \<and> v_sorted v' \<and> v_cmp v' = Some cmp"
    using a v srt p by (simp add: vec_ok_def v_length_def v'_def)
  ultimately show ?thesis using srt ms by (intro exI [of _ v']) (simp add: v'_def)
qed

text \<open>Removing duplicates.\<close>

lemma uniq_loop_ok:
  assumes o: "cmp_order cmp"
  shows "n = length R \<Longrightarrow> csorted cmp (K @ [a] @ R) \<Longrightarrow> sorted_wrt (\<lambda>x y. cmp x y < 0) (K @ [a]) \<Longrightarrow>
    \<exists>xs' i' freed'. uniq_loop cmp (K @ [a] @ gap @ R) (length K) (length K + 1 + length gap) freed n = Some (xs', i', freed') \<and>
      i' < length xs' \<and> sorted_wrt (\<lambda>x y. cmp x y < 0) (take (i' + 1) xs') \<and>
      mset (take (i' + 1) xs') + mset freed' = mset (K @ [a] @ R) + mset freed \<and>
      (\<forall>x \<in> set (K @ [a] @ R). \<exists>y \<in> set (take (i' + 1) xs'). cmp x y = 0)"
proof (induction n arbitrary: K a R gap freed)
  case 0
  then show ?case using cmp_order.cmp_refl [OF o] by force
next
  case (Suc n)
  then obtain b R' where R: "R = b # R'" "length R' = n" by (cases R) auto
  have rds: "rd (K @ [a] @ gap @ R) (length K) = Some a"
    "rd (K @ [a] @ gap @ R) (length K + 1 + length gap) = Some b"
    using R by (simp_all add: rd_def nth_append)
  have ab: "cmp a b \<le> 0" using Suc.prems(2) R by (simp add: csorted_append csorted_Cons)
  show ?case
  proof (cases "cmp a b = 0")
    case True
    have s1: "csorted cmp (K @ [b] @ R')"
      using Suc.prems(2) R by (simp add: csorted_append csorted_Cons)
    have s2: "sorted_wrt (\<lambda>x y. cmp x y < 0) (K @ [b])"
      using Suc.prems(3) True cmp_order.cmp_less_le [OF o, of _ a b] by (auto simp: sorted_wrt_append)
    have upd: "(K @ [a] @ gap @ R)[length K := b] = K @ [b] @ (gap @ [b]) @ R'" using R by (simp add: list_update_append)
    obtain xs' i' freed' where ih: "uniq_loop cmp (K @ [b] @ (gap @ [b]) @ R') (length K) (length K + 1 + length (gap @ [b]))
        (freed @ [a]) n = Some (xs', i', freed')" "i' < length xs'" "sorted_wrt (\<lambda>x y. cmp x y < 0) (take (i' + 1) xs')"
      "mset (take (i' + 1) xs') + mset freed' = mset (K @ [b] @ R') + mset (freed @ [a])"
      "\<forall>x \<in> set (K @ [b] @ R'). \<exists>y \<in> set (take (i' + 1) xs'). cmp x y = 0"
      using Suc.IH [OF R(2) [symmetric] s1 s2] by blast
    obtain y where y: "y \<in> set (take (i' + 1) xs')" "cmp b y = 0" using ih(5) by fastforce
    have "cmp a y = 0"
      using True y(2) cmp_order.cmp_eq_cong [OF o, of a b] cmp_order.cmp_eq_cong [OF o, of y b a]
        cmp_order.cmp_flip(3) [OF o] cmp_order.cmp_flip(1) [OF o] by (metis order_antisym order_refl)
    with y(1) have "\<exists>y \<in> set (take (i' + 1) xs'). cmp a y = 0" by blast
    then have all: "\<forall>x \<in> set (K @ [a] @ R). \<exists>y \<in> set (take (i' + 1) xs'). cmp x y = 0"
      using ih(5) R by simp
    have run: "uniq_loop cmp (K @ [a] @ gap @ R) (length K) (length K + 1 + length gap) freed (Suc n) = Some (xs', i', freed')"
      using ih(1) True rds upd by (simp add: wr_def)
    have "mset (take (i' + 1) xs') + mset freed' = mset (K @ [a] @ R) + mset freed" using ih(4) R by simp
    with all run ih(2,3) show ?thesis by blast
  next
    case False
    then have lt: "cmp a b < 0" using ab by simp
    have s1: "csorted cmp ((K @ [a]) @ [b] @ R')" using Suc.prems(2) R by simp
    have s2: "sorted_wrt (\<lambda>x y. cmp x y < 0) ((K @ [a]) @ [b])"
      using Suc.prems(3) lt cmp_order.cmp_less_le [OF o, of _ a b] by (auto simp: sorted_wrt_append)
    obtain gap' where gap': "length gap' = length gap"
      "(K @ [a] @ gap @ R)[length K + 1 := b] = (K @ [a]) @ [b] @ gap' @ R'"
    proof (cases gap)
      case Nil
      then show thesis using R by (intro that [of "[]"]) (simp_all add: list_update_append)
    next
      case (Cons g gs)
      then show thesis using R by (intro that [of "gs @ [b]"]) (simp_all add: list_update_append)
    qed
    obtain xs' i' freed' where ih: "uniq_loop cmp ((K @ [a]) @ [b] @ gap' @ R') (length (K @ [a])) (length (K @ [a]) + 1 + length gap')
        freed n = Some (xs', i', freed')" "i' < length xs'" "sorted_wrt (\<lambda>x y. cmp x y < 0) (take (i' + 1) xs')"
      "mset (take (i' + 1) xs') + mset freed' = mset ((K @ [a]) @ [b] @ R') + mset freed"
      "\<forall>x \<in> set ((K @ [a]) @ [b] @ R'). \<exists>y \<in> set (take (i' + 1) xs'). cmp x y = 0"
      using Suc.IH [OF R(2) [symmetric] s1 s2] by blast
    then show ?thesis using False rds gap' R
      by (intro exI [of _ xs'] exI [of _ i'] exI [of _ freed']) (simp add: wr_def)
  qed
qed

lemma uniq_ok:
  assumes o: "cmp_order cmp" and v: "v_cmp v = Some cmp" "vec_ok v" "v_length v \<le> 4096" and ok: "\<forall>n. ok n"
  shows "\<exists>v' freed. git_vector_uniq ok v = Some (v', freed) \<and>
    sorted_wrt (\<lambda>x y. cmp x y < 0) (v_contents v') \<and>
    mset (v_contents v') + mset freed = mset (v_contents v) \<and>
    (\<forall>x \<in> set (v_contents v). \<exists>y \<in> set (v_contents v'). cmp x y = 0)"
proof (cases "v_length v \<le> 1")
  case True
  then have "v_contents v = [] \<or> (\<exists>x. v_contents v = [x])"
    by (cases "v_contents v") (auto simp: v_length_def)
  then show ?thesis using True cmp_order.cmp_refl [OF o] by (auto simp: git_vector_uniq_def)
next
  case False
  obtain d where d: "git_vector_sort ok v = Some (v\<lparr>v_contents := d, v_sorted := True\<rparr>)" "csorted cmp d"
    "mset d = mset (v_contents v)" using vector_sort_ok [OF o v ok] by blast
  have "length d = v_length v" using mset_eq_length [OF d(3)] by (simp add: v_length_def)
  then obtain a R where ar: "d = a # R" "length R = v_length v - 1" using False by (cases d) auto
  obtain xs' i' freed' where u: "uniq_loop cmp (a # R) 0 1 [] (length R) = Some (xs', i', freed')" "i' < length xs'"
    "sorted_wrt (\<lambda>x y. cmp x y < 0) (take (i' + 1) xs')" "mset (take (i' + 1) xs') + mset freed' = mset (a # R)"
    "\<forall>x \<in> set (a # R). \<exists>y \<in> set (take (i' + 1) xs'). cmp x y = 0"
    using uniq_loop_ok [OF o refl, of "[]" a R "[]" "[]"] d(2) ar(1) by auto
  have "set (a # R) = set (v_contents v)" using d(3) ar(1) by (metis mset_eq_setD)
  then show ?thesis using False d u ar v(1)
    by (intro exI [of _ "v\<lparr>v_contents := take (i' + 1) xs', v_sorted := True\<rparr>"] exI [of _ freed'])
      (simp add: git_vector_uniq_def cmp_or_strict_def v_length_def)
qed

lemma remove_matching_loop_ok:
  assumes m: "\<And>xs i. i < length xs \<Longrightarrow> match xs i = P (xs ! i)"
  shows "n = length R \<Longrightarrow> \<exists>xs' . remove_matching_loop match (K @ gap @ R) (length K) (length K + length gap) n
      = Some (xs', length K + length (filter (\<lambda>x. \<not> P x) R)) \<and>
    take (length K + length (filter (\<lambda>x. \<not> P x) R)) xs' = K @ filter (\<lambda>x. \<not> P x) R"
proof (induction n arbitrary: K gap R)
  case 0
  then show ?case by simp
next
  case (Suc n)
  then obtain b R' where R: "R = b # R'" "length R' = n" by (cases R) auto
  obtain gap' where gap': "length gap' = length gap" "(K @ gap @ R)[length K := b] = (K @ [b]) @ gap' @ R'"
  proof (cases gap)
    case Nil
    then show thesis using R by (intro that [of "[]"]) simp_all
  next
    case (Cons g gs)
    then show thesis using R by (intro that [of "gs @ [b]"]) (simp_all add: list_update_append)
  qed
  have r: "rd (K @ gap @ R) (length K + length gap) = Some b"
    "wr (K @ gap @ R) (length K) b = Some (K @ b # gap' @ R')"
    using R gap' by (simp_all add: rd_def wr_def nth_append)
  have mb: "match (K @ b # gap' @ R') (length K) = P b" using m [of "length K" "K @ b # gap' @ R'"] by simp
  show ?case
  proof (cases "P b")
    case True
    then show ?thesis using Suc.IH [OF R(2) [symmetric], of K "b # gap'"] r mb R gap' by simp
  next
    case False
    then show ?thesis using Suc.IH [OF R(2) [symmetric], of "K @ [b]" gap'] r mb R gap' by simp
  qed
qed

lemma remove_matching_ok:
  assumes "\<And>xs i. i < length xs \<Longrightarrow> match xs i = P (xs ! i)"
  shows "git_vector_remove_matching v match = Some (v\<lparr>v_contents := filter (\<lambda>x. \<not> P x) (v_contents v)\<rparr>)"
  using remove_matching_loop_ok [where match = match and P = P and K = "[]" and gap = "[]" and R = "v_contents v", OF assms refl]
  by (auto simp: git_vector_remove_matching_def v_length_def)

end
