(* ===== verification/SortProps.thy ===== *)
theory SortProps
  imports Vector
begin

text \<open>
  Properties of the sort (tsort.c), the binary search (util.c) and the vector (vector.c).
\<close>

text \<open>An integer comparison, for concrete inputs.\<close>

definition int_cmp :: "int \<Rightarrow> int \<Rightarrow> int" where
  "int_cmp a b = a - b"

lemma int_cmp_order: "cmp_order int_cmp"
  by unfold_locales (auto simp: int_cmp_def sgn_if)

definition sample_vec :: "int list \<Rightarrow> bool \<Rightarrow> int git_vector" where
  "sample_vec xs s = \<lparr>v_alloc = 8, v_cmp = Some int_cmp, v_contents = xs, v_sorted = s\<rparr>"

lemmas vector_eval =
  git_vector_set_def git_vector_resize_to_def git_vector_bsearch_def git_vector_bsearch2_def
  git_vector_sort_def git_vector_search_def git_vector_search2_def cmp_or_strict_def
  git__bsearch_def v_length_def sample_vec_def

text \<open>C9: git\_\_tsort sorts.  For a comparison function that is a total preorder, an array of at most
  4096 elements (the bound under which the fixed stack of 128 runs is shown not to overflow) and an
  allocator that does not fail, the sort returns with every access in bounds; the result is sorted,
  a permutation of the input, and stable: equal elements keep their order.\<close>

theorem tsort_spec:
  assumes "cmp_order cmp" "length xs \<le> 4096" "\<forall>n. ok n"
  shows "\<exists>d. git__tsort ok xs (length xs) cmp = Some d \<and> csorted cmp d \<and> mset d = mset xs \<and> cls_eq cmp xs d"
  using tsorter.sort_fn_ok [OF assms] by blast

theorem tsort_spec_witness:
  "\<exists>d. git__tsort (\<lambda>n. True) [3, 1, 2] 3 int_cmp = Some d \<and> csorted int_cmp d \<and> mset d = {#1, 2, 3#}"
  using tsort_spec [OF int_cmp_order, of "[3, 1, 2]" "\<lambda>n. True"] by (auto simp: add_mset_commute numeral_3_eq_3)

text \<open>C10: Out of memory in a merge leaves the array unsorted but intact: whatever the allocator does,
  git\_\_tsort returns, stays in bounds, and its result is a permutation of the input.\<close>

theorem tsort_oom_permutes:
  assumes "cmp_order cmp" "length xs \<le> 4096"
  shows "\<exists>d. git__tsort ok xs (length xs) cmp = Some d \<and> mset d = mset xs"
  using tsorter.sort_fn_perm [OF assms] .

theorem tsort_oom_permutes_witness:
  "\<exists>d. git__tsort (\<lambda>n. False) [3, 1, 2] 3 int_cmp = Some d \<and> mset d = {#3, 1, 2#}"
  using tsort_oom_permutes [OF int_cmp_order, of "[3, 1, 2]" "\<lambda>n. False"] by (simp add: numeral_3_eq_3)

text \<open>C11: git\_\_bsearch on an array whose elements compare to the key first positive, then zero, then
  negative returns 0 with the position of an element equal to the key, or GIT\_ENOTFOUND with the
  position where the key belongs: every element before it is smaller and every other one greater.\<close>

theorem bsearch_spec:
  assumes "key_sorted compare key arr"
  shows "\<exists>rc p. git__bsearch arr (length arr) key compare = Some (rc, p) \<and>
    (rc = 0 \<and> p < length arr \<and> compare key (arr ! p) = 0 \<or>
     rc = GIT_ENOTFOUND \<and> splits_at compare key arr p)"
  using assms by (rule bsearch_ok)

theorem bsearch_spec_witness:
  "\<exists>rc p. git__bsearch [1, 4, 9] 3 5 int_cmp = Some (rc, p) \<and> (rc = 0 \<or> splits_at int_cmp 5 [1, 4, 9] p)"
proof -
  have "key_sorted int_cmp 5 [1, 4, 9]" by (simp add: key_sorted_def int_cmp_def)
  from bsearch_spec [OF this] show ?thesis by (auto simp: numeral_3_eq_3)
qed

text \<open>C12: git\_vector\_insert\_sorted keeps the vector sorted and only adds the element, wherever the
  vector was: sorted or with pending unsorted insertions, full or with room; the invariant of the
  vector (contents within the allocation, sorted when flagged so) is preserved.\<close>

theorem vector_insert_sorted:
  assumes "cmp_order cmp" "v_cmp v = Some cmp" "vec_ok v" "v_length v \<le> 4096" "\<forall>n. ok n"
  shows "\<exists>v'. git_vector_insert_sorted ok v e None = Some (0, v') \<and> vec_ok v' \<and> v_sorted v' \<and> v_cmp v' = Some cmp \<and>
    csorted cmp (v_contents v') \<and> mset (v_contents v') = add_mset e (mset (v_contents v))"
  using assms by (rule insert_sorted_ok)

theorem vector_insert_sorted_witness:
  "\<exists>v'. git_vector_insert_sorted (\<lambda>n. True) (sample_vec [5, 1] False) 3 None = Some (0, v') \<and>
    csorted int_cmp (v_contents v')"
  using vector_insert_sorted [OF int_cmp_order, of "sample_vec [5, 1] False" "\<lambda>n. True" 3]
  by (auto simp: sample_vec_def vec_ok_def v_length_def)

text \<open>git\_vector\_uniq keeps exactly one element of every class of equal elements, in strictly
  increasing order, and hands every other element to the free callback exactly once.\<close>

theorem vector_uniq:
  assumes "cmp_order cmp" "v_cmp v = Some cmp" "vec_ok v" "v_length v \<le> 4096" "\<forall>n. ok n"
  shows "\<exists>v' freed. git_vector_uniq ok v = Some (v', freed) \<and>
    sorted_wrt (\<lambda>x y. cmp x y < 0) (v_contents v') \<and>
    mset (v_contents v') + mset freed = mset (v_contents v) \<and>
    (\<forall>x \<in> set (v_contents v). \<exists>y \<in> set (v_contents v'). cmp x y = 0)"
  using assms by (rule uniq_ok)

theorem vector_uniq_witness:
  "\<exists>v' freed. git_vector_uniq (\<lambda>n. True) (sample_vec [5, 1, 5] False) = Some (v', freed) \<and>
    sorted_wrt (\<lambda>x y. int_cmp x y < 0) (v_contents v') \<and> mset (v_contents v') + mset freed = {#5, 1, 5#}"
  using vector_uniq [OF int_cmp_order, of "sample_vec [5, 1, 5] False" "\<lambda>n. True"]
  by (auto simp: sample_vec_def vec_ok_def v_length_def)

text \<open>git\_vector\_set at a position inside the vector cuts the vector off behind that position
  (git\_vector\_resize\_to is called for every position and also shrinks), and it leaves the sorted flag
  as it was: after setting the last entry of a sorted vector, the binary search misses an element that
  the linear search finds.\<close>

theorem vector_set_truncates:
  "(position < v_length v \<and> vec_ok v \<and> v_length v < size_max \<longrightarrow>
     git_vector_set null ok v position value =
       Some (0, Some (v_contents v ! position), v\<lparr>v_contents := take position (v_contents v) @ [value]\<rparr>)) \<and>
   (\<exists>v'. git_vector_set 0 (\<lambda>n. True) (sample_vec [1, 3, 5] True) 2 0 = Some (0, Some 5, v') \<and>
     v_sorted v' \<and> git_vector_search v' 0 = (0, Some 2) \<and>
     git_vector_bsearch (\<lambda>n. True) v' 0 = Some (GIT_ENOTFOUND, Some 0, v'))"
proof (intro conjI impI)
  assume a: "position < v_length v \<and> vec_ok v \<and> v_length v < size_max"
  have w: "szw (position + 1) = position + 1" by (rule szw_id) (use a in \<open>simp add: size_max_def\<close>)
  have r: "git_vector_resize_to null ok v (position + 1) = (0, v\<lparr>v_contents := take (position + 1) (v_contents v)\<rparr>)"
    using a by (simp add: git_vector_resize_to_def vec_ok_def v_length_def)
  show "git_vector_set null ok v position value =
       Some (0, Some (v_contents v ! position), v\<lparr>v_contents := take position (v_contents v) @ [value]\<rparr>)"
    using a by (simp only: git_vector_set_def w r)
      (simp add: v_length_def take_Suc_conv_app_nth list_update_append nth_append)
next
  show "\<exists>v'. git_vector_set 0 (\<lambda>n. True) (sample_vec [1, 3, 5] True) 2 0 = Some (0, Some 5, v') \<and>
     v_sorted v' \<and> git_vector_search v' 0 = (0, Some 2) \<and>
     git_vector_bsearch (\<lambda>n. True) v' 0 = Some (GIT_ENOTFOUND, Some 0, v')"
    by (simp add: vector_eval int_cmp_def bsearch_loop.simps GIT_ENOTFOUND_def)
qed

theorem vector_set_truncates_witness:
  "git_vector_set 0 (\<lambda>n. True) (sample_vec [1, 3, 5] True) 0 9 = Some (0, Some 1, sample_vec [9] True)"
  using vector_set_truncates [of 0 "sample_vec [1, 3, 5] True" 0 "\<lambda>n. True" 9]
  by (simp add: sample_vec_def v_length_def vec_ok_def csorted_Cons int_cmp_def size_max_def)

end
