(* ===== verification/Pqueue.thy ===== *)
theory Pqueue
  imports Comparators
begin

text \<open>
  The binary heap of todo-later/libgit2/src/pqueue.c.  d is the array with its unused entry 0;
  its first size entries are in use, entry 0 included.  cmppri a b says that b comes before a.
\<close>

record 'a git_pqueue =
  q_size :: nat
  q_avail :: nat
  q_step :: nat
  q_d :: "'a list"

text \<open>Allocated memory has arbitrary contents, given by junk.\<close>

definition git_pqueue_init :: "(nat \<Rightarrow> 'a) \<Rightarrow> alloc \<Rightarrow> nat \<Rightarrow> int \<times> 'a git_pqueue option" where
  "git_pqueue_init junk ok n =
     (if \<not> ok (szw ((n + 1) * 8)) then (-1, None)
      else (0, Some \<lparr>q_size = 1, q_avail = szw (n + 1), q_step = szw (n + 1), q_d = map junk [0 ..< szw ((n + 1) * 8) div 8]\<rparr>))"

definition git_pqueue_clear :: "'a git_pqueue \<Rightarrow> 'a git_pqueue" where
  "git_pqueue_clear q = q\<lparr>q_size := 1\<rparr>"

definition git_pqueue_size :: "'a git_pqueue \<Rightarrow> nat" where
  "git_pqueue_size q = q_size q - 1"

text \<open>The loop of bubble\_up: i is the hole, moving the element that looks for its place.\<close>

function bubble_loop :: "('a \<Rightarrow> 'a \<Rightarrow> bool) \<Rightarrow> 'a \<Rightarrow> 'a list \<Rightarrow> nat \<Rightarrow> 'a list option" where
  "bubble_loop cmppri moving d i =
     (if 1 < i then
        Option.bind (rd d (i div 2)) (\<lambda>p.
          if cmppri p moving then
            Option.bind (wr d i p) (\<lambda>d'. bubble_loop cmppri moving d' (i div 2))
          else wr d i moving)
      else wr d i moving)"
  by pat_completeness auto
termination
  by (relation "measure (\<lambda>(cmppri, moving, d, i). i)") auto

declare bubble_loop.simps [simp del]

definition bubble_up :: "('a \<Rightarrow> 'a \<Rightarrow> bool) \<Rightarrow> 'a list \<Rightarrow> nat \<Rightarrow> 'a list option" where
  "bubble_up cmppri d i = do { moving \<leftarrow> rd d i; bubble_loop cmppri moving d i }"

definition maxchild :: "('a \<Rightarrow> 'a \<Rightarrow> bool) \<Rightarrow> 'a list \<Rightarrow> nat \<Rightarrow> nat \<Rightarrow> nat option" where
  "maxchild cmppri d sz i =
     (if sz \<le> 2 * i then Some 0
      else if 2 * i + 1 < sz then do {
        a \<leftarrow> rd d (2 * i);
        b \<leftarrow> rd d (2 * i + 1);
        Some (if cmppri a b then 2 * i + 1 else 2 * i)}
      else Some (2 * i))"

lemma maxchild_bounds:
  "maxchild cmppri d sz i = Some c \<Longrightarrow> c \<noteq> 0 \<Longrightarrow> c < sz \<and> (c = 2 * i \<or> c = 2 * i + 1)"
  by (auto simp: maxchild_def split: if_splits Option.bind_splits)

function percolate_loop :: "('a \<Rightarrow> 'a \<Rightarrow> bool) \<Rightarrow> 'a \<Rightarrow> nat \<Rightarrow> 'a list \<Rightarrow> nat \<Rightarrow> 'a list option" where
  "percolate_loop cmppri moving sz d i =
     (case maxchild cmppri d sz i of
        None \<Rightarrow> None
      | Some c \<Rightarrow>
          if c \<noteq> 0 then
            Option.bind (rd d c) (\<lambda>x.
              if cmppri moving x then
                Option.bind (wr d i x) (\<lambda>d'. percolate_loop cmppri moving sz d' c)
              else wr d i moving)
          else wr d i moving)"
  by pat_completeness auto
termination
  by (relation "measure (\<lambda>(cmppri, moving, sz, d, i). sz - i)") (auto dest: maxchild_bounds)

declare percolate_loop.simps [simp del]

definition percolate_down :: "('a \<Rightarrow> 'a \<Rightarrow> bool) \<Rightarrow> nat \<Rightarrow> 'a list \<Rightarrow> nat \<Rightarrow> 'a list option" where
  "percolate_down cmppri sz d i = do { moving \<leftarrow> rd d i; percolate_loop cmppri moving sz d i }"

text \<open>
  The queue pointer q is given: the tests for a null queue answer 1 and NULL.  The array grows by
  step entries.
\<close>

definition git_pqueue_insert ::
  "('a \<Rightarrow> 'a \<Rightarrow> bool) \<Rightarrow> (nat \<Rightarrow> 'a) \<Rightarrow> alloc \<Rightarrow> 'a git_pqueue \<Rightarrow> 'a \<Rightarrow> (int \<times> 'a git_pqueue) option" where
  "git_pqueue_insert cmppri junk ok q x =
     (let newsize = szw (q_size q + q_step q);
          grown = (if q_avail q \<le> q_size q then
                     (if \<not> ok (szw (newsize * 8)) then None
                      else Some (q\<lparr>q_d := take (szw (newsize * 8) div 8) (q_d q) @
                                          map junk [length (q_d q) ..< szw (newsize * 8) div 8],
                                   q_avail := newsize\<rparr>))
                   else Some q)
      in case grown of
           None \<Rightarrow> Some (-1, q)
         | Some q1 \<Rightarrow> do {
             d1 \<leftarrow> wr (q_d q1) (q_size q1) x;
             d2 \<leftarrow> bubble_up cmppri d1 (q_size q1);
             Some (0, q1\<lparr>q_d := d2, q_size := q_size q1 + 1\<rparr>)})"

definition git_pqueue_pop ::
  "('a \<Rightarrow> 'a \<Rightarrow> bool) \<Rightarrow> 'a git_pqueue \<Rightarrow> ('a option \<times> 'a git_pqueue) option" where
  "git_pqueue_pop cmppri q =
     (if q_size q = 1 then Some (None, q)
      else do {
        head \<leftarrow> rd (q_d q) 1;
        last \<leftarrow> (if q_size q = 0 then None else rd (q_d q) (q_size q - 1));
        d1 \<leftarrow> wr (q_d q) 1 last;
        d2 \<leftarrow> percolate_down cmppri (q_size q - 1) d1 1;
        Some (Some head, q\<lparr>q_d := d2, q_size := q_size q - 1\<rparr>)})"

definition git_pqueue_peek :: "'a git_pqueue \<Rightarrow> 'a option option" where
  "git_pqueue_peek q =
     (if q_size q = 1 then Some None else do { x \<leftarrow> rd (q_d q) 1; Some (Some x) })"


section \<open>Commit lists (commit\_list.c)\<close>

text \<open>The fields of a commit node that the ordering uses; a list of nodes is the chain of its next links.\<close>

record commit_node =
  c_id :: nat
  c_time :: u32

definition git_commit_list_time_cmp :: "commit_node \<Rightarrow> commit_node \<Rightarrow> bool" where
  "git_commit_list_time_cmp a b = (c_time a < c_time b)"

text \<open>The insertion at a link; on a failed allocation the link becomes NULL.\<close>

definition git_commit_list_insert :: "alloc \<Rightarrow> commit_node \<Rightarrow> commit_node list \<Rightarrow> commit_node list" where
  "git_commit_list_insert ok item l = (if ok 16 then item # l else [])"

primrec git_commit_list_insert_by_date :: "alloc \<Rightarrow> commit_node \<Rightarrow> commit_node list \<Rightarrow> commit_node list" where
  "git_commit_list_insert_by_date ok item [] = git_commit_list_insert ok item []"
| "git_commit_list_insert_by_date ok item (p # ps) =
     (if git_commit_list_time_cmp p item then git_commit_list_insert ok item (p # ps)
      else p # git_commit_list_insert_by_date ok item ps)"

definition git_commit_list_pop :: "commit_node list \<Rightarrow> commit_node option \<times> commit_node list" where
  "git_commit_list_pop l = (case l of [] \<Rightarrow> (None, []) | t # ts \<Rightarrow> (Some t, ts))"

section \<open>The priority contract\<close>

lemma take_mset_eq:
  "mset d' = mset d \<Longrightarrow> drop n d' = drop n d \<Longrightarrow> mset (take n d') = mset (take n d)"
  by (metis add_right_cancel append_take_drop_id mset_append)

lemma elements_eq:
  assumes "mset (take n d') = mset (take n d)" "d' ! 0 = d ! 0" "1 \<le> n" "n \<le> length d" "length d' = length d"
  shows "mset (drop 1 (take n d')) = mset (drop 1 (take n d))"
proof -
  have "mset (take n e) = {#e ! 0#} + mset (drop 1 (take n e))" if "n \<le> length e" for e :: "'a list"
    using that assms(3) by (cases e; cases n) auto
  from this [of d'] this [of d] assms show ?thesis by simp
qed

text \<open>before a b: b has the higher priority.\<close>

locale priority =
  fixes before :: "'a \<Rightarrow> 'a \<Rightarrow> bool"
  assumes before_asym: "before a b \<Longrightarrow> \<not> before b a"
    and before_negtrans: "before a c \<Longrightarrow> before a b \<or> before b c"
begin

lemma before_trans: "before a b \<Longrightarrow> before b c \<Longrightarrow> before a c"
  using before_negtrans [of b c a] before_asym by blast

lemma not_before_trans: "\<not> before a b \<Longrightarrow> \<not> before b c \<Longrightarrow> \<not> before a c"
  using before_negtrans by blast

lemma not_before_refl: "\<not> before a a"
  using before_asym by blast

definition heap :: "'a list \<Rightarrow> nat \<Rightarrow> bool" where
  "heap d sz \<longleftrightarrow> (\<forall>j. 2 \<le> j \<and> j < sz \<longrightarrow> \<not> before (d ! (j div 2)) (d ! j))"

text \<open>A heap with a hole at i: every pair that does not touch i, and the pairs across it.\<close>

definition hole :: "'a list \<Rightarrow> nat \<Rightarrow> nat \<Rightarrow> bool" where
  "hole d sz i \<longleftrightarrow>
     (\<forall>j. 2 \<le> j \<and> j < sz \<and> j \<noteq> i \<and> j div 2 \<noteq> i \<longrightarrow> \<not> before (d ! (j div 2)) (d ! j)) \<and>
     (\<forall>j. 2 \<le> j \<and> j < sz \<and> j div 2 = i \<and> 2 \<le> i \<longrightarrow> \<not> before (d ! (i div 2)) (d ! j))"

lemma heap_hole:
  assumes "heap d sz" "1 \<le> i"
  shows "hole d sz i"
proof -
  have "\<not> before (d ! (i div 2)) (d ! j)" if "2 \<le> j" "j < sz" "j div 2 = i" "2 \<le> i" for j
    using assms that not_before_trans [of "d ! (i div 2)" "d ! i" "d ! j"] unfolding heap_def by auto
  then show ?thesis using assms unfolding hole_def heap_def by blast
qed

text \<open>Filling the hole.\<close>

lemma fill_hole:
  assumes "hole d sz i" "i < length d" "1 \<le> i"
    and "2 \<le> i \<longrightarrow> \<not> before (d ! (i div 2)) x"
    and "\<forall>j. 2 \<le> j \<and> j < sz \<and> j div 2 = i \<longrightarrow> \<not> before x (d ! j)"
  shows "heap (d[i := x]) sz"
  unfolding heap_def
proof (intro allI impI)
  fix j assume j: "2 \<le> j \<and> j < sz"
  consider "j = i" | "j div 2 = i" "j \<noteq> i" | "j \<noteq> i" "j div 2 \<noteq> i" by blast
  then show "\<not> before (d[i := x] ! (j div 2)) (d[i := x] ! j)"
  proof cases
    case 1
    then have "j div 2 \<noteq> i" using j by auto
    then show ?thesis using 1 assms j by simp
  next
    case 2
    then show ?thesis using assms j by simp
  next
    case 3
    then show ?thesis using assms(1) j unfolding hole_def by simp
  qed
qed

text \<open>Moving the hole to the parent, and to the better child.\<close>

lemma hole_up:
  assumes "hole d sz i" "i < length d" "2 \<le> i" "before (d ! (i div 2)) x"
    and x: "\<forall>j. 2 \<le> j \<and> j < sz \<and> j div 2 = i \<longrightarrow> \<not> before x (d ! j)"
  shows "hole (d[i := d ! (i div 2)]) sz (i div 2)"
    and "\<forall>j. 2 \<le> j \<and> j < sz \<and> j div 2 = i div 2 \<longrightarrow> \<not> before x (d[i := d ! (i div 2)] ! j)"
proof -
  let ?p = "d ! (i div 2)" and ?d = "d[i := d ! (i div 2)]"
  have ne: "i div 2 \<noteq> i" using assms(3) by auto
  have pd: "?d ! (i div 2) = ?p" using ne by simp
  have pairs: "\<not> before (d ! (j div 2)) (d ! j)" if "2 \<le> j" "j < sz" "j \<noteq> i" "j div 2 \<noteq> i" for j
    using assms(1) that unfolding hole_def by blast
  have grand: "\<not> before ?p (d ! j)" if "2 \<le> j" "j < sz" "j div 2 = i" for j
    using assms(1,3) that unfolding hole_def by blast
  show "\<forall>j. 2 \<le> j \<and> j < sz \<and> j div 2 = i div 2 \<longrightarrow> \<not> before x (?d ! j)"
  proof (intro allI impI)
    fix j assume j: "2 \<le> j \<and> j < sz \<and> j div 2 = i div 2"
    show "\<not> before x (?d ! j)"
    proof (cases "j = i")
      case True
      then show ?thesis using assms(2,4) before_asym by simp
    next
      case False
      then have "\<not> before ?p (d ! j)" using pairs [of j] j ne by auto
      then show ?thesis using False before_trans [OF assms(4)] by auto
    qed
  qed
  show "hole ?d sz (i div 2)"
    unfolding hole_def
  proof (intro conjI allI impI)
    fix j assume j: "2 \<le> j \<and> j < sz \<and> j \<noteq> i div 2 \<and> j div 2 \<noteq> i div 2"
    then have "j \<noteq> i" by blast
    then show "\<not> before (?d ! (j div 2)) (?d ! j)"
      using pairs [of j] grand [of j] j assms(2) by (cases "j div 2 = i") auto
  next
    fix j assume j: "2 \<le> j \<and> j < sz \<and> j div 2 = i div 2 \<and> 2 \<le> i div 2"
    have i4: "i div 2 div 2 \<noteq> i" "i div 2 div 2 \<noteq> i div 2" using j assms(3) by auto
    have gp: "\<not> before (d ! (i div 2 div 2)) ?p"
    proof (cases "i div 2 < sz")
      case True
      then show ?thesis using pairs [of "i div 2"] j ne i4 by auto
    next
      case False
      then show ?thesis using j by auto
    qed
    show "\<not> before (?d ! (i div 2 div 2)) (?d ! j)"
    proof (cases "j = i")
      case True
      then show ?thesis using gp i4 assms(2) by simp
    next
      case False
      then have "\<not> before ?p (d ! j)" using pairs [of j] j ne by auto
      then show ?thesis using False i4 not_before_trans [OF gp] by simp
    qed
  qed
qed

lemma hole_down:
  assumes "hole d sz i" "i < length d" "1 \<le> i" "c div 2 = i" "2 \<le> c" "c < sz" "c < length d"
    and up: "2 \<le> i \<longrightarrow> \<not> before (d ! (i div 2)) x"
    and x: "before x (d ! c)"
    and best: "\<forall>j. 2 \<le> j \<and> j < sz \<and> j div 2 = i \<longrightarrow> \<not> before (d ! c) (d ! j)"
  shows "hole (d[i := d ! c]) sz c" "\<not> before (d[i := d ! c] ! (c div 2)) x"
proof -
  let ?d = "d[i := d ! c]"
  have ci: "c \<noteq> i" using assms(4,5) by auto
  have pairs: "\<not> before (d ! (j div 2)) (d ! j)" if "2 \<le> j" "j < sz" "j \<noteq> i" "j div 2 \<noteq> i" for j
    using assms(1) that unfolding hole_def by blast
  show "\<not> before (?d ! (c div 2)) x" using assms(2,4) before_asym [OF x] by simp
  show "hole ?d sz c"
    unfolding hole_def
  proof (intro conjI allI impI)
    fix j assume j: "2 \<le> j \<and> j < sz \<and> j \<noteq> c \<and> j div 2 \<noteq> c"
    show "\<not> before (?d ! (j div 2)) (?d ! j)"
    proof (cases "j = i")
      case True
      then have "j div 2 \<noteq> i" using j by auto
      moreover have "\<not> before (d ! (i div 2)) (d ! c)"
        using assms(1,4-6) True j unfolding hole_def by auto
      ultimately show ?thesis using True assms(2) by simp
    next
      case False
      show ?thesis
      proof (cases "j div 2 = i")
        case True
        then show ?thesis using best j False assms(2) by auto
      next
        case nf: False
        then show ?thesis using pairs [of j] j False by simp
      qed
    qed
  next
    fix j assume j: "2 \<le> j \<and> j < sz \<and> j div 2 = c \<and> 2 \<le> c"
    have "j \<noteq> i" "j div 2 \<noteq> i" using j assms(4) ci by auto
    then show "\<not> before (?d ! (c div 2)) (?d ! j)" using pairs [of j] j assms(2,4) by simp
  qed
qed

lemma swap_mset:
  assumes "i < length d" "k < length d" "i \<noteq> k"
  shows "mset ((d[i := d ! k])[k := x]) = mset (d[i := x])"
proof -
  have "mset ((d[i := x])[i := d[i := x] ! k, k := d[i := x] ! i]) = mset (d[i := x])"
    by (rule mset_swap) (use assms in simp_all)
  moreover have "(d[i := x])[i := d[i := x] ! k, k := d[i := x] ! i] = (d[i := d ! k])[k := x]"
    using assms by simp
  ultimately show ?thesis by (simp only:)
qed

lemma bubble_loop_ok:
  "hole d sz i \<Longrightarrow> i < length d \<Longrightarrow> 1 \<le> i \<Longrightarrow>
   \<forall>j. 2 \<le> j \<and> j < sz \<and> j div 2 = i \<longrightarrow> \<not> before x (d ! j) \<Longrightarrow>
   \<exists>d'. bubble_loop before x d i = Some d' \<and> heap d' sz \<and> length d' = length d \<and> d' ! 0 = d ! 0 \<and>
     drop (i + 1) d' = drop (i + 1) d \<and> mset d' = mset (d[i := x])"
proof (induction i arbitrary: d rule: less_induct)
  case (less i)
  show ?case
  proof (cases "1 < i \<and> before (d ! (i div 2)) x")
    case True
    let ?d = "d[i := d ! (i div 2)]"
    have b: "2 \<le> i" "before (d ! (i div 2)) x" "i div 2 < length d" "i div 2 < i" "1 \<le> i div 2"
      using True less.prems by auto
    note up = hole_up [OF less.prems(1,2) b(1,2) less.prems(4)]
    obtain d' where d': "bubble_loop before x ?d (i div 2) = Some d'" "heap d' sz" "length d' = length ?d"
      "d' ! 0 = ?d ! 0" "drop (i div 2 + 1) d' = drop (i div 2 + 1) ?d" "mset d' = mset (?d[i div 2 := x])"
      using less.IH [OF b(4) up(1) _ b(5) up(2)] b(3) by auto
    have "drop (i + 1) d' = drop (i - i div 2) (drop (i div 2 + 1) d')" by simp
    also have "\<dots> = drop (i + 1) ?d" unfolding d'(5) using b by simp
    finally have dr: "drop (i + 1) d' = drop (i + 1) d" by simp
    have "bubble_loop before x d i = bubble_loop before x ?d (i div 2)"
      using b True less.prems(2) by (subst bubble_loop.simps) simp
    moreover have "mset d' = mset (d[i := x])"
      using d'(6) swap_mset [OF less.prems(2) b(3), of x] b(4) by simp
    ultimately show ?thesis using d' dr b by simp
  next
    case False
    have "bubble_loop before x d i = Some (d[i := x])"
      using False less.prems(2) by (subst bubble_loop.simps) auto
    moreover have "heap (d[i := x]) sz"
      using fill_hole [OF less.prems(1-3)] less.prems(4) False by auto
    ultimately show ?thesis using less.prems(3) by simp
  qed
qed

lemma maxchild_ok:
  assumes "sz \<le> length d" "1 \<le> i"
  shows "\<exists>c. maxchild before d sz i = Some c \<and>
    (c = 0 \<and> sz \<le> 2 * i \<or> 2 \<le> c \<and> c < sz \<and> c div 2 = i \<and>
      (\<forall>j. 2 \<le> j \<and> j < sz \<and> j div 2 = i \<longrightarrow> \<not> before (d ! c) (d ! j)))"
proof -
  have two: "j = 2 * i \<or> j = 2 * i + 1" if "j div 2 = i" for j using that by presburger
  consider "sz \<le> 2 * i" | "2 * i + 1 < sz" | "sz = 2 * i + 1" using assms(2) by linarith
  then show ?thesis
  proof cases
    case 2
    have r: "rd d (2 * i) = Some (d ! (2 * i))" "rd d (2 * i + 1) = Some (d ! (2 * i + 1))"
      using 2 assms by (auto intro!: rd_in)
    define c where "c = (if before (d ! (2 * i)) (d ! (2 * i + 1)) then 2 * i + 1 else 2 * i)"
    have "maxchild before d sz i = Some c" using 2 r by (simp add: maxchild_def c_def)
    moreover have "\<not> before (d ! c) (d ! j)" if "j div 2 = i" for j
      using two [OF that] before_asym not_before_refl by (auto simp: c_def)
    moreover have "2 \<le> c \<and> c < sz \<and> c div 2 = i" using 2 assms by (simp add: c_def)
    ultimately show ?thesis by blast
  next
    case 3
    then have "maxchild before d sz i = Some (2 * i)" by (simp add: maxchild_def)
    moreover have "\<not> before (d ! (2 * i)) (d ! j)" if "j div 2 = i" "j < sz" for j
      using two [OF that(1)] that(2) 3 not_before_refl by auto
    ultimately show ?thesis using 3 assms by (intro exI [of _ "2 * i"]) auto
  qed (simp add: maxchild_def)
qed

lemma percolate_loop_ok:
  "hole d sz i \<Longrightarrow> i < length d \<Longrightarrow> 1 \<le> i \<Longrightarrow> sz \<le> length d \<Longrightarrow>
   (2 \<le> i \<longrightarrow> \<not> before (d ! (i div 2)) x) \<Longrightarrow>
   \<exists>d'. percolate_loop before x sz d i = Some d' \<and> heap d' sz \<and> length d' = length d \<and> d' ! 0 = d ! 0 \<and>
     (i < sz \<longrightarrow> drop sz d' = drop sz d) \<and> mset d' = mset (d[i := x])"
proof (induction "sz - i" arbitrary: d i rule: less_induct)
  case less
  obtain c where c: "maxchild before d sz i = Some c"
    "c = 0 \<and> sz \<le> 2 * i \<or> 2 \<le> c \<and> c < sz \<and> c div 2 = i \<and>
      (\<forall>j. 2 \<le> j \<and> j < sz \<and> j div 2 = i \<longrightarrow> \<not> before (d ! c) (d ! j))"
    using maxchild_ok [OF less.prems(4,3)] by blast
  show ?case
  proof (cases "c \<noteq> 0 \<and> before x (d ! c)")
    case True
    then have cc: "2 \<le> c" "c < sz" "c div 2 = i" "c < length d" "i < c" "before x (d ! c)" "c \<noteq> 0"
      "\<forall>j. 2 \<le> j \<and> j < sz \<and> j div 2 = i \<longrightarrow> \<not> before (d ! c) (d ! j)" using c(2) less.prems(4) by auto
    let ?d = "d[i := d ! c]"
    note dn = hole_down [OF less.prems(1-3) cc(3,1,2,4) less.prems(5) cc(6,8)]
    have m: "sz - c < sz - i" using cc by simp
    obtain d' where d': "percolate_loop before x sz ?d c = Some d'" "heap d' sz" "length d' = length ?d"
      "d' ! 0 = ?d ! 0" "drop sz d' = drop sz ?d" "mset d' = mset (?d[c := x])"
      using less.hyps [OF m dn(1)] dn(2) cc less.prems(4) by auto
    have "percolate_loop before x sz d i = percolate_loop before x sz ?d c"
      using c(1) cc less.prems(2) by (subst percolate_loop.simps) simp
    moreover have "mset d' = mset (d[i := x])"
      using d'(6) swap_mset [OF less.prems(2) cc(4), of x] cc(5) by simp
    ultimately show ?thesis using d' cc less.prems(3) by simp
  next
    case False
    have "percolate_loop before x sz d i = Some (d[i := x])"
      using False c less.prems(2,4) by (subst percolate_loop.simps) auto
    moreover have "\<not> before x (d ! j)" if "2 \<le> j" "j < sz" "j div 2 = i" for j
    proof (cases "c = 0")
      case True
      then show ?thesis using c(2) that by auto
    next
      case nz: False
      then have "\<not> before x (d ! c)" "\<not> before (d ! c) (d ! j)" using False c(2) that by auto
      then show ?thesis using not_before_trans by blast
    qed
    then have "heap (d[i := x]) sz"
      using fill_hole [OF less.prems(1-3,5)] by blast
    ultimately show ?thesis using less.prems(3) by simp
  qed
qed

section \<open>The operations\<close>

text \<open>The elements in the queue and the invariant of its array.\<close>

definition elements :: "'a git_pqueue \<Rightarrow> 'a multiset" where
  "elements q = mset (drop 1 (take (q_size q) (q_d q)))"

definition pq_ok :: "'a git_pqueue \<Rightarrow> bool" where
  "pq_ok q \<longleftrightarrow> 1 \<le> q_size q \<and> q_size q \<le> q_avail q \<and> q_avail q = length (q_d q) \<and> 0 < q_step q \<and>
     q_size q + q_step q < 2 ^ 61 \<and> heap (q_d q) (q_size q)"

lemma heap_mono: "heap d sz \<Longrightarrow> n \<le> sz \<Longrightarrow> heap d n"
  by (auto simp: heap_def)

lemma heap_cong: "heap d sz \<Longrightarrow> take sz d' = take sz d \<Longrightarrow> heap d' sz"
proof -
  assume h: "heap d sz" and t: "take sz d' = take sz d"
  have "d' ! i = d ! i" if "i < sz" for i using t that by (metis nth_take)
  with h show ?thesis unfolding heap_def by auto
qed

lemma insert_ok:
  assumes q: "pq_ok q" and size: "q_size q + 1 + q_step q < 2 ^ 61"
  shows "\<exists>rc q'. git_pqueue_insert before junk ok q x = Some (rc, q') \<and>
    (rc = 0 \<and> pq_ok q' \<and> elements q' = add_mset x (elements q) \<and> git_pqueue_size q' = git_pqueue_size q + 1 \<or>
     rc = -1 \<and> q' = q \<and> \<not> (\<forall>n. ok n))"
proof -
  define newsize where "newsize = q_size q + q_step q"
  have w: "szw (q_size q + q_step q) = newsize" "szw (newsize * 8) = newsize * 8"
    using size unfolding newsize_def by (intro szw_id, simp)+
  have fin: "\<exists>q'. (do { d1 \<leftarrow> wr (q_d q1) (q_size q1) x; d2 \<leftarrow> bubble_up before d1 (q_size q1);
      Some (0 :: int, q1\<lparr>q_d := d2, q_size := q_size q1 + 1\<rparr>) }) = Some (0, q') \<and> pq_ok q' \<and>
      elements q' = add_mset x (elements q) \<and> git_pqueue_size q' = git_pqueue_size q + 1"
    if q1: "q_size q1 = q_size q" "q_step q1 = q_step q" "q_size q1 < length (q_d q1)" "q_avail q1 = length (q_d q1)"
      "take (q_size q) (q_d q1) = take (q_size q) (q_d q)" for q1 :: "'a git_pqueue"
  proof -
    let ?n = "q_size q" and ?d1 = "(q_d q1)[q_size q := x]"
    have n: "1 \<le> ?n" "?n < length (q_d q1)" using q q1 by (auto simp: pq_ok_def)
    have h: "heap (q_d q1) ?n" using q q1(5) heap_cong by (auto simp: pq_ok_def)
    have "hole ?d1 (?n + 1) ?n"
      unfolding hole_def using h n by (auto simp: heap_def)
    moreover have "\<forall>j. 2 \<le> j \<and> j < ?n + 1 \<and> j div 2 = ?n \<longrightarrow> \<not> before x (?d1 ! j)" using n by auto
    ultimately obtain d2 where d2: "bubble_loop before x ?d1 ?n = Some d2" "heap d2 (?n + 1)" "length d2 = length ?d1"
      "d2 ! 0 = ?d1 ! 0" "drop (?n + 1) d2 = drop (?n + 1) ?d1" "mset d2 = mset (?d1[?n := x])"
      using bubble_loop_ok [of ?d1 "?n + 1" ?n x] n by auto
    have "mset (take (?n + 1) d2) = mset (take (?n + 1) ?d1)"
      using take_mset_eq [of d2 ?d1 "?n + 1"] d2(5,6) by simp
    then have "mset (drop 1 (take (?n + 1) d2)) = mset (drop 1 (take (?n + 1) ?d1))"
      using elements_eq [of "?n + 1" d2 ?d1] d2 n by simp
    also have "take (?n + 1) ?d1 = take ?n (q_d q) @ [x]"
      using n q1(5) by (simp add: take_Suc_conv_app_nth)
    also have "mset (drop 1 (take ?n (q_d q) @ [x])) = add_mset x (mset (drop 1 (take ?n (q_d q))))"
      using n q by (simp add: pq_ok_def)
    finally have "elements (q1\<lparr>q_d := d2, q_size := ?n + 1\<rparr>) = add_mset x (elements q)"
      by (simp add: elements_def)
    then show ?thesis
      using d2 n q1 size q by (simp add: bubble_up_def pq_ok_def git_pqueue_size_def)
  qed
  show ?thesis
  proof (cases "q_avail q \<le> q_size q")
    case True
    show ?thesis
    proof (cases "ok (newsize * 8)")
      case False
      then show ?thesis using True w by (auto simp: git_pqueue_insert_def)
    next
      case okn: True
      have "q_size q = length (q_d q)" "0 < q_step q" using True q by (auto simp: pq_ok_def)
      then show ?thesis
        using fin [of "q\<lparr>q_d := take newsize (q_d q) @ map junk [length (q_d q) ..< newsize], q_avail := newsize\<rparr>"]
          True okn w by (auto simp: git_pqueue_insert_def newsize_def)
    qed
  next
    case False
    then show ?thesis using fin [of q] q by (auto simp: git_pqueue_insert_def pq_ok_def)
  qed
qed

lemma heap_top: "heap d sz \<Longrightarrow> 1 \<le> j \<Longrightarrow> j < sz \<Longrightarrow> \<not> before (d ! 1) (d ! j)"
proof (induction j rule: less_induct)
  case (less j)
  show ?case
  proof (cases "j = 1")
    case True
    then show ?thesis using not_before_refl by simp
  next
    case False
    then have j: "2 \<le> j" "j div 2 < j" "1 \<le> j div 2" "j div 2 < sz" using less.prems by auto
    have "\<not> before (d ! (j div 2)) (d ! j)" using less.prems j(1) by (auto simp: heap_def)
    then show ?thesis using less.IH [OF j(2) less.prems(1) j(3,4)] not_before_trans by blast
  qed
qed

lemma pop_ok:
  assumes q: "pq_ok q" and ne: "1 < q_size q"
  shows "\<exists>head q'. git_pqueue_pop before q = Some (Some head, q') \<and> pq_ok q' \<and>
    elements q = add_mset head (elements q') \<and> (\<forall>y \<in># elements q. \<not> before head y) \<and>
    git_pqueue_peek q = Some (Some head)"
proof -
  let ?n = "q_size q - 1" and ?d = "q_d q"
  have n: "1 \<le> ?n" "?n < length ?d" "q_size q = ?n + 1" "heap ?d (?n + 1)" using q ne by (auto simp: pq_ok_def)
  let ?last = "?d ! ?n" and ?d1 = "?d[1 := ?d ! ?n]"
  have "heap ?d ?n" using heap_mono [OF n(4)] by simp
  then have "hole ?d ?n 1" using heap_hole by simp
  then have "hole ?d1 ?n 1" unfolding hole_def by (auto simp: nth_list_update)
  then obtain d2 where d2: "percolate_loop before ?last ?n ?d1 1 = Some d2" "heap d2 ?n" "length d2 = length ?d1"
    "d2 ! 0 = ?d1 ! 0" "1 < ?n \<longrightarrow> drop ?n d2 = drop ?n ?d1" "mset d2 = mset (?d1[1 := ?last])"
    using percolate_loop_ok [of ?d1 ?n 1 ?last] n by auto
  have el: "mset (drop 1 (take ?n d2)) = mset (drop 1 (take ?n ?d1))"
  proof (cases "1 < ?n")
    case True
    then have "mset (take ?n d2) = mset (take ?n ?d1)" using take_mset_eq [of d2 ?d1 ?n] d2(5,6) by simp
    then show ?thesis using elements_eq [of ?n d2 ?d1] d2 n by simp
  qed simp
  have split: "drop 1 (take (?n + 1) ?d) = ?d ! 1 # drop 2 (take (?n + 1) ?d)"
  proof -
    have "1 < length (take (?n + 1) ?d)" using n by simp
    from Cons_nth_drop_Suc [OF this] show ?thesis using n by (simp add: numeral_2_eq_2)
  qed
  have rest: "mset (drop 1 (take ?n ?d1)) = mset (drop 2 (take (?n + 1) ?d))"
  proof (cases "?n = 1")
    case False
    then have "1 < length (take ?n ?d1)" using n by simp
    from Cons_nth_drop_Suc [OF this] have "drop 1 (take ?n ?d1) = ?last # drop 2 (take ?n ?d)"
      using n False by (simp add: numeral_2_eq_2 drop_update_cancel take_update_swap)
    moreover have t: "take (?n + 1) ?d = take ?n ?d @ [?last]"
      using take_Suc_conv_app_nth [OF n(2)] by (simp only: Suc_eq_plus1)
    moreover have "2 \<le> length (take ?n ?d)" using n False by simp
    then have "drop 2 (take ?n ?d @ [?last]) = drop 2 (take ?n ?d) @ [?last]" by (simp only: drop_append diff_is_0_eq [THEN iffD2] drop_0)
    ultimately show ?thesis by (simp only: t) simp
  qed simp
  define q' where "q' = q\<lparr>q_d := d2, q_size := ?n\<rparr>"
  have "git_pqueue_pop before q = Some (Some (?d ! 1), q')"
    using n d2(1) ne by (simp add: git_pqueue_pop_def percolate_down_def q'_def)
  moreover have "pq_ok q'" using q d2 n by (auto simp: pq_ok_def q'_def)
  moreover have "elements q = add_mset (?d ! 1) (elements q')"
    using split rest el n(3) by (simp add: elements_def q'_def)
  moreover have "\<not> before (?d ! 1) y" if "y \<in># elements q" for y
  proof -
    have "y \<in> set (drop 1 (take (?n + 1) ?d))" using that n(3) by (simp add: elements_def)
    from in_set_drop_nth [OF this] obtain i where "1 + i < length (take (?n + 1) ?d)" "y = take (?n + 1) ?d ! (1 + i)"
      by blast
    then show ?thesis using heap_top [OF n(4), of "1 + i"] by simp
  qed
  moreover have "git_pqueue_peek q = Some (Some (?d ! 1))" using n ne by (simp add: git_pqueue_peek_def)
  ultimately show ?thesis by blast
qed

lemma init_ok:
  assumes "git_pqueue_init junk ok n = (0, Some q)" "2 * n + 4 < 2 ^ 61"
  shows "pq_ok q" "elements q = {#}"
proof -
  have w: "szw (n + 1) = n + 1" "szw ((n + 1) * 8) = (n + 1) * 8" using assms(2) by (intro szw_id, simp)+
  show "pq_ok q" "elements q = {#}"
    using assms w by (auto simp: git_pqueue_init_def pq_ok_def elements_def heap_def split: if_splits)
qed

end

interpretation commit_times: priority git_commit_list_time_cmp
  by unfold_locales (auto simp: git_commit_list_time_cmp_def)

lemma insert_by_date_ok:
  "ok 16 \<Longrightarrow> sorted_wrt (\<lambda>a b. c_time b \<le> c_time a) l \<Longrightarrow>
   sorted_wrt (\<lambda>a b. c_time b \<le> c_time a) (git_commit_list_insert_by_date ok item l) \<and>
   mset (git_commit_list_insert_by_date ok item l) = add_mset item (mset l)"
proof (induction l)
  case (Cons p ps)
  have "set (git_commit_list_insert_by_date ok item ps) = insert item (set ps)"
    using Cons by (metis set_mset_add_mset_insert set_mset_mset sorted_wrt.simps(2))
  with Cons show ?case
    by (auto simp: git_commit_list_insert_def git_commit_list_time_cmp_def not_less)
qed (simp add: git_commit_list_insert_def)

lemma insert_by_date_oom:
  "\<not> ok 16 \<Longrightarrow> git_commit_list_insert_by_date ok item l = takeWhile (\<lambda>p. \<not> git_commit_list_time_cmp p item) l"
  by (induction l) (simp_all add: git_commit_list_insert_def)

section \<open>Properties\<close>

definition node_at :: "nat \<Rightarrow> u32 \<Rightarrow> commit_node" where
  "node_at i t = \<lparr>c_id = i, c_time = t\<rparr>"

definition sample_queue :: "commit_node git_pqueue" where
  "sample_queue = \<lparr>q_size = 3, q_avail = 3, q_step = 3, q_d = [node_at 0 0, node_at 1 9, node_at 2 4]\<rparr>"

lemma sample_queue_ok: "priority.pq_ok git_commit_list_time_cmp sample_queue"
proof -
  have "j = 2" if "2 \<le> j" "j < 3" for j :: nat using that by simp
  then show ?thesis
    unfolding commit_times.pq_ok_def commit_times.heap_def
    by (auto simp: sample_queue_def git_commit_list_time_cmp_def node_at_def)
qed

text \<open>C21: git\_pqueue\_insert adds exactly the new element and keeps the queue invariant (the heap
  order of every parent and child, the used entries within the allocation), growing the array when
  it is full; only a failed allocation makes it fail, and then the queue is as before.\<close>

theorem pqueue_insert:
  assumes "priority before" "priority.pq_ok before q" "q_size q + 1 + q_step q < 2 ^ 61"
  shows "\<exists>rc q'. git_pqueue_insert before junk ok q x = Some (rc, q') \<and>
    (rc = 0 \<and> priority.pq_ok before q' \<and> priority.elements q' = add_mset x (priority.elements q) \<and>
       git_pqueue_size q' = git_pqueue_size q + 1 \<or>
     rc = -1 \<and> q' = q \<and> \<not> (\<forall>n. ok n))"
  using priority.insert_ok [OF assms] .

theorem pqueue_insert_witness:
  "\<exists>q'. git_pqueue_insert git_commit_list_time_cmp (\<lambda>n. node_at n 0) (\<lambda>n. True) sample_queue (node_at 3 7) = Some (0, q') \<and>
    git_pqueue_size q' = 3"
  using pqueue_insert [OF commit_times.priority_axioms sample_queue_ok, of "\<lambda>n. node_at n 0" "\<lambda>n. True" "node_at 3 7"]
  by (auto simp: sample_queue_def git_pqueue_size_def)

text \<open>C22: git\_pqueue\_pop on a non-empty queue returns an element that no queued element has
  priority over, the one git\_pqueue\_peek shows, and removes exactly that one; the invariant is kept.\<close>

theorem pqueue_pop:
  assumes "priority before" "priority.pq_ok before q" "1 < q_size q"
  shows "\<exists>head q'. git_pqueue_pop before q = Some (Some head, q') \<and> priority.pq_ok before q' \<and>
    priority.elements q = add_mset head (priority.elements q') \<and>
    (\<forall>y \<in># priority.elements q. \<not> before head y) \<and> git_pqueue_peek q = Some (Some head)"
  using priority.pop_ok [OF assms] .

theorem pqueue_pop_witness:
  "\<exists>head q'. git_pqueue_pop git_commit_list_time_cmp sample_queue = Some (Some head, q') \<and>
    (\<forall>y \<in># {#node_at 1 9, node_at 2 4#}. \<not> git_commit_list_time_cmp head y)"
  using pqueue_pop [OF commit_times.priority_axioms sample_queue_ok]
  by (auto simp: sample_queue_def commit_times.elements_def)

text \<open>git\_commit\_list\_insert\_by\_date keeps a list in order of descending commit time and adds
  exactly the new commit; when the allocation fails, everything from the insertion point on is lost:
  the list is cut to the commits that are not older than the new one.\<close>

theorem commit_list_by_date:
  "(ok 16 \<and> sorted_wrt (\<lambda>a b. c_time b \<le> c_time a) l \<longrightarrow>
      sorted_wrt (\<lambda>a b. c_time b \<le> c_time a) (git_commit_list_insert_by_date ok item l) \<and>
      mset (git_commit_list_insert_by_date ok item l) = add_mset item (mset l)) \<and>
   (\<not> ok 16 \<longrightarrow> git_commit_list_insert_by_date ok item l = takeWhile (\<lambda>p. \<not> git_commit_list_time_cmp p item) l)"
  using insert_by_date_ok insert_by_date_oom by blast

theorem commit_list_by_date_witness:
  "git_commit_list_insert_by_date (\<lambda>n. False) (node_at 2 5) [node_at 0 7, node_at 1 3] = [node_at 0 7] \<and>
   mset (git_commit_list_insert_by_date (\<lambda>n. True) (node_at 2 5) [node_at 0 7, node_at 1 3]) =
     {#node_at 2 5, node_at 0 7, node_at 1 3#}"
  using commit_list_by_date [of "\<lambda>n. False" "[node_at 0 7, node_at 1 3]" "node_at 2 5"]
    commit_list_by_date [of "\<lambda>n. True" "[node_at 0 7, node_at 1 3]" "node_at 2 5"]
  by (simp add: git_commit_list_time_cmp_def node_at_def)

end
