(* ===== verification/Cstr.thy ===== *)
theory Cstr
  imports Tsort
begin

text \<open>
  The string, number, hash and sorting helpers of todo-later/libgit2/src/util.c and util.h.
  A C string is the list of its bytes before the terminating NUL; reading one past them gives the
  NUL.  char is signed, so a byte is promoted to int with its sign.
\<close>

unbundle bit_operations_syntax

section \<open>Characters (util.h and the C locale)\<close>

definition hd0 :: "byte list \<Rightarrow> byte" where
  "hd0 s = (case s of [] \<Rightarrow> 0 | c # _ \<Rightarrow> c)"

definition schar :: "byte \<Rightarrow> int" where
  "schar c = sint c"

definition to_lower :: "int \<Rightarrow> int" where
  "to_lower c = (if 65 \<le> c \<and> c \<le> 90 then c + 32 else c)"

definition git__isupper :: "int \<Rightarrow> bool" where
  "git__isupper c = (65 \<le> c \<and> c \<le> 90)"

definition git__isalpha :: "int \<Rightarrow> bool" where
  "git__isalpha c = ((65 \<le> c \<and> c \<le> 90) \<or> (97 \<le> c \<and> c \<le> 122))"

definition git__isdigit :: "int \<Rightarrow> bool" where
  "git__isdigit c = (48 \<le> c \<and> c \<le> 57)"

definition git__isspace :: "int \<Rightarrow> bool" where
  "git__isspace c = (c = 32 \<or> c = 9 \<or> c = 10 \<or> c = 12 \<or> c = 13 \<or> c = 11 \<or> c = 0x85)"

definition git__isspace_nonlf :: "int \<Rightarrow> bool" where
  "git__isspace_nonlf c = (c = 32 \<or> c = 9 \<or> c = 12 \<or> c = 13 \<or> c = 11 \<or> c = 0x85)"

definition git__iswildcard :: "int \<Rightarrow> bool" where
  "git__iswildcard c = (c = 42 \<or> c = 63 \<or> c = 91)"

definition git__signum :: "int \<Rightarrow> int" where
  "git__signum v = (if 0 < v then 1 else 0) - (if v < 0 then 1 else 0)"

definition git__is_sizet :: "64 word \<Rightarrow> bool" where
  "git__is_sizet p = (sint p = sint (word_of_int (uint (word_of_int (sint p) :: u64)) :: 64 word))"

definition git__is_uint32 :: "u64 \<Rightarrow> bool" where
  "git__is_uint32 p = (p = ucast (ucast p :: u32))"

definition git__rotl :: "u32 \<Rightarrow> nat \<Rightarrow> u32" where
  "git__rotl v s = push_bit s v OR drop_bit (32 - s) v"

definition git__size_t_bitmask :: "u64 \<Rightarrow> u64" where
  "git__size_t_bitmask v =
     (let v = v - 1; v = v OR drop_bit 1 v; v = v OR drop_bit 2 v; v = v OR drop_bit 4 v;
          v = v OR drop_bit 8 v; v = v OR drop_bit 16 v in v)"

definition git__size_t_powerof2 :: "u64 \<Rightarrow> u64" where
  "git__size_t_powerof2 v = git__size_t_bitmask v + 1"

definition from_hex :: "int list" where
  "from_hex = replicate 48 (-1) @ [0, 1, 2, 3, 4, 5, 6, 7, 8, 9] @ replicate 6 (-1) @
     replicate 1 (-1) @ [10, 11, 12, 13, 14, 15] @ replicate 9 (-1) @ replicate 16 (-1) @
     replicate 1 (-1) @ [10, 11, 12, 13, 14, 15] @ replicate 9 (-1) @ replicate 144 (-1)"

definition git__fromhex :: "byte \<Rightarrow> int" where
  "git__fromhex h = from_hex ! unat h"

definition git__ishex :: "byte list \<Rightarrow> int" where
  "git__ishex str = (if list_all (\<lambda>c. 0 \<le> git__fromhex c) str then 1 else 0)"

definition git__next_line :: "byte list \<Rightarrow> byte list" where
  "git__next_line s = dropWhile (\<lambda>c. c = 10 \<or> c = 13) (dropWhile (\<lambda>c. c \<noteq> 10) s)"

text \<open>The position of the last occurrence among the first n bytes.\<close>

primrec git__memrchr :: "byte list \<Rightarrow> byte \<Rightarrow> nat \<Rightarrow> nat option option" where
  "git__memrchr s c 0 = Some None"
| "git__memrchr s c (Suc n) = do {
     x \<leftarrow> rd s n;
     (if x = c then Some (Some n) else git__memrchr s c n)}"

section \<open>Numbers\<close>

text \<open>
  git\_\_strtol64.  The digit loop works on int64\_t; an overflow of n * base + v wraps as on the
  two's complement machines the code is built for.  The rest of the string stands for *endptr.
\<close>

type_synonym s64 = "64 word"

definition digit_value :: "int \<Rightarrow> int \<Rightarrow> int" where
  "digit_value base c =
     (if 48 \<le> c \<and> c \<le> 57 then c - 48
      else if 97 \<le> c \<and> c \<le> 122 then c - 97 + 10
      else if 65 \<le> c \<and> c \<le> 90 then c - 65 + 10
      else base)"

primrec strtol_digits :: "int \<Rightarrow> s64 \<Rightarrow> nat \<Rightarrow> bool \<Rightarrow> byte list \<Rightarrow> s64 \<times> nat \<times> bool \<times> byte list" where
  "strtol_digits base n ndig ovfl [] = (n, ndig, ovfl, [])"
| "strtol_digits base n ndig ovfl (c # p) =
     (let v = digit_value base (schar c) in
      if base \<le> v then (n, ndig, ovfl, c # p)
      else let nn = n * word_of_int base + word_of_int v
           in strtol_digits base nn (ndig + 1) (ovfl \<or> sint nn < sint n) p)"

definition strtol_sign :: "byte list \<Rightarrow> bool \<times> byte list" where
  "strtol_sign p = (if hd0 p = 45 then (True, tl p) else if hd0 p = 43 then (False, tl p) else (False, p))"

text \<open>The choice of the base; None is goto Return.\<close>

definition strtol_base :: "int \<Rightarrow> byte list \<Rightarrow> (int \<times> byte list) option" where
  "strtol_base base p =
     (if base = 0 then
        (if hd0 p \<noteq> 48 then Some (10, p)
         else if hd0 (tl p) = 120 \<or> hd0 (tl p) = 88 then Some (16, drop 2 p)
         else Some (8, p))
      else if base = 16 \<and> hd0 p = 48 then
        (if hd0 (tl p) = 120 \<or> hd0 (tl p) = 88 then Some (16, drop 2 p) else Some (16, p))
      else if base < 0 \<or> 36 < base then None
      else Some (base, p))"

text \<open>The return code, the result if it is stored, and *endptr if it is.\<close>

definition git__strtol64 :: "byte list \<Rightarrow> int \<Rightarrow> int \<times> s64 option \<times> byte list option" where
  "git__strtol64 nptr base =
     (let p = dropWhile (\<lambda>c. git__isspace (schar c)) nptr; (neg, p) = strtol_sign p in
      case strtol_base base p of
        None \<Rightarrow> (-1, None, None)
      | Some (base, p) \<Rightarrow>
          let (n, ndig, ovfl, p) = strtol_digits base 0 0 False p in
          if ndig = 0 then (-1, None, None)
          else if ovfl then (-1, None, Some p)
          else (0, Some (if neg then - n else n), Some p))"

definition git__strtol32 :: "byte list \<Rightarrow> int \<Rightarrow> int \<times> 32 word option \<times> byte list option" where
  "git__strtol32 nptr base =
     (case git__strtol64 nptr base of
        (error, res, endp) \<Rightarrow>
          if error < 0 then (error, None, endp)
          else (case res of
                  None \<Rightarrow> (error, None, endp)
                | Some tmp_long \<Rightarrow>
                    let tmp_int = (ucast (tmp_long AND 0xFFFFFFFF) :: 32 word) in
                    if sint tmp_int \<noteq> sint tmp_long then (-1, None, endp)
                    else (error, Some tmp_int, endp)))"

section \<open>Comparisons\<close>

fun git__strcmp :: "byte list \<Rightarrow> byte list \<Rightarrow> int" where
  "git__strcmp (a # as) (b # bs) =
     (if a \<noteq> 0 \<and> b \<noteq> 0 \<and> a = b then git__strcmp as bs else uint a - uint b)"
| "git__strcmp as bs = uint (hd0 as) - uint (hd0 bs)"

fun git__strcasecmp :: "byte list \<Rightarrow> byte list \<Rightarrow> int" where
  "git__strcasecmp (a # as) (b # bs) =
     (if a \<noteq> 0 \<and> b \<noteq> 0 \<and> to_lower (schar a) = to_lower (schar b) then git__strcasecmp as bs
      else to_lower (schar a) - to_lower (schar b))"
| "git__strcasecmp as bs = to_lower (schar (hd0 as)) - to_lower (schar (hd0 bs))"

fun strcasesort_loop :: "int \<Rightarrow> byte list \<Rightarrow> byte list \<Rightarrow> int" where
  "strcasesort_loop c (a # as) (b # bs) =
     (if a \<noteq> 0 \<and> b \<noteq> 0 then
        (if a \<noteq> b then
           (if to_lower (schar a) \<noteq> to_lower (schar b) then to_lower (schar a) - to_lower (schar b)
            else strcasesort_loop (if c = 0 then uint a - uint b else c) as bs)
         else strcasesort_loop c as bs)
      else if a \<noteq> 0 \<or> b \<noteq> 0 then to_lower (schar a) - to_lower (schar b)
      else c)"
| "strcasesort_loop c as bs =
     (if hd0 as \<noteq> 0 \<or> hd0 bs \<noteq> 0 then to_lower (schar (hd0 as)) - to_lower (schar (hd0 bs)) else c)"

definition git__strcasesort_cmp :: "byte list \<Rightarrow> byte list \<Rightarrow> int" where
  "git__strcasesort_cmp a b = strcasesort_loop 0 a b"

primrec git__strncmp :: "nat \<Rightarrow> byte list \<Rightarrow> byte list \<Rightarrow> int" where
  "git__strncmp 0 a b = 0"
| "git__strncmp (Suc sz) a b =
     (if hd0 a \<noteq> 0 \<and> hd0 b \<noteq> 0 \<and> hd0 a = hd0 b then git__strncmp sz (tl a) (tl b)
      else uint (hd0 a) - uint (hd0 b))"

text \<open>The do loop runs once even for a size of 0, which then wraps: 0 stands for 2^64 rounds.\<close>

function strncasecmp_loop :: "nat \<Rightarrow> byte list \<Rightarrow> byte list \<Rightarrow> int" where
  "strncasecmp_loop sz a b =
     (let al = uint (word_of_int (to_lower (schar (hd0 a))) :: byte);
          bl = uint (word_of_int (to_lower (schar (hd0 b))) :: byte);
          sz' = (if sz = 0 then 2 ^ 64 - 1 else sz - 1)
      in if sz' \<noteq> 0 \<and> al \<noteq> 0 \<and> al = bl \<and> a \<noteq> [] then strncasecmp_loop sz' (tl a) (tl b) else al - bl)"
  by pat_completeness auto
termination
  by (relation "measure (\<lambda>(sz, a, b). length a)") auto

declare strncasecmp_loop.simps [simp del]

definition git__strncasecmp :: "byte list \<Rightarrow> byte list \<Rightarrow> nat \<Rightarrow> int" where
  "git__strncasecmp a b sz = strncasecmp_loop sz a b"

definition git__strntolower :: "byte list \<Rightarrow> nat \<Rightarrow> byte list" where
  "git__strntolower str len = map (\<lambda>c. word_of_int (to_lower (schar c))) (take len str) @ drop len str"

definition git__strtolower :: "byte list \<Rightarrow> byte list" where
  "git__strtolower str = git__strntolower str (length str)"

fun git__prefixcmp :: "byte list \<Rightarrow> byte list \<Rightarrow> int" where
  "git__prefixcmp str [] = 0"
| "git__prefixcmp str (p # prefix) =
     (if p = 0 then 0
      else if hd0 str \<noteq> p then uint (hd0 str) - uint p
      else git__prefixcmp (tl str) prefix)"

definition git__prefixcmp_icase :: "byte list \<Rightarrow> byte list \<Rightarrow> int" where
  "git__prefixcmp_icase str prefix = (if prefix = [] then 0 else git__strncasecmp str prefix (length prefix))"

definition git__suffixcmp :: "byte list \<Rightarrow> byte list \<Rightarrow> int" where
  "git__suffixcmp str suffix =
     (if length str < length suffix then -1
      else git__strcmp (drop (length str - length suffix) str) suffix)"

definition git__strcmp_cb :: "byte list \<Rightarrow> byte list \<Rightarrow> int" where
  "git__strcmp_cb a b = git__strcmp a b"

section \<open>Tokens\<close>

text \<open>
  The tokenizers cut the string in place; here they return the token and the string left at *end,
  or None for NULL, with what *end then is.
\<close>

definition git__strtok :: "byte list \<Rightarrow> byte list \<Rightarrow> byte list option \<times> byte list" where
  "git__strtok rest0 sep =
     (let ptr = dropWhile (\<lambda>c. c \<in> set sep) rest0 in
      case ptr of
        [] \<Rightarrow> (None, rest0)
      | c # cs \<Rightarrow>
          let tok = takeWhile (\<lambda>c. c \<notin> set sep) cs; left = dropWhile (\<lambda>c. c \<notin> set sep) cs
          in (Some (c # tok), tl left))"

definition git__strsep :: "byte list \<Rightarrow> byte list \<Rightarrow> byte list option \<times> byte list" where
  "git__strsep rest0 sep =
     (let tok = takeWhile (\<lambda>c. c \<notin> set sep) rest0; ptr = dropWhile (\<lambda>c. c \<notin> set sep) rest0 in
      case ptr of [] \<Rightarrow> (None, rest0) | c # cs \<Rightarrow> (Some tok, cs))"

section \<open>Booleans and escapes\<close>

definition str_true :: "byte list list" where
  "str_true = [[116, 114, 117, 101], [121, 101, 115], [111, 110]]"

definition str_false :: "byte list list" where
  "str_false = [[102, 97, 108, 115, 101], [110, 111], [111, 102, 102]]"

definition git__parse_bool :: "byte list option \<Rightarrow> int \<times> int option" where
  "git__parse_bool value =
     (case value of
        None \<Rightarrow> (0, Some 1)
      | Some v \<Rightarrow>
          if list_ex (\<lambda>t. git__strcasecmp v t = 0) str_true then (0, Some 1)
          else if list_ex (\<lambda>t. git__strcasecmp v t = 0) str_false \<or> hd0 v = 0 then (0, Some 0)
          else (-1, None))"

fun unescape_loop :: "byte list \<Rightarrow> byte list" where
  "unescape_loop [] = []"
| "unescape_loop [c] = [c]"
| "unescape_loop (c # d # s) = (if c = 92 then d # unescape_loop s else c # unescape_loop (d # s))"

definition git__unescape :: "byte list option \<Rightarrow> nat \<times> byte list option" where
  "git__unescape str =
     (case str of None \<Rightarrow> (0, None) | Some s \<Rightarrow> (length (unescape_loop s), Some (unescape_loop s)))"

section \<open>Hexdump\<close>

definition hex_upper :: "nat \<Rightarrow> byte" where
  "hex_upper d = (if d < 10 then 48 + word_of_nat d else 65 + word_of_nat (d - 10))"

text \<open>printf("\%02X ", c) and the printable column.\<close>

definition hexdump_byte :: "byte \<Rightarrow> byte list" where
  "hexdump_byte c = [hex_upper (unat c div 16), hex_upper (unat c mod 16), 32]"

definition hexdump_char :: "byte \<Rightarrow> byte" where
  "hexdump_char c = (if 32 \<le> schar c \<and> schar c \<le> 126 then c else 46)"

primrec hexdump_lines :: "byte list \<Rightarrow> nat \<Rightarrow> byte list" where
  "hexdump_lines buffer 0 = []"
| "hexdump_lines buffer (Suc n) =
     (let line = take 16 buffer in
      concat (map hexdump_byte line) @ [124, 32] @ map hexdump_char line @ [10] @ hexdump_lines (drop 16 buffer) n)"

definition git__hexdump :: "byte list \<Rightarrow> nat \<Rightarrow> byte list option" where
  "git__hexdump buffer len =
     (if length buffer < len then None
      else
        let line_count = len div 16; last_line = len mod 16;
            line = take last_line (drop (line_count * 16) buffer)
        in Some (hexdump_lines buffer line_count @
             (if 0 < last_line
              then concat (map hexdump_byte line) @ replicate (16 - last_line) 9 @ [124, 32] @
                   map hexdump_char line @ [10]
              else []) @ [10]))"

section \<open>Hashing\<close>

text \<open>MurmurHash3: h1, k1, c1, c2 of the code; MURMUR\_BLOCK returns the new h1, c1, c2.\<close>

definition murmur_block :: "u32 \<times> u32 \<times> u32 \<Rightarrow> u32 \<Rightarrow> u32 \<times> u32 \<times> u32" where
  "murmur_block s k1 =
     (let (h1, c1, c2) = s;
          k1 = k1 * c1;
          k1 = git__rotl k1 11;
          k1 = k1 * c2;
          h1 = h1 XOR k1;
          h1 = h1 * 3 + 0x52dce729;
          c1 = c1 * 5 + 0x7b7d159c;
          c2 = c2 * 5 + 0x6bce6396
      in (h1, c1, c2))"

text \<open>A 32-bit load on a little-endian machine.\<close>

definition le32 :: "byte list \<Rightarrow> u32" where
  "le32 bs = foldr (\<lambda>b acc. push_bit 8 acc OR ucast b) bs 0"

fun murmur_blocks :: "u32 \<times> u32 \<times> u32 \<Rightarrow> byte list \<Rightarrow> (u32 \<times> u32 \<times> u32) \<times> byte list" where
  "murmur_blocks s (a # b # c # d # rest) = murmur_blocks (murmur_block s (le32 [a, b, c, d])) rest"
| "murmur_blocks s tail = (s, tail)"

definition murmur_tail :: "u32 \<times> u32 \<times> u32 \<Rightarrow> byte list \<Rightarrow> u32 \<times> u32 \<times> u32" where
  "murmur_tail s tail = (if tail = [] then s else murmur_block s (le32 tail))"

definition murmur_final :: "u32 \<Rightarrow> u32 \<Rightarrow> u32" where
  "murmur_final h1 len =
     (let h1 = h1 XOR len;
          h1 = h1 XOR drop_bit 16 h1;
          h1 = h1 * 0x85ebca6b;
          h1 = h1 XOR drop_bit 13 h1;
          h1 = h1 * 0xc2b2ae35
      in h1 XOR drop_bit 16 h1)"

definition git__hash :: "byte list \<Rightarrow> nat \<Rightarrow> u32 \<Rightarrow> u32 option" where
  "git__hash key len seed =
     (if length key < len then None
      else let (s, tail) = murmur_blocks (0x971e137b XOR seed, 0x95543787, 0x2ad7eb25) (take len key)
           in Some (murmur_final (fst (murmur_tail s tail)) (word_of_nat len)))"

section \<open>Insertion sort\<close>

text \<open>The inner loop: j moves down while the element is below its predecessor.\<close>

primrec insertsort_inner :: "('a \<Rightarrow> 'a \<Rightarrow> 'p \<Rightarrow> int) \<Rightarrow> 'p \<Rightarrow> 'a list \<Rightarrow> nat \<Rightarrow> 'a list option" where
  "insertsort_inner cmp payload els 0 = Some els"
| "insertsort_inner cmp payload els (Suc j) = do {
     x \<leftarrow> rd els (Suc j);
     y \<leftarrow> rd els j;
     (if cmp x y payload < 0 then insertsort_inner cmp payload (els[Suc j := y, j := x]) j
      else Some els)}"

primrec insertsort_outer :: "('a \<Rightarrow> 'a \<Rightarrow> 'p \<Rightarrow> int) \<Rightarrow> 'p \<Rightarrow> 'a list \<Rightarrow> nat \<Rightarrow> nat \<Rightarrow> 'a list option" where
  "insertsort_outer cmp payload els i 0 = Some els"
| "insertsort_outer cmp payload els i (Suc n) = do {
     els' \<leftarrow> insertsort_inner cmp payload els i;
     insertsort_outer cmp payload els' (i + 1) n}"

text \<open>
  Elements are list entries in place of elsize bytes.  The swap buffer is allocated when none is
  given; a failed allocation is a null pointer that the first swap writes through.
\<close>

definition git__insertsort_r ::
  "alloc \<Rightarrow> nat \<Rightarrow> bool \<Rightarrow> 'a list \<Rightarrow> nat \<Rightarrow> ('a \<Rightarrow> 'a \<Rightarrow> 'p \<Rightarrow> int) \<Rightarrow> 'p \<Rightarrow> 'a list option" where
  "git__insertsort_r ok elsize swapel els nel cmp payload =
     (if \<not> swapel \<and> \<not> ok elsize then
        (if list_all (\<lambda>(x, y). 0 \<le> cmp y x payload) (zip (take nel els) (tl (take nel els))) then Some els else None)
      else insertsort_outer cmp payload els 1 (nel - 1))"

section \<open>The comparisons\<close>

lemma uint_byte_eq: "uint (a :: byte) = uint b \<longleftrightarrow> a = b"
  by (simp add: word_uint_eq_iff)

lemma hd0_simps [simp]: "hd0 [] = 0" "hd0 (c # cs) = c"
  by (simp_all add: hd0_def)

lemma strcmp_anti: "git__strcmp a b = - git__strcmp b a"
  by (induction a b rule: git__strcmp.induct) auto

lemma strcmp_Nil: "git__strcmp [] b = - uint (hd0 b)" "git__strcmp a [] = uint (hd0 a)"
  by simp_all

lemma strcmp_trans: "git__strcmp a b \<le> 0 \<Longrightarrow> git__strcmp b c \<le> 0 \<Longrightarrow> git__strcmp a c \<le> 0"
proof (induction a b arbitrary: c rule: git__strcmp.induct, goal_cases)
  case (1 a as b bs c)
  show ?case
  proof (cases c)
    case Nil
    then have "b = 0" using 1(3) uint_ge_0 [of b] Nil by (simp add: strcmp_Nil uint_0_iff)
    then have "a = 0" using 1(2) uint_ge_0 [of a] by (auto split: if_splits simp: uint_0_iff)
    then show ?thesis using Nil by simp
  next
    case (Cons d ds)
    have h: "uint a \<le> uint b" "uint b \<le> uint d" using 1(2,3) Cons by (auto split: if_splits)
    show ?thesis
    proof (cases "a \<noteq> 0 \<and> a = b \<and> b = d")
      case True
      then show ?thesis using 1 Cons by auto
    next
      case False
      then show ?thesis using h Cons uint_byte_eq [of d b] uint_0_iff [of d] by auto
    qed
  qed
next
  case (2 bs c)
  then show ?case by (simp add: strcmp_Nil)
next
  case (3 as c)
  then have "hd0 as = 0" using uint_ge_0 [of "hd0 as"] by (simp add: uint_0_iff)
  then show ?case by (cases as; cases c) auto
qed

interpretation strcmp_order: cmp_order git__strcmp
proof
  show "sgn (git__strcmp x y) = - sgn (git__strcmp y x)" for x y
    using strcmp_anti [of x y] by (simp add: sgn_minus)
  show "git__strcmp x z \<le> 0" if "git__strcmp x y \<le> 0" "git__strcmp y z \<le> 0" for x y z
    using strcmp_trans that by blast
qed

lemma strcmp_eq: "0 \<notin> set a \<Longrightarrow> 0 \<notin> set b \<Longrightarrow> git__strcmp a b = 0 \<longleftrightarrow> a = b"
proof (induction a b rule: git__strcmp.induct, goal_cases)
  case (1 a as b bs)
  then show ?case by (auto simp: uint_byte_eq)
next
  case (2 bs)
  then show ?case by (cases bs) (auto simp: strcmp_Nil uint_0_iff)
next
  case (3 as)
  then show ?case by (cases as) (auto simp: uint_0_iff)
qed

lemma prefixcmp_eq: "0 \<notin> set str \<Longrightarrow> 0 \<notin> set prefix \<Longrightarrow> git__prefixcmp str prefix = 0 \<longleftrightarrow> (\<exists>rest. str = prefix @ rest)"
proof (induction str prefix rule: git__prefixcmp.induct)
  case (2 str p prefix)
  then show ?case by (cases str) (auto simp: uint_byte_eq uint_0_iff)
qed simp

lemma suffixcmp_eq:
  assumes "0 \<notin> set str" "0 \<notin> set suffix"
  shows "git__suffixcmp str suffix = 0 \<longleftrightarrow> (\<exists>pre. str = pre @ suffix)"
proof (cases "length str < length suffix")
  case True
  then show ?thesis by (auto simp: git__suffixcmp_def)
next
  case False
  let ?t = "drop (length str - length suffix) str"
  have "0 \<notin> set ?t" using assms(1) by (meson in_set_dropD)
  then have "git__suffixcmp str suffix = 0 \<longleftrightarrow> ?t = suffix"
    using False strcmp_eq assms(2) by (simp add: git__suffixcmp_def)
  also have "\<dots> \<longleftrightarrow> (\<exists>pre. str = pre @ suffix)"
  proof
    assume "?t = suffix"
    then show "\<exists>pre. str = pre @ suffix" by (metis append_take_drop_id)
  qed auto
  finally show ?thesis .
qed

section \<open>Numbers\<close>

lemma sint_small: "0 \<le> k \<Longrightarrow> k < 2 ^ 63 \<Longrightarrow> sint (word_of_int k :: s64) = k"
  by (simp add: signed_of_int signed_take_bit_int_eq_self)

definition digits_value :: "int \<Rightarrow> byte list \<Rightarrow> int \<Rightarrow> int" where
  "digits_value base p n = foldl (\<lambda>n c. n * base + digit_value base (schar c)) n p"

lemma digit_value_bounds: "0 \<le> base \<Longrightarrow> 0 \<le> digit_value base c"
  by (simp add: digit_value_def)

lemma digits_value_mono: "2 \<le> base \<Longrightarrow> 0 \<le> n \<Longrightarrow> n \<le> digits_value base p n"
proof (induction p arbitrary: n)
  case (Cons c p)
  have "n * 1 \<le> n * base" using Cons.prems by (intro mult_left_mono) auto
  then have "n \<le> n * base + digit_value base (schar c)"
    using digit_value_bounds [of base "schar c"] Cons.prems by simp
  also have "\<dots> \<le> digits_value base p (n * base + digit_value base (schar c))"
    using Cons digit_value_bounds [of base "schar c"] by simp
  finally show ?case by (simp add: digits_value_def)
qed (simp add: digits_value_def)

lemma strtol_digits_ok:
  assumes base: "2 \<le> base"
    and rest: "rest = [] \<or> base \<le> digit_value base (schar (hd rest))"
  shows "0 \<le> n \<Longrightarrow> list_all (\<lambda>c. digit_value base (schar c) < base) p \<Longrightarrow> digits_value base p n < 2 ^ 63 \<Longrightarrow>
    strtol_digits base (word_of_int n) k False (p @ rest) = (word_of_int (digits_value base p n), k + length p, False, rest)"
proof (induction p arbitrary: n k)
  case Nil
  then show ?case using rest by (cases rest) (auto simp: digits_value_def Let_def)
next
  case (Cons c p)
  let ?v = "digit_value base (schar c)"
  let ?m = "n * base + ?v"
  have v: "0 \<le> ?v" using digit_value_bounds [of base "schar c"] base by simp
  have m: "0 \<le> ?m" using Cons.prems(1) base v by simp
  have e: "digits_value base (c # p) n = digits_value base p ?m" by (simp add: digits_value_def)
  have lt: "?m < 2 ^ 63" using digits_value_mono [OF base m, of p] Cons.prems(3) e by simp
  have "n * 1 \<le> n * base" using Cons.prems(1) base by (intro mult_left_mono) auto
  then have nm: "n \<le> ?m" using v by simp
  have w: "word_of_int n * word_of_int base + word_of_int ?v = (word_of_int ?m :: s64)" by simp
  have "\<not> sint (word_of_int ?m :: s64) < sint (word_of_int n :: s64)"
    using sint_small [OF m lt] sint_small [OF Cons.prems(1)] nm lt by simp
  moreover have "\<not> base \<le> ?v" using Cons.prems(2) by simp
  ultimately have "strtol_digits base (word_of_int n) k False ((c # p) @ rest) =
      strtol_digits base (word_of_int ?m) (k + 1) False (p @ rest)"
    by (simp only: append_Cons strtol_digits.simps Let_def w if_False simp_thms)
  also have "\<dots> = (word_of_int (digits_value base p ?m), k + 1 + length p, False, rest)"
    using Cons.IH [OF m, of "k + 1"] Cons.prems(2,3) e by (simp only: list.pred_inject)
  finally show ?case using e by simp
qed

lemma digit_char: "digit_value base c < base \<Longrightarrow> (48 \<le> c \<and> c \<le> 57) \<or> (65 \<le> c \<and> c \<le> 90) \<or> (97 \<le> c \<and> c \<le> 122)"
  by (auto simp: digit_value_def split: if_splits)

lemma strtol64_ok:
  assumes base: "2 \<le> base" "base \<le> 36" "base \<noteq> 16"
    and p: "p \<noteq> []" "list_all (\<lambda>c. digit_value base (schar c) < base) p"
    and rest: "rest = [] \<or> base \<le> digit_value base (schar (hd rest))"
    and val: "digits_value base p 0 < 2 ^ 63"
  shows "git__strtol64 (p @ rest) base = (0, Some (word_of_int (digits_value base p 0)), Some rest)"
    and "git__strtol64 (45 # p @ rest) base = (0, Some (- word_of_int (digits_value base p 0)), Some rest)"
proof -
  obtain c cs where c: "p = c # cs" using p(1) by (cases p) auto
  then have d: "digit_value base (schar c) < base" using p(2) by simp
  have sp: "\<not> git__isspace (schar c)" using digit_char [OF d] by (auto simp: git__isspace_def)
  have "schar 45 = 45" "schar 43 = 43" by (simp_all add: schar_def)
  then have "c \<noteq> 45" "c \<noteq> 43" using digit_char [OF d] by auto
  then have sg: "strtol_sign (p @ rest) = (False, p @ rest)" using c by (simp add: strtol_sign_def)
  have sg': "strtol_sign (45 # p @ rest) = (True, p @ rest)" by (simp add: strtol_sign_def)
  have sp': "\<not> git__isspace (schar 45)" by (simp add: git__isspace_def schar_def)
  have b: "strtol_base base (p @ rest) = Some (base, p @ rest)" using base by (simp add: strtol_base_def)
  have dg: "strtol_digits base 0 0 False (p @ rest) = (word_of_int (digits_value base p 0), length p, False, rest)"
    using strtol_digits_ok [OF base(1) rest, of 0 p 0] p(2) val by simp
  have dw: "dropWhile (\<lambda>c. git__isspace (schar c)) (p @ rest) = p @ rest" using c sp by simp
  show "git__strtol64 (p @ rest) base = (0, Some (word_of_int (digits_value base p 0)), Some rest)"
    using dw sg b dg p(1) by (simp add: git__strtol64_def Let_def)
  show "git__strtol64 (45 # p @ rest) base = (0, Some (- word_of_int (digits_value base p 0)), Some rest)"
    using sp' sg' b dg p(1) by (simp add: git__strtol64_def Let_def)
qed

section \<open>Insertion sort\<close>

context cmp_order
begin

lemma insertsort_inner_ok:
  "i < length els \<Longrightarrow> csorted cmp (take i els) \<Longrightarrow>
   \<exists>els'. insertsort_inner (\<lambda>a b p. cmp a b) p els i = Some els' \<and> length els' = length els \<and>
     csorted cmp (take (i + 1) els') \<and> drop (i + 1) els' = drop (i + 1) els \<and>
     cls_eq cmp (take (i + 1) els) (take (i + 1) els')"
proof (induction i arbitrary: els)
  case 0
  then show ?case by (cases els) auto
next
  case (Suc i)
  let ?x = "els ! Suc i" and ?y = "els ! i"
  have t: "take (Suc i) els = take i els @ [?y]" "take (Suc i + 1) els = take i els @ [?y, ?x]"
    using Suc.prems by (simp_all add: take_Suc_conv_app_nth)
  show ?case
  proof (cases "cmp ?x ?y < 0")
    case True
    define e2 where "e2 = els[Suc i := ?y, i := ?x]"
    have l: "length e2 = length els" "i < length e2" using Suc.prems by (simp_all add: e2_def)
    have ti: "take i e2 = take i els" by (simp add: e2_def)
    have ni: "e2 ! i = ?x" "e2 ! Suc i = ?y" using Suc.prems by (simp_all add: e2_def)
    have d: "drop (Suc i + 1) e2 = drop (Suc i + 1) els" by (simp add: e2_def)
    have s: "csorted cmp (take i e2)" using Suc.prems(2) unfolding ti t(1) by (simp add: csorted_append)
    obtain els' where e: "insertsort_inner (\<lambda>a b p. cmp a b) p e2 i = Some els'" "length els' = length e2"
      "csorted cmp (take (i + 1) els')" "drop (i + 1) els' = drop (i + 1) e2"
      "cls_eq cmp (take (i + 1) e2) (take (i + 1) els')" using Suc.IH [OF l(2) s] by blast
    have te2: "take (i + 1) e2 = take i els @ [?x]" using l ti ni by (simp add: take_Suc_conv_app_nth)
    have n1: "els' ! Suc i = ?y"
      using e(2,4) l Suc.prems ni by (metis Cons_nth_drop_Suc Suc_eq_plus1 nth_via_drop)
    have t': "take (Suc i + 1) els' = take (i + 1) els' @ [?y]"
      using n1 e(2) l Suc.prems by (simp add: take_Suc_conv_app_nth)
    have set: "set (take (i + 1) els') = insert ?x (set (take i els))"
      using cls_eq_mset [OF e(5)] unfolding te2 by (metis Un_commute insert_is_Un list.set(1) list.simps(15) mset_eq_setD set_append)
    have "\<forall>z \<in> set (take (i + 1) els'). cmp z ?y \<le> 0"
      using Suc.prems(2) True unfolding set t(1) by (auto simp: csorted_append)
    then have "csorted cmp (take (Suc i + 1) els')" unfolding t' using e(3) by (simp add: csorted_append)
    moreover have "cls_eq cmp (take i els @ [?y, ?x]) (take (i + 1) els' @ [?y])"
    proof -
      have "cls_eq cmp ([?y] @ [?x]) ([?x] @ [?y])" using True cmp_flip(2) [of ?x ?y] by (intro cls_eq_swap) auto
      then have "cls_eq cmp (take i els @ [?y, ?x]) (take i els @ [?x, ?y])"
        using cls_eq_append [OF cls_eq_refl] by fastforce
      moreover have "cls_eq cmp ((take i els @ [?x]) @ [?y]) (take (i + 1) els' @ [?y])"
        using e(5) unfolding te2 by (rule cls_eq_append [OF _ cls_eq_refl])
      ultimately show ?thesis using cls_eq_trans by fastforce
    qed
    moreover have "drop (Suc i + 1) els' = drop (Suc i + 1) els"
      using e(4) d by (metis Suc_eq_plus1 drop_Suc tl_drop)
    moreover have "insertsort_inner (\<lambda>a b p. cmp a b) p els (Suc i) = Some els'"
      using True e(1) Suc.prems by (simp add: e2_def)
    ultimately show ?thesis using e(2) l t(2) t' by (intro exI [of _ els']) simp
  next
    case False
    then have "cmp ?y ?x \<le> 0" using cmp_flip(1) by simp
    then have "csorted cmp (take (Suc i + 1) els)"
      using Suc.prems t csorted_snoc [of "take (Suc i) els" ?x] by simp
    then show ?thesis using False Suc.prems by (intro exI [of _ els]) simp
  qed
qed

lemma insertsort_outer_ok:
  "0 < i \<Longrightarrow> i + n \<le> length els \<Longrightarrow> csorted cmp (take i els) \<Longrightarrow>
   \<exists>els'. insertsort_outer (\<lambda>a b p. cmp a b) p els i n = Some els' \<and> length els' = length els \<and>
     csorted cmp (take (i + n) els') \<and> cls_eq cmp els els'"
proof (induction n arbitrary: els i)
  case (Suc n)
  obtain e1 where e1: "insertsort_inner (\<lambda>a b p. cmp a b) p els i = Some e1" "length e1 = length els"
     "csorted cmp (take (i + 1) e1)" "drop (i + 1) e1 = drop (i + 1) els" "cls_eq cmp (take (i + 1) els) (take (i + 1) e1)"
    using insertsort_inner_ok [of i els p] Suc.prems by auto
  have "cls_eq cmp (take (i + 1) els @ drop (i + 1) els) (take (i + 1) e1 @ drop (i + 1) els)"
    using e1(5) by (rule cls_eq_append [OF _ cls_eq_refl])
  then have c: "cls_eq cmp els e1" using e1(4) by (metis append_take_drop_id)
  obtain els' where "insertsort_outer (\<lambda>a b p. cmp a b) p e1 (i + 1) n = Some els'" "length els' = length e1"
     "csorted cmp (take (i + 1 + n) els')" "cls_eq cmp e1 els'"
    using Suc.IH [of "i + 1" e1] Suc.prems e1 by auto
  then show ?case using e1 cls_eq_trans [OF c] by (intro exI [of _ els']) simp
qed simp

lemma insertsort_ok:
  assumes "ok elsize \<or> swapel"
  shows "\<exists>d. git__insertsort_r ok elsize swapel xs (length xs) (\<lambda>a b p. cmp a b) p = Some d \<and>
    mset d = mset xs \<and> csorted cmp d \<and> cls_eq cmp xs d"
proof (cases xs)
  case Nil
  then show ?thesis using assms by (auto simp: git__insertsort_r_def)
next
  case (Cons x ys)
  have "csorted cmp (take 1 xs)" using Cons by simp
  then obtain d where "insertsort_outer (\<lambda>a b p. cmp a b) p xs 1 (length xs - 1) = Some d" "length d = length xs"
    "csorted cmp (take (1 + (length xs - 1)) d)" "cls_eq cmp xs d"
    using insertsort_outer_ok [of 1 "length xs - 1" xs p] Cons by auto
  then show ?thesis using assms Cons cls_eq_mset [of xs d] by (intro exI [of _ d]) (auto simp: git__insertsort_r_def)
qed

end

definition insertsort_ptrs :: "alloc \<Rightarrow> 'a list \<Rightarrow> nat \<Rightarrow> ('a \<Rightarrow> 'a \<Rightarrow> int) \<Rightarrow> 'a list option" where
  "insertsort_ptrs ok xs n cmp = git__insertsort_r ok 8 True xs n (\<lambda>a b p. cmp a b) ()"

interpretation insertsorter: sorter insertsort_ptrs size_max
proof (unfold_locales, goal_cases)
  case (1 cmp xs ok)
  show ?case using cmp_order.insertsort_ok [OF 1(1), of ok 8 True xs "()"] by (auto simp: insertsort_ptrs_def)
next
  case (2 cmp xs ok d)
  show ?case using cmp_order.insertsort_ok [OF 2(1), of ok 8 True xs "()"] 2(4) by (auto simp: insertsort_ptrs_def)
qed

section \<open>Escapes and tokens\<close>

lemma unescape_loop_length: "length (unescape_loop s) \<le> length s"
  by (induction s rule: unescape_loop.induct) auto

lemma strtok_sizes:
  assumes "git__strtok s sep = (Some tok, rest)"
  shows "tok \<noteq> []" "set tok \<inter> set sep = {}" "length rest < length s"
proof -
  obtain c cs where c: "dropWhile (\<lambda>c. c \<in> set sep) s = c # cs" "tok = c # takeWhile (\<lambda>c. c \<notin> set sep) cs"
    "rest = tl (dropWhile (\<lambda>c. c \<notin> set sep) cs)"
    using assms by (auto simp: git__strtok_def Let_def split: list.splits)
  have "c \<notin> set sep" using c(1) by (metis hd_dropWhile list.distinct(1) list.sel(1))
  then show "tok \<noteq> []" "set tok \<inter> set sep = {}" using c(2) by (auto dest: set_takeWhileD)
  have "length (c # cs) \<le> length s" using c(1) by (metis length_dropWhile_le)
  moreover have "length rest \<le> length cs" unfolding c(3)
    using length_dropWhile_le [of "\<lambda>c. c \<notin> set sep" cs] by simp
  ultimately show "length rest < length s" by simp
qed

section \<open>Properties\<close>

text \<open>C23: git\_\_strtol64 reads numbers.  For a base of 2 to 36 other than 16 and a non-empty sequence of
  digits of that base whose value is below 2^63, followed by a byte that is not such a digit or by the
  end of the string, the return code is 0, the result is the value, negated after a minus sign,
  and the end pointer is after the digits.\<close>

theorem strtol64_value:
  assumes "2 \<le> base" "base \<le> 36" "base \<noteq> 16"
    and "p \<noteq> []" "list_all (\<lambda>c. digit_value base (schar c) < base) p"
    and "rest = [] \<or> base \<le> digit_value base (schar (hd rest))"
    and "digits_value base p 0 < 2 ^ 63"
  shows "git__strtol64 (p @ rest) base = (0, Some (word_of_int (digits_value base p 0)), Some rest) \<and>
    git__strtol64 (45 # p @ rest) base = (0, Some (- word_of_int (digits_value base p 0)), Some rest)"
  using strtol64_ok [OF assms] by simp

theorem strtol64_value_witness: "git__strtol64 [52, 50, 32] 10 = (0, Some 42, Some [32])"
  using strtol64_value [of 10 "[52, 50]" "[32]"] by (simp add: digits_value_def digit_value_def schar_def)

text \<open>The overflow test of git\_\_strtol64 (the new value is below the old one) does not see every
  overflow: 27000000000000000000, which is above 2^64, is accepted as 8553255926290448384.\<close>

theorem strtol64_missed_overflow:
  "git__strtol64 [50, 55, 48, 48, 48, 48, 48, 48, 48, 48, 48, 48, 48, 48, 48, 48, 48, 48, 48, 48] 10 = (0, Some 8553255926290448384, Some []) \<and>
   digits_value 10 [50, 55, 48, 48, 48, 48, 48, 48, 48, 48, 48, 48, 48, 48, 48, 48, 48, 48, 48, 48] 0 = 27000000000000000000"
  by (simp add: git__strtol64_def strtol_sign_def strtol_base_def Let_def digit_value_def schar_def
      git__isspace_def digits_value_def)

text \<open>The comparison helpers decide what they are used for: git\_\_strcmp is zero exactly on equal
  strings, git\_\_prefixcmp exactly when the second string is a prefix of the first, and
  git\_\_suffixcmp exactly when it is a suffix.\<close>

theorem string_tests:
  assumes "0 \<notin> set a" "0 \<notin> set b"
  shows "(git__strcmp a b = 0 \<longleftrightarrow> a = b) \<and> (git__prefixcmp a b = 0 \<longleftrightarrow> (\<exists>rest. a = b @ rest)) \<and>
    (git__suffixcmp a b = 0 \<longleftrightarrow> (\<exists>pre. a = pre @ b))"
  using strcmp_eq [OF assms] prefixcmp_eq [OF assms] suffixcmp_eq [OF assms] by blast

theorem string_tests_witness: "git__suffixcmp [97, 98, 99] [98, 99] = 0"
  using string_tests [of "[97, 98, 99]" "[98, 99]"] by simp

text \<open>git\_\_insertsort\_r, the fallback of git\_\_qsort\_r, sorts any array in place, stably, whenever its
  swap buffer is given or can be allocated.\<close>

theorem insertsort_spec:
  assumes "cmp_order cmp"
    and "ok elsize \<or> swapel"
  shows "\<exists>d. git__insertsort_r ok elsize swapel xs (length xs) (\<lambda>a b p. cmp a b) p = Some d \<and>
        mset d = mset xs \<and> csorted cmp d \<and> cls_eq cmp xs d"
  using cmp_order.insertsort_ok [where ok = ok and elsize = elsize and swapel = swapel, OF assms] .

theorem insertsort_spec_witness:
  "\<exists>d. git__insertsort_r (\<lambda>n. True) 8 False [[98], [97]] 2 (\<lambda>a b p. git__strcmp a b) () = Some d \<and>
    csorted git__strcmp d \<and> mset d = {#[97], [98]#}"
  using insertsort_spec [OF strcmp_order.cmp_order_axioms, of "\<lambda>n. True" 8 False "[[98], [97]]" "()"]
  by (auto simp: add_mset_commute numeral_2_eq_2)

end
