(* ===== verification/Oid.thy ===== *)
theory Oid
  imports Cstr
begin

text \<open>
  Object ids: todo-later/libgit2/src/oid.c, oid.h (hexadecimal parsing and formatting, comparisons)
  and sha1\_lookup.c (search in packed tables of ids).  An id is the list of its 20 bytes.
\<close>

unbundle bit_operations_syntax

definition GIT_OID_RAWSZ :: nat where
  "GIT_OID_RAWSZ = 20"

definition GIT_OID_HEXSZ :: nat where
  "GIT_OID_HEXSZ = 40"

record git_oid =
  oid_id :: "byte list"

definition oid_ok :: "git_oid \<Rightarrow> bool" where
  "oid_ok o1 \<longleftrightarrow> length (oid_id o1) = GIT_OID_RAWSZ"

definition to_hex :: "byte list" where
  "to_hex = [48, 49, 50, 51, 52, 53, 54, 55, 56, 57, 97, 98, 99, 100, 101, 102]"

section \<open>Parsing\<close>

text \<open>
  git\_oid\_fromstrn: str are the readable bytes at the string, p the position; the bound of the loop
  is length - 1 in size\_t.  The two halves of a byte are read before the test.  Inl is the error
  return, with what has been written.
\<close>

definition oid_byte :: "int \<Rightarrow> byte" where
  "oid_byte v = word_of_int v"

function fromstrn_loop :: "byte list \<Rightarrow> nat \<Rightarrow> nat \<Rightarrow> byte list \<Rightarrow> (byte list + nat \<times> byte list) option" where
  "fromstrn_loop str bound p idb =
     (if p < bound then
        Option.bind (rd str p) (\<lambda>a.
          Option.bind (rd str (p + 1)) (\<lambda>b.
            if git__fromhex a < 0 \<or> git__fromhex b < 0 then Some (Inl idb)
            else Option.bind (wr idb (p div 2) (oid_byte (git__fromhex a * 16 + git__fromhex b))) (\<lambda>id2.
              fromstrn_loop str bound (p + 2) id2)))
      else Some (Inr (p, idb)))"
  by pat_completeness auto
termination
  by (relation "measure (\<lambda>(str, bound, p, idb). length str - p)") (auto simp: mem_simps)

declare fromstrn_loop.simps [simp del]

definition git_oid_fromstrn :: "git_oid \<Rightarrow> byte list \<Rightarrow> nat \<Rightarrow> (int \<times> git_oid) option" where
  "git_oid_fromstrn out str len =
     (if GIT_OID_HEXSZ < len then Some (-1, out)
      else do {
        r \<leftarrow> fromstrn_loop str (szw (len + 2 ^ 64 - 1)) 0 (oid_id out);
        (case r of
           Inl w \<Rightarrow> Some (-1, out\<lparr>oid_id := w\<rparr>)
         | Inr (p, w) \<Rightarrow>
             if len mod 2 = 1 then do {
               a \<leftarrow> rd str p;
               (if git__fromhex a < 0 then Some (-1, out\<lparr>oid_id := w\<rparr>)
                else do {
                  w2 \<leftarrow> wr w (p div 2) (oid_byte (git__fromhex a * 16));
                  w3 \<leftarrow> wr_blk w2 ((p + 2) div 2) (replicate (szw (GIT_OID_HEXSZ + 2 ^ 64 - (p + 2)) div 2) 0);
                  Some (0, out\<lparr>oid_id := w3\<rparr>)})}
             else do {
               w3 \<leftarrow> wr_blk w (p div 2) (replicate (szw (GIT_OID_HEXSZ + 2 ^ 64 - p) div 2) 0);
               Some (0, out\<lparr>oid_id := w3\<rparr>)})})"

text \<open>A C string is readable up to its NUL.\<close>

definition git_oid_fromstrp :: "git_oid \<Rightarrow> byte list \<Rightarrow> (int \<times> git_oid) option" where
  "git_oid_fromstrp out str = git_oid_fromstrn out (str @ [0]) (length str)"

definition git_oid_fromstr :: "git_oid \<Rightarrow> byte list \<Rightarrow> (int \<times> git_oid) option" where
  "git_oid_fromstr out str = git_oid_fromstrn out (str @ [0]) GIT_OID_HEXSZ"

section \<open>Formatting\<close>

definition fmt_one :: "byte \<Rightarrow> byte list" where
  "fmt_one val = [to_hex ! unat (drop_bit 4 val), to_hex ! unat (val AND 0xf)]"

text \<open>The n bytes that git\_oid\_nfmt writes.\<close>

definition git_oid_nfmt :: "nat \<Rightarrow> git_oid option \<Rightarrow> byte list option" where
  "git_oid_nfmt n oid =
     (case oid of
        None \<Rightarrow> Some (replicate n 0)
      | Some o1 \<Rightarrow>
          let pad = (if GIT_OID_HEXSZ < n then n - GIT_OID_HEXSZ else 0);
              n = min n GIT_OID_HEXSZ;
              max_i = n div 2
          in do {
            bs \<leftarrow> rd_blk (oid_id o1) 0 max_i;
            (if odd n then do {
               b \<leftarrow> rd (oid_id o1) max_i;
               Some (concat (map fmt_one bs) @ [to_hex ! unat (drop_bit 4 b)] @ replicate pad 0)}
             else Some (concat (map fmt_one bs) @ replicate pad 0))})"

definition git_oid_fmt :: "git_oid \<Rightarrow> byte list option" where
  "git_oid_fmt oid = git_oid_nfmt GIT_OID_HEXSZ (Some oid)"

definition git_oid_pathfmt :: "git_oid \<Rightarrow> byte list option" where
  "git_oid_pathfmt oid = do {
     b \<leftarrow> rd (oid_id oid) 0;
     bs \<leftarrow> rd_blk (oid_id oid) 1 (GIT_OID_RAWSZ - 1);
     Some (fmt_one b @ [47] @ concat (map fmt_one bs))}"

definition git_oid_allocfmt :: "alloc \<Rightarrow> git_oid \<Rightarrow> byte list option option" where
  "git_oid_allocfmt ok oid =
     (if ok (GIT_OID_HEXSZ + 1) then do { s \<leftarrow> git_oid_nfmt (GIT_OID_HEXSZ + 1) (Some oid); Some (Some s) }
      else Some None)"

text \<open>The bytes written to out, or None for the constant empty string.\<close>

definition git_oid_tostr :: "nat \<Rightarrow> git_oid option \<Rightarrow> byte list option option" where
  "git_oid_tostr n oid =
     (if n = 0 then Some None
      else let n = min n (GIT_OID_HEXSZ + 1) in do {
        s \<leftarrow> git_oid_nfmt (n - 1) oid;
        Some (Some (s @ [0]))})"

text \<open>A header line of an object: buffer is the text up to buffer\_end, the rest is what is left.\<close>

definition git_oid__parse ::
  "git_oid \<Rightarrow> byte list \<Rightarrow> byte list \<Rightarrow> (int \<times> git_oid \<times> byte list) option" where
  "git_oid__parse oid buffer header =
     (let header_len = length header; sha_len = GIT_OID_HEXSZ in
      if length buffer < header_len + sha_len + 1 then Some (-1, oid, buffer)
      else if take header_len buffer \<noteq> header then Some (-1, oid, buffer)
      else if buffer ! (header_len + sha_len) \<noteq> 10 then Some (-1, oid, buffer)
      else do {
        (rc, oid') \<leftarrow> git_oid_fromstrn oid (drop header_len buffer) GIT_OID_HEXSZ;
        (if rc < 0 then Some (-1, oid', buffer)
         else Some (0, oid', drop (header_len + sha_len + 1) buffer))})"

definition git_oid_fromraw :: "byte list \<Rightarrow> git_oid option" where
  "git_oid_fromraw raw = do { bs \<leftarrow> rd_blk raw 0 GIT_OID_RAWSZ; Some \<lparr>oid_id = bs\<rparr> }"

definition git_oid_cpy :: "git_oid \<Rightarrow> git_oid" where
  "git_oid_cpy src = \<lparr>oid_id = oid_id src\<rparr>"

section \<open>Comparing\<close>

primrec hashcmp_loop :: "byte list \<Rightarrow> byte list \<Rightarrow> nat \<Rightarrow> nat \<Rightarrow> int" where
  "hashcmp_loop sha1 sha2 i 0 = 0"
| "hashcmp_loop sha1 sha2 i (Suc n) =
     (if sha1 ! i \<noteq> sha2 ! i then uint (sha1 ! i) - uint (sha2 ! i) else hashcmp_loop sha1 sha2 (i + 1) n)"

definition git_oid__hashcmp :: "byte list \<Rightarrow> byte list \<Rightarrow> int" where
  "git_oid__hashcmp sha1 sha2 = hashcmp_loop sha1 sha2 0 GIT_OID_RAWSZ"

definition git_oid__cmp :: "git_oid \<Rightarrow> git_oid \<Rightarrow> int" where
  "git_oid__cmp a b = git_oid__hashcmp (oid_id a) (oid_id b)"

definition git_oid_cmp :: "git_oid \<Rightarrow> git_oid \<Rightarrow> int" where
  "git_oid_cmp a b = git_oid__cmp a b"

function ncmp_loop :: "byte list \<Rightarrow> byte list \<Rightarrow> nat \<Rightarrow> nat \<Rightarrow> int option" where
  "ncmp_loop a b i len =
     (if 1 < len then
        Option.bind (rd a i) (\<lambda>x. Option.bind (rd b i) (\<lambda>y.
          if x \<noteq> y then Some 1 else ncmp_loop a b (i + 1) (len - 2)))
      else if len \<noteq> 0 then
        Option.bind (rd a i) (\<lambda>x. Option.bind (rd b i) (\<lambda>y.
          Some (if (x XOR y) AND 0xf0 \<noteq> 0 then 1 else 0)))
      else Some 0)"
  by pat_completeness auto
termination
  by (relation "measure (\<lambda>(a, b, i, len). len)") auto

declare ncmp_loop.simps [simp del]

definition git_oid_ncmp :: "git_oid \<Rightarrow> git_oid \<Rightarrow> nat \<Rightarrow> int option" where
  "git_oid_ncmp oid_a oid_b len = ncmp_loop (oid_id oid_a) (oid_id oid_b) 0 (min len GIT_OID_HEXSZ)"

text \<open>Comparing with a hexadecimal string; a trailing half byte counts as its high digit.\<close>

fun oid_strcmp_loop :: "byte list \<Rightarrow> byte list \<Rightarrow> int" where
  "oid_strcmp_loop [] str = 0"
| "oid_strcmp_loop (a # as) [] = 0"
| "oid_strcmp_loop (a # as) [c] =
     (if git__fromhex c < 0 then -1
      else let strval = oid_byte (git__fromhex c * 16) in
        if a \<noteq> strval then uint a - uint strval else 0)"
| "oid_strcmp_loop (a # as) (c # d # str) =
     (if git__fromhex c < 0 then -1
      else if git__fromhex d < 0 then -1
      else let strval = oid_byte (git__fromhex c * 16) OR oid_byte (git__fromhex d) in
        if a \<noteq> strval then uint a - uint strval else oid_strcmp_loop as str)"

definition git_oid_strcmp :: "git_oid \<Rightarrow> byte list \<Rightarrow> int" where
  "git_oid_strcmp oid_a str = oid_strcmp_loop (oid_id oid_a) str"

definition git_oid_streq :: "git_oid \<Rightarrow> byte list \<Rightarrow> int" where
  "git_oid_streq oid_a str = (if git_oid_strcmp oid_a str = 0 then 0 else -1)"

definition git_oid_iszero :: "git_oid \<Rightarrow> int" where
  "git_oid_iszero oid_a = (if list_all (\<lambda>b. b = 0) (oid_id oid_a) then 1 else 0)"

section \<open>Lookup in a sorted table (sha1\_lookup.c)\<close>

text \<open>
  The table is the list of the ids at its entries (base + mi * stride).  lo + hi is computed in
  unsigned int; -(int)lo - 1 encodes the insertion point.
\<close>

partial_function (option) sha1_position :: "byte list list \<Rightarrow> nat \<Rightarrow> nat \<Rightarrow> byte list \<Rightarrow> int option" where
  "sha1_position tab lo hi key =
     (let mi = u32w (lo + hi) div 2 in
      Option.bind (rd tab mi) (\<lambda>e.
        let cmp = git_oid__hashcmp e key;
            hi' = (if 0 < cmp then mi else hi);
            lo' = (if 0 < cmp then lo else mi + 1)
        in if cmp = 0 then Some (int mi)
           else if lo' < hi' then sha1_position tab lo' hi' key
           else Some (- int lo' - 1)))"

declare sha1_position.simps [code]

text \<open>
  sha1\_entry\_pos: the interpolating search.  Offsets in the table are entry numbers; hi\_key is NULL
  (None) when hi is the number of entries, and lo\_key may then be one past the last entry.
\<close>

primrec common_prefix :: "byte list \<Rightarrow> byte list \<Rightarrow> nat \<Rightarrow> nat \<Rightarrow> nat" where
  "common_prefix a b ofs 0 = ofs"
| "common_prefix a b ofs (Suc n) = (if a ! ofs \<noteq> b ! ofs then ofs else common_prefix a b (ofs + 1) n)"

text \<open>The two bytes at ofs, or the last one alone.\<close>

definition two_bytes :: "byte list \<Rightarrow> nat \<Rightarrow> nat" where
  "two_bytes k ofs = (if ofs < 19 then unat (k ! ofs) * 256 + unat (k ! (ofs + 1)) else unat (k ! ofs))"

text \<open>The choice of mi from the values at lo and hi and of the key.\<close>

definition interpolate :: "nat \<Rightarrow> nat \<Rightarrow> nat \<Rightarrow> nat \<Rightarrow> nat \<Rightarrow> nat" where
  "interpolate lo rng lov hiv kyv =
     (let kyv = (kyv * 6 + lov + hiv) div 8;
          kyv = (if lov < hiv - 1 then (if kyv = lov then kyv + 1 else if kyv = hiv then kyv - 1 else kyv)
                 else kyv)
      in u32w (u32w ((rng - 1) * u32w (kyv + 2 ^ 32 - lov)) div (hiv - lov) + lo))"

partial_function (option) entry_pos_loop ::
  "byte list list \<Rightarrow> byte list \<Rightarrow> nat \<Rightarrow> nat \<Rightarrow> nat \<Rightarrow> byte list \<Rightarrow> byte list option \<Rightarrow> int option" where
  "entry_pos_loop tab key ofs_0 lo hi lo_key hi_key =
     (let rng = hi - lo;
          ofs = (case hi_key of Some h \<Rightarrow> common_prefix lo_key h ofs_0 (20 - ofs_0) | None \<Rightarrow> ofs_0)
      in if hi_key \<noteq> None \<and> ofs = 20 then
           Option.bind (rd tab lo) (\<lambda>mk.
             let cmp = git_oid__hashcmp mk key in
             if cmp = 0 then Some (int lo) else if cmp < 0 then Some (- 1 - int hi) else Some (- 1 - int lo))
         else
           let hiv = (case hi_key of Some h \<Rightarrow> two_bytes h ofs | None \<Rightarrow> (if ofs < 19 then 256 * 256 else 256));
               lov = two_bytes lo_key ofs;
               kyv = two_bytes key ofs
           in if hiv \<le> lov then None
              else if kyv < lov then Some (- 1 - int lo)
              else if hiv < kyv then Some (- 1 - int hi)
              else
                let mi = interpolate lo rng lov hiv kyv in
                if \<not> (lo \<le> mi \<and> mi < hi) then Some (- 1)
                else Option.bind (rd tab mi) (\<lambda>mk.
                  let cmp = hashcmp_loop mk key ofs (20 - ofs) in
                  if cmp = 0 then Some (int mi)
                  else if 0 < cmp then
                    (if lo < mi then entry_pos_loop tab key ofs lo mi lo_key (Some mk)
                     else Some (- int lo - 1))
                  else
                    (if mi + 1 < hi
                     then Option.bind (rd tab (mi + 1)) (\<lambda>lk. entry_pos_loop tab key ofs (mi + 1) hi lk hi_key)
                     else Some (- int (mi + 1) - 1))))"

declare entry_pos_loop.simps [code]

definition sha1_entry_pos :: "byte list list \<Rightarrow> nat \<Rightarrow> nat \<Rightarrow> nat \<Rightarrow> byte list \<Rightarrow> int option" where
  "sha1_entry_pos tab lo hi nr key =
     (if nr = 0 \<or> hi \<le> lo then Some (- 1)
      else do {
        lo_key \<leftarrow> rd tab lo;
        (if nr = hi then entry_pos_loop tab key 0 lo hi lo_key None
         else do { hi_key \<leftarrow> rd tab hi; entry_pos_loop tab key 0 lo hi lo_key (Some hi_key) })})"

end
