(* ===== verification/OidProps.thy ===== *)
theory OidProps
  imports Oid
begin

text \<open>
  Correctness of the object-id operations: the comparison is a total preorder (so that ids can be
  sorted and searched with the routines of the other theories), hexadecimal text and ids correspond, and
  what the two table searches find.
\<close>

unbundle bit_operations_syntax

section \<open>Comparison\<close>

lemma hashcmp_anti: "hashcmp_loop a b i n = - hashcmp_loop b a i n"
  by (induction n arbitrary: i) auto

lemma hashcmp_skip:
  "(\<And>j. i \<le> j \<Longrightarrow> j < i + m \<Longrightarrow> a ! j = b ! j) \<Longrightarrow> hashcmp_loop a b i (m + n) = hashcmp_loop a b (i + m) n"
proof (induction m arbitrary: i)
  case (Suc m)
  have "hashcmp_loop a b (Suc i) (m + n) = hashcmp_loop a b (Suc i + m) n"
    by (rule Suc.IH) (use Suc.prems in auto)
  then show ?case using Suc.prems [of i] by simp
qed simp

lemma hashcmp_zero: "hashcmp_loop a b i n = 0 \<longleftrightarrow> (\<forall>j. i \<le> j \<and> j < i + n \<longrightarrow> a ! j = b ! j)"
proof (induction n arbitrary: i)
  case (Suc n)
  have "(\<forall>j. i \<le> j \<and> j < i + Suc n \<longrightarrow> a ! j = b ! j) \<longleftrightarrow>
      a ! i = b ! i \<and> (\<forall>j. Suc i \<le> j \<and> j < Suc i + n \<longrightarrow> a ! j = b ! j)"
    by (metis add_Suc_right add_Suc Suc_leD Suc_leI le_neq_implies_less le_refl less_add_Suc1)
  then show ?case using Suc.IH [of "Suc i"] by (auto simp: word_uint_eq_iff)
qed auto

lemma hashcmp_trans:
  "hashcmp_loop a b i n \<le> 0 \<Longrightarrow> hashcmp_loop b c i n \<le> 0 \<Longrightarrow> hashcmp_loop a c i n \<le> 0"
proof (induction n arbitrary: i)
  case (Suc n)
  consider "a ! i = b ! i" "b ! i = c ! i" | "a ! i \<noteq> b ! i" "b ! i = c ! i" | "a ! i = b ! i" "b ! i \<noteq> c ! i"
    | "a ! i \<noteq> b ! i" "b ! i \<noteq> c ! i" by blast
  then show ?case
  proof cases
    case 4
    then have "uint (a ! i) \<noteq> uint (b ! i)" "uint (b ! i) \<noteq> uint (c ! i)" by (simp_all add: word_uint_eq_iff)
    then have "uint (a ! i) < uint (b ! i)" "uint (b ! i) < uint (c ! i)" using 4 Suc.prems by (simp_all split: if_splits)
    then show ?thesis by (auto simp: word_uint_eq_iff)
  qed (use Suc in simp_all)
qed simp

interpretation oid_order: cmp_order git_oid_cmp
proof (unfold_locales, goal_cases)
  case (1 x y)
  show ?case by (subst (2) git_oid_cmp_def, subst git_oid_cmp_def, simp add: git_oid__cmp_def git_oid__hashcmp_def
      hashcmp_anti [of "oid_id y" "oid_id x"])
qed (auto simp: git_oid_cmp_def git_oid__cmp_def git_oid__hashcmp_def intro: hashcmp_trans)

interpretation hash_order: cmp_order git_oid__hashcmp
proof (unfold_locales, goal_cases)
  case (1 x y)
  show ?case by (simp add: git_oid__hashcmp_def hashcmp_anti [of y x])
qed (auto simp: git_oid__hashcmp_def intro: hashcmp_trans)

lemma hashcmp_eq: "length a = 20 \<Longrightarrow> length b = 20 \<Longrightarrow> git_oid__hashcmp a b = 0 \<longleftrightarrow> a = b"
  by (simp add: git_oid__hashcmp_def hashcmp_zero GIT_OID_RAWSZ_def list_eq_iff_nth_eq)

section \<open>Hexadecimal digits\<close>

lemma fromhex_to_hex: "n < 16 \<Longrightarrow> git__fromhex (to_hex ! n) = int n"
proof -
  assume "n < 16"
  then have "n \<in> set [0..<16]" by simp
  moreover have "list_all (\<lambda>n. git__fromhex (to_hex ! n) = int n) [0..<16]" by code_simp
  ultimately show ?thesis by (simp only: list_all_iff)
qed

lemma nib_hi: "unat (drop_bit 4 (b :: byte)) = unat b div 16"
  by (simp only: unat_drop_bit_eq) (simp add: drop_bit_eq_div)

lemma nib_lo: "unat ((b :: byte) AND 15) = unat b mod 16"
proof -
  have "b AND 15 = take_bit 4 b" by (simp add: take_bit_eq_mask mask_eq_exp_minus_1)
  then have "unat (b AND 15) = take_bit 4 (unat b)" by (simp only: unsigned_take_bit_eq)
  then show ?thesis by (simp add: take_bit_eq_mod)
qed

lemma fmt_one_nth: "fmt_one b ! 0 = to_hex ! (unat b div 16)" "fmt_one b ! 1 = to_hex ! (unat b mod 16)"
  unfolding fmt_one_def nib_hi nib_lo by simp_all

lemma fmt_one_fromhex:
  "git__fromhex (fmt_one b ! 0) = int (unat b div 16)" "git__fromhex (fmt_one b ! 1) = int (unat b mod 16)"
proof -
  have "unat b < 256" using unsigned_less [of b, where ?'a = nat] by simp
  then have "unat b div 16 < 16" "unat b mod 16 < 16" by simp_all
  then show "git__fromhex (fmt_one b ! 0) = int (unat b div 16)" "git__fromhex (fmt_one b ! 1) = int (unat b mod 16)"
    unfolding fmt_one_nth by (simp_all only: fromhex_to_hex)
qed

lemma fmt_one_inj: "fmt_one a = fmt_one b \<longleftrightarrow> a = b"
proof
  assume "fmt_one a = fmt_one b"
  then have "unat a div 16 = unat b div 16" "unat a mod 16 = unat b mod 16"
    using fmt_one_fromhex [of a] fmt_one_fromhex [of b] by simp_all
  then have "unat a = unat b" by (metis div_mult_mod_eq)
  then show "a = b" by (simp add: word_unat_eq_iff)
qed simp

lemma length_fmt [simp]: "length (concat (map fmt_one bs)) = 2 * length bs"
  by (induction bs) (simp_all add: fmt_one_def)

lemma fmt_nth: "i < length bs \<Longrightarrow> concat (map fmt_one bs) ! (2 * i) = fmt_one (bs ! i) ! 0"
  "i < length bs \<Longrightarrow> concat (map fmt_one bs) ! (2 * i + 1) = fmt_one (bs ! i) ! 1"
proof -
  have "fmt_one b = [fmt_one b ! 0, fmt_one b ! 1]" for b by (simp add: fmt_one_def)
  then have "concat (map fmt_one (b # bs)) = fmt_one b ! 0 # fmt_one b ! 1 # concat (map fmt_one bs)" for b bs
    by (metis append_Cons append_Nil concat.simps(2) list.simps(9))
  then show "i < length bs \<Longrightarrow> concat (map fmt_one bs) ! (2 * i) = fmt_one (bs ! i) ! 0"
    "i < length bs \<Longrightarrow> concat (map fmt_one bs) ! (2 * i + 1) = fmt_one (bs ! i) ! 1"
    by (induction bs arbitrary: i) (simp_all add: less_Suc_eq_0_disj del: concat.simps list.simps(9), (auto simp del: concat.simps list.simps(9))+)
qed

lemma oid_byte_nibbles: "oid_byte (int (unat b div 16) * 16 + int (unat b mod 16)) = (b :: byte)"
proof -
  have "int (unat b div 16) * 16 + int (unat b mod 16) = int (unat b)"
    using div_mult_mod_eq [of "unat b" 16] by linarith
  then show ?thesis by (simp add: oid_byte_def)
qed

lemma fromstrn_loop_hex:
  assumes "length ids = 20" "40 \<le> length str"
    and "\<And>i. i < 20 \<Longrightarrow> git__fromhex (str ! (2 * i)) = int (unat (ids ! i) div 16) \<and>
      git__fromhex (str ! (2 * i + 1)) = int (unat (ids ! i) mod 16)"
  shows "k \<le> 20 \<Longrightarrow> length idb = 20 \<Longrightarrow>
    fromstrn_loop str 39 (2 * k) idb = Some (Inr (40, take k idb @ drop k ids))"
proof (induction "20 - k" arbitrary: k idb)
  case 0
  then have "k = 20" by simp
  then show ?case using 0 assms(1) by (simp add: fromstrn_loop.simps [of str 39])
next
  case (Suc n)
  then have k: "k < 20" by simp
  let ?v = "oid_byte (git__fromhex (str ! (2 * k)) * 16 + git__fromhex (str ! (2 * k + 1)))"
  have v: "?v = ids ! k" unfolding assms(3) [OF k, THEN conjunct1] assms(3) [OF k, THEN conjunct2] by (rule oid_byte_nibbles)
  have nn: "\<not> git__fromhex (str ! (2 * k)) < 0" "\<not> git__fromhex (str ! (2 * k + 1)) < 0"
    using assms(3) [OF k] by simp_all
  have "fromstrn_loop str 39 (2 * k) idb = fromstrn_loop str 39 (2 * Suc k) (idb[k := ids ! k])"
    using k assms(2) Suc.prems(2) nn v by (simp add: fromstrn_loop.simps [of str 39 "2 * k"])
  also have "\<dots> = Some (Inr (40, take (Suc k) (idb[k := ids ! k]) @ drop (Suc k) ids))"
    by (rule Suc.hyps(1)) (use Suc k in auto)
  also have "take (Suc k) (idb[k := ids ! k]) @ drop (Suc k) ids = take k idb @ drop k ids"
    using k Suc.prems assms(1) by (simp add: take_Suc_conv_app_nth Cons_nth_drop_Suc)
  finally show ?case .
qed

lemma fromstrn_hex:
  assumes "length ids = 20" "40 \<le> length str" "oid_ok out"
    and "\<And>i. i < 20 \<Longrightarrow> git__fromhex (str ! (2 * i)) = int (unat (ids ! i) div 16) \<and>
      git__fromhex (str ! (2 * i + 1)) = int (unat (ids ! i) mod 16)"
  shows "git_oid_fromstrn out str 40 = Some (0, \<lparr>oid_id = ids\<rparr>)"
proof -
  have "fromstrn_loop str 39 (2 * 0) (oid_id out) = Some (Inr (40, take 0 (oid_id out) @ drop 0 ids))"
    by (rule fromstrn_loop_hex [OF assms(1,2,4)]) (use assms(3) in \<open>simp_all add: oid_ok_def GIT_OID_RAWSZ_def\<close>)
  moreover have "szw (40 + 2 ^ 64 - 1) = 39" "szw (40 + 2 ^ 64 - 40) = 0" by (simp_all add: szw_def)
  ultimately show ?thesis
    using assms(1) by (simp add: git_oid_fromstrn_def GIT_OID_HEXSZ_def wr_blk_def)
qed

lemma oid_fmt_eq: "oid_ok o1 \<Longrightarrow> git_oid_fmt o1 = Some (concat (map fmt_one (oid_id o1)))"
  by (simp add: git_oid_fmt_def git_oid_nfmt_def oid_ok_def GIT_OID_HEXSZ_def GIT_OID_RAWSZ_def rd_blk_def)

lemma fromstr_fmt:
  assumes "oid_ok o1" "oid_ok out"
  shows "git_oid_fromstrn out (concat (map fmt_one (oid_id o1)) @ rest) 40 = Some (0, o1)"
proof -
  let ?s = "concat (map fmt_one (oid_id o1))"
  have l: "length (oid_id o1) = 20" using assms(1) by (simp add: oid_ok_def GIT_OID_RAWSZ_def)
  have "git_oid_fromstrn out (?s @ rest) 40 = Some (0, \<lparr>oid_id = oid_id o1\<rparr>)"
  proof (rule fromstrn_hex [OF l _ assms(2)])
    fix i :: nat assume i: "i < 20"
    have "(?s @ rest) ! (2 * i) = fmt_one (oid_id o1 ! i) ! 0" "(?s @ rest) ! (2 * i + 1) = fmt_one (oid_id o1 ! i) ! 1"
      using i l fmt_nth [of i "oid_id o1"] by (simp_all add: nth_append)
    then show "git__fromhex ((?s @ rest) ! (2 * i)) = int (unat (oid_id o1 ! i) div 16) \<and>
        git__fromhex ((?s @ rest) ! (2 * i + 1)) = int (unat (oid_id o1 ! i) mod 16)"
      by (simp only: fmt_one_fromhex)
  qed (use l in simp)
  then show ?thesis by simp
qed

text \<open>A string with a byte that is not a hexadecimal digit is refused, whatever its even length.\<close>

lemma fromstrn_loop_bad:
  assumes "j < 2 * n" "git__fromhex (str ! j) < 0" "2 * n \<le> length str" "n \<le> length idb"
  shows "2 * k \<le> j \<Longrightarrow> length idb = l \<Longrightarrow> n \<le> l \<Longrightarrow> \<exists>w. fromstrn_loop str (2 * n - 1) (2 * k) idb = Some (Inl w)"
  using assms(4)
proof (induction "n - k" arbitrary: k idb)
  case 0
  then show ?case using assms by simp
next
  case (Suc m)
  have kn: "2 * k + 1 < 2 * n" using Suc.prems(1) assms(1) by presburger
  show ?case
  proof (cases "git__fromhex (str ! (2 * k)) < 0 \<or> git__fromhex (str ! (2 * k + 1)) < 0")
    case True
    then show ?thesis using Suc.prems assms kn by (subst fromstrn_loop.simps) auto
  next
    case False
    then have "j \<noteq> 2 * k" "j \<noteq> 2 * k + 1" using assms(2) by auto
    then have j: "2 * Suc k \<le> j" using Suc.prems(1) by presburger
    let ?i = "idb[k := oid_byte (git__fromhex (str ! (2 * k)) * 16 + git__fromhex (str ! (2 * k + 1)))]"
    have "\<exists>w. fromstrn_loop str (2 * n - 1) (2 * Suc k) ?i = Some (Inl w)"
      by (rule Suc.hyps(1)) (use Suc j in auto)
    moreover have "fromstrn_loop str (2 * n - 1) (2 * k) idb = fromstrn_loop str (2 * n - 1) (2 * Suc k) ?i"
      using False Suc.prems assms j kn by (subst fromstrn_loop.simps) auto
    ultimately show ?thesis by simp
  qed
qed

section \<open>Prefix comparison\<close>

lemma bit_f0: "bit (240 :: byte) n \<longleftrightarrow> 4 \<le> n \<and> n < 8"
proof (cases "n < 8")
  case True
  then have "n \<in> {0, 1, 2, 3, 4, 5, 6, 7}" by auto
  then show ?thesis by (elim insertE) (simp_all add: bit_numeral_rec)
qed (auto dest: bit_imp_le_length)

lemma nibble_hi_zero: "w AND 0xf0 = (0 :: byte) \<longleftrightarrow> drop_bit 4 w = 0"
proof
  assume w: "w AND 0xf0 = 0"
  show "drop_bit 4 w = 0"
  proof (rule bit_word_eqI)
    fix n assume "n < LENGTH(8)"
    have "bit (w AND 0xf0) (4 + n) \<longleftrightarrow> bit w (4 + n) \<and> 4 \<le> 4 + n \<and> 4 + n < 8"
      by (simp only: bit_and_iff bit_f0)
    then have "bit w (4 + n) \<Longrightarrow> \<not> 4 + n < 8" unfolding w by simp
    moreover have "bit w (4 + n) \<Longrightarrow> 4 + n < 8" by (auto dest: bit_imp_le_length)
    ultimately show "bit (drop_bit 4 w) n \<longleftrightarrow> bit (0 :: byte) n" by (auto simp: bit_drop_bit_eq)
  qed
next
  assume w: "drop_bit 4 w = 0"
  have "\<not> bit w n" if "4 \<le> n" for n
    using that w bit_drop_bit_eq [of 4 w] by (metis add_diff_inverse_nat bit_0_eq bot_apply bot_bool_def comp_apply not_le)
  then show "w AND 0xf0 = 0" by (intro bit_word_eqI) (simp only: bit_and_iff bit_f0 bit_0_eq bot_apply bot_bool_def, blast)
qed

lemma xor_word_zero: "a XOR b = 0 \<longleftrightarrow> a = (b :: 'a::len word)"
  by (auto simp: bit_eq_iff bit_xor_iff)

lemma nibble_hi_xor: "(x XOR y) AND 0xf0 \<noteq> (0 :: byte) \<longleftrightarrow> fmt_one x ! 0 \<noteq> fmt_one y ! 0"
proof -
  have "drop_bit 4 (x XOR y) = 0 \<longleftrightarrow> drop_bit 4 x = drop_bit 4 y"
    unfolding drop_bit_xor by (rule xor_word_zero)
  also have "\<dots> \<longleftrightarrow> unat x div 16 = unat y div 16" by (simp only: word_unat_eq_iff nib_hi)
  also have "\<dots> \<longleftrightarrow> fmt_one x ! 0 = fmt_one y ! 0" using fmt_one_fromhex(1) [of x] fmt_one_fromhex(1) [of y]
    by (metis fmt_one_nth(1) of_nat_eq_iff)
  finally show ?thesis by (simp add: nibble_hi_zero)
qed

lemma fmt_two: "fmt_one b = [fmt_one b ! 0, fmt_one b ! 1]"
  by (simp add: fmt_one_def)

lemma fmt_Cons: "concat (map fmt_one (b # bs)) = fmt_one b ! 0 # fmt_one b ! 1 # concat (map fmt_one bs)"
  using fmt_two [of b] by (metis append_Cons append_Nil concat.simps(2) list.simps(9))

lemma ncmp_loop_ok:
  "i + (len + 1) div 2 \<le> length a \<Longrightarrow> length a = length b \<Longrightarrow>
   ncmp_loop a b i len = Some (if take len (concat (map fmt_one (drop i a))) = take len (concat (map fmt_one (drop i b))) then 0 else 1)"
proof (induction a b i len rule: ncmp_loop.induct)
  case (1 a b i len)
  show ?case
  proof (cases "len = 0")
    case False
    then have i: "i < length a" "i < length b" using 1(2,3) by auto
    have d: "drop i a = a ! i # drop (Suc i) a" "drop i b = b ! i # drop (Suc i) b"
      using i by (simp_all add: Cons_nth_drop_Suc)
    show ?thesis
    proof (cases "len = 1")
      case True
      then show ?thesis using i unfolding d fmt_Cons by (subst ncmp_loop.simps) (simp add: nibble_hi_xor)
    next
      case l: False
      then obtain m where m: "len = Suc (Suc m)" using False by (metis One_nat_def not0_implies_Suc)
      have e: "fmt_one (a ! i) ! 0 = fmt_one (b ! i) ! 0 \<and> fmt_one (a ! i) ! 1 = fmt_one (b ! i) ! 1 \<longleftrightarrow> a ! i = b ! i"
        using fmt_one_inj [of "a ! i" "b ! i"] fmt_two by metis
      have IH: "a ! i = b ! i \<Longrightarrow> ncmp_loop a b (Suc i) m = Some (if take m (concat (map fmt_one (drop (Suc i) a))) = take m (concat (map fmt_one (drop (Suc i) b))) then 0 else 1)"
        using 1(1) [of "a ! i" "b ! i"] i m 1(2,3) by simp
      show ?thesis using i m e IH unfolding d fmt_Cons by (subst ncmp_loop.simps) auto
    qed
  qed (simp add: ncmp_loop.simps)
qed


section \<open>Binary search in the table\<close>

definition ids_sorted :: "byte list list \<Rightarrow> bool" where
  "ids_sorted tab \<longleftrightarrow> (\<forall>k \<in> set tab. length k = 20) \<and> csorted git_oid__hashcmp tab"

lemma ids_sorted_le: "ids_sorted tab \<Longrightarrow> i \<le> j \<Longrightarrow> j < length tab \<Longrightarrow> git_oid__hashcmp (tab ! i) (tab ! j) \<le> 0"
  using csorted_nth [of git_oid__hashcmp tab i j] by (cases "i = j") (auto simp: ids_sorted_def)

definition position_of :: "byte list list \<Rightarrow> nat \<Rightarrow> nat \<Rightarrow> byte list \<Rightarrow> int \<Rightarrow> bool" where
  "position_of tab lo hi key r \<longleftrightarrow>
     (if 0 \<le> r then lo \<le> nat r \<and> nat r < hi \<and> tab ! nat r = key
      else (let p = nat (- r - 1) in lo \<le> p \<and> p \<le> hi \<and> (\<forall>i. lo \<le> i \<and> i < p \<longrightarrow> git_oid__hashcmp (tab ! i) key < 0) \<and>
              (\<forall>i. p \<le> i \<and> i < hi \<longrightarrow> 0 < git_oid__hashcmp (tab ! i) key)))"

lemma sha1_position_ok:
  assumes "ids_sorted tab" "length key = 20"
  shows "lo < hi \<Longrightarrow> hi \<le> length tab \<Longrightarrow> hi < 2 ^ 31 \<Longrightarrow>
    \<exists>r. sha1_position tab lo hi key = Some r \<and> position_of tab lo hi key r"
proof (induction "hi - lo" arbitrary: lo hi rule: less_induct)
  case less
  define m where "m = (lo + hi) div 2"
  let ?c = "git_oid__hashcmp (tab ! m) key"
  have mi: "lo \<le> m" "m < hi" "m < length tab" "u32w (lo + hi) = lo + hi" using less.prems by (auto simp: u32w_def m_def)
  have step: "sha1_position tab lo hi key = (if ?c = 0 then Some (int m)
      else if 0 < ?c then (if lo < m then sha1_position tab lo m key else Some (- int lo - 1))
      else (if m + 1 < hi then sha1_position tab (m + 1) hi key else Some (- int (m + 1) - 1)))"
    using mi(1-3) by (subst sha1_position.simps) (simp only: Let_def mi(4) m_def [symmetric] rd_in bind.simps, auto)
  have up: "0 < git_oid__hashcmp (tab ! i) key" if "0 < ?c" "m \<le> i" "i < hi" for i
  proof -
    have "git_oid__hashcmp (tab ! m) (tab ! i) \<le> 0" using that less.prems by (intro ids_sorted_le assms) auto
    then show ?thesis using that(1) hash_order.cmp_trans [of "tab ! m" "tab ! i" key] by linarith
  qed
  have dn: "git_oid__hashcmp (tab ! i) key < 0" if "?c < 0" "i \<le> m" for i
  proof -
    have "git_oid__hashcmp (tab ! i) (tab ! m) \<le> 0" using that mi by (intro ids_sorted_le assms) auto
    then show ?thesis using that(1) hash_order.cmp_le_less by blast
  qed
  have eq: "?c = 0 \<Longrightarrow> tab ! m = key" using assms mi hashcmp_eq [of "tab ! m" key] by (auto simp: ids_sorted_def)
  consider "?c = 0" | "0 < ?c" "lo < m" | "0 < ?c" "\<not> lo < m" | "?c < 0" "m + 1 < hi" | "?c < 0" "\<not> m + 1 < hi"
    by linarith
  then show ?case
  proof cases
    case 1
    then show ?thesis using step eq mi by (simp add: position_of_def)
  next
    case 2
    then obtain r where "sha1_position tab lo m key = Some r" "position_of tab lo m key r"
      using less.hyps [of m lo] mi less.prems by fastforce
    moreover have "position_of tab lo hi key r" using calculation(2) mi up [OF 2(1)]
      by (simp add: position_of_def Let_def split: if_splits) (metis not_le)
    ultimately show ?thesis using step 2 by simp
  next
    case 3
    then have "lo = m" using mi by simp
    then show ?thesis using step 3 up less.prems by (simp add: position_of_def)
  next
    case 4
    then obtain r where "sha1_position tab (m + 1) hi key = Some r" "position_of tab (m + 1) hi key r"
      using less.hyps [of hi "m + 1"] mi less.prems by fastforce
    moreover have "position_of tab lo hi key r" using calculation(2) mi dn [OF 4(1)]
      by (simp add: position_of_def Let_def split: if_splits) (metis Suc_leI not_le)
    ultimately show ?thesis using step 4 by simp
  next
    case 5
    then have "hi = m + 1" using mi by simp
    moreover have "nat (1 + int m) = Suc m" by simp
    ultimately show ?thesis using step 5 dn less.prems by (simp add: position_of_def Let_def)
  qed
qed

section \<open>The interpolating search\<close>

lemma common_prefix_ok:
  "ofs \<le> common_prefix a b ofs n \<and> common_prefix a b ofs n \<le> ofs + n \<and>
   (\<forall>j. ofs \<le> j \<and> j < common_prefix a b ofs n \<longrightarrow> a ! j = b ! j) \<and>
   (common_prefix a b ofs n < ofs + n \<longrightarrow> a ! common_prefix a b ofs n \<noteq> b ! common_prefix a b ofs n)"
proof (induction n arbitrary: ofs)
  case (Suc n)
  show ?case
  proof (cases "a ! ofs = b ! ofs")
    case True
    then have "common_prefix a b ofs (Suc n) = common_prefix a b (Suc ofs) n" by simp
    then show ?thesis using Suc.IH [of "Suc ofs"] True by (metis Suc_leD Suc_leI add_Suc add_Suc_right le_neq_implies_less)
  qed auto
qed auto

lemma interpolate_bounds:
  assumes "lov \<le> kyv" "kyv \<le> hiv" "lov < hiv" "hiv \<le> 2 ^ 16" "0 < rng" "lo + rng < 2 ^ 31"
  shows "lo \<le> interpolate lo rng lov hiv kyv" "interpolate lo rng lov hiv kyv < lo + rng"
proof -
  define k1 where "k1 = (kyv * 6 + lov + hiv) div 8"
  define k2 where "k2 = (if lov < hiv - 1 then (if k1 = lov then k1 + 1 else if k1 = hiv then k1 - 1 else k1) else k1)"
  have "lov \<le> k1" "k1 \<le> hiv" using assms(1,2,3) by (simp_all add: k1_def)
  then have k2: "lov \<le> k2" "k2 \<le> hiv" using assms(3) by (auto simp: k2_def)
  have w: "u32w (k2 + 2 ^ 32 - lov) = k2 - lov"
  proof -
    have "k2 + 2 ^ 32 - lov = (k2 - lov) + 2 ^ 32" using k2 by simp
    then have "u32w (k2 + 2 ^ 32 - lov) = (k2 - lov) mod 2 ^ 32" by (simp only: u32w_def mod_add_self2)
    then show ?thesis using k2 assms(4) by simp
  qed
  define d where "d = u32w ((rng - 1) * (k2 - lov)) div (hiv - lov)"
  have "u32w ((rng - 1) * (k2 - lov)) \<le> (rng - 1) * (hiv - lov)"
  proof -
    have "u32w ((rng - 1) * (k2 - lov)) \<le> (rng - 1) * (k2 - lov)" by (simp add: u32w_def)
    also have "\<dots> \<le> (rng - 1) * (hiv - lov)" using k2 by (intro mult_le_mono2) simp
    finally show ?thesis .
  qed
  then have "d \<le> rng - 1" unfolding d_def using assms(3) by (metis div_le_mono nonzero_mult_div_cancel_right zero_less_diff not_less_zero)
  then have "u32w (d + lo) = d + lo" "d + lo < lo + rng" using assms(5,6) by (simp_all add: u32w_def)
  moreover have "interpolate lo rng lov hiv kyv = u32w (d + lo)"
    unfolding interpolate_def Let_def k1_def [symmetric] k2_def [symmetric] w d_def ..
  ultimately show "lo \<le> interpolate lo rng lov hiv kyv" "interpolate lo rng lov hiv kyv < lo + rng" by simp_all
qed

text \<open>For keys that agree before ofs, the two bytes at ofs are ordered as the keys are.\<close>

lemma two_bytes_le:
  assumes "git_oid__hashcmp a b \<le> 0" "ofs < 20" "\<And>j. j < ofs \<Longrightarrow> a ! j = b ! j"
  shows "two_bytes a ofs \<le> two_bytes b ofs" "a ! ofs \<noteq> b ! ofs \<Longrightarrow> two_bytes a ofs < two_bytes b ofs"
proof -
  have u: "unat (k ! i :: byte) < 256" for k i using unsigned_less [of "k ! i", where ?'a = nat] by simp
  have "hashcmp_loop a b 0 20 = hashcmp_loop a b ofs (20 - ofs)"
    using hashcmp_skip [of 0 ofs a b "20 - ofs"] assms(2,3) by simp
  then have h: "hashcmp_loop a b ofs (20 - ofs) \<le> 0" using assms(1) by (simp add: git_oid__hashcmp_def GIT_OID_RAWSZ_def)
  obtain n where n: "20 - ofs = Suc n" using assms(2) by (metis Suc_diff_Suc)
  have lt: "unat (a ! ofs) < unat (b ! ofs)" if "a ! ofs \<noteq> b ! ofs"
  proof -
    have "a ! ofs \<le> b ! ofs" using h that by (simp add: n word_le_def)
    then show ?thesis using that by (simp add: word_le_nat_alt word_unat_eq_iff)
  qed
  show s: "a ! ofs \<noteq> b ! ofs \<Longrightarrow> two_bytes a ofs < two_bytes b ofs"
    using lt u [of a "ofs + 1"] u [of b "ofs + 1"] by (simp add: two_bytes_def)
  show "two_bytes a ofs \<le> two_bytes b ofs"
  proof (cases "a ! ofs = b ! ofs")
    case e: True
    show ?thesis
    proof (cases "ofs < 19")
      case True
      then have "0 < n" using n by linarith
      then obtain m where m: "n = Suc m" by (cases n) auto
      have "hashcmp_loop a b (Suc ofs) (Suc m) \<le> 0" using h e by (simp add: n m)
      then have "unat (a ! Suc ofs) \<le> unat (b ! Suc ofs)"
        by (cases "a ! Suc ofs = b ! Suc ofs") (simp_all add: word_le_def flip: word_le_nat_alt)
      then show ?thesis using e True by (simp add: two_bytes_def)
    next
      case False
      then show ?thesis using e by (simp add: two_bytes_def)
    qed
  next
    case False
    then show ?thesis using s by simp
  qed
qed

lemma two_bytes_less: "two_bytes k ofs < (if ofs < 19 then 256 * 256 else 256)"
proof -
  have u: "unat (k ! i :: byte) < 256" for i using unsigned_less [of "k ! i", where ?'a = nat] by simp
  show ?thesis using u [of ofs] u [of "ofs + 1"] by (simp add: two_bytes_def)
qed


definition hi_ok :: "byte list list \<Rightarrow> nat \<Rightarrow> nat \<Rightarrow> byte list option \<Rightarrow> bool" where
  "hi_ok tab ofs hi h \<longleftrightarrow> (case h of None \<Rightarrow> ofs = 0 | Some k \<Rightarrow> hi < length tab \<and> k = tab ! hi)"

lemma agree_between:
  assumes "git_oid__hashcmp a k \<le> 0" "git_oid__hashcmp k b \<le> 0" "\<And>j. j < ofs \<Longrightarrow> a ! j = b ! j" "ofs \<le> 20"
  shows "\<And>j. j < ofs \<Longrightarrow> k ! j = a ! j"
  using assms(3,4)
proof (induction ofs)
  case (Suc m)
  have IH: "\<And>j. j < m \<Longrightarrow> k ! j = a ! j" using Suc by simp
  have "a ! m \<le> k ! m" "k ! m \<le> b ! m"
  proof -
    obtain n where n: "20 - m = Suc n" using Suc.prems(3) by (metis Suc_diff_Suc Suc_le_eq)
    have "hashcmp_loop a k 0 20 = hashcmp_loop a k m (20 - m)" "hashcmp_loop k b 0 20 = hashcmp_loop k b m (20 - m)"
      using hashcmp_skip [of 0 m a k "20 - m"] hashcmp_skip [of 0 m k b "20 - m"] IH Suc.prems by auto
    then show "a ! m \<le> k ! m" "k ! m \<le> b ! m"
      using assms(1,2) by (auto simp: git_oid__hashcmp_def GIT_OID_RAWSZ_def n word_le_def split: if_splits)
  qed
  then show ?case using IH Suc.prems by (metis less_Suc_eq order_antisym)
qed simp

lemma hashcmp_tail:
  assumes "\<And>j. j < ofs \<Longrightarrow> a ! j = b ! j" "ofs \<le> 20"
  shows "hashcmp_loop a b ofs (20 - ofs) = git_oid__hashcmp a b"
  using hashcmp_skip [of 0 ofs a b "20 - ofs"] assms by (simp add: git_oid__hashcmp_def GIT_OID_RAWSZ_def)

lemma entry_pos_loop_finds:
  assumes s: "ids_sorted tab" and len: "length tab < 2 ^ 31"
  shows "lo \<le> i \<Longrightarrow> i < hi \<Longrightarrow> hi \<le> length tab \<Longrightarrow> hi_ok tab ofs0 hi h \<Longrightarrow> ofs0 \<le> 20 \<Longrightarrow>
    (\<And>j k. h = Some k \<Longrightarrow> j < ofs0 \<Longrightarrow> tab ! lo ! j = k ! j) \<Longrightarrow>
    \<exists>r. entry_pos_loop tab (tab ! i) ofs0 lo hi (tab ! lo) h = Some (int r) \<and> lo \<le> r \<and> r < hi \<and> tab ! r = tab ! i"
proof (induction "hi - lo" arbitrary: lo hi ofs0 h rule: less_induct)
  case less
  let ?key = "tab ! i"
  define ofs where "ofs = (case h of Some h \<Rightarrow> common_prefix (tab ! lo) h ofs0 (20 - ofs0) | None \<Rightarrow> ofs0)"
  have lk: "git_oid__hashcmp (tab ! lo) ?key \<le> 0" using s less.prems by (intro ids_sorted_le) auto
  have kh: "git_oid__hashcmp ?key k \<le> 0" "k = tab ! hi" if "h = Some k" for k
    using that s less.prems by (auto simp: hi_ok_def intro: ids_sorted_le)
  have ofs: "ofs \<le> 20" "h = None \<Longrightarrow> ofs = 0"
    using less.prems(4,5) common_prefix_ok [of ofs0 "tab ! lo" _ "20 - ofs0"] by (auto simp: ofs_def hi_ok_def split: option.splits)
  have pre: "\<And>j. j < ofs \<Longrightarrow> tab ! lo ! j = k ! j" if h: "h = Some k" for k
  proof -
    fix j assume "j < ofs"
    then show "tab ! lo ! j = k ! j"
      using less.prems(6) [OF h, of j] common_prefix_ok [of ofs0 "tab ! lo" k "20 - ofs0"]
      by (cases "j < ofs0") (auto simp: ofs_def h)
  qed
  have key: "\<And>j. j < ofs \<Longrightarrow> ?key ! j = tab ! lo ! j"
  proof (cases h)
    case None
    then show "\<And>j. j < ofs \<Longrightarrow> ?key ! j = tab ! lo ! j" using ofs by simp
  next
    case (Some k)
    then show "\<And>j. j < ofs \<Longrightarrow> ?key ! j = tab ! lo ! j"
      using agree_between [OF lk kh(1) [OF Some] pre [OF Some] ofs(1)] by blast
  qed
  show ?case
  proof (cases "h \<noteq> None \<and> ofs = 20")
    case True
    then have "git_oid__hashcmp (tab ! lo) ?key = 0" using key by (simp add: git_oid__hashcmp_def hashcmp_zero GIT_OID_RAWSZ_def)
    then have "tab ! lo = ?key" using s less.prems hashcmp_eq [of "tab ! lo" ?key] by (simp add: ids_sorted_def)
    then show ?thesis using True less.prems \<open>git_oid__hashcmp (tab ! lo) ?key = 0\<close>
      by (subst entry_pos_loop.simps) (simp add: Let_def ofs_def [symmetric])
  next
    case False
    then have o20: "ofs < 20" using ofs by (cases h) auto
    define hiv where "hiv = (case h of Some h \<Rightarrow> two_bytes h ofs | None \<Rightarrow> (if ofs < 19 then 256 * 256 else 256))"
    define lov where "lov = two_bytes (tab ! lo) ofs"
    define kyv where "kyv = two_bytes ?key ofs"
    have lov: "lov \<le> kyv" unfolding lov_def kyv_def by (rule two_bytes_le(1) [OF lk o20]) (simp add: key)
    have "kyv \<le> hiv \<and> lov < hiv \<and> hiv \<le> 2 ^ 16"
    proof (cases h)
      case None
      then have "hiv = (if ofs < 19 then 256 * 256 else 256)" by (simp add: hiv_def)
      then show ?thesis
        using two_bytes_less [of ?key ofs] two_bytes_less [of "tab ! lo" ofs] by (simp_all add: kyv_def lov_def)
    next
      case (Some k)
      have h: "hiv = two_bytes k ofs" by (simp add: hiv_def Some)
      have pk: "\<And>j. j < ofs \<Longrightarrow> ?key ! j = k ! j" using key pre [OF Some] by simp
      have "git_oid__hashcmp (tab ! lo) k \<le> 0" using lk kh(1) [OF Some] by (rule hash_order.cmp_trans)
      moreover have "tab ! lo ! ofs \<noteq> k ! ofs"
        using common_prefix_ok [of ofs0 "tab ! lo" k "20 - ofs0"] o20 less.prems(5) by (simp add: ofs_def Some)
      ultimately have 1: "lov < hiv" unfolding lov_def h using two_bytes_le(2) [OF _ o20 pre [OF Some]] by blast
      have 2: "kyv \<le> hiv" unfolding kyv_def h by (rule two_bytes_le(1) [OF kh(1) [OF Some] o20 pk])
      have "hiv \<le> 2 ^ 16" using two_bytes_less [of k ofs] by (simp add: h split: if_splits)
      with 1 2 show ?thesis by simp
    qed
    then have kyv: "kyv \<le> hiv" "lov < hiv" "hiv \<le> 2 ^ 16" by simp_all
    define m where "m = interpolate lo (hi - lo) lov hiv kyv"
    have m: "lo \<le> m" "m < hi" "m < length tab"
      using interpolate_bounds [OF lov kyv, of "hi - lo" lo] less.prems len by (auto simp: m_def)
    have agree: "\<And>j. j < ofs \<Longrightarrow> tab ! p ! j = tab ! lo ! j" if "lo \<le> p" "p < hi" for p
    proof (cases h)
      case None
      then show "\<And>j. j < ofs \<Longrightarrow> tab ! p ! j = tab ! lo ! j" using ofs by simp
    next
      case (Some k)
      have "git_oid__hashcmp (tab ! lo) (tab ! p) \<le> 0" "git_oid__hashcmp (tab ! p) k \<le> 0"
        using that s less.prems(3,4) Some by (auto simp: hi_ok_def intro!: ids_sorted_le)
      then show "\<And>j. j < ofs \<Longrightarrow> tab ! p ! j = tab ! lo ! j"
        using agree_between [OF _ _ pre [OF Some] ofs(1)] by blast
    qed
    have c: "hashcmp_loop (tab ! m) ?key ofs (20 - ofs) = git_oid__hashcmp (tab ! m) ?key"
      by (rule hashcmp_tail [OF _ ofs(1)]) (use agree [OF m(1,2)] key in simp)
    let ?c = "git_oid__hashcmp (tab ! m) ?key"
    have step: "entry_pos_loop tab ?key ofs0 lo hi (tab ! lo) h =
        (if ?c = 0 then Some (int m)
         else if 0 < ?c then
           (if lo < m then entry_pos_loop tab ?key ofs lo m (tab ! lo) (Some (tab ! m)) else Some (- int lo - 1))
         else (if m + 1 < hi then entry_pos_loop tab ?key ofs (m + 1) hi (tab ! (m + 1)) h else Some (- int (m + 1) - 1)))"
    proof -
      have n: "\<not> hiv \<le> lov" "\<not> kyv < lov" "\<not> hiv < kyv" "lo \<le> m \<and> m < hi" using lov kyv m by auto
      have r: "m + 1 < hi \<Longrightarrow> rd tab (m + 1) = Some (tab ! (m + 1))" using less.prems(3) by simp
      show ?thesis
        by (subst entry_pos_loop.simps)
          (simp only: Let_def ofs_def [symmetric] hiv_def [symmetric] lov_def [symmetric] kyv_def [symmetric]
            m_def [symmetric] c False n if_False if_True not_True_eq_False simp_thms rd_in [OF m(3)] r bind.simps cong: if_cong)
    qed
    consider "?c = 0" | "0 < ?c" | "?c < 0" by linarith
    then show ?thesis
    proof cases
      case 1
      then have "tab ! m = ?key" using s m less.prems hashcmp_eq [of "tab ! m" ?key] by (simp add: ids_sorted_def)
      then show ?thesis using step m 1 by auto
    next
      case 2
      have "i < m" using 2 ids_sorted_le [OF s, of m i] less.prems(2,3) by (metis not_le order.strict_trans2)
      have "\<exists>r. entry_pos_loop tab ?key ofs lo m (tab ! lo) (Some (tab ! m)) = Some (int r) \<and> lo \<le> r \<and> r < m \<and> tab ! r = ?key"
        by (rule less.hyps) (use m less.prems \<open>i < m\<close> ofs(1) agree [OF m(1,2)] in \<open>auto simp: hi_ok_def\<close>)
      then show ?thesis using step 2 m less.prems(1) \<open>i < m\<close> by auto
    next
      case 3
      have "m < i" using 3 ids_sorted_le [OF s, of i m] hash_order.cmp_flip(2) [of "tab ! m" ?key] m by (metis not_le)
      have a: "tab ! (m + 1) ! j = k ! j" if "h = Some k" "j < ofs" for j k
        using agree [of "m + 1" j] pre [OF that(1) that(2)] m \<open>m < i\<close> less.prems(2) that by simp
      have "\<exists>r. entry_pos_loop tab ?key ofs (m + 1) hi (tab ! (m + 1)) h = Some (int r) \<and> m + 1 \<le> r \<and> r < hi \<and> tab ! r = ?key"
        by (rule less.hyps) (use m less.prems \<open>m < i\<close> ofs a in \<open>auto simp: hi_ok_def split: option.splits\<close>)
      then show ?thesis using step 3 m less.prems(2) \<open>m < i\<close> by auto
    qed
  qed
qed

lemma sha1_entry_pos_finds:
  assumes "ids_sorted tab" "length tab < 2 ^ 31" "lo \<le> i" "i < hi" "hi \<le> length tab"
  shows "\<exists>r. sha1_entry_pos tab lo hi (length tab) (tab ! i) = Some (int r) \<and> lo \<le> r \<and> r < hi \<and> tab ! r = tab ! i"
proof (cases "length tab = hi")
  case True
  then show ?thesis using entry_pos_loop_finds [OF assms(1-5), of 0 None] assms
    by (auto simp: sha1_entry_pos_def hi_ok_def)
next
  case False
  then show ?thesis using entry_pos_loop_finds [OF assms(1-5), of 0 "Some (tab ! hi)"] assms
    by (auto simp: sha1_entry_pos_def hi_ok_def)
qed

section \<open>Properties\<close>

definition zero_oid :: git_oid where
  "zero_oid = \<lparr>oid_id = replicate 20 0\<rparr>"

text \<open>An id written as 20 bytes of which only the first few are not zero.\<close>

definition short_id :: "byte list \<Rightarrow> byte list" where
  "short_id bs = bs @ replicate (20 - length bs) 0"

lemma zero_oid_ok [simp]: "oid_ok zero_oid"
  by (simp add: zero_oid_def oid_ok_def GIT_OID_RAWSZ_def)

text \<open>C24: Hexadecimal ids round-trip.  git\_oid\_fmt writes 40 digits for every id, and git\_oid\_fromstr
  reads them back to the same id whatever the output held and whatever follows the digits in memory; a
  string with any of its first 40 bytes not a hexadecimal digit is refused with -1.\<close>

theorem oid_hex_roundtrip:
  assumes "oid_ok oid" "oid_ok out"
  shows "\<exists>s. git_oid_fmt oid = Some s \<and> length s = GIT_OID_HEXSZ \<and> git_oid_fromstrn out (s @ rest) GIT_OID_HEXSZ = Some (0, oid) \<and>
    (\<forall>j < GIT_OID_HEXSZ. \<forall>c. git__fromhex c < 0 \<longrightarrow> (\<exists>w. git_oid_fromstrn out (s[j := c] @ rest) GIT_OID_HEXSZ = Some (-1, w)))"
proof -
  let ?s = "concat (map fmt_one (oid_id oid))"
  have l: "length ?s = 40" using assms(1) by (simp add: oid_ok_def GIT_OID_RAWSZ_def)
  have "\<exists>w. git_oid_fromstrn out (?s[j := c] @ rest) 40 = Some (-1, w)" if j: "j < 40" "git__fromhex c < 0" for j c
  proof -
    have "git__fromhex ((?s[j := c] @ rest) ! j) < 0" using j l by (simp add: nth_append)
    then have "\<exists>w. fromstrn_loop (?s[j := c] @ rest) (2 * 20 - 1) (2 * 0) (oid_id out) = Some (Inl w)"
      using j(1) l assms(2) by (intro fromstrn_loop_bad [where j = j and l = 20]) (auto simp: oid_ok_def GIT_OID_RAWSZ_def)
    moreover have "szw (40 + 2 ^ 64 - 1) = 39" by (simp add: szw_def)
    ultimately show ?thesis by (auto simp: git_oid_fromstrn_def GIT_OID_HEXSZ_def)
  qed
  then show ?thesis using l oid_fmt_eq [OF assms(1)] fromstr_fmt [OF assms] by (auto simp: GIT_OID_HEXSZ_def)
qed

theorem oid_hex_roundtrip_witness:
  "\<exists>s. git_oid_fmt zero_oid = Some s \<and> git_oid_fromstr zero_oid s = Some (0, zero_oid)"
  using oid_hex_roundtrip [of zero_oid zero_oid "[0]"] by (auto simp: git_oid_fromstr_def)

text \<open>git\_oid\_ncmp compares hexadecimal prefixes: for every length it is 0 exactly when the two ids
  agree on that many of their hexadecimal digits (odd lengths included), and 1 otherwise.\<close>

theorem oid_ncmp_prefix:
  assumes "git_oid_fmt a = Some sa" "git_oid_fmt b = Some sb" "oid_ok a" "oid_ok b"
  shows "git_oid_ncmp a b len = Some (if take len sa = take len sb then 0 else 1)"
proof -
  have l: "length (oid_id a) = 20" "length (oid_id b) = 20" using assms(3,4) by (simp_all add: oid_ok_def GIT_OID_RAWSZ_def)
  have s: "sa = concat (map fmt_one (oid_id a))" "sb = concat (map fmt_one (oid_id b))"
    using assms by (simp_all add: oid_fmt_eq)
  have t: "take (min len 40) sa = take len sa" "take (min len 40) sb = take len sb"
    by (auto simp: s l min_def)
  show ?thesis
    unfolding git_oid_ncmp_def GIT_OID_HEXSZ_def
    by (subst ncmp_loop_ok) (simp_all only: drop_0 s [symmetric] t, simp_all add: l)
qed

theorem oid_ncmp_prefix_witness:
  "git_oid_ncmp zero_oid \<lparr>oid_id = short_id [0, 0x0f]\<rparr> 3 = Some 0 \<and> git_oid_ncmp zero_oid \<lparr>oid_id = short_id [0, 0x0f]\<rparr> 4 = Some 1"
proof -
  let ?b = "\<lparr>oid_id = short_id [0, 0x0f]\<rparr>"
  have b: "oid_ok ?b" by (simp add: oid_ok_def short_id_def GIT_OID_RAWSZ_def)
  note ncmp = oid_ncmp_prefix [OF oid_fmt_eq [OF zero_oid_ok] oid_fmt_eq [OF b] zero_oid_ok b]
  have "git_oid_ncmp zero_oid ?b 3 = Some 0" unfolding ncmp by code_simp
  moreover have "git_oid_ncmp zero_oid ?b 4 = Some 1" unfolding ncmp by code_simp
  ultimately show ?thesis by blast
qed

text \<open>C25: sha1\_position searches a sorted table of ids: in a non-empty range of fewer than 2^31 entries it
  returns, without reading outside the range, the index of an entry equal to the key, or -p - 1 where
  exactly the entries below p are below the key.\<close>

theorem sha1_position_spec:
  assumes "ids_sorted tab" "length key = 20" "lo < hi" "hi \<le> length tab" "hi < 2 ^ 31"
  shows "\<exists>r. sha1_position tab lo hi key = Some r \<and>
    (if 0 \<le> r then lo \<le> nat r \<and> nat r < hi \<and> tab ! nat r = key
     else lo \<le> nat (- r - 1) \<and> nat (- r - 1) \<le> hi \<and>
       (\<forall>i. lo \<le> i \<and> i < nat (- r - 1) \<longrightarrow> git_oid__hashcmp (tab ! i) key < 0) \<and>
       (\<forall>i. nat (- r - 1) \<le> i \<and> i < hi \<longrightarrow> 0 < git_oid__hashcmp (tab ! i) key))"
  using sha1_position_ok [OF assms] unfolding position_of_def Let_def .

lemma ids_sorted_three: "ids_sorted [short_id [1], short_id [2], short_id [4]]"
  by code_simp

theorem sha1_position_spec_witness:
  "\<exists>r. sha1_position [short_id [1], short_id [2], short_id [4]] 0 3 (short_id [3]) = Some r"
proof -
  have "length (short_id [3]) = 20" by (simp add: short_id_def)
  from sha1_position_spec [OF ids_sorted_three this, of 0 3] show ?thesis by auto
qed

text \<open>C26: The interpolating search sha1\_entry\_pos finds every id that is in the range: on a sorted table it
  terminates, its assertion and its invariant check never fail, every access is inside the table, and
  the result is the index of an entry with the key.\<close>

theorem sha1_entry_pos_complete:
  assumes "ids_sorted tab" "length tab < 2 ^ 31" "lo \<le> i" "i < hi" "hi \<le> length tab"
  shows "\<exists>r. sha1_entry_pos tab lo hi (length tab) (tab ! i) = Some (int r) \<and> lo \<le> r \<and> r < hi \<and> tab ! r = tab ! i"
  using sha1_entry_pos_finds [OF assms] .

theorem sha1_entry_pos_complete_witness:
  "\<exists>r. sha1_entry_pos [short_id [1], short_id [2], short_id [4]] 0 3 3 (short_id [2]) = Some (int r)"
  using sha1_entry_pos_complete [OF ids_sorted_three, of 0 1 3] by (auto simp: numeral_3_eq_3)

lemma entry_pos_step:
  assumes "common_prefix lk h ofs0 (20 - ofs0) = ofs" "ofs < 20" "two_bytes h ofs = hiv" "two_bytes lk ofs = lov" "two_bytes key ofs = kyv"
    and "lov < hiv" "lov \<le> kyv" "kyv \<le> hiv" "interpolate lo (hi - lo) lov hiv kyv = m" "lo \<le> m" "m < hi" "m < length tab"
    and "hashcmp_loop (tab ! m) key ofs (20 - ofs) = c"
  shows "entry_pos_loop tab key ofs0 lo hi lk (Some h) =
     (if c = 0 then Some (int m)
      else if 0 < c then (if lo < m then entry_pos_loop tab key ofs lo m lk (Some (tab ! m)) else Some (- int lo - 1))
      else (if m + 1 < hi then Option.bind (rd tab (m + 1)) (\<lambda>l. entry_pos_loop tab key ofs (m + 1) hi l (Some h))
            else Some (- int (m + 1) - 1)))"
proof -
  have n: "\<not> (Some h \<noteq> None \<and> ofs = 20)" "\<not> hiv \<le> lov" "\<not> kyv < lov" "\<not> hiv < kyv" "lo \<le> m \<and> m < hi"
    using assms by auto
  show ?thesis
    by (subst entry_pos_loop.simps)
      (simp only: Let_def option.case assms(1,3,4,5,9,13) n if_False if_True simp_thms rd_in [OF assms(12)] bind.simps cong: if_cong)
qed

definition false_match_table :: "byte list list" where
  "false_match_table = [short_id [1, 3, 64], short_id [1, 192, 48], short_id [1, 192, 48, 1], short_id [1, 192, 64], short_id [2, 8]]"

lemma false_match_run: "sha1_entry_pos false_match_table 0 4 5 (short_id [1, 192]) = Some 1"
proof -
  let ?t = "false_match_table" and ?k = "short_id [1, 192]"
  have t: "length ?t = 5" "?t ! 0 = short_id [1, 3, 64]" "?t ! 1 = short_id [1, 192, 48]"
    "?t ! 2 = short_id [1, 192, 48, 1]" "?t ! 4 = short_id [2, 8]" by (simp_all add: false_match_table_def)
  have 1: "entry_pos_loop ?t ?k 0 0 4 (?t ! 0) (Some (?t ! 4)) = entry_pos_loop ?t ?k 0 0 2 (?t ! 0) (Some (?t ! 2))"
  proof -
    have "hashcmp_loop (?t ! 2) ?k 0 (20 - 0) = 48" unfolding t by code_simp
    moreover have "common_prefix (?t ! 0) (?t ! 4) 0 (20 - 0) = 0" unfolding t by code_simp
    moreover have "two_bytes (?t ! 4) 0 = 520" "two_bytes (?t ! 0) 0 = 259" "two_bytes ?k 0 = 448"
      unfolding t by (simp_all add: two_bytes_def short_id_def)
    moreover have "interpolate 0 (4 - 0) 259 520 448 = 2" by (simp add: interpolate_def u32w_def)
    ultimately show ?thesis by (subst entry_pos_step [where m = 2 and c = "48"]) (simp_all add: t(1))
  qed
  have 2: "entry_pos_loop ?t ?k 0 0 2 (?t ! 0) (Some (?t ! 2)) = entry_pos_loop ?t ?k 1 1 2 (?t ! 1) (Some (?t ! 2))"
  proof -
    have "hashcmp_loop (?t ! 0) ?k 1 (20 - 1) = - 189" unfolding t by code_simp
    moreover have "common_prefix (?t ! 0) (?t ! 2) 0 (20 - 0) = 1" unfolding t by code_simp
    moreover have "two_bytes (?t ! 2) 1 = 49200" "two_bytes (?t ! 0) 1 = 832" "two_bytes ?k 1 = 49152"
      unfolding t by (simp_all add: two_bytes_def short_id_def)
    moreover have "interpolate 0 (2 - 0) 832 49200 49152 = 0" by (simp add: interpolate_def u32w_def)
    ultimately show ?thesis by (subst entry_pos_step [where m = 0 and c = "- 189"]) (simp_all add: t(1))
  qed
  have 3: "entry_pos_loop ?t ?k 1 1 2 (?t ! 1) (Some (?t ! 2)) = Some 1"
  proof -
    have "hashcmp_loop (?t ! 1) ?k 3 (20 - 3) = 0" unfolding t by code_simp
    moreover have "common_prefix (?t ! 1) (?t ! 2) 1 (20 - 1) = 3" unfolding t by code_simp
    moreover have "two_bytes (?t ! 2) 3 = 256" "two_bytes (?t ! 1) 3 = 0" "two_bytes ?k 3 = 0"
      unfolding t by (simp_all add: two_bytes_def short_id_def)
    moreover have "interpolate 1 (2 - 1) 0 256 0 = 1" by (simp add: interpolate_def u32w_def)
    ultimately show ?thesis by (subst entry_pos_step [where m = 1 and c = "0"]) (simp_all del: One_nat_def add: t(1), simp_all)
  qed
  show ?thesis using 1 2 3 t(1) by (simp add: sha1_entry_pos_def)
qed

text \<open>The converse fails: sha1\_entry\_pos can report an id that is not in the table.  It narrows the
  comparison to the bytes behind the common prefix of the two range ends without checking that the
  key has that prefix.  In a sorted table of four ids with the same first byte, followed by one with
  a larger first byte as a fan-out table gives it, the search for the absent id 01 c0 00 00 ...
  returns position 1, which holds 01 c0 30 00 ....\<close>

theorem sha1_entry_pos_false_match:
  "ids_sorted false_match_table \<and> short_id [1, 192] \<notin> set false_match_table \<and>
   list_all (\<lambda>e. e ! 0 = 1) (take 4 false_match_table) \<and> sha1_entry_pos false_match_table 0 4 5 (short_id [1, 192]) = Some 1"
proof -
  have "ids_sorted false_match_table" by code_simp
  moreover have "short_id [1, 192] \<notin> set false_match_table" by code_simp
  moreover have "list_all (\<lambda>e. e ! 0 = 1) (take 4 false_match_table)" by code_simp
  ultimately show ?thesis using false_match_run by blast
qed

end
