(* ===== verification/RingBuffer.thy ===== *)
theory RingBuffer
  imports Prelude "HOL-Library.Sublist"
begin

text \<open>
  The lock-free ring buffer of PortAudio: todo-later/portaudio/src/common/pa\_ringbuffer.c and
  pa\_ringbuffer.h.  ring\_buffer\_size\_t is a signed long; its values are ints here, where the
  bitwise AND of a negative number is that of its two's complement.  An address into the
  buffer is its byte offset.  The memory barriers make the reads and writes of the two threads
  happen in program order, which is the order of the steps of the two-thread model below.
\<close>

unbundle bit_operations_syntax

definition long_max :: int where
  "long_max = 2 ^ 63 - 1"

record PaUtilRingBuffer =
  rb_bufferSize :: int
  rb_writeIndex :: int
  rb_readIndex :: int
  rb_bigMask :: int
  rb_smallMask :: int
  rb_elementSizeBytes :: int
  rb_buffer :: "byte list"

section \<open>Operations\<close>

definition PaUtil_FlushRingBuffer :: "PaUtilRingBuffer \<Rightarrow> PaUtilRingBuffer" where
  "PaUtil_FlushRingBuffer rbuf = rbuf\<lparr>rb_readIndex := 0, rb_writeIndex := 0\<rparr>"

text \<open>None is signed overflow in elementCount - 1 or elementCount * 2.\<close>

definition PaUtil_InitializeRingBuffer ::
  "PaUtilRingBuffer \<Rightarrow> int \<Rightarrow> int \<Rightarrow> byte list \<Rightarrow> (int \<times> PaUtilRingBuffer) option" where
  "PaUtil_InitializeRingBuffer rbuf elementSizeBytes elementCount dataPtr =
     (if elementCount \<le> - long_max - 1 then None
      else if (elementCount - 1) AND elementCount \<noteq> 0 then Some (-1, rbuf)
      else if long_max < elementCount * 2 then None
      else
        let rbuf = PaUtil_FlushRingBuffer (rbuf\<lparr>rb_bufferSize := elementCount, rb_buffer := dataPtr\<rparr>)
        in Some (0, rbuf\<lparr>rb_bigMask := elementCount * 2 - 1, rb_smallMask := elementCount - 1,
             rb_elementSizeBytes := elementSizeBytes\<rparr>))"

definition PaUtil_GetRingBufferReadAvailable :: "PaUtilRingBuffer \<Rightarrow> int" where
  "PaUtil_GetRingBufferReadAvailable rbuf = (rb_writeIndex rbuf - rb_readIndex rbuf) AND rb_bigMask rbuf"

definition PaUtil_GetRingBufferWriteAvailable :: "PaUtilRingBuffer \<Rightarrow> int" where
  "PaUtil_GetRingBufferWriteAvailable rbuf = rb_bufferSize rbuf - PaUtil_GetRingBufferReadAvailable rbuf"

text \<open>The two regions of a transfer: the addresses and sizes stored through the four pointers, with None
  for a null address.\<close>

record rb_regions =
  data1 :: int
  size1 :: int
  data2 :: "int option"
  size2 :: int

definition regions_at :: "PaUtilRingBuffer \<Rightarrow> int \<Rightarrow> int \<Rightarrow> rb_regions" where
  "regions_at rbuf index elementCount =
     (if rb_bufferSize rbuf < index + elementCount then
        let firstHalf = rb_bufferSize rbuf - index
        in \<lparr>data1 = index * rb_elementSizeBytes rbuf, size1 = firstHalf, data2 = Some 0, size2 = elementCount - firstHalf\<rparr>
      else \<lparr>data1 = index * rb_elementSizeBytes rbuf, size1 = elementCount, data2 = None, size2 = 0\<rparr>)"

definition PaUtil_GetRingBufferWriteRegions :: "PaUtilRingBuffer \<Rightarrow> int \<Rightarrow> int \<times> rb_regions" where
  "PaUtil_GetRingBufferWriteRegions rbuf elementCount =
     (let available = PaUtil_GetRingBufferWriteAvailable rbuf;
          elementCount = (if available < elementCount then available else elementCount);
          index = rb_writeIndex rbuf AND rb_smallMask rbuf
      in (elementCount, regions_at rbuf index elementCount))"

definition PaUtil_AdvanceRingBufferWriteIndex :: "PaUtilRingBuffer \<Rightarrow> int \<Rightarrow> int \<times> PaUtilRingBuffer" where
  "PaUtil_AdvanceRingBufferWriteIndex rbuf elementCount =
     (let w = (rb_writeIndex rbuf + elementCount) AND rb_bigMask rbuf in (w, rbuf\<lparr>rb_writeIndex := w\<rparr>))"

definition PaUtil_GetRingBufferReadRegions :: "PaUtilRingBuffer \<Rightarrow> int \<Rightarrow> int \<times> rb_regions" where
  "PaUtil_GetRingBufferReadRegions rbuf elementCount =
     (let available = PaUtil_GetRingBufferReadAvailable rbuf;
          elementCount = (if available < elementCount then available else elementCount);
          index = rb_readIndex rbuf AND rb_smallMask rbuf
      in (elementCount, regions_at rbuf index elementCount))"

definition PaUtil_AdvanceRingBufferReadIndex :: "PaUtilRingBuffer \<Rightarrow> int \<Rightarrow> int \<times> PaUtilRingBuffer" where
  "PaUtil_AdvanceRingBufferReadIndex rbuf elementCount =
     (let r = (rb_readIndex rbuf + elementCount) AND rb_bigMask rbuf in (r, rbuf\<lparr>rb_readIndex := r\<rparr>))"

text \<open>memcpy into and out of the buffer; the sizes are bytes, None an access outside an object (a
  negative size is a huge size\_t).\<close>

definition copy_in :: "PaUtilRingBuffer \<Rightarrow> int \<Rightarrow> byte list \<Rightarrow> int \<Rightarrow> int \<Rightarrow> PaUtilRingBuffer option" where
  "copy_in rbuf dst data src n =
     (if n < 0 \<or> dst < 0 then None
      else do {
        bs \<leftarrow> rd_blk data (nat src) (nat n);
        b \<leftarrow> wr_blk (rb_buffer rbuf) (nat dst) bs;
        Some (rbuf\<lparr>rb_buffer := b\<rparr>)})"

definition copy_out :: "PaUtilRingBuffer \<Rightarrow> int \<Rightarrow> int \<Rightarrow> byte list option" where
  "copy_out rbuf src n = (if n < 0 \<or> src < 0 then None else rd_blk (rb_buffer rbuf) (nat src) (nat n))"

definition PaUtil_WriteRingBuffer :: "PaUtilRingBuffer \<Rightarrow> byte list \<Rightarrow> int \<Rightarrow> (int \<times> PaUtilRingBuffer) option" where
  "PaUtil_WriteRingBuffer rbuf data elementCount =
     (let (numWritten, g) = PaUtil_GetRingBufferWriteRegions rbuf elementCount;
          es = rb_elementSizeBytes rbuf
      in do {
        rbuf \<leftarrow> (if 0 < size2 g then do {
                    rbuf \<leftarrow> copy_in rbuf (data1 g) data 0 (size1 g * es);
                    d2 \<leftarrow> data2 g;
                    copy_in rbuf d2 data (size1 g * es) (size2 g * es)}
                  else copy_in rbuf (data1 g) data 0 (size1 g * es));
        Some (numWritten, snd (PaUtil_AdvanceRingBufferWriteIndex rbuf numWritten))})"

text \<open>The bytes stored through data are returned.\<close>

definition PaUtil_ReadRingBuffer :: "PaUtilRingBuffer \<Rightarrow> int \<Rightarrow> (int \<times> byte list \<times> PaUtilRingBuffer) option" where
  "PaUtil_ReadRingBuffer rbuf elementCount =
     (let (numRead, g) = PaUtil_GetRingBufferReadRegions rbuf elementCount;
          es = rb_elementSizeBytes rbuf
      in do {
        data \<leftarrow> (if 0 < size2 g then do {
                    a \<leftarrow> copy_out rbuf (data1 g) (size1 g * es);
                    d2 \<leftarrow> data2 g;
                    b \<leftarrow> copy_out rbuf d2 (size2 g * es);
                    Some (a @ b)}
                  else copy_out rbuf (data1 g) (size1 g * es));
        Some (numRead, data, snd (PaUtil_AdvanceRingBufferReadIndex rbuf numRead))})"

section \<open>Two threads\<close>

text \<open>
  One producer runs PaUtil\_WriteRingBuffer and one consumer PaUtil\_ReadRingBuffer, each in the
  steps between which the other may run: fix the regions (the only read of the other side's
  index), each memcpy, and the store of the index.  sent and received are the histories.
\<close>

datatype producer = PIdle | PFirst "byte list" int rb_regions | PSecond "byte list" int rb_regions | PCommit "byte list" int

datatype consumer = CIdle | CFirst int rb_regions | CSecond int rb_regions "byte list" | CCommit int "byte list"

record spsc =
  sp_rb :: PaUtilRingBuffer
  sp_prod :: producer
  sp_cons :: consumer
  sp_sent :: "byte list"
  sp_received :: "byte list"

text \<open>The next step of a thread that is in the middle of a call; None is an access outside the buffer.\<close>

definition producer_next :: "spsc \<Rightarrow> spsc option" where
  "producer_next s =
     (let es = rb_elementSizeBytes (sp_rb s) in
      case sp_prod s of
        PIdle \<Rightarrow> Some s
      | PFirst data m g \<Rightarrow> do {
          rb \<leftarrow> copy_in (sp_rb s) (data1 g) data 0 (size1 g * es);
          Some (s\<lparr>sp_rb := rb, sp_prod := (if 0 < size2 g then PSecond data m g else PCommit data m)\<rparr>)}
      | PSecond data m g \<Rightarrow> do {
          d2 \<leftarrow> data2 g;
          rb \<leftarrow> copy_in (sp_rb s) d2 data (size1 g * es) (size2 g * es);
          Some (s\<lparr>sp_rb := rb, sp_prod := PCommit data m\<rparr>)}
      | PCommit data m \<Rightarrow>
          Some (s\<lparr>sp_rb := snd (PaUtil_AdvanceRingBufferWriteIndex (sp_rb s) m), sp_prod := PIdle,
            sp_sent := sp_sent s @ take (nat (m * es)) data\<rparr>))"

definition consumer_next :: "spsc \<Rightarrow> spsc option" where
  "consumer_next s =
     (let es = rb_elementSizeBytes (sp_rb s) in
      case sp_cons s of
        CIdle \<Rightarrow> Some s
      | CFirst m g \<Rightarrow> do {
          a \<leftarrow> copy_out (sp_rb s) (data1 g) (size1 g * es);
          Some (s\<lparr>sp_cons := (if 0 < size2 g then CSecond m g a else CCommit m a)\<rparr>)}
      | CSecond m g a \<Rightarrow> do {
          d2 \<leftarrow> data2 g;
          b \<leftarrow> copy_out (sp_rb s) d2 (size2 g * es);
          Some (s\<lparr>sp_cons := CCommit m (a @ b)\<rparr>)}
      | CCommit m a \<Rightarrow>
          Some (s\<lparr>sp_rb := snd (PaUtil_AdvanceRingBufferReadIndex (sp_rb s) m), sp_cons := CIdle,
            sp_received := sp_received s @ a\<rparr>))"

definition producer_begin :: "byte list \<Rightarrow> nat \<Rightarrow> spsc \<Rightarrow> spsc" where
  "producer_begin data c s =
     (let (m, g) = PaUtil_GetRingBufferWriteRegions (sp_rb s) (int c) in s\<lparr>sp_prod := PFirst data m g\<rparr>)"

definition consumer_begin :: "nat \<Rightarrow> spsc \<Rightarrow> spsc" where
  "consumer_begin c s =
     (let (m, g) = PaUtil_GetRingBufferReadRegions (sp_rb s) (int c) in s\<lparr>sp_cons := CFirst m g\<rparr>)"

inductive spsc_step :: "nat \<Rightarrow> spsc \<Rightarrow> spsc \<Rightarrow> bool" for es where
  write_call: "sp_prod s = PIdle \<Longrightarrow> c * es \<le> length data \<Longrightarrow> spsc_step es s (producer_begin data c s)"
| write_step: "sp_prod s \<noteq> PIdle \<Longrightarrow> producer_next s = Some s' \<Longrightarrow> spsc_step es s s'"
| read_call: "sp_cons s = CIdle \<Longrightarrow> spsc_step es s (consumer_begin c s)"
| read_step: "sp_cons s \<noteq> CIdle \<Longrightarrow> consumer_next s = Some s' \<Longrightarrow> spsc_step es s s'"

definition spsc_start :: "PaUtilRingBuffer \<Rightarrow> spsc" where
  "spsc_start rb = \<lparr>sp_rb = rb, sp_prod = PIdle, sp_cons = CIdle, sp_sent = [], sp_received = []\<rparr>"

end
