(* ===== verification/RingProps.thy ===== *)
theory RingProps
  imports RingBuffer
begin

text \<open>
  Correctness of the ring buffer: circular reads and writes, the invariant of the indices, the
  bounded queue that the sequential operations implement, and safety and progress of one producer
  and one consumer running concurrently.
\<close>

unbundle bit_operations_syntax

section \<open>Circular reads and writes\<close>

definition ring :: "'a list \<Rightarrow> nat \<Rightarrow> nat \<Rightarrow> 'a list" where
  "ring buf p m = map (\<lambda>i. buf ! ((p + i) mod length buf)) [0..<m]"

lemma length_ring [simp]: "length (ring buf p m) = m"
  by (simp add: ring_def)

lemma ring_0 [simp]: "ring buf p 0 = []"
  by (simp add: ring_def)

lemma ring_mod: "ring buf (p mod length buf) m = ring buf p m"
  by (simp add: ring_def mod_add_left_eq)

lemma ring_add: "ring buf p (m + k) = ring buf p m @ ring buf (p + m) k"
  by (rule nth_equalityI) (auto simp: ring_def nth_append add.assoc)

lemma ring_contig: "p + m \<le> length buf \<Longrightarrow> take m (drop p buf) = ring buf p m"
  by (rule nth_equalityI) (auto simp: ring_def)

lemma ring_take: "m \<le> k \<Longrightarrow> take m (ring buf p k) = ring buf p m"
  by (simp add: ring_def take_map)

lemma ring_drop: "m \<le> k \<Longrightarrow> drop m (ring buf p k) = ring buf (p + m) (k - m)"
  using ring_add [of buf p m "k - m"] by simp

text \<open>A write at distance a behind p keeps the first a elements from p on.\<close>

lemma wr_ring:
  assumes "wr_blk buf off d = Some buf'" "off = (p + a) mod length buf" "a + length d \<le> length buf" "0 < length buf"
  shows "length buf' = length buf" "ring buf' p (a + length d) = ring buf p a @ d"
proof -
  let ?N = "length buf"
  have o: "off + length d \<le> ?N" and b: "buf' = take off buf @ d @ drop (off + length d) buf"
    using assms(1) by (auto simp: mem_simps)
  show l: "length buf' = ?N" using length_wr_blk [OF assms(1)] .
  have nth: "buf' ! j = (if off \<le> j \<and> j < off + length d then d ! (j - off) else buf ! j)" if "j < ?N" for j
    using that o by (auto simp: b nth_append)
  show "ring buf' p (a + length d) = ring buf p a @ d"
  proof (rule nth_equalityI)
    fix i assume "i < length (ring buf' p (a + length d))"
    then have i: "i < a + length d" by simp
    have j: "(p + i) mod ?N < ?N" using assms(4) by simp
    show "ring buf' p (a + length d) ! i = (ring buf p a @ d) ! i"
    proof (cases "i < a")
      case False
      then obtain t where t: "i = a + t" by (metis le_add_diff_inverse not_le)
      have "(p + i) mod ?N = (off + t) mod ?N" unfolding t assms(2) by (simp add: mod_add_left_eq add.assoc)
      also have "\<dots> = off + t" using i t o by simp
      finally have e: "(p + i) mod ?N = off + t" .
      have "buf' ! (off + t) = d ! t" using nth [of "off + t"] i t o by simp
      then show ?thesis using i t by (simp add: ring_def l nth_append e [unfolded t])
    next
      case True
      have "\<not> (off \<le> (p + i) mod ?N \<and> (p + i) mod ?N < off + length d)"
      proof
        assume *: "off \<le> (p + i) mod ?N \<and> (p + i) mod ?N < off + length d"
        define t where "t = (p + i) mod ?N - off"
        have t: "(p + i) mod ?N = off + t" "t < length d" using * by (auto simp: t_def)
        have "(p + i) mod ?N = (p + a + t) mod ?N" using t assms(2) o by (metis j mod_add_left_eq mod_less)
        then have "?N dvd (p + a + t) - (p + i)" using True by (intro mod_eq_dvd_iff_nat [THEN iffD1]) auto
        moreover have "0 < (p + a + t) - (p + i)" "(p + a + t) - (p + i) < ?N" using True t assms(3) by auto
        ultimately show False by (simp add: nat_dvd_not_less)
      qed
      then have "buf' ! ((p + i) mod ?N) = buf ! ((p + i) mod ?N)" using nth [OF j] by (simp only: if_False)
      then show ?thesis using i True by (simp add: ring_def l nth_append)
    qed
  qed simp
qed

section \<open>The invariant\<close>

definition rb_ok :: "nat \<Rightarrow> nat \<Rightarrow> PaUtilRingBuffer \<Rightarrow> bool" where
  "rb_ok n es rb \<longleftrightarrow> (\<exists>k. n = 2 ^ k) \<and> 0 < es \<and> rb_bufferSize rb = int n \<and> rb_bigMask rb = int (2 * n) - 1 \<and>
     rb_smallMask rb = int n - 1 \<and> rb_elementSizeBytes rb = int es \<and> length (rb_buffer rb) = n * es \<and>
     0 \<le> rb_writeIndex rb \<and> rb_writeIndex rb < int (2 * n) \<and> 0 \<le> rb_readIndex rb \<and> rb_readIndex rb < int (2 * n) \<and>
     (rb_writeIndex rb - rb_readIndex rb) mod int (2 * n) \<le> int n"

text \<open>The number of stored elements, the slots of the two indices, and the stored bytes.\<close>

definition fill :: "nat \<Rightarrow> PaUtilRingBuffer \<Rightarrow> nat" where
  "fill n rb = nat ((rb_writeIndex rb - rb_readIndex rb) mod int (2 * n))"

definition rslot :: "nat \<Rightarrow> PaUtilRingBuffer \<Rightarrow> nat" where
  "rslot n rb = nat (rb_readIndex rb mod int n)"

definition wslot :: "nat \<Rightarrow> PaUtilRingBuffer \<Rightarrow> nat" where
  "wslot n rb = nat (rb_writeIndex rb mod int n)"

definition stored :: "nat \<Rightarrow> nat \<Rightarrow> PaUtilRingBuffer \<Rightarrow> byte list" where
  "stored n es rb = ring (rb_buffer rb) (rslot n rb * es) (fill n rb * es)"

lemma and_mask_mod: "n = 2 ^ k \<Longrightarrow> (x :: int) AND (int n - 1) = x mod int n"
  by (simp add: take_bit_eq_mod [symmetric] take_bit_eq_mask mask_eq_exp_minus_1)

lemma and_big: "n = 2 ^ k \<Longrightarrow> (x :: int) AND (int (2 * n) - 1) = x mod int (2 * n)"
  using and_mask_mod [of "2 * n" "Suc k" x] by simp

lemma rb_ok_facts:
  assumes "rb_ok n es rb"
  shows "0 < n" "fill n rb \<le> n" "rslot n rb < n" "wslot n rb < n"
    "PaUtil_GetRingBufferReadAvailable rb = int (fill n rb)" "PaUtil_GetRingBufferWriteAvailable rb = int (n - fill n rb)"
    "rb_readIndex rb AND rb_smallMask rb = int (rslot n rb)" "rb_writeIndex rb AND rb_smallMask rb = int (wslot n rb)"
proof -
  obtain k where n: "n = 2 ^ k" using assms by (auto simp: rb_ok_def)
  show n0: "0 < n" by (simp add: n)
  show f: "fill n rb \<le> n" using assms unfolding fill_def rb_ok_def by (metis nat_le_iff)
  show "rslot n rb < n" "wslot n rb < n" using n0 by (simp_all add: rslot_def wslot_def nat_less_iff)
  show a: "PaUtil_GetRingBufferReadAvailable rb = int (fill n rb)"
    unfolding PaUtil_GetRingBufferReadAvailable_def fill_def
    using assms and_big [OF n] n0 by (simp add: rb_ok_def)
  show "PaUtil_GetRingBufferWriteAvailable rb = int (n - fill n rb)"
    unfolding PaUtil_GetRingBufferWriteAvailable_def a using assms f by (simp add: rb_ok_def of_nat_diff)
  show "rb_readIndex rb AND rb_smallMask rb = int (rslot n rb)" "rb_writeIndex rb AND rb_smallMask rb = int (wslot n rb)"
    using assms and_mask_mod [OF n] n0 by (simp_all add: rb_ok_def rslot_def wslot_def)
qed

lemma wslot_eq:
  assumes "rb_ok n es rb"
  shows "wslot n rb = (rslot n rb + fill n rb) mod n" "wslot n rb * es = (rslot n rb * es + fill n rb * es) mod (n * es)"
proof -
  note f = rb_ok_facts [OF assms]
  define r where "r = rb_readIndex rb"
  define w where "w = rb_writeIndex rb"
  have n: "0 < int n" using f(1) by simp
  have m: "(x mod (2 * int n)) mod int n = x mod int n" for x
    by (rule mod_mod_cancel) simp
  have "int (rslot n rb) = r mod int n" "int (fill n rb) = (w - r) mod (2 * int n)"
    using n by (simp_all add: rslot_def fill_def r_def w_def)
  then have "int ((rslot n rb + fill n rb) mod n) = (r mod int n + (w - r) mod (2 * int n)) mod int n"
    by (simp only: zmod_int of_nat_add)
  also have "\<dots> = (r mod int n + (w - r) mod int n) mod int n" by (metis m mod_add_right_eq)
  also have "\<dots> = (r + (w - r)) mod int n" by (rule mod_add_eq)
  also have "\<dots> = int (wslot n rb)" using n by (simp add: wslot_def w_def)
  finally show s: "wslot n rb = (rslot n rb + fill n rb) mod n" by linarith
  show "wslot n rb * es = (rslot n rb * es + fill n rb * es) mod (n * es)"
    unfolding s by (simp add: add_mult_distrib [symmetric] mod_mult_mult2)
qed

lemma mod_shift: "((w + c) mod M - r) mod M = ((w - r) mod M + c) mod (M :: int)"
proof -
  have "((w + c) mod M - r) mod M = ((w - r) + c) mod M" unfolding mod_diff_left_eq by (simp add: algebra_simps)
  then show ?thesis by (simp add: mod_add_left_eq)
qed

lemma mod_shift_right: "(w - (r + c) mod M) mod M = ((w - r) mod M - c) mod (M :: int)"
proof -
  have "(w - (r + c) mod M) mod M = ((w - r) - c) mod M" unfolding mod_diff_right_eq by (simp add: algebra_simps)
  then show ?thesis by (simp add: mod_diff_left_eq)
qed

section \<open>Advancing the indices\<close>

lemma advance_write:
  assumes ok: "rb_ok n es rb" and c: "c \<le> n - fill n rb"
    and rb': "rb' = snd (PaUtil_AdvanceRingBufferWriteIndex rb (int c))"
  shows "rb_ok n es rb'" "fill n rb' = fill n rb + c" "rslot n rb' = rslot n rb" "rb_buffer rb' = rb_buffer rb"
proof -
  note f = rb_ok_facts [OF ok]
  obtain k where n: "n = 2 ^ k" using ok by (auto simp: rb_ok_def)
  define w where "w = rb_writeIndex rb"
  define r where "r = rb_readIndex rb"
  have e: "rb' = rb\<lparr>rb_writeIndex := (w + int c) mod int (2 * n)\<rparr>"
    using ok and_big [OF n] by (simp add: rb' PaUtil_AdvanceRingBufferWriteIndex_def Let_def rb_ok_def w_def)
  have fl: "int (fill n rb) = (w - r) mod int (2 * n)" using f(1) by (simp add: fill_def w_def r_def)
  have "((w + int c) mod int (2 * n) - r) mod int (2 * n) = ((w - r) mod int (2 * n) + int c) mod int (2 * n)"
    by (rule mod_shift)
  also have "\<dots> = int (fill n rb + c)" using c f(1,2) unfolding fl [symmetric] by simp
  finally have d: "((w + int c) mod int (2 * n) - r) mod int (2 * n) = int (fill n rb + c)" .
  have "fill n rb' = nat (((w + int c) mod int (2 * n) - r) mod int (2 * n))" by (simp add: fill_def e r_def)
  then show "fill n rb' = fill n rb + c" unfolding d by (simp only: nat_int)
  have "0 \<le> (w + int c) mod int (2 * n)" "(w + int c) mod int (2 * n) < int (2 * n)" using f(1) by simp_all
  then show "rb_ok n es rb'" using ok d c f(2) unfolding rb_ok_def by (simp add: e r_def)
  show "rslot n rb' = rslot n rb" "rb_buffer rb' = rb_buffer rb" by (simp_all add: e rslot_def)
qed

lemma advance_read:
  assumes ok: "rb_ok n es rb" and c: "c \<le> fill n rb"
    and rb': "rb' = snd (PaUtil_AdvanceRingBufferReadIndex rb (int c))"
  shows "rb_ok n es rb'" "fill n rb' = fill n rb - c" "rslot n rb' = (rslot n rb + c) mod n"
    "rb_buffer rb' = rb_buffer rb" "wslot n rb' = wslot n rb"
proof -
  note f = rb_ok_facts [OF ok]
  obtain k where n: "n = 2 ^ k" using ok by (auto simp: rb_ok_def)
  define w where "w = rb_writeIndex rb"
  define r where "r = rb_readIndex rb"
  have e: "rb' = rb\<lparr>rb_readIndex := (r + int c) mod int (2 * n)\<rparr>"
    using ok and_big [OF n] by (simp add: rb' PaUtil_AdvanceRingBufferReadIndex_def Let_def rb_ok_def r_def)
  have fl: "int (fill n rb) = (w - r) mod int (2 * n)" using f(1) by (simp add: fill_def w_def r_def)
  have "(w - (r + int c) mod int (2 * n)) mod int (2 * n) = ((w - r) mod int (2 * n) - int c) mod int (2 * n)"
    by (rule mod_shift_right)
  also have "\<dots> = int (fill n rb - c)" using c f(1,2) unfolding fl [symmetric] by (simp add: of_nat_diff)
  finally have d: "(w - (r + int c) mod int (2 * n)) mod int (2 * n) = int (fill n rb - c)" .
  have "fill n rb' = nat ((w - (r + int c) mod int (2 * n)) mod int (2 * n))" by (simp add: fill_def e w_def)
  then show "fill n rb' = fill n rb - c" unfolding d by (simp only: nat_int)
  have "0 \<le> (r + int c) mod int (2 * n)" "(r + int c) mod int (2 * n) < int (2 * n)" using f(1) by simp_all
  then show "rb_ok n es rb'" using ok d c f(2) unfolding rb_ok_def by (simp add: e w_def)
  have m: "(x mod int (2 * n)) mod int n = x mod int n" for x
    by (rule mod_mod_cancel) simp
  have "int (rslot n rb') = (r mod int n + int c) mod int n" using f(1) m by (simp add: rslot_def e mod_add_left_eq)
  also have "\<dots> = int ((rslot n rb + c) mod n)" using f(1) by (simp add: rslot_def r_def zmod_int)
  finally show "rslot n rb' = (rslot n rb + c) mod n" by linarith
  show "rb_buffer rb' = rb_buffer rb" "wslot n rb' = wslot n rb" by (simp_all add: e wslot_def)
qed

lemma stored_advance_read:
  assumes ok: "rb_ok n es rb" and c: "c \<le> fill n rb"
    and rb': "rb' = snd (PaUtil_AdvanceRingBufferReadIndex rb (int c))"
  shows "stored n es rb' = drop (c * es) (stored n es rb)"
proof -
  note a = advance_read [OF assms]
  have "ring (rb_buffer rb) ((rslot n rb + c) mod n * es) m = ring (rb_buffer rb) (rslot n rb * es + c * es) m" for m
  proof -
    have "(rslot n rb + c) mod n * es = (rslot n rb * es + c * es) mod (n * es)"
      by (simp add: add_mult_distrib [symmetric] mod_mult_mult2)
    moreover have "length (rb_buffer rb) = n * es" using ok by (simp add: rb_ok_def)
    ultimately show ?thesis by (metis ring_mod)
  qed
  moreover have "c * es \<le> fill n rb * es" using c by simp
  ultimately show ?thesis unfolding stored_def a(2-4) by (simp add: ring_drop diff_mult_distrib)
qed

section \<open>The two regions\<close>

lemma regions_split:
  assumes "rb_ok n es rb" "idx < n" "c \<le> n" "s = min c (n - idx)"
  shows "data1 (regions_at rb (int idx) (int c)) = int (idx * es)" "size1 (regions_at rb (int idx) (int c)) = int s"
    "size2 (regions_at rb (int idx) (int c)) = int (c - s)" "0 < c - s \<Longrightarrow> data2 (regions_at rb (int idx) (int c)) = Some 0"
    "0 < c - s \<Longrightarrow> idx + s = n" "idx + s \<le> n" "s \<le> c"
proof -
  have b: "rb_bufferSize rb = int n" "rb_elementSizeBytes rb = int es" using assms(1) by (simp_all add: rb_ok_def)
  have "int n < int idx + int c \<longleftrightarrow> n - idx < c" using assms(2) by linarith
  then show "data1 (regions_at rb (int idx) (int c)) = int (idx * es)" "size1 (regions_at rb (int idx) (int c)) = int s"
    "size2 (regions_at rb (int idx) (int c)) = int (c - s)" "0 < c - s \<Longrightarrow> data2 (regions_at rb (int idx) (int c)) = Some 0"
    using assms(2-) by (auto simp: regions_at_def b Let_def min_def)
  show "0 < c - s \<Longrightarrow> idx + s = n" "idx + s \<le> n" "s \<le> c" using assms(2-) by auto
qed

lemma write_regions:
  assumes "rb_ok n es rb"
  shows "PaUtil_GetRingBufferWriteRegions rb (int c) =
    (int (min c (n - fill n rb)), regions_at rb (int (wslot n rb)) (int (min c (n - fill n rb))))"
  using rb_ok_facts [OF assms] unfolding PaUtil_GetRingBufferWriteRegions_def Let_def by (simp only: of_nat_less_iff min_def not_le split: if_splits, auto)

lemma read_regions:
  assumes "rb_ok n es rb"
  shows "PaUtil_GetRingBufferReadRegions rb (int c) =
    (int (min c (fill n rb)), regions_at rb (int (rslot n rb)) (int (min c (fill n rb))))"
  using rb_ok_facts [OF assms] unfolding PaUtil_GetRingBufferReadRegions_def Let_def by (simp only: of_nat_less_iff min_def not_le split: if_splits, auto)

text \<open>One memcpy into the free part: a elements behind the read slot, m elements of data from j on.\<close>

lemma copy_in_ok:
  assumes ok: "rb_ok n es rb" and off: "off = (rslot n rb + a) mod n" and m: "off + m \<le> n" "a + m \<le> n"
    and d: "(j + m) * es \<le> length data"
  shows "\<exists>rb'. copy_in rb (int (off * es)) data (int (j * es)) (int (m * es)) = Some rb' \<and> rb_ok n es rb' \<and>
     fill n rb' = fill n rb \<and> rslot n rb' = rslot n rb \<and> wslot n rb' = wslot n rb \<and>
     ring (rb_buffer rb') (rslot n rb * es) ((a + m) * es) =
       ring (rb_buffer rb) (rslot n rb * es) (a * es) @ take (m * es) (drop (j * es) data)"
proof -
  let ?d = "take (m * es) (drop (j * es) data)"
  have es: "0 < es" "0 < n" "length (rb_buffer rb) = n * es" using ok rb_ok_facts(1) [OF ok] by (simp_all add: rb_ok_def)
  have ld: "length ?d = m * es" using d by (simp add: add_mult_distrib)
  have "(off + m) * es \<le> n * es" "(a + m) * es \<le> n * es" using m by simp_all
  then have le: "off * es + length ?d \<le> n * es" "a * es + length ?d \<le> n * es" unfolding ld by (simp_all add: add_mult_distrib)
  obtain b where b: "wr_blk (rb_buffer rb) (off * es) ?d = Some b"
    using le(1) es by (simp add: wr_blk_def)
  have o: "off * es = (rslot n rb * es + a * es) mod length (rb_buffer rb)"
    unfolding off es by (simp add: add_mult_distrib [symmetric] mod_mult_mult2)
  have w: "length b = length (rb_buffer rb)"
    "ring b (rslot n rb * es) (a * es + length ?d) = ring (rb_buffer rb) (rslot n rb * es) (a * es) @ ?d"
    using wr_ring [OF b o] le es by simp_all
  have "copy_in rb (int (off * es)) data (int (j * es)) (int (m * es)) = Some (rb\<lparr>rb_buffer := b\<rparr>)"
    using d b by (simp add: copy_in_def rd_blk_def add_mult_distrib del: of_nat_mult)
  moreover have "rb_ok n es (rb\<lparr>rb_buffer := b\<rparr>)" using ok w by (simp add: rb_ok_def)
  ultimately show ?thesis using w(2) unfolding ld by (simp add: fill_def rslot_def wslot_def add_mult_distrib)
qed

lemma copy_out_ok:
  assumes ok: "rb_ok n es rb" and m: "off + m \<le> n"
  shows "copy_out rb (int (off * es)) (int (m * es)) = Some (ring (rb_buffer rb) (off * es) (m * es))"
proof -
  have "(off + m) * es \<le> n * es" using m by simp
  then have "off * es + m * es \<le> length (rb_buffer rb)" using ok by (simp add: rb_ok_def add_mult_distrib)
  then show ?thesis by (simp add: copy_out_def rd_blk_def ring_contig del: of_nat_mult)
qed

lemma ring_from_wslot:
  assumes "rb_ok n es rb"
  shows "ring (rb_buffer rb) (rslot n rb * es) ((fill n rb + s) * es) = stored n es rb @ ring (rb_buffer rb) (wslot n rb * es) (s * es)"
proof -
  have l: "length (rb_buffer rb) = n * es" using assms by (simp add: rb_ok_def)
  have "ring (rb_buffer rb) (rslot n rb * es + fill n rb * es) (s * es) = ring (rb_buffer rb) (wslot n rb * es) (s * es)"
    unfolding wslot_eq(2) [OF assms] l [symmetric] by (rule ring_mod [symmetric])
  then show ?thesis by (simp add: add_mult_distrib ring_add stored_def)
qed

lemma length_stored: "length (stored n es rb) = fill n rb * es"
  by (simp add: stored_def)

text \<open>One memcpy of a write: the stored bytes stay, the written part of the free slots grows.\<close>

lemma copy_free:
  assumes ok: "rb_ok n es rb" and off: "off = (wslot n rb + s) mod n" "off + m \<le> n" "fill n rb + s + m \<le> n"
    and d: "(s + m) * es \<le> length data" "ring (rb_buffer rb) (wslot n rb * es) (s * es) = take (s * es) data"
  shows "\<exists>rb'. copy_in rb (int (off * es)) data (int (s * es)) (int (m * es)) = Some rb' \<and> rb_ok n es rb' \<and>
    fill n rb' = fill n rb \<and> rslot n rb' = rslot n rb \<and> wslot n rb' = wslot n rb \<and> stored n es rb' = stored n es rb \<and>
    ring (rb_buffer rb') (wslot n rb * es) ((s + m) * es) = take ((s + m) * es) data"
proof -
  have o: "off = (rslot n rb + (fill n rb + s)) mod n"
    unfolding off(1) wslot_eq(1) [OF ok] by (simp add: mod_add_left_eq add.assoc)
  obtain rb' where r: "copy_in rb (int (off * es)) data (int (s * es)) (int (m * es)) = Some rb'" "rb_ok n es rb'"
    "fill n rb' = fill n rb" "rslot n rb' = rslot n rb" "wslot n rb' = wslot n rb"
    "ring (rb_buffer rb') (rslot n rb * es) ((fill n rb + s + m) * es) =
       ring (rb_buffer rb) (rslot n rb * es) ((fill n rb + s) * es) @ take (m * es) (drop (s * es) data)"
    using copy_in_ok [OF ok o off(2) off(3) d(1)] by blast
  have "stored n es rb' @ ring (rb_buffer rb') (wslot n rb * es) ((s + m) * es) =
      stored n es rb @ take (s * es) data @ take (m * es) (drop (s * es) data)"
    using r(6) ring_from_wslot [OF r(2), of "s + m"] ring_from_wslot [OF ok, of s] r(3-5) d(2) by (simp add: add.assoc)
  then have "stored n es rb' = stored n es rb \<and>
      ring (rb_buffer rb') (wslot n rb * es) ((s + m) * es) = take (s * es) data @ take (m * es) (drop (s * es) data)"
    by (subst (asm) append_eq_append_conv) (auto simp: length_stored r(3))
  then show ?thesis using r(1-5) by (simp add: take_add add_mult_distrib)
qed

lemma write_ok:
  assumes ok: "rb_ok n es rb" and d: "c * es \<le> length data"
  shows "\<exists>rb'. PaUtil_WriteRingBuffer rb data (int c) = Some (int (min c (n - fill n rb)), rb') \<and> rb_ok n es rb' \<and>
    fill n rb' = fill n rb + min c (n - fill n rb) \<and> stored n es rb' = stored n es rb @ take (min c (n - fill n rb) * es) data"
proof -
  note f = rb_ok_facts [OF ok]
  define m where "m = min c (n - fill n rb)"
  define s where "s = min m (n - wslot n rb)"
  define g where "g = regions_at rb (int (wslot n rb)) (int m)"
  have es: "rb_elementSizeBytes rb = int es" using ok by (simp add: rb_ok_def)
  have mn: "m \<le> n" "m \<le> c" "fill n rb + m \<le> n" using f by (auto simp: m_def)
  have "m * es \<le> c * es" using mn by simp
  then have md: "m * es \<le> length data" using d by linarith
  note g = regions_split [OF ok f(4) mn(1) s_def, folded g_def]
  have "s * es \<le> m * es" using g(7) by simp
  then have "s * es \<le> length data" using md by linarith
  then have "\<exists>rb1. copy_in rb (int (wslot n rb * es)) data (int (0 * es)) (int (s * es)) = Some rb1 \<and> rb_ok n es rb1 \<and>
      fill n rb1 = fill n rb \<and> rslot n rb1 = rslot n rb \<and> wslot n rb1 = wslot n rb \<and> stored n es rb1 = stored n es rb \<and>
      ring (rb_buffer rb1) (wslot n rb * es) ((0 + s) * es) = take ((0 + s) * es) data"
    using g(6,7) f(4) mn md by (intro copy_free ok) auto
  then obtain rb1 where c1: "copy_in rb (int (wslot n rb * es)) data 0 (int (s * es)) = Some rb1" "rb_ok n es rb1"
      "fill n rb1 = fill n rb" "wslot n rb1 = wslot n rb" "stored n es rb1 = stored n es rb"
      "ring (rb_buffer rb1) (wslot n rb * es) (s * es) = take (s * es) data" by auto
  have "\<exists>rb2. (if 0 < size2 g then do {
                    rbuf \<leftarrow> copy_in rb (data1 g) data 0 (size1 g * int es);
                    d2 \<leftarrow> data2 g;
                    copy_in rbuf d2 data (size1 g * int es) (size2 g * int es)}
                  else copy_in rb (data1 g) data 0 (size1 g * int es)) = Some rb2 \<and> rb_ok n es rb2 \<and>
      fill n rb2 = fill n rb \<and> wslot n rb2 = wslot n rb \<and> stored n es rb2 = stored n es rb \<and>
      ring (rb_buffer rb2) (wslot n rb * es) (m * es) = take (m * es) data"
  proof (cases "0 < m - s")
    case True
    have "\<exists>rb2. copy_in rb1 (int (0 * es)) data (int (s * es)) (int ((m - s) * es)) = Some rb2 \<and> rb_ok n es rb2 \<and>
      fill n rb2 = fill n rb1 \<and> rslot n rb2 = rslot n rb1 \<and> wslot n rb2 = wslot n rb1 \<and> stored n es rb2 = stored n es rb1 \<and>
      ring (rb_buffer rb2) (wslot n rb1 * es) ((s + (m - s)) * es) = take ((s + (m - s)) * es) data"
      using g(5) [OF True] g(7) c1 mn md by (intro copy_free) auto
    then show ?thesis using True g c1 by auto
  next
    case False
    then have "s = m" using g(7) by simp
    then show ?thesis using False g c1 by auto
  qed
  then obtain rb2 where c2: "(if 0 < size2 g then do {
                    rbuf \<leftarrow> copy_in rb (data1 g) data 0 (size1 g * int es);
                    d2 \<leftarrow> data2 g;
                    copy_in rbuf d2 data (size1 g * int es) (size2 g * int es)}
                  else copy_in rb (data1 g) data 0 (size1 g * int es)) = Some rb2" "rb_ok n es rb2"
      "fill n rb2 = fill n rb" "wslot n rb2 = wslot n rb" "stored n es rb2 = stored n es rb"
      "ring (rb_buffer rb2) (wslot n rb * es) (m * es) = take (m * es) data" by blast
  define rb3 where "rb3 = snd (PaUtil_AdvanceRingBufferWriteIndex rb2 (int m))"
  have "m \<le> n - fill n rb2" using c2 mn by simp
  note a = advance_write [OF c2(2) this rb3_def]
  have "PaUtil_WriteRingBuffer rb data (int c) = Some (int m, rb3)"
    unfolding PaUtil_WriteRingBuffer_def write_regions [OF ok] m_def [symmetric] g_def [symmetric] Let_def prod.case es c2(1)
    by (simp add: rb3_def)
  moreover have "stored n es rb3 = stored n es rb @ take (m * es) data"
    using ring_from_wslot [OF c2(2), of m] c2 a by (simp add: stored_def)
  ultimately show ?thesis using a c2(3) unfolding m_def [symmetric] by auto
qed

lemma read_ok:
  assumes ok: "rb_ok n es rb"
  shows "\<exists>rb'. PaUtil_ReadRingBuffer rb (int c) = Some (int (min c (fill n rb)), take (min c (fill n rb) * es) (stored n es rb), rb') \<and>
    rb_ok n es rb' \<and> fill n rb' = fill n rb - c \<and> stored n es rb' = drop (min c (fill n rb) * es) (stored n es rb)"
proof -
  note f = rb_ok_facts [OF ok]
  define m where "m = min c (fill n rb)"
  define s where "s = min m (n - rslot n rb)"
  define g where "g = regions_at rb (int (rslot n rb)) (int m)"
  have es: "rb_elementSizeBytes rb = int es" "length (rb_buffer rb) = n * es" using ok by (simp_all add: rb_ok_def)
  have mn: "m \<le> n" "m \<le> fill n rb" using f by (auto simp: m_def)
  note g = regions_split [OF ok f(3) mn(1) s_def, folded g_def]
  have "m * es \<le> fill n rb * es" using mn by simp
  then have t: "take (m * es) (stored n es rb) = ring (rb_buffer rb) (rslot n rb * es) (m * es)"
    by (simp add: stored_def ring_take)
  have c1: "copy_out rb (int (rslot n rb * es)) (int (s * es)) = Some (ring (rb_buffer rb) (rslot n rb * es) (s * es))"
    using copy_out_ok [OF ok g(6)] .
  have c: "(if 0 < size2 g then do {
                    a \<leftarrow> copy_out rb (data1 g) (size1 g * int es);
                    d2 \<leftarrow> data2 g;
                    b \<leftarrow> copy_out rb d2 (size2 g * int es);
                    Some (a @ b)}
                  else copy_out rb (data1 g) (size1 g * int es)) = Some (take (m * es) (stored n es rb))"
  proof (cases "0 < m - s")
    case True
    have "copy_out rb (int (0 * es)) (int ((m - s) * es)) = Some (ring (rb_buffer rb) (0 * es) ((m - s) * es))"
      by (rule copy_out_ok [OF ok]) (use mn in simp)
    moreover have "ring (rb_buffer rb) (0 * es) ((m - s) * es) = ring (rb_buffer rb) (rslot n rb * es + s * es) ((m - s) * es)"
      using ring_mod [of "rb_buffer rb" "rslot n rb * es + s * es"] g(5) [OF True] es(2) by (simp add: add_mult_distrib [symmetric])
    moreover have "m * es = s * es + (m - s) * es" using g(7) by (simp add: add_mult_distrib [symmetric])
    ultimately show ?thesis using True g c1 unfolding t by (auto simp: ring_add)
  next
    case False
    then have "s = m" using g(7) by simp
    then show ?thesis using False g c1 t by auto
  qed
  define rb3 where "rb3 = snd (PaUtil_AdvanceRingBufferReadIndex rb (int m))"
  note a = advance_read [OF ok mn(2) rb3_def] and st = stored_advance_read [OF ok mn(2) rb3_def]
  have "PaUtil_ReadRingBuffer rb (int c) = Some (int m, take (m * es) (stored n es rb), rb3)"
    unfolding PaUtil_ReadRingBuffer_def read_regions [OF ok] m_def [symmetric] g_def [symmetric] Let_def prod.case es c
    by (simp add: rb3_def)
  then show ?thesis using a st unfolding m_def by auto
qed

lemma pow2_and:
  assumes "0 < x" "(x - 1) AND x = (0 :: int)"
  shows "\<exists>k. x = 2 ^ k"
  using assms
proof (induction "nat x" arbitrary: x rule: less_induct)
  case less
  have r: "(x - 1) AND x = of_bool (odd (x - 1) \<and> odd x) + 2 * (((x - 1) div 2) AND (x div 2))"
    by (rule and_rec)
  show ?case
  proof (cases "even x")
    case True
    then obtain y where y: "x = 2 * y" by blast
    then have "0 < y" "nat y < nat x" "(x - 1) div 2 = y - 1" "x div 2 = y" using less.prems(1) by auto
    then have "(y - 1) AND y = 0" using r less.prems(2) True by simp
    then obtain k where "y = 2 ^ k" using less.hyps \<open>0 < y\<close> \<open>nat y < nat x\<close> by blast
    then show ?thesis using y by (intro exI [of _ "Suc k"]) simp
  next
    case False
    then obtain y where y: "x = 2 * y + 1" by (meson oddE)
    then have "y = 0" using r less.prems(2) False by simp
    then show ?thesis using y by (intro exI [of _ 0]) simp
  qed
qed

lemma rb_init_ok:
  assumes "PaUtil_InitializeRingBuffer rb0 (int es) n0 mem = Some (0, rb)" "0 < n0" "0 < es" "length mem = nat n0 * es"
  shows "rb_ok (nat n0) es rb" "fill (nat n0) rb = 0" "stored (nat n0) es rb = []"
proof -
  have a: "(n0 - 1) AND n0 = 0" using assms(1) by (auto simp: PaUtil_InitializeRingBuffer_def split: if_splits)
  then obtain k where k: "n0 = 2 ^ k" using pow2_and assms(2) by blast
  then have "nat n0 = 2 ^ k" by (simp add: nat_power_eq)
  then have "\<exists>k. nat n0 = 2 ^ k" ..
  moreover have "rb = rb0\<lparr>rb_bufferSize := n0, rb_writeIndex := 0, rb_readIndex := 0, rb_bigMask := n0 * 2 - 1, rb_smallMask := n0 - 1,
      rb_elementSizeBytes := int es, rb_buffer := mem\<rparr>"
    using assms(1) a by (auto simp: PaUtil_InitializeRingBuffer_def PaUtil_FlushRingBuffer_def Let_def split: if_splits)
  ultimately show "rb_ok (nat n0) es rb" "fill (nat n0) rb = 0" "stored (nat n0) es rb = []"
    using assms(2-) by (simp_all add: rb_ok_def fill_def stored_def)
qed

section \<open>The queue interface\<close>

text \<open>A bounded byte queue that takes and gives whole elements of u bytes.\<close>

locale fifo =
  fixes put :: "'s \<Rightarrow> 'b list \<Rightarrow> nat \<Rightarrow> (nat \<times> 's) option"
    and get :: "'s \<Rightarrow> nat \<Rightarrow> ('b list \<times> 's) option"
    and ok :: "'s \<Rightarrow> bool" and contents :: "'s \<Rightarrow> 'b list" and room :: "'s \<Rightarrow> nat"
    and u :: nat and cap :: nat
  assumes put: "ok s \<Longrightarrow> c * u \<le> length xs \<Longrightarrow> \<exists>s'. put s xs c = Some (min c (room s), s') \<and> ok s' \<and>
      contents s' = contents s @ take (min c (room s) * u) xs"
    and get: "ok s \<Longrightarrow> \<exists>s'. get s c = Some (take (c * u) (contents s), s') \<and> ok s' \<and> contents s' = drop (c * u) (contents s)"
    and room: "ok s \<Longrightarrow> length (contents s) + room s * u = cap * u"

datatype 'b fifo_op = Put "'b list" nat | Get nat

text \<open>A sequence of operations: the final state, the bytes delivered, and the bytes accepted.\<close>

primrec fifo_run :: "('s \<Rightarrow> 'b list \<Rightarrow> nat \<Rightarrow> (nat \<times> 's) option) \<Rightarrow> ('s \<Rightarrow> nat \<Rightarrow> ('b list \<times> 's) option) \<Rightarrow> nat \<Rightarrow>
    'b fifo_op list \<Rightarrow> 's \<Rightarrow> ('s \<times> 'b list \<times> 'b list) option" where
  "fifo_run put get u [] s = Some (s, [], [])"
| "fifo_run put get u (p # ps) s =
     (case p of
        Put xs c \<Rightarrow> do {
          (m, s1) \<leftarrow> put s xs c;
          (s2, d, a) \<leftarrow> fifo_run put get u ps s1;
          Some (s2, d, take (m * u) xs @ a)}
      | Get c \<Rightarrow> do {
          (ys, s1) \<leftarrow> get s c;
          (s2, d, a) \<leftarrow> fifo_run put get u ps s1;
          Some (s2, ys @ d, a)})"

fun op_ok :: "nat \<Rightarrow> 'b fifo_op \<Rightarrow> bool" where
  "op_ok u (Put xs c) \<longleftrightarrow> c * u \<le> length xs"
| "op_ok u (Get c) \<longleftrightarrow> True"

context fifo
begin

lemma run_ok:
  "ok s \<Longrightarrow> list_all (op_ok u) ps \<Longrightarrow>
   \<exists>s' d a. fifo_run put get u ps s = Some (s', d, a) \<and> ok s' \<and> d @ contents s' = contents s @ a"
proof (induction ps arbitrary: s)
  case (Cons p ps)
  show ?case
  proof (cases p)
    case (Put xs c)
    obtain s1 where 1: "put s xs c = Some (min c (room s), s1)" "ok s1" "contents s1 = contents s @ take (min c (room s) * u) xs"
      using put [OF Cons.prems(1), of c xs] Cons.prems(2) Put by auto
    obtain s2 d a where "fifo_run put get u ps s1 = Some (s2, d, a)" "ok s2" "d @ contents s2 = contents s1 @ a"
      using Cons.IH [OF 1(2)] Cons.prems(2) by auto
    then show ?thesis using 1 Put by auto
  next
    case (Get c)
    obtain s1 where 1: "get s c = Some (take (c * u) (contents s), s1)" "ok s1" "contents s1 = drop (c * u) (contents s)"
      using get [OF Cons.prems(1), of c] by auto
    obtain s2 d a where 2: "fifo_run put get u ps s1 = Some (s2, d, a)" "ok s2" "d @ contents s2 = contents s1 @ a"
      using Cons.IH [OF 1(2)] Cons.prems(2) by auto
    then have "take (c * u) (contents s) @ d @ contents s2 = contents s @ a" using 1(3) by simp
    then show ?thesis using 1 2 Get by auto
  qed
qed simp

text \<open>A get of everything empties the queue.\<close>

lemma drain:
  assumes "ok s"
  shows "\<exists>s'. get s cap = Some (contents s, s') \<and> ok s' \<and> contents s' = []"
proof -
  have "length (contents s) \<le> cap * u" using room [OF assms] by simp
  then show ?thesis using get [OF assms, of cap] by auto
qed

end

definition rb_put :: "PaUtilRingBuffer \<Rightarrow> byte list \<Rightarrow> nat \<Rightarrow> (nat \<times> PaUtilRingBuffer) option" where
  "rb_put rb xs c = do { (m, rb') \<leftarrow> PaUtil_WriteRingBuffer rb xs (int c); Some (nat m, rb') }"

definition rb_get :: "PaUtilRingBuffer \<Rightarrow> nat \<Rightarrow> (byte list \<times> PaUtilRingBuffer) option" where
  "rb_get rb c = do { (m, ys, rb') \<leftarrow> PaUtil_ReadRingBuffer rb (int c); Some (ys, rb') }"

interpretation rb_fifo: fifo rb_put rb_get "rb_ok n es" "stored n es" "\<lambda>rb. n - fill n rb" es n for n es
proof (unfold_locales, goal_cases)
  case (1 rb c xs)
  then show ?case using write_ok [OF 1] by (auto simp: rb_put_def)
next
  case (2 rb c)
  have t: "take (min c (fill n rb) * es) (stored n es rb) = take (c * es) (stored n es rb)"
    "drop (min c (fill n rb) * es) (stored n es rb) = drop (c * es) (stored n es rb)"
    by (auto simp: min_def length_stored)
  show ?case using read_ok [OF 2, of c] unfolding t by (auto simp: rb_get_def)
next
  case (3 rb)
  then show ?case using rb_ok_facts(2) [OF 3] by (simp add: length_stored add_mult_distrib [symmetric])
qed

section \<open>The concurrent invariant\<close>

definition prod_ok :: "nat \<Rightarrow> nat \<Rightarrow> PaUtilRingBuffer \<Rightarrow> producer \<Rightarrow> bool" where
  "prod_ok n es rb p \<longleftrightarrow>
     (case p of
        PIdle \<Rightarrow> True
      | PFirst d m g \<Rightarrow> \<exists>c. m = int c \<and> c \<le> n - fill n rb \<and> c * es \<le> length d \<and> g = regions_at rb (int (wslot n rb)) m
      | PSecond d m g \<Rightarrow> \<exists>c. m = int c \<and> c \<le> n - fill n rb \<and> c * es \<le> length d \<and> g = regions_at rb (int (wslot n rb)) m \<and>
          0 < size2 g \<and> ring (rb_buffer rb) (wslot n rb * es) (min c (n - wslot n rb) * es) = take (min c (n - wslot n rb) * es) d
      | PCommit d m \<Rightarrow> \<exists>c. m = int c \<and> c \<le> n - fill n rb \<and> c * es \<le> length d \<and>
          ring (rb_buffer rb) (wslot n rb * es) (c * es) = take (c * es) d)"

definition cons_ok :: "nat \<Rightarrow> nat \<Rightarrow> PaUtilRingBuffer \<Rightarrow> consumer \<Rightarrow> bool" where
  "cons_ok n es rb p \<longleftrightarrow>
     (case p of
        CIdle \<Rightarrow> True
      | CFirst m g \<Rightarrow> \<exists>c. m = int c \<and> c \<le> fill n rb \<and> g = regions_at rb (int (rslot n rb)) m
      | CSecond m g a \<Rightarrow> \<exists>c. m = int c \<and> c \<le> fill n rb \<and> g = regions_at rb (int (rslot n rb)) m \<and> 0 < size2 g \<and>
          a = take (min c (n - rslot n rb) * es) (stored n es rb)
      | CCommit m a \<Rightarrow> \<exists>c. m = int c \<and> c \<le> fill n rb \<and> a = take (c * es) (stored n es rb))"

definition spsc_inv :: "nat \<Rightarrow> nat \<Rightarrow> spsc \<Rightarrow> bool" where
  "spsc_inv n es s \<longleftrightarrow> rb_ok n es (sp_rb s) \<and> prod_ok n es (sp_rb s) (sp_prod s) \<and> cons_ok n es (sp_rb s) (sp_cons s) \<and>
     sp_sent s = sp_received s @ stored n es (sp_rb s)"

text \<open>What one side does leaves the condition of the other side alone.\<close>

lemma regions_at_cong:
  "rb_ok n es rb \<Longrightarrow> rb_ok n es rb' \<Longrightarrow> regions_at rb' i c = regions_at rb i c"
  by (simp add: regions_at_def rb_ok_def)

lemma cons_ok_mono:
  assumes "cons_ok n es rb p" "rb_ok n es rb" "rb_ok n es rb'" "fill n rb \<le> fill n rb'" "rslot n rb' = rslot n rb"
    and st: "stored n es rb' = stored n es rb @ xs"
  shows "cons_ok n es rb' p"
proof -
  have "take (k * es) (stored n es rb @ xs) = take (k * es) (stored n es rb)"
    "take (min k j * es) (stored n es rb @ xs) = take (min k j * es) (stored n es rb)" "k \<le> fill n rb'"
    if "k \<le> fill n rb" for k j
  proof -
    show "take (k * es) (stored n es rb @ xs) = take (k * es) (stored n es rb)" using that by (simp add: length_stored)
    have "min k j \<le> fill n rb" using that by simp
    then show "take (min k j * es) (stored n es rb @ xs) = take (min k j * es) (stored n es rb)" by (simp add: length_stored)
    show "k \<le> fill n rb'" using that assms(4) by simp
  qed
  then show ?thesis
    using assms(1,5) st regions_at_cong [OF assms(2,3)] by (cases p) (auto simp: cons_ok_def)
qed

lemma prod_ok_mono:
  assumes "prod_ok n es rb p" "rb_ok n es rb" "rb_ok n es rb'" "fill n rb' \<le> fill n rb" "wslot n rb' = wslot n rb"
    "rb_buffer rb' = rb_buffer rb"
  shows "prod_ok n es rb' p"
proof -
  have "c \<le> n - fill n rb'" if "c \<le> n - fill n rb" for c using that assms(4) by linarith
  then show ?thesis using assms regions_at_cong [OF assms(2,3)] by (cases p) (auto simp: prod_ok_def)
qed

lemma producer_begin_inv:
  assumes "spsc_inv n es s" "c * es \<le> length data"
  shows "spsc_inv n es (producer_begin data c s)"
proof -
  have ok: "rb_ok n es (sp_rb s)" using assms(1) by (simp add: spsc_inv_def)
  have "min c (n - fill n (sp_rb s)) * es \<le> c * es" by simp
  then have "min c (n - fill n (sp_rb s)) * es \<le> length data" using assms(2) by linarith
  then show ?thesis using assms(1)
    by (auto simp: producer_begin_def write_regions [OF ok] spsc_inv_def prod_ok_def)
qed

lemma consumer_begin_inv: "spsc_inv n es s \<Longrightarrow> spsc_inv n es (consumer_begin c s)"
  by (auto simp: consumer_begin_def read_regions spsc_inv_def cons_ok_def)


lemma producer_next_inv:
  assumes inv: "spsc_inv n es s" and busy: "sp_prod s \<noteq> PIdle"
  shows "\<exists>s'. producer_next s = Some s' \<and> spsc_inv n es s'"
proof -
  define rb where "rb = sp_rb s"
  have ok: "rb_ok n es rb" and p: "prod_ok n es rb (sp_prod s)" and c: "cons_ok n es rb (sp_cons s)"
    and sent: "sp_sent s = sp_received s @ stored n es rb" using inv by (auto simp: spsc_inv_def rb_def)
  have es: "rb_elementSizeBytes rb = int es" using ok by (simp add: rb_ok_def)
  note f = rb_ok_facts [OF ok]
  have copied: "spsc_inv n es (s\<lparr>sp_rb := rb', sp_prod := p'\<rparr>)"
    if "rb_ok n es rb'" "fill n rb' = fill n rb" "rslot n rb' = rslot n rb" "stored n es rb' = stored n es rb" "prod_ok n es rb' p'" for rb' p'
    using that cons_ok_mono [OF c ok that(1), of "[]"] sent by (simp add: spsc_inv_def)
  show ?thesis
  proof (cases "sp_prod s")
    case PIdle
    then show ?thesis using busy by simp
  next
    case (PFirst d m g)
    then obtain k where k: "m = int k" "k \<le> n - fill n rb" "k * es \<le> length d" "g = regions_at rb (int (wslot n rb)) (int k)"
      using p by (auto simp: prod_ok_def)
    have kn: "k \<le> n" "fill n rb + k \<le> n" using k(2) f(2) by auto
    define s1 where "s1 = min k (n - wslot n rb)"
    note g = regions_split [OF ok f(4) kn(1) s1_def, folded k(4)]
    have "s1 * es \<le> k * es" using g(7) by simp
    then have "s1 * es \<le> length d" using k(3) by linarith
    then have "\<exists>rb'. copy_in rb (int (wslot n rb * es)) d (int (0 * es)) (int (s1 * es)) = Some rb' \<and> rb_ok n es rb' \<and>
        fill n rb' = fill n rb \<and> rslot n rb' = rslot n rb \<and> wslot n rb' = wslot n rb \<and> stored n es rb' = stored n es rb \<and>
        ring (rb_buffer rb') (wslot n rb * es) ((0 + s1) * es) = take ((0 + s1) * es) d"
      using g(6,7) f(4) kn by (intro copy_free ok) auto
    then obtain rb' where r: "copy_in rb (int (wslot n rb * es)) d 0 (int (s1 * es)) = Some rb'" "rb_ok n es rb'"
      "fill n rb' = fill n rb" "rslot n rb' = rslot n rb" "wslot n rb' = wslot n rb" "stored n es rb' = stored n es rb"
      "ring (rb_buffer rb') (wslot n rb * es) (s1 * es) = take (s1 * es) d" by auto
    have "prod_ok n es rb' (if 0 < size2 g then PSecond d m g else PCommit d m)"
      using r(3,5,7) k g(3,7) regions_at_cong [OF ok r(2)] by (auto simp: prod_ok_def s1_def)
    then have "spsc_inv n es (s\<lparr>sp_rb := rb', sp_prod := (if 0 < size2 g then PSecond d m g else PCommit d m)\<rparr>)"
      by (rule copied [OF r(2,3,4,6)])
    moreover have "producer_next s = Some (s\<lparr>sp_rb := rb', sp_prod := (if 0 < size2 g then PSecond d m g else PCommit d m)\<rparr>)"
      using r(1) g(1,2) es PFirst by (simp add: producer_next_def flip: rb_def)
    ultimately show ?thesis by blast
  next
    case (PSecond d m g)
    then obtain k where k: "m = int k" "k \<le> n - fill n rb" "k * es \<le> length d" "g = regions_at rb (int (wslot n rb)) (int k)"
      "0 < size2 g" "ring (rb_buffer rb) (wslot n rb * es) (min k (n - wslot n rb) * es) = take (min k (n - wslot n rb) * es) d"
      using p by (auto simp: prod_ok_def)
    have kn: "k \<le> n" "fill n rb + k \<le> n" using k(2) f(2) by auto
    define s1 where "s1 = min k (n - wslot n rb)"
    note g = regions_split [OF ok f(4) kn(1) s1_def, folded k(4)]
    have lt: "0 < k - s1" using k(5) g(3) by simp
    have "\<exists>rb'. copy_in rb (int (0 * es)) d (int (s1 * es)) (int ((k - s1) * es)) = Some rb' \<and> rb_ok n es rb' \<and>
        fill n rb' = fill n rb \<and> rslot n rb' = rslot n rb \<and> wslot n rb' = wslot n rb \<and> stored n es rb' = stored n es rb \<and>
        ring (rb_buffer rb') (wslot n rb * es) ((s1 + (k - s1)) * es) = take ((s1 + (k - s1)) * es) d"
      using g(5) [OF lt] g(7) kn k(3,6) by (intro copy_free ok) (auto simp: s1_def)
    then obtain rb' where r: "copy_in rb 0 d (int (s1 * es)) (int ((k - s1) * es)) = Some rb'" "rb_ok n es rb'"
      "fill n rb' = fill n rb" "rslot n rb' = rslot n rb" "wslot n rb' = wslot n rb" "stored n es rb' = stored n es rb"
      "ring (rb_buffer rb') (wslot n rb * es) (k * es) = take (k * es) d" using g(7) by auto
    have "prod_ok n es rb' (PCommit d m)" using r(3,5,7) k(1-3) by (auto simp: prod_ok_def)
    then have "spsc_inv n es (s\<lparr>sp_rb := rb', sp_prod := PCommit d m\<rparr>)" by (rule copied [OF r(2,3,4,6)])
    moreover have "producer_next s = Some (s\<lparr>sp_rb := rb', sp_prod := PCommit d m\<rparr>)"
      using r(1) g(2,3) g(4) [OF lt] es PSecond by (simp add: producer_next_def flip: rb_def)
    ultimately show ?thesis by blast
  next
    case (PCommit d m)
    then obtain k where k: "m = int k" "k \<le> n - fill n rb" "k * es \<le> length d"
      "ring (rb_buffer rb) (wslot n rb * es) (k * es) = take (k * es) d" using p by (auto simp: prod_ok_def)
    define rb' where "rb' = snd (PaUtil_AdvanceRingBufferWriteIndex rb m)"
    note a = advance_write [OF ok k(2) rb'_def [unfolded k(1)]]
    have st: "stored n es rb' = stored n es rb @ take (k * es) d"
      using ring_from_wslot [OF ok, of k] a k(4) by (simp add: stored_def)
    have "cons_ok n es rb' (sp_cons s)" by (rule cons_ok_mono [OF c ok a(1) _ a(3) st]) (simp add: a(2))
    then have "spsc_inv n es (s\<lparr>sp_rb := rb', sp_prod := PIdle, sp_sent := sp_sent s @ take (k * es) d\<rparr>)"
      using a(1) st sent by (simp add: spsc_inv_def prod_ok_def)
    moreover have "producer_next s = Some (s\<lparr>sp_rb := rb', sp_prod := PIdle, sp_sent := sp_sent s @ take (k * es) d\<rparr>)"
      using PCommit es k(1) by (simp add: producer_next_def rb'_def flip: rb_def of_nat_mult)
    ultimately show ?thesis by blast
  qed
qed

lemma consumer_next_inv:
  assumes inv: "spsc_inv n es s" and busy: "sp_cons s \<noteq> CIdle"
  shows "\<exists>s'. consumer_next s = Some s' \<and> spsc_inv n es s'"
proof -
  define rb where "rb = sp_rb s"
  have ok: "rb_ok n es rb" and p: "prod_ok n es rb (sp_prod s)" and c: "cons_ok n es rb (sp_cons s)"
    and sent: "sp_sent s = sp_received s @ stored n es rb" using inv by (auto simp: spsc_inv_def rb_def)
  have es: "rb_elementSizeBytes rb = int es" "length (rb_buffer rb) = n * es" using ok by (simp_all add: rb_ok_def)
  note f = rb_ok_facts [OF ok]
  have st: "take (k * es) (stored n es rb) = ring (rb_buffer rb) (rslot n rb * es) (k * es)" if "k \<le> fill n rb" for k
    using that by (simp add: stored_def ring_take)
  show ?thesis
  proof (cases "sp_cons s")
    case CIdle
    then show ?thesis using busy by simp
  next
    case (CFirst m g)
    then obtain k where k: "m = int k" "k \<le> fill n rb" "g = regions_at rb (int (rslot n rb)) (int k)" using c by (auto simp: cons_ok_def)
    have kn: "k \<le> n" using k(2) f(2) by auto
    define s1 where "s1 = min k (n - rslot n rb)"
    note g = regions_split [OF ok f(3) kn(1) s1_def, folded k(3)]
    have o: "copy_out rb (int (rslot n rb * es)) (int (s1 * es)) = Some (take (s1 * es) (stored n es rb))"
      using copy_out_ok [OF ok g(6)] st [of s1] g(7) k(2) by simp
    have n: "consumer_next s = Some (s\<lparr>sp_cons := (if 0 < size2 g then CSecond m g (take (s1 * es) (stored n es rb)) else CCommit m (take (s1 * es) (stored n es rb)))\<rparr>)"
      using o g(1,2) es CFirst by (simp add: consumer_next_def flip: rb_def)
    have "cons_ok n es rb (if 0 < size2 g then CSecond m g (take (s1 * es) (stored n es rb)) else CCommit m (take (s1 * es) (stored n es rb)))"
      using k g(3,7) by (auto simp: cons_ok_def s1_def)
    then show ?thesis using n ok p sent by (auto simp: spsc_inv_def simp flip: rb_def)
  next
    case (CSecond m g a)
    then obtain k where k: "m = int k" "k \<le> fill n rb" "g = regions_at rb (int (rslot n rb)) (int k)" "0 < size2 g"
      "a = take (min k (n - rslot n rb) * es) (stored n es rb)" using c by (auto simp: cons_ok_def)
    have kn: "k \<le> n" using k(2) f(2) by auto
    define s1 where "s1 = min k (n - rslot n rb)"
    note g = regions_split [OF ok f(3) kn(1) s1_def, folded k(3)]
    have lt: "0 < k - s1" using k(4) g(3) by simp
    have "copy_out rb (int (0 * es)) (int ((k - s1) * es)) = Some (ring (rb_buffer rb) (0 * es) ((k - s1) * es))"
      by (rule copy_out_ok [OF ok]) (use kn in simp)
    moreover have "ring (rb_buffer rb) (0 * es) ((k - s1) * es) = ring (rb_buffer rb) (rslot n rb * es + s1 * es) ((k - s1) * es)"
      using ring_mod [of "rb_buffer rb" "rslot n rb * es + s1 * es"] g(5) [OF lt] es(2) by (simp add: add_mult_distrib [symmetric])
    moreover have "k * es = s1 * es + (k - s1) * es" using g(7) by (simp add: add_mult_distrib [symmetric])
    ultimately have o: "copy_out rb 0 (int ((k - s1) * es)) = Some (ring (rb_buffer rb) (rslot n rb * es + s1 * es) ((k - s1) * es))"
      "take (k * es) (stored n es rb) = take (s1 * es) (stored n es rb) @ ring (rb_buffer rb) (rslot n rb * es + s1 * es) ((k - s1) * es)"
      using st [of s1] st [of k] g(7) k(2) by (auto simp: ring_add)
    have "consumer_next s = Some (s\<lparr>sp_cons := CCommit m (take (k * es) (stored n es rb))\<rparr>)"
      using o g(3) g(4) [OF lt] es CSecond k(5) by (simp add: consumer_next_def s1_def flip: rb_def)
    moreover have "cons_ok n es rb (CCommit m (take (k * es) (stored n es rb)))" using k by (auto simp: cons_ok_def)
    ultimately show ?thesis using ok p sent by (auto simp: spsc_inv_def simp flip: rb_def)
  next
    case (CCommit m a)
    then obtain k where k: "m = int k" "k \<le> fill n rb" "a = take (k * es) (stored n es rb)" using c by (auto simp: cons_ok_def)
    define rb' where "rb' = snd (PaUtil_AdvanceRingBufferReadIndex rb m)"
    note a = advance_read [OF ok k(2) rb'_def [unfolded k(1)]] and d = stored_advance_read [OF ok k(2) rb'_def [unfolded k(1)]]
    have "prod_ok n es rb' (sp_prod s)" by (rule prod_ok_mono [OF p ok a(1) _ a(5) a(4)]) (simp add: a(2))
    then have "spsc_inv n es (s\<lparr>sp_rb := rb', sp_cons := CIdle, sp_received := sp_received s @ a\<rparr>)"
      using a(1) d sent k(3) by (simp add: spsc_inv_def cons_ok_def)
    moreover have "consumer_next s = Some (s\<lparr>sp_rb := rb', sp_cons := CIdle, sp_received := sp_received s @ a\<rparr>)"
      using CCommit by (simp add: consumer_next_def rb'_def flip: rb_def)
    ultimately show ?thesis by blast
  qed
qed

lemma spsc_step_inv: "spsc_step es s s' \<Longrightarrow> spsc_inv n es s \<Longrightarrow> spsc_inv n es s'"
proof (induction rule: spsc_step.induct)
  case (write_step s s')
  then show ?case using producer_next_inv [of n es s] by auto
next
  case (read_step s s')
  then show ?case using consumer_next_inv [of n es s] by auto
qed (simp_all add: producer_begin_inv consumer_begin_inv)

lemma spsc_reach_inv: "(spsc_step es)\<^sup>*\<^sup>* s s' \<Longrightarrow> spsc_inv n es s \<Longrightarrow> spsc_inv n es s'"
  by (induction rule: rtranclp_induct) (auto intro: spsc_step_inv)

lemma spsc_start_inv: "rb_ok n es rb \<Longrightarrow> stored n es rb = [] \<Longrightarrow> spsc_inv n es (spsc_start rb)"
  by (simp add: spsc_inv_def spsc_start_def prod_ok_def cons_ok_def)

text \<open>A call that is not interrupted is the C function.\<close>

lemma write_call_runs:
  assumes w: "PaUtil_WriteRingBuffer (sp_rb s) data (int c) = Some (m, rb')" and idle: "sp_prod s = PIdle" and d: "c * es \<le> length data"
    and es: "rb_elementSizeBytes (sp_rb s) = int es"
  shows "(spsc_step es)\<^sup>*\<^sup>* s (s\<lparr>sp_rb := rb', sp_sent := sp_sent s @ take (nat (m * int es)) data\<rparr>)"
proof -
  obtain k g where g: "PaUtil_GetRingBufferWriteRegions (sp_rb s) (int c) = (k, g)" by fastforce
  have es': "rb_elementSizeBytes rb1 = int es" if "copy_in rb0 x dt y z = Some rb1" "rb_elementSizeBytes rb0 = int es" for rb0 x dt y z rb1
    using that by (auto simp: copy_in_def bind_eq_Some_conv split: if_splits)
  let ?s0 = "producer_begin data c s"
  have s0: "?s0 = s\<lparr>sp_prod := PFirst data k g\<rparr>" by (simp add: producer_begin_def g)
  have step0: "spsc_step es s ?s0" by (rule write_call [OF idle d])
  have commit: "spsc_step es (s\<lparr>sp_rb := r, sp_prod := PCommit data k\<rparr>)
      (s\<lparr>sp_rb := snd (PaUtil_AdvanceRingBufferWriteIndex r k), sp_sent := sp_sent s @ take (nat (k * int es)) data\<rparr>)"
    if "rb_elementSizeBytes r = int es" for r
    by (rule write_step) (use that idle in \<open>simp_all add: producer_next_def\<close>)
  show ?thesis
  proof (cases "0 < size2 g")
    case True
    then obtain r1 d2 r2 where r: "copy_in (sp_rb s) (data1 g) data 0 (size1 g * int es) = Some r1" "data2 g = Some d2"
      "copy_in r1 d2 data (size1 g * int es) (size2 g * int es) = Some r2" "m = k" "rb' = snd (PaUtil_AdvanceRingBufferWriteIndex r2 k)"
      using w g es by (auto simp: PaUtil_WriteRingBuffer_def Let_def bind_eq_Some_conv)
    have e: "rb_elementSizeBytes r1 = int es" "rb_elementSizeBytes r2 = int es" using es' [OF r(1) es] es' [OF r(3)] by simp_all
    have "spsc_step es ?s0 (s\<lparr>sp_rb := r1, sp_prod := PSecond data k g\<rparr>)"
      unfolding s0 by (rule write_step) (use True r es in \<open>simp_all add: producer_next_def\<close>)
    moreover have "spsc_step es (s\<lparr>sp_rb := r1, sp_prod := PSecond data k g\<rparr>) (s\<lparr>sp_rb := r2, sp_prod := PCommit data k\<rparr>)"
      by (rule write_step) (use r e in \<open>simp_all add: producer_next_def\<close>)
    ultimately show ?thesis using step0 commit [OF e(2)] unfolding r(4,5) by (meson r_into_rtranclp rtranclp.rtrancl_into_rtrancl)
  next
    case False
    then obtain r1 where r: "copy_in (sp_rb s) (data1 g) data 0 (size1 g * int es) = Some r1" "m = k" "rb' = snd (PaUtil_AdvanceRingBufferWriteIndex r1 k)"
      using w g es by (auto simp: PaUtil_WriteRingBuffer_def Let_def bind_eq_Some_conv)
    have e: "rb_elementSizeBytes r1 = int es" using es' [OF r(1) es] .
    have "spsc_step es ?s0 (s\<lparr>sp_rb := r1, sp_prod := PCommit data k\<rparr>)"
      unfolding s0 by (rule write_step) (use False r es in \<open>simp_all add: producer_next_def\<close>)
    then show ?thesis using step0 commit [OF e] unfolding r(2,3) by (meson r_into_rtranclp rtranclp.rtrancl_into_rtrancl)
  qed
qed

text \<open>The consumer alone: its steps end, and a call that asked for everything stored returns it.\<close>

definition cons_rank :: "consumer \<Rightarrow> nat" where
  "cons_rank p = (case p of CIdle \<Rightarrow> 0 | CFirst m g \<Rightarrow> 3 | CSecond m g a \<Rightarrow> 2 | CCommit m a \<Rightarrow> 1)"

definition cons_count :: "consumer \<Rightarrow> int" where
  "cons_count p = (case p of CIdle \<Rightarrow> 0 | CFirst m g \<Rightarrow> m | CSecond m g a \<Rightarrow> m | CCommit m a \<Rightarrow> m)"

lemma consumer_next_facts:
  assumes "spsc_inv n es s" "sp_cons s \<noteq> CIdle" "consumer_next s = Some s'"
  shows "cons_rank (sp_cons s') < cons_rank (sp_cons s)" "sp_sent s' = sp_sent s" "sp_prod s' = sp_prod s"
    "sp_cons s' \<noteq> CIdle \<Longrightarrow> cons_count (sp_cons s') = cons_count (sp_cons s) \<and> sp_rb s' = sp_rb s"
    "sp_cons s' = CIdle \<Longrightarrow> cons_count (sp_cons s) = int (fill n (sp_rb s)) \<Longrightarrow> sp_received s' = sp_sent s'"
  using assms
  by (auto simp: consumer_next_def cons_rank_def cons_count_def bind_eq_Some_conv Let_def spsc_inv_def cons_ok_def length_stored
      split: consumer.splits if_splits)

lemma consumer_finishes:
  "spsc_inv n es s \<Longrightarrow> \<exists>s'. (spsc_step es)\<^sup>*\<^sup>* s s' \<and> spsc_inv n es s' \<and> sp_cons s' = CIdle \<and> sp_sent s' = sp_sent s \<and> sp_prod s' = sp_prod s \<and>
    (sp_cons s \<noteq> CIdle \<and> cons_count (sp_cons s) = int (fill n (sp_rb s)) \<longrightarrow> sp_received s' = sp_sent s')"
proof (induction "cons_rank (sp_cons s)" arbitrary: s rule: less_induct)
  case less
  show ?case
  proof (cases "sp_cons s = CIdle")
    case False
    then obtain s1 where s1: "consumer_next s = Some s1" "spsc_inv n es s1" using consumer_next_inv [OF less.prems] by blast
    note f = consumer_next_facts [OF less.prems False s1(1)]
    have st: "spsc_step es s s1" by (rule read_step [OF False s1(1)])
    obtain s' where s': "(spsc_step es)\<^sup>*\<^sup>* s1 s'" "spsc_inv n es s'" "sp_cons s' = CIdle" "sp_sent s' = sp_sent s1" "sp_prod s' = sp_prod s1"
      "sp_cons s1 \<noteq> CIdle \<and> cons_count (sp_cons s1) = int (fill n (sp_rb s1)) \<longrightarrow> sp_received s' = sp_sent s'"
      using less.hyps [OF f(1) s1(2)] by blast
    show ?thesis
    proof (cases "sp_cons s1 = CIdle")
      case True
      then show ?thesis using st s1 f by (intro exI [of _ s1]) auto
    next
      case n: False
      then show ?thesis using st s' f(2-4) by (intro exI [of _ s']) (auto intro: converse_rtranclp_into_rtranclp)
    qed
  qed (use less.prems in auto)
qed

lemma consumer_drains:
  assumes "spsc_inv n es s"
  shows "\<exists>s'. (spsc_step es)\<^sup>*\<^sup>* s s' \<and> sp_received s' = sp_sent s' \<and> sp_sent s' = sp_sent s \<and> sp_prod s' = sp_prod s"
proof -
  obtain s1 where s1: "(spsc_step es)\<^sup>*\<^sup>* s s1" "spsc_inv n es s1" "sp_cons s1 = CIdle" "sp_sent s1 = sp_sent s" "sp_prod s1 = sp_prod s"
    using consumer_finishes [OF assms] by blast
  let ?s2 = "consumer_begin n s1"
  have ok: "rb_ok n es (sp_rb s1)" using s1(2) by (simp add: spsc_inv_def)
  have c: "sp_cons ?s2 \<noteq> CIdle" "cons_count (sp_cons ?s2) = int (fill n (sp_rb ?s2))" "sp_sent ?s2 = sp_sent s1" "sp_prod ?s2 = sp_prod s1"
    using rb_ok_facts(2) [OF ok] by (simp_all add: consumer_begin_def read_regions [OF ok] cons_count_def)
  have "spsc_step es s1 ?s2" by (rule read_call [OF s1(3)])
  moreover obtain s' where "(spsc_step es)\<^sup>*\<^sup>* ?s2 s'" "sp_sent s' = sp_sent ?s2" "sp_prod s' = sp_prod ?s2" "sp_received s' = sp_sent s'"
    using consumer_finishes [OF consumer_begin_inv [OF s1(2)]] c by blast
  ultimately show ?thesis using s1 c by (intro exI [of _ s']) (auto intro: rtranclp_trans converse_rtranclp_into_rtranclp)
qed

section \<open>Properties\<close>

definition any_ring :: PaUtilRingBuffer where
  "any_ring = \<lparr>rb_bufferSize = 0, rb_writeIndex = 0, rb_readIndex = 0, rb_bigMask = 0, rb_smallMask = 0,
     rb_elementSizeBytes = 0, rb_buffer = []\<rparr>"

text \<open>PaUtil\_InitializeRingBuffer accepts exactly the powers of two among the positive counts, as its
  comment says, and leaves an empty buffer; the count 0, which is no power of two, is accepted too.\<close>

theorem ring_init_spec:
  assumes "0 < cnt" "2 * cnt \<le> long_max" "0 < es" "length mem = nat cnt * es"
  shows "(if \<exists>k. cnt = 2 ^ k
     then \<exists>rb. PaUtil_InitializeRingBuffer rb0 (int es) cnt mem = Some (0, rb) \<and> PaUtil_GetRingBufferReadAvailable rb = 0 \<and>
       PaUtil_GetRingBufferWriteAvailable rb = cnt \<and> rb_ok (nat cnt) es rb
     else PaUtil_InitializeRingBuffer rb0 (int es) cnt mem = Some (-1, rb0)) \<and>
   (\<exists>rb. PaUtil_InitializeRingBuffer rb0 (int es) 0 mem = Some (0, rb))"
proof -
  have z: "\<exists>rb. PaUtil_InitializeRingBuffer rb0 (int es) 0 mem = Some (0, rb)"
    by (simp add: PaUtil_InitializeRingBuffer_def long_max_def Let_def)
  show ?thesis
  proof (cases "\<exists>k. cnt = 2 ^ k")
    case True
    then obtain k where k: "cnt = 2 ^ k" by blast
    have "(cnt - 1) AND cnt = 0"
      using and_mask_mod [of "2 ^ k" k cnt] by (simp add: k and.commute)
    then obtain rb where rb: "PaUtil_InitializeRingBuffer rb0 (int es) cnt mem = Some (0, rb)"
      using assms(1,2) by (auto simp: PaUtil_InitializeRingBuffer_def long_max_def Let_def)
    note i = rb_init_ok [OF rb assms(1,3,4)]
    then show ?thesis using True z rb rb_ok_facts(5,6) [OF i(1)] assms(1) by auto
  next
    case False
    then have "(cnt - 1) AND cnt \<noteq> 0" using pow2_and [OF assms(1)] by blast
    then show ?thesis using False z assms(1) by (simp add: PaUtil_InitializeRingBuffer_def long_max_def)
  qed
qed

theorem ring_init_spec_witness:
  "\<exists>rb. PaUtil_InitializeRingBuffer any_ring 1 4 [0, 0, 0, 0] = Some (0, rb) \<and> PaUtil_GetRingBufferWriteAvailable rb = 4"
proof -
  have "\<exists>k. (4 :: int) = 2 ^ k" by (rule exI [of _ 2]) simp
  then show ?thesis using ring_init_spec [of 4 1 "[0, 0, 0, 0]" any_ring] by (auto simp: long_max_def)
qed

text \<open>C7: The ring buffer refines a bounded first-in first-out queue: from an initialised buffer, any sequence
  of writes and reads of any sizes stays inside the memory, and the bytes read so far followed by the
  bytes stored are exactly the bytes accepted so far, in order; never more than the capacity is stored.\<close>

theorem ring_buffer_fifo:
  assumes "PaUtil_InitializeRingBuffer rb0 (int es) cnt mem = Some (0, rb)" "0 < cnt" "0 < es" "length mem = nat cnt * es"
    and "list_all (op_ok es) ops"
  shows "\<exists>rb' read accepted. fifo_run rb_put rb_get es ops rb = Some (rb', read, accepted) \<and>
     accepted = read @ stored (nat cnt) es rb' \<and>
     length accepted - length read = nat (PaUtil_GetRingBufferReadAvailable rb') * es \<and>
     PaUtil_GetRingBufferReadAvailable rb' \<le> cnt"
proof -
  note i = rb_init_ok [OF assms(1-4)]
  obtain rb' d a where r: "fifo_run rb_put rb_get es ops rb = Some (rb', d, a)" "rb_ok (nat cnt) es rb'"
    "d @ stored (nat cnt) es rb' = stored (nat cnt) es rb @ a"
    using rb_fifo.run_ok [OF i(1) assms(5)] by blast
  then show ?thesis using i(3) rb_ok_facts(2,5) [OF r(2)] assms(2) by (auto simp: length_stored)
qed

theorem ring_buffer_fifo_witness:
  "\<exists>rb rb' read accepted. PaUtil_InitializeRingBuffer any_ring 1 2 [0, 0] = Some (0, rb) \<and>
    fifo_run rb_put rb_get 1 [Put [1, 2] 2, Get 1, Put [3] 1] rb = Some (rb', read, accepted) \<and> accepted = read @ stored 2 1 rb'"
proof -
  obtain rb where rb: "PaUtil_InitializeRingBuffer any_ring 1 2 [0, 0] = Some (0, rb)"
    by (simp add: PaUtil_InitializeRingBuffer_def long_max_def Let_def)
  show ?thesis using ring_buffer_fifo [of any_ring 1 2 "[0, 0]" rb "[Put [1, 2] 2, Get 1, Put [3] 1]"] rb by auto
qed

text \<open>C6: The buffer is safe for one producer and one consumer that run concurrently: in every state reachable
  by any interleaving of their steps, what was received is a prefix of what was sent and the rest is in
  the buffer, at most its capacity; and a thread inside a call can always take its next step, so no
  memcpy ever leaves the buffer.\<close>

theorem spsc_safe:
  assumes "PaUtil_InitializeRingBuffer rb0 (int es) cnt mem = Some (0, rb)" "0 < cnt" "0 < es" "length mem = nat cnt * es"
    and "(spsc_step es)\<^sup>*\<^sup>* (spsc_start rb) s"
  shows "\<exists>rest. sp_sent s = sp_received s @ rest \<and> length rest \<le> nat cnt * es \<and>
    rest = stored (nat cnt) es (sp_rb s) \<and> producer_next s \<noteq> None \<and> consumer_next s \<noteq> None"
proof -
  note i = rb_init_ok [OF assms(1-4)]
  have inv: "spsc_inv (nat cnt) es s" using spsc_reach_inv [OF assms(5) spsc_start_inv [OF i(1,3)]] .
  have "producer_next s \<noteq> None"
    using producer_next_inv [OF inv] by (cases "sp_prod s") (auto simp: producer_next_def Let_def)
  moreover have "consumer_next s \<noteq> None"
    using consumer_next_inv [OF inv] by (cases "sp_cons s") (auto simp: consumer_next_def Let_def)
  moreover have "length (stored (nat cnt) es (sp_rb s)) \<le> nat cnt * es"
    using inv rb_ok_facts(2) [of "nat cnt" es "sp_rb s"] by (simp add: spsc_inv_def length_stored)
  ultimately show ?thesis using inv by (simp add: spsc_inv_def)
qed

theorem spsc_safe_witness:
  "\<exists>rb. PaUtil_InitializeRingBuffer any_ring 1 2 [0, 0] = Some (0, rb) \<and>
    producer_next (producer_begin [7] 1 (spsc_start rb)) \<noteq> None"
proof -
  obtain rb where rb: "PaUtil_InitializeRingBuffer any_ring 1 2 [0, 0] = Some (0, rb)"
    by (simp add: PaUtil_InitializeRingBuffer_def long_max_def Let_def)
  have "spsc_step 1 (spsc_start rb) (producer_begin [7] 1 (spsc_start rb))"
    by (rule write_call) (simp_all add: spsc_start_def)
  then show ?thesis using spsc_safe [of any_ring 1 2 "[0, 0]" rb "producer_begin [7] 1 (spsc_start rb)"] rb by auto
qed

text \<open>C8: Progress: from every reachable state the consumer by itself, whatever point the producer has been
  stopped at, can reach a state in which it has received everything that was sent.\<close>

theorem spsc_consumer_progress:
  assumes "PaUtil_InitializeRingBuffer rb0 (int es) cnt mem = Some (0, rb)" "0 < cnt" "0 < es" "length mem = nat cnt * es"
    and "(spsc_step es)\<^sup>*\<^sup>* (spsc_start rb) s"
  shows "\<exists>s'. (spsc_step es)\<^sup>*\<^sup>* s s' \<and> sp_received s' = sp_sent s' \<and> sp_sent s' = sp_sent s \<and> sp_prod s' = sp_prod s"
  using consumer_drains [OF spsc_reach_inv [OF assms(5) spsc_start_inv [OF rb_init_ok(1,3) [OF assms(1-4)]]]] .

theorem spsc_consumer_progress_witness:
  "\<exists>rb s'. PaUtil_InitializeRingBuffer any_ring 1 2 [0, 0] = Some (0, rb) \<and>
    (spsc_step 1)\<^sup>*\<^sup>* (producer_begin [7] 1 (spsc_start rb)) s' \<and> sp_received s' = sp_sent s'"
proof -
  obtain rb where rb: "PaUtil_InitializeRingBuffer any_ring 1 2 [0, 0] = Some (0, rb)"
    by (simp add: PaUtil_InitializeRingBuffer_def long_max_def Let_def)
  have "spsc_step 1 (spsc_start rb) (producer_begin [7] 1 (spsc_start rb))"
    by (rule write_call) (simp_all add: spsc_start_def)
  then show ?thesis
    using spsc_consumer_progress [of any_ring 1 2 "[0, 0]" rb "producer_begin [7] 1 (spsc_start rb)"] rb by auto
qed

end
