(* ===== verification/Converters.thy ===== *)
theory Converters
  imports Prelude
begin

text \<open>
  Sample format conversion of PortAudio: the integer converters, the choice of a converter and the
  zeroers of todo-later/portaudio/src/common/pa\_converters.c, and the dither generator of
  pa\_dither.c.  Buffers are byte arrays with little-endian samples (PA\_LITTLE\_ENDIAN); source and
  destination do not overlap.  A pointer is a byte offset, negative strides included.  The right
  shift of a negative int is arithmetic, as with every compiler the code supports, and the cast
  to a narrower type keeps the low bits.
\<close>

unbundle bit_operations_syntax

section \<open>Dither\<close>

record PaUtilTriangularDitherGenerator =
  previous :: u32
  randSeed1 :: u32
  randSeed2 :: u32

definition PaUtil_InitializeTriangularDitherState :: PaUtilTriangularDitherGenerator where
  "PaUtil_InitializeTriangularDitherState = \<lparr>previous = 0, randSeed1 = 22222, randSeed2 = 5555555\<rparr>"

definition pa_dither_shift :: nat where
  "pa_dither_shift = (32 - 15) + 1"

definition PaUtil_Generate16BitTriangularDither ::
  "PaUtilTriangularDitherGenerator \<Rightarrow> u32 \<times> PaUtilTriangularDitherGenerator" where
  "PaUtil_Generate16BitTriangularDither state =
     (let seed1 = randSeed1 state * 196314165 + 907633515;
          seed2 = randSeed2 state * 196314165 + 907633515;
          current = signed_drop_bit pa_dither_shift seed1 + signed_drop_bit pa_dither_shift seed2;
          highPass = current - previous state
      in (highPass, \<lparr>previous = current, randSeed1 = seed1, randSeed2 = seed2\<rparr>))"

section \<open>Samples in memory\<close>

definition mem_rd :: "byte list \<Rightarrow> int \<Rightarrow> nat \<Rightarrow> byte list option" where
  "mem_rd mem p n = (if p < 0 then None else rd_blk mem (nat p) n)"

definition mem_wr :: "byte list \<Rightarrow> int \<Rightarrow> byte list \<Rightarrow> byte list option" where
  "mem_wr mem p bs = (if p < 0 then None else wr_blk mem (nat p) bs)"

type_synonym u16 = "16 word"

definition load8 :: "byte list \<Rightarrow> byte" where
  "load8 bs = bs ! 0"

definition load16 :: "byte list \<Rightarrow> u16" where
  "load16 bs = ucast (bs ! 0) OR push_bit 8 (ucast (bs ! 1))"

definition load32 :: "byte list \<Rightarrow> u32" where
  "load32 bs = ucast (bs ! 0) OR push_bit 8 (ucast (bs ! 1)) OR push_bit 16 (ucast (bs ! 2)) OR push_bit 24 (ucast (bs ! 3))"

definition store8 :: "byte \<Rightarrow> byte list" where
  "store8 w = [w]"

definition store16 :: "u16 \<Rightarrow> byte list" where
  "store16 w = [ucast w, ucast (drop_bit 8 w)]"

definition store32 :: "u32 \<Rightarrow> byte list" where
  "store32 w = [ucast w, ucast (drop_bit 8 w), ucast (drop_bit 16 w), ucast (drop_bit 24 w)]"

text \<open>The loop of a converter: one sample of sw bytes is read and one written per turn.  f is the body of
  the loop; the pointers advance by their strides in samples.\<close>

primrec conv_loop ::
  "(byte list \<Rightarrow> 'd \<Rightarrow> byte list \<times> 'd) \<Rightarrow> nat \<Rightarrow> byte list \<Rightarrow> int \<Rightarrow> int \<Rightarrow> nat \<Rightarrow> int \<Rightarrow> int \<Rightarrow> 'd \<Rightarrow> byte list \<Rightarrow> (byte list \<times> 'd) option" where
  "conv_loop f sw src sstep dstep 0 sp dp dith dest = Some (dest, dith)"
| "conv_loop f sw src sstep dstep (Suc n) sp dp dith dest = do {
     s \<leftarrow> mem_rd src sp sw;
     (let (d, dith') = f s dith in do {
        dest' \<leftarrow> mem_wr dest dp d;
        conv_loop f sw src sstep dstep n (sp + sstep) (dp + dstep) dith' dest'})}"

text \<open>The arguments of a converter: destination buffer, position in it and stride, source buffer, position
  and stride, the number of samples and the dither state; the result is the destination and the
  dither state.\<close>

type_synonym dither = PaUtilTriangularDitherGenerator

type_synonym converter =
  "byte list \<Rightarrow> int \<Rightarrow> int \<Rightarrow> byte list \<Rightarrow> int \<Rightarrow> int \<Rightarrow> nat \<Rightarrow> dither \<Rightarrow> (byte list \<times> dither) option"

definition convert :: "nat \<Rightarrow> nat \<Rightarrow> (byte list \<Rightarrow> byte list) \<Rightarrow> converter" where
  "convert sw dw f dest dp ds src sp ss cnt dith =
     conv_loop (\<lambda>s d. (f s, d)) sw src (int sw * ss) (int dw * ds) cnt sp dp dith dest"

definition convert_dither :: "nat \<Rightarrow> nat \<Rightarrow> (byte list \<Rightarrow> u32 \<Rightarrow> byte list) \<Rightarrow> converter" where
  "convert_dither sw dw f dest dp ds src sp ss cnt dith =
     conv_loop (\<lambda>s d. let (x, d') = PaUtil_Generate16BitTriangularDither d in (f s x, d'))
       sw src (int sw * ss) (int dw * ds) cnt sp dp dith dest"

text \<open>The body of an unimplemented converter.\<close>

definition convert_nothing :: converter where
  "convert_nothing dest dp ds src sp ss cnt dith = Some (dest, dith)"

section \<open>Integer converters\<close>

text \<open>A packed 24-bit sample as the high bytes of an int.\<close>

definition int24 :: "byte list \<Rightarrow> u32" where
  "int24 src = push_bit 8 (ucast (src ! 0)) OR push_bit 16 (ucast (src ! 1)) OR push_bit 24 (ucast (src ! 2))"

definition Int32_To_Int24 :: converter where
  "Int32_To_Int24 = convert 4 3 (\<lambda>src. (let s = load32 src in [ucast (signed_drop_bit 8 s), ucast (signed_drop_bit 16 s), ucast (signed_drop_bit 24 s)]))"

definition Int32_To_Int24_Dither :: converter where
  "Int32_To_Int24_Dither = convert_nothing"

definition Int32_To_Int16 :: converter where
  "Int32_To_Int16 = convert 4 2 (\<lambda>src. store16 (ucast (signed_drop_bit 16 (load32 src))))"

definition Int32_To_Int16_Dither :: converter where
  "Int32_To_Int16_Dither = convert_dither 4 2 (\<lambda>src dither. store16 (ucast (signed_drop_bit 15 (signed_drop_bit 1 (load32 src) + dither))))"

definition Int32_To_Int8 :: converter where
  "Int32_To_Int8 = convert 4 1 (\<lambda>src. store8 (ucast (signed_drop_bit 24 (load32 src))))"

definition Int32_To_Int8_Dither :: converter where
  "Int32_To_Int8_Dither = convert_dither 4 1 (\<lambda>src dither. store8 (ucast (signed_drop_bit 23 (signed_drop_bit 1 (load32 src) + dither))))"

definition Int32_To_UInt8 :: converter where
  "Int32_To_UInt8 = convert 4 1 (\<lambda>src. store8 (ucast (signed_drop_bit 24 (load32 src) + 128)))"

definition Int32_To_UInt8_Dither :: converter where
  "Int32_To_UInt8_Dither = convert_nothing"

definition Int24_To_Int32 :: converter where
  "Int24_To_Int32 = convert 3 4 (\<lambda>src. store32 (int24 src))"

definition Int24_To_Int16 :: converter where
  "Int24_To_Int16 = convert 3 2 (\<lambda>src. store16 (ucast (src ! 1) OR push_bit 8 (ucast (src ! 2))))"

definition Int24_To_Int16_Dither :: converter where
  "Int24_To_Int16_Dither = convert_dither 3 2 (\<lambda>src dither. store16 (ucast (signed_drop_bit 15 (signed_drop_bit 1 (int24 src) + dither))))"

definition Int24_To_Int8 :: converter where
  "Int24_To_Int8 = convert 3 1 (\<lambda>src. store8 (src ! 2))"

definition Int24_To_Int8_Dither :: converter where
  "Int24_To_Int8_Dither = convert_dither 3 1 (\<lambda>src dither. store8 (ucast (signed_drop_bit 23 (signed_drop_bit 1 (int24 src) + dither))))"

definition Int24_To_UInt8 :: converter where
  "Int24_To_UInt8 = convert 3 1 (\<lambda>src. store8 (src ! 2 + 128))"

definition Int24_To_UInt8_Dither :: converter where
  "Int24_To_UInt8_Dither = convert_nothing"

definition Int16_To_Int32 :: converter where
  "Int16_To_Int32 = convert 2 4 (\<lambda>src. store32 (push_bit 16 (scast (load16 src))))"

definition Int16_To_Int24 :: converter where
  "Int16_To_Int24 = convert 2 3 (\<lambda>src. (let temp = load16 src in [0, ucast temp, ucast (signed_drop_bit 8 temp)]))"

definition Int16_To_Int8 :: converter where
  "Int16_To_Int8 = convert 2 1 (\<lambda>src. store8 (ucast (signed_drop_bit 8 (load16 src))))"

definition Int16_To_Int8_Dither :: converter where
  "Int16_To_Int8_Dither = convert_nothing"

definition Int16_To_UInt8 :: converter where
  "Int16_To_UInt8 = convert 2 1 (\<lambda>src. store8 (ucast (signed_drop_bit 8 (scast (load16 src) :: u32) + 128)))"

definition Int16_To_UInt8_Dither :: converter where
  "Int16_To_UInt8_Dither = convert_nothing"

definition Int8_To_Int32 :: converter where
  "Int8_To_Int32 = convert 1 4 (\<lambda>src. store32 (push_bit 24 (scast (load8 src))))"

definition Int8_To_Int24 :: converter where
  "Int8_To_Int24 = convert 1 3 (\<lambda>src. [0, 0, load8 src])"

definition Int8_To_Int16 :: converter where
  "Int8_To_Int16 = convert 1 2 (\<lambda>src. store16 (ucast (push_bit 8 (scast (load8 src) :: u32))))"

definition Int8_To_UInt8 :: converter where
  "Int8_To_UInt8 = convert 1 1 (\<lambda>src. store8 (ucast ((scast (load8 src) :: u32) + 128)))"

definition UInt8_To_Int32 :: converter where
  "UInt8_To_Int32 = convert 1 4 (\<lambda>src. store32 (push_bit 24 (ucast (load8 src) - 128)))"

definition UInt8_To_Int24 :: converter where
  "UInt8_To_Int24 = convert 1 3 (\<lambda>src. [0, 0, ucast ((ucast (load8 src) :: u32) - 128)])"

definition UInt8_To_Int16 :: converter where
  "UInt8_To_Int16 = convert 1 2 (\<lambda>src. store16 (ucast (push_bit 8 ((ucast (load8 src) :: u32) - 128))))"

definition UInt8_To_Int8 :: converter where
  "UInt8_To_Int8 = convert 1 1 (\<lambda>src. store8 (ucast ((ucast (load8 src) :: u32) - 128)))"

definition Copy_8_To_8 :: converter where
  "Copy_8_To_8 = convert 1 1 (\<lambda>src. [src ! 0])"

definition Copy_16_To_16 :: converter where
  "Copy_16_To_16 = convert 2 2 (\<lambda>src. store16 (load16 src))"

definition Copy_24_To_24 :: converter where
  "Copy_24_To_24 = convert 3 3 (\<lambda>src. [src ! 0, src ! 1, src ! 2])"

definition Copy_32_To_32 :: converter where
  "Copy_32_To_32 = convert 4 4 (\<lambda>src. store32 (load32 src))"

section \<open>Choice of a converter\<close>

text \<open>PaSampleFormat and PaStreamFlags are unsigned long.\<close>

definition paFloat32 :: u64 where "paFloat32 = 0x00000001"
definition paInt32 :: u64 where "paInt32 = 0x00000002"
definition paInt24 :: u64 where "paInt24 = 0x00000004"
definition paInt16 :: u64 where "paInt16 = 0x00000008"
definition paInt8 :: u64 where "paInt8 = 0x00000010"
definition paUInt8 :: u64 where "paUInt8 = 0x00000020"
definition paCustomFormat :: u64 where "paCustomFormat = 0x00010000"
definition paNonInterleaved :: u64 where "paNonInterleaved = 0x80000000"
definition paClipOff :: u64 where "paClipOff = 0x00000001"
definition paDitherOff :: u64 where "paDitherOff = 0x00000002"

text \<open>The slots of the converter table.\<close>

datatype sample_format = Float32 | Int32 | Int24 | Int16 | Int8 | UInt8

datatype conv_variant = Plain | Dither | Clip | DitherClip

datatype conv_slot = Conv sample_format sample_format conv_variant | Copy nat

definition PA_SELECT_FORMAT :: "u64 \<Rightarrow> 'a option \<Rightarrow> 'a option \<Rightarrow> 'a option \<Rightarrow> 'a option \<Rightarrow> 'a option \<Rightarrow> 'a option \<Rightarrow> 'a option" where
  "PA_SELECT_FORMAT fmt f32 i32 i24 i16 i8 u8 =
     (let f = fmt AND NOT paNonInterleaved in
      if f = paFloat32 then f32
      else if f = paInt32 then i32
      else if f = paInt24 then i24
      else if f = paInt16 then i16
      else if f = paInt8 then i8
      else if f = paUInt8 then u8
      else None)"

definition PA_SELECT_CONVERTER_DITHER_CLIP :: "u64 \<Rightarrow> sample_format \<Rightarrow> sample_format \<Rightarrow> conv_slot option" where
  "PA_SELECT_CONVERTER_DITHER_CLIP flags source destination =
     (if flags AND paClipOff \<noteq> 0 then
        (if flags AND paDitherOff \<noteq> 0 then Some (Conv source destination Plain) else Some (Conv source destination Dither))
      else
        (if flags AND paDitherOff \<noteq> 0 then Some (Conv source destination Clip) else Some (Conv source destination DitherClip)))"

definition PA_SELECT_CONVERTER_DITHER :: "u64 \<Rightarrow> sample_format \<Rightarrow> sample_format \<Rightarrow> conv_slot option" where
  "PA_SELECT_CONVERTER_DITHER flags source destination =
     (if flags AND paDitherOff \<noteq> 0 then Some (Conv source destination Plain) else Some (Conv source destination Dither))"

definition PA_USE_CONVERTER :: "sample_format \<Rightarrow> sample_format \<Rightarrow> conv_slot option" where
  "PA_USE_CONVERTER source destination = Some (Conv source destination Plain)"

definition PA_UNITY_CONVERSION :: "nat \<Rightarrow> conv_slot option" where
  "PA_UNITY_CONVERSION wordlength = Some (Copy wordlength)"

text \<open>None is the null pointer.\<close>

definition PaUtil_SelectConverter :: "u64 \<Rightarrow> u64 \<Rightarrow> u64 \<Rightarrow> conv_slot option" where
  "PaUtil_SelectConverter sourceFormat destinationFormat flags =
     PA_SELECT_FORMAT sourceFormat
       (PA_SELECT_FORMAT destinationFormat
         (PA_UNITY_CONVERSION 32)
         (PA_SELECT_CONVERTER_DITHER_CLIP flags Float32 Int32)
         (PA_SELECT_CONVERTER_DITHER_CLIP flags Float32 Int24)
         (PA_SELECT_CONVERTER_DITHER_CLIP flags Float32 Int16)
         (PA_SELECT_CONVERTER_DITHER_CLIP flags Float32 Int8)
         (PA_SELECT_CONVERTER_DITHER_CLIP flags Float32 UInt8))
       (PA_SELECT_FORMAT destinationFormat
         (PA_USE_CONVERTER Int32 Float32)
         (PA_UNITY_CONVERSION 32)
         (PA_SELECT_CONVERTER_DITHER flags Int32 Int24)
         (PA_SELECT_CONVERTER_DITHER flags Int32 Int16)
         (PA_SELECT_CONVERTER_DITHER flags Int32 Int8)
         (PA_SELECT_CONVERTER_DITHER flags Int32 UInt8))
       (PA_SELECT_FORMAT destinationFormat
         (PA_USE_CONVERTER Int24 Float32)
         (PA_USE_CONVERTER Int24 Int32)
         (PA_UNITY_CONVERSION 24)
         (PA_SELECT_CONVERTER_DITHER flags Int24 Int16)
         (PA_SELECT_CONVERTER_DITHER flags Int24 Int8)
         (PA_SELECT_CONVERTER_DITHER flags Int24 UInt8))
       (PA_SELECT_FORMAT destinationFormat
         (PA_USE_CONVERTER Int16 Float32)
         (PA_USE_CONVERTER Int16 Int32)
         (PA_USE_CONVERTER Int16 Int24)
         (PA_UNITY_CONVERSION 16)
         (PA_SELECT_CONVERTER_DITHER flags Int16 Int8)
         (PA_SELECT_CONVERTER_DITHER flags Int16 UInt8))
       (PA_SELECT_FORMAT destinationFormat
         (PA_USE_CONVERTER Int8 Float32)
         (PA_USE_CONVERTER Int8 Int32)
         (PA_USE_CONVERTER Int8 Int24)
         (PA_USE_CONVERTER Int8 Int16)
         (PA_UNITY_CONVERSION 8)
         (PA_USE_CONVERTER Int8 UInt8))
       (PA_SELECT_FORMAT destinationFormat
         (PA_USE_CONVERTER UInt8 Float32)
         (PA_USE_CONVERTER UInt8 Int32)
         (PA_USE_CONVERTER UInt8 Int24)
         (PA_USE_CONVERTER UInt8 Int16)
         (PA_USE_CONVERTER UInt8 Int8)
         (PA_UNITY_CONVERSION 8))"

text \<open>The functions in the slots of paConverters, without those that read or write float samples.\<close>

definition paConverters :: "(conv_slot \<times> converter) list" where
  "paConverters = [
     (Conv Int32 Int24 Plain, Int32_To_Int24),
     (Conv Int32 Int24 Dither, Int32_To_Int24_Dither),
     (Conv Int32 Int16 Plain, Int32_To_Int16),
     (Conv Int32 Int16 Dither, Int32_To_Int16_Dither),
     (Conv Int32 Int8 Plain, Int32_To_Int8),
     (Conv Int32 Int8 Dither, Int32_To_Int8_Dither),
     (Conv Int32 UInt8 Plain, Int32_To_UInt8),
     (Conv Int32 UInt8 Dither, Int32_To_UInt8_Dither),
     (Conv Int24 Int32 Plain, Int24_To_Int32),
     (Conv Int24 Int16 Plain, Int24_To_Int16),
     (Conv Int24 Int16 Dither, Int24_To_Int16_Dither),
     (Conv Int24 Int8 Plain, Int24_To_Int8),
     (Conv Int24 Int8 Dither, Int24_To_Int8_Dither),
     (Conv Int24 UInt8 Plain, Int24_To_UInt8),
     (Conv Int24 UInt8 Dither, Int24_To_UInt8_Dither),
     (Conv Int16 Int32 Plain, Int16_To_Int32),
     (Conv Int16 Int24 Plain, Int16_To_Int24),
     (Conv Int16 Int8 Plain, Int16_To_Int8),
     (Conv Int16 Int8 Dither, Int16_To_Int8_Dither),
     (Conv Int16 UInt8 Plain, Int16_To_UInt8),
     (Conv Int16 UInt8 Dither, Int16_To_UInt8_Dither),
     (Conv Int8 Int32 Plain, Int8_To_Int32),
     (Conv Int8 Int24 Plain, Int8_To_Int24),
     (Conv Int8 Int16 Plain, Int8_To_Int16),
     (Conv Int8 UInt8 Plain, Int8_To_UInt8),
     (Conv UInt8 Int32 Plain, UInt8_To_Int32),
     (Conv UInt8 Int24 Plain, UInt8_To_Int24),
     (Conv UInt8 Int16 Plain, UInt8_To_Int16),
     (Conv UInt8 Int8 Plain, UInt8_To_Int8),
     (Copy 8, Copy_8_To_8),
     (Copy 16, Copy_16_To_16),
     (Copy 24, Copy_24_To_24),
     (Copy 32, Copy_32_To_32)]"

section \<open>The closest available format\<close>

definition paSampleFormatNotSupported :: u64 where
  "paSampleFormatNotSupported = word_of_int (-9994)"

partial_function (option) scan_better :: "u64 \<Rightarrow> u64 \<Rightarrow> u64 option" where
  "scan_better availableFormats result =
     (let r = drop_bit 1 result in
      if r AND availableFormats = 0 \<and> r \<noteq> 0 then scan_better availableFormats r else Some r)"

partial_function (option) scan_worse :: "u64 \<Rightarrow> u64 \<Rightarrow> u64 option" where
  "scan_worse availableFormats result =
     (let r = push_bit 1 result in
      if r AND availableFormats = 0 \<and> r \<noteq> paCustomFormat then scan_worse availableFormats r else Some r)"

declare scan_better.simps [code]
declare scan_worse.simps [code]

text \<open>None is a scan that does not end.\<close>

definition PaUtil_SelectClosestAvailableFormat :: "u64 \<Rightarrow> u64 \<Rightarrow> u64 option" where
  "PaUtil_SelectClosestAvailableFormat availableFormats fmt =
     (let fmt = fmt AND NOT paNonInterleaved;
          availableFormats = availableFormats AND NOT paNonInterleaved
      in if fmt AND availableFormats = 0 then do {
           result \<leftarrow> (if fmt \<noteq> 0x01 then scan_better availableFormats fmt else Some 0);
           (if result = 0 then do {
              result \<leftarrow> scan_worse availableFormats fmt;
              Some (if result AND availableFormats = 0 then paSampleFormatNotSupported else result)}
            else Some result)}
         else Some fmt)"

section \<open>Zeroers\<close>

primrec zero_loop :: "byte list \<Rightarrow> int \<Rightarrow> nat \<Rightarrow> int \<Rightarrow> byte list \<Rightarrow> byte list option" where
  "zero_loop z dstep 0 dp dest = Some dest"
| "zero_loop z dstep (Suc n) dp dest = do { dest' \<leftarrow> mem_wr dest dp z; zero_loop z dstep n (dp + dstep) dest' }"

type_synonym zeroer = "byte list \<Rightarrow> int \<Rightarrow> int \<Rightarrow> nat \<Rightarrow> byte list option"

definition ZeroU8 :: zeroer where "ZeroU8 dest dp ds cnt = zero_loop [128] ds cnt dp dest"
definition Zero8 :: zeroer where "Zero8 dest dp ds cnt = zero_loop [0] ds cnt dp dest"
definition Zero16 :: zeroer where "Zero16 dest dp ds cnt = zero_loop (store16 0) (2 * ds) cnt dp dest"
definition Zero24 :: zeroer where "Zero24 dest dp ds cnt = zero_loop [0, 0, 0] (3 * ds) cnt dp dest"
definition Zero32 :: zeroer where "Zero32 dest dp ds cnt = zero_loop (store32 0) (4 * ds) cnt dp dest"

definition PaUtil_SelectZeroer :: "u64 \<Rightarrow> zeroer option" where
  "PaUtil_SelectZeroer destinationFormat =
     PA_SELECT_FORMAT destinationFormat (Some Zero32) (Some Zero32) (Some Zero24) (Some Zero16) (Some Zero8) (Some ZeroU8)"

end
