(* ===== verification/ConvProps.thy ===== *)
theory ConvProps
  imports Converters
begin

text \<open>
  Properties of the sample converters: a narrowing converter undoes the widening one, the bounds of
  the dither generator and of dithered samples, and the choice of the closest available format.
\<close>


section \<open>Samples\<close>

lemmas bit_simps_conv = bit_or_iff bit_push_bit_iff bit_unsigned_iff bit_signed_iff bit_drop_bit_eq bit_signed_drop_bit_iff bit_word_ucast_iff

lemma load_store16: "load16 (store16 w) = w"
proof (rule bit_word_eqI)
  fix n assume "n < LENGTH(16)"
  then have "n < 16" by simp
  then show "bit (load16 (store16 w)) n = bit w n"
    by (cases "n < 8") (auto simp: load16_def store16_def bit_simps_conv)
qed

lemma load_store32: "load32 (store32 w) = w"
proof (rule bit_word_eqI)
  fix n assume "n < LENGTH(32)"
  then have n: "n < 32" by simp
  consider "n < 8" | "8 \<le> n" "n < 16" | "16 \<le> n" "n < 24" | "24 \<le> n" by linarith
  then show "bit (load32 (store32 w)) n = bit w n"
    using n by cases (auto simp: load32_def store32_def bit_simps_conv)
qed

lemma length_stores [simp]: "length (store8 a) = 1" "length (store16 b) = 2" "length (store32 c) = 4"
  by (simp_all add: store8_def store16_def store32_def)

lemma byte_bits: "(\<And>n. n < 8 \<Longrightarrow> bit x n = bit y n) \<Longrightarrow> x = (y :: byte)"
  by (rule bit_word_eqI) simp

lemma split16: "ucast (load16 [a, b]) = a" "ucast (signed_drop_bit 8 (load16 [a, b])) = b" "ucast (drop_bit 8 (load16 [a, b])) = b"
  by (rule byte_bits; auto simp: load16_def bit_simps_conv dest: bit_imp_le_length)+

lemma split24: "ucast (signed_drop_bit 8 (int24 [a, b, c])) = a" "ucast (signed_drop_bit 16 (int24 [a, b, c])) = b"
  "ucast (signed_drop_bit 24 (int24 [a, b, c])) = c"
  by (rule byte_bits; auto simp: int24_def bit_simps_conv dest: bit_imp_le_length)+

lemma n24_16: "ucast b OR push_bit 8 (ucast c) = load16 [b, c]"
  by (simp add: load16_def)

lemma s16_32: "ucast (signed_drop_bit 16 (push_bit 16 (scast (w :: u16)) :: u32)) = w"
  by (rule bit_word_eqI) (auto simp: bit_simps_conv)

lemma s8_32: "ucast (signed_drop_bit 24 (push_bit 24 (scast (w :: byte)) :: u32)) = w"
  by (rule byte_bits) (auto simp: bit_simps_conv)

lemma s8_16: "ucast (signed_drop_bit 8 (ucast (push_bit 8 (scast (w :: byte) :: u32)) :: u16)) = w"
  by (rule byte_bits) (auto simp: bit_simps_conv)

lemma u8_32: "ucast (signed_drop_bit 24 (push_bit 24 (ucast b - 128) :: u32) + 128) = (b :: byte)"
  by (rule byte_forall [of _ b]) code_simp

lemma u8_24: "ucast ((ucast b :: u32) - 128) + 128 = (b :: byte)"
  by (rule byte_forall [of _ b]) code_simp

lemma u8_16: "ucast (signed_drop_bit 8 (scast (ucast (push_bit 8 ((ucast (b :: byte) :: u32) - 128)) :: u16) :: u32) + 128) = b"
  by (rule byte_forall [of _ b]) code_simp

lemma u8_8: "ucast ((scast (ucast ((ucast (b :: byte) :: u32) - 128) :: byte) :: u32) + 128) = b"
  by (rule byte_forall [of _ b]) code_simp

lemma s8_u8: "ucast ((ucast (ucast ((scast (b :: byte) :: u32) + 128) :: byte) :: u32) - 128) = b"
  by (rule byte_forall [of _ b]) code_simp

lemma list2: "length bs = 2 \<Longrightarrow> \<exists>a b. bs = [a, b]"
  by (auto simp: numeral_2_eq_2 length_Suc_conv)

lemma list3: "length bs = 3 \<Longrightarrow> \<exists>a b c. bs = [a, b, c]"
  by (auto simp: numeral_3_eq_3 length_Suc_conv)

section \<open>Formats\<close>

definition fmt_code :: "sample_format \<Rightarrow> u64" where
  "fmt_code f = (case f of Float32 \<Rightarrow> paFloat32 | Int32 \<Rightarrow> paInt32 | Int24 \<Rightarrow> paInt24 | Int16 \<Rightarrow> paInt16 | Int8 \<Rightarrow> paInt8 | UInt8 \<Rightarrow> paUInt8)"

definition fmt_width :: "sample_format \<Rightarrow> nat" where
  "fmt_width f = (case f of Float32 \<Rightarrow> 4 | Int32 \<Rightarrow> 4 | Int24 \<Rightarrow> 3 | Int16 \<Rightarrow> 2 | Int8 \<Rightarrow> 1 | UInt8 \<Rightarrow> 1)"

lemmas fmt_consts = paFloat32_def paInt32_def paInt24_def paInt16_def paInt8_def paUInt8_def paNonInterleaved_def

text \<open>The narrower and the wider format of a pair without float samples.\<close>

definition widens :: "sample_format \<Rightarrow> sample_format \<Rightarrow> bool" where
  "widens s d \<longleftrightarrow> s \<noteq> d \<and> s \<noteq> Float32 \<and> d \<noteq> Float32 \<and> fmt_width s \<le> fmt_width d"

lemma select_fmt [simp]: "PA_SELECT_FORMAT (fmt_code f) a b c d e g =
    (case f of Float32 \<Rightarrow> a | Int32 \<Rightarrow> b | Int24 \<Rightarrow> c | Int16 \<Rightarrow> d | Int8 \<Rightarrow> e | UInt8 \<Rightarrow> g)"
  by (cases f) (simp_all add: PA_SELECT_FORMAT_def fmt_code_def fmt_consts)

definition selected :: "sample_format \<Rightarrow> sample_format \<Rightarrow> u64 \<Rightarrow> converter option" where
  "selected s d flags = Option.bind (PaUtil_SelectConverter (fmt_code s) (fmt_code d) flags) (map_of paConverters)"

lemmas select_defs = selected_def PaUtil_SelectConverter_def PA_USE_CONVERTER_def PA_SELECT_CONVERTER_DITHER_def paConverters_def

lemma selected_wide:
  "selected Int24 Int32 fl = Some Int24_To_Int32" "selected Int16 Int32 fl = Some Int16_To_Int32" "selected Int8 Int32 fl = Some Int8_To_Int32"
  "selected UInt8 Int32 fl = Some UInt8_To_Int32" "selected Int16 Int24 fl = Some Int16_To_Int24" "selected Int8 Int24 fl = Some Int8_To_Int24"
  "selected UInt8 Int24 fl = Some UInt8_To_Int24" "selected Int8 Int16 fl = Some Int8_To_Int16" "selected UInt8 Int16 fl = Some UInt8_To_Int16"
  "selected Int8 UInt8 fl = Some Int8_To_UInt8" "selected UInt8 Int8 fl = Some UInt8_To_Int8"
  by (simp_all add: select_defs)

lemma selected_narrow:
  assumes "fl AND paDitherOff \<noteq> 0"
  shows "selected Int32 Int24 fl = Some Int32_To_Int24" "selected Int32 Int16 fl = Some Int32_To_Int16" "selected Int32 Int8 fl = Some Int32_To_Int8"
    "selected Int32 UInt8 fl = Some Int32_To_UInt8" "selected Int24 Int16 fl = Some Int24_To_Int16" "selected Int24 Int8 fl = Some Int24_To_Int8"
    "selected Int24 UInt8 fl = Some Int24_To_UInt8" "selected Int16 Int8 fl = Some Int16_To_Int8" "selected Int16 UInt8 fl = Some Int16_To_UInt8"
  using assms by (simp_all add: select_defs)

definition inverse_conv :: "nat \<Rightarrow> nat \<Rightarrow> converter \<Rightarrow> converter \<Rightarrow> bool" where
  "inverse_conv sw dw c1 c2 \<longleftrightarrow> (\<exists>f g. c1 = convert sw dw f \<and> c2 = convert dw sw g \<and>
     (\<forall>bs. length bs = sw \<longrightarrow> length (f bs) = dw \<and> g (f bs) = bs) \<and> (\<forall>bs. length bs = dw \<longrightarrow> length (g bs) = sw))"

lemma inverse_convI:
  "(\<And>bs. length bs = sw \<Longrightarrow> length (f bs) = dw \<and> g (f bs) = bs) \<Longrightarrow> (\<And>bs. length (g bs) = sw) \<Longrightarrow>
   inverse_conv sw dw (convert sw dw f) (convert dw sw g)"
  unfolding inverse_conv_def by (intro exI [of _ f] exI [of _ g]) simp

lemma list1: "length bs = Suc 0 \<Longrightarrow> \<exists>a. bs = [a]"
  by (auto simp: length_Suc_conv)

lemmas sample_simps = load_store32 load_store16 load8_def store8_def split16 split24 s16_32 s8_32 s8_16 u8_32 u8_24 u8_16 u8_8 s8_u8 Let_def

lemma inverse_pairs:
  "inverse_conv 3 4 Int24_To_Int32 Int32_To_Int24"
  "inverse_conv 2 4 Int16_To_Int32 Int32_To_Int16"
  "inverse_conv 1 4 Int8_To_Int32 Int32_To_Int8"
  "inverse_conv 1 4 UInt8_To_Int32 Int32_To_UInt8"
  "inverse_conv 2 3 Int16_To_Int24 Int24_To_Int16"
  "inverse_conv 1 3 Int8_To_Int24 Int24_To_Int8"
  "inverse_conv 1 3 UInt8_To_Int24 Int24_To_UInt8"
  "inverse_conv 1 2 Int8_To_Int16 Int16_To_Int8"
  "inverse_conv 1 2 UInt8_To_Int16 Int16_To_UInt8"
  "inverse_conv 1 1 Int8_To_UInt8 UInt8_To_Int8"
  "inverse_conv 1 1 UInt8_To_Int8 Int8_To_UInt8"
  subgoal unfolding Int24_To_Int32_def Int32_To_Int24_def
    by (rule inverse_convI) (auto dest!: list3 simp: sample_simps)
  subgoal unfolding Int16_To_Int32_def Int32_To_Int16_def
    by (rule inverse_convI) (auto dest!: list2 simp: sample_simps store16_def)
  subgoal unfolding Int8_To_Int32_def Int32_To_Int8_def
    by (rule inverse_convI) (auto dest!: list1 simp: sample_simps)
  subgoal unfolding UInt8_To_Int32_def Int32_To_UInt8_def
    by (rule inverse_convI) (auto dest!: list1 simp: sample_simps)
  subgoal unfolding Int16_To_Int24_def Int24_To_Int16_def
    by (rule inverse_convI) (auto dest!: list2 simp: sample_simps n24_16 store16_def)
  subgoal unfolding Int8_To_Int24_def Int24_To_Int8_def
    by (rule inverse_convI) (auto dest!: list1 simp: sample_simps)
  subgoal unfolding UInt8_To_Int24_def Int24_To_UInt8_def
    by (rule inverse_convI) (auto dest!: list1 simp: sample_simps)
  subgoal unfolding Int8_To_Int16_def Int16_To_Int8_def
    by (rule inverse_convI) (auto dest!: list1 simp: sample_simps)
  subgoal unfolding UInt8_To_Int16_def Int16_To_UInt8_def
    by (rule inverse_convI) (auto dest!: list1 simp: sample_simps)
  subgoal unfolding Int8_To_UInt8_def UInt8_To_Int8_def
    by (rule inverse_convI) (auto dest!: list1 simp: sample_simps)
  subgoal unfolding UInt8_To_Int8_def Int8_To_UInt8_def
    by (rule inverse_convI) (auto dest!: list1 simp: sample_simps)
  done

lemma widen_pair:
  assumes "widens s d" "fl AND paDitherOff \<noteq> 0"
  shows "\<exists>c1 c2. selected s d fl = Some c1 \<and> selected d s fl = Some c2 \<and> inverse_conv (fmt_width s) (fmt_width d) c1 c2"
  using assms(1) selected_narrow [OF assms(2)]
  by (cases s; cases d; simp add: widens_def fmt_width_def selected_wide inverse_pairs inverse_pairs [unfolded One_nat_def])

section \<open>The loop\<close>

text \<open>Sample i of a buffer.\<close>

definition sample :: "byte list \<Rightarrow> int \<Rightarrow> int \<Rightarrow> nat \<Rightarrow> nat \<Rightarrow> byte list" where
  "sample mem p step w i = take w (drop (nat (p + int i * step)) mem)"

definition in_buffer :: "byte list \<Rightarrow> int \<Rightarrow> int \<Rightarrow> nat \<Rightarrow> nat \<Rightarrow> bool" where
  "in_buffer mem p step w n \<longleftrightarrow> list_all (\<lambda>i. 0 \<le> p + int i * step \<and> p + int i * step + int w \<le> int (length mem)) [0..<n]"

lemma in_buffer_iff: "in_buffer mem p step w n \<longleftrightarrow> (\<forall>i<n. 0 \<le> p + int i * step \<and> p + int i * step + int w \<le> int (length mem))"
  by (auto simp: in_buffer_def list_all_iff)

lemma in_buffer_Suc:
  "in_buffer mem p step w (Suc n) \<longleftrightarrow> 0 \<le> p \<and> p + int w \<le> int (length mem) \<and> in_buffer mem (p + step) step w n"
  unfolding in_buffer_iff by (auto simp: less_Suc_eq_0_disj algebra_simps)

lemma sample_Suc: "sample mem p step w (Suc i) = sample mem (p + step) step w i"
  by (simp add: sample_def algebra_simps)

lemma length_sample: "in_buffer mem p step w n \<Longrightarrow> i < n \<Longrightarrow> length (sample mem p step w i) = w"
  unfolding in_buffer_iff sample_def by auto

text \<open>A write leaves samples at a distance of at least their width alone.\<close>

lemma take_drop_wr_other:
  assumes "wr_blk mem o1 bs = Some mem'" "o2 + w \<le> o1 \<or> o1 + length bs \<le> o2" "o2 + w \<le> length mem"
  shows "take w (drop o2 mem') = take w (drop o2 mem)"
proof -
  have b: "o1 + length bs \<le> length mem" "mem' = take o1 mem @ bs @ drop (o1 + length bs) mem"
    using assms(1) by (auto simp: mem_simps)
  show ?thesis by (rule nth_equalityI) (use assms(2,3) b in \<open>auto simp: nth_append\<close>)
qed

lemma take_drop_wr_same:
  assumes "wr_blk mem o1 bs = Some mem'"
  shows "take (length bs) (drop o1 mem') = bs"
  using assms by (auto simp: mem_simps)

lemma conv_loop_ok:
  assumes f: "\<forall>bs d. length bs = sw \<and> I d \<longrightarrow> length (fst (f bs d)) = dw \<and> R bs (fst (f bs d)) \<and> I (snd (f bs d))"
  shows "in_buffer src sp sstep sw n \<Longrightarrow> in_buffer dest dp dstep dw n \<Longrightarrow> int dw \<le> \<bar>dstep\<bar> \<Longrightarrow> I dith \<Longrightarrow>
    \<exists>dest' dith'. conv_loop f sw src sstep dstep n sp dp dith dest = Some (dest', dith') \<and> length dest' = length dest \<and> I dith' \<and>
      (\<forall>i<n. R (sample src sp sstep sw i) (sample dest' dp dstep dw i)) \<and>
      (\<forall>q w. q + w \<le> length dest \<and> (\<forall>i<n. int (q + w) \<le> dp + int i * dstep \<or> dp + int i * dstep + int dw \<le> int q) \<longrightarrow>
         take w (drop q dest') = take w (drop q dest))"
proof (induction n arbitrary: sp dp dest dith)
  case (Suc n)
  have s0: "0 \<le> sp" "sp + int sw \<le> int (length src)" "in_buffer src (sp + sstep) sstep sw n"
    and d0: "0 \<le> dp" "dp + int dw \<le> int (length dest)" "in_buffer dest (dp + dstep) dstep dw n"
    using Suc.prems by (simp_all add: in_buffer_Suc)
  let ?s = "take sw (drop (nat sp) src)"
  have rd: "mem_rd src sp sw = Some ?s" using s0 by (simp add: mem_rd_def rd_blk_def)
  have ls: "length ?s = sw" using s0 by auto
  obtain r e where re: "f ?s dith = (r, e)" by fastforce
  have fl: "length r = dw" "R ?s r" "I e" using f [rule_format, of ?s dith] ls Suc.prems(4) re by auto
  have "nat dp + dw \<le> length dest" using d0 by linarith
  then obtain d1 where d1: "wr_blk dest (nat dp) r = Some d1" by (simp add: wr_blk_def fl)
  have ld: "length d1 = length dest" using length_wr_blk [OF d1] .
  have wr: "mem_wr dest dp r = Some d1" using d0 d1 by (simp add: mem_wr_def)
  have "in_buffer d1 (dp + dstep) dstep dw n" using d0(3) ld by (simp add: in_buffer_def)
  then obtain d2 e2 where d2: "conv_loop f sw src sstep dstep n (sp + sstep) (dp + dstep) e d1 = Some (d2, e2)"
    "length d2 = length d1" "I e2" "\<And>i. i < n \<Longrightarrow> R (sample src (sp + sstep) sstep sw i) (sample d2 (dp + dstep) dstep dw i)"
    "\<And>q w. q + w \<le> length d1 \<Longrightarrow> (\<And>i. i < n \<Longrightarrow> int (q + w) \<le> dp + dstep + int i * dstep \<or> dp + dstep + int i * dstep + int dw \<le> int q) \<Longrightarrow>
       take w (drop q d2) = take w (drop q d1)"
    using Suc.IH [OF s0(3) _ Suc.prems(3) fl(3)] by blast
  have far: "int (nat dp + dw) \<le> dp + dstep + int i * dstep \<or> dp + dstep + int i * dstep + int dw \<le> int (nat dp)" for i
  proof (cases "0 \<le> dstep")
    case True
    then have "0 \<le> int i * dstep" by simp
    then show ?thesis using True Suc.prems(3) d0(1) by linarith
  next
    case False
    then have "int i * dstep \<le> 0" by (simp add: mult_nonneg_nonpos)
    then show ?thesis using False Suc.prems(3) d0(1) by linarith
  qed
  have first: "take dw (drop (nat dp) d2) = r"
    using d2(5) [of "nat dp" dw] far take_drop_wr_same [OF d1] fl d0 ld by simp
  have "R (sample src sp sstep sw i) (sample d2 dp dstep dw i)" if "i < Suc n" for i
  proof (cases i)
    case 0
    then show ?thesis using first fl(2) by (simp add: sample_def)
  next
    case (Suc j)
    then show ?thesis using that d2(4) [of j] by (simp add: sample_Suc)
  qed
  moreover have "take w (drop q d2) = take w (drop q dest)"
    if q: "q + w \<le> length dest" "\<forall>i<Suc n. int (q + w) \<le> dp + int i * dstep \<or> dp + int i * dstep + int dw \<le> int q" for q w
  proof -
    have "int (q + w) \<le> dp \<or> dp + int dw \<le> int q" using q(2) [rule_format, of 0] by simp
    then have "q + w \<le> nat dp \<or> nat dp + length r \<le> q" using d0(1) fl by auto
    then have "take w (drop q d1) = take w (drop q dest)" by (rule take_drop_wr_other [OF d1 _ q(1)])
    moreover have "take w (drop q d2) = take w (drop q d1)"
    proof (rule d2(5))
      fix i assume "i < n"
      then show "int (q + w) \<le> dp + dstep + int i * dstep \<or> dp + dstep + int i * dstep + int dw \<le> int q"
        using q(2) [rule_format, of "Suc i"] by (simp add: algebra_simps)
    qed (use q(1) ld in simp)
    ultimately show ?thesis by simp
  qed
  ultimately show ?case using rd wr re d2(1,2,3) ld by auto
qed simp

lemma stride: "s \<noteq> 0 \<Longrightarrow> int w \<le> \<bar>int w * s\<bar>"
proof -
  assume "s \<noteq> 0"
  then have "1 \<le> \<bar>s\<bar>" by linarith
  then show ?thesis by (simp add: abs_mult mult_le_cancel_left1)
qed

lemma convert_ok:
  assumes "\<And>bs. length bs = sw \<Longrightarrow> length (f bs) = dw"
    and "in_buffer src sp (int sw * ss) sw n" "in_buffer dest dp (int dw * ds) dw n" "ds \<noteq> 0"
  shows "\<exists>dest'. convert sw dw f dest dp ds src sp ss n d = Some (dest', d) \<and> length dest' = length dest \<and>
    (\<forall>i<n. sample dest' dp (int dw * ds) dw i = f (sample src sp (int sw * ss) sw i))"
proof -
  have "\<forall>bs e. length bs = sw \<and> e = d \<longrightarrow> length (fst ((f bs, e))) = dw \<and> fst (f bs, e) = f bs \<and> snd (f bs, e) = d"
    using assms(1) by simp
  note loop = conv_loop_ok [where I = "\<lambda>e. e = d" and R = "\<lambda>bs r. r = f bs" and f = "\<lambda>s d. (f s, d)", OF this assms(2,3) stride [OF assms(4)] refl]
  show ?thesis using loop unfolding convert_def by blast
qed

lemma round_trip:
  assumes "inverse_conv sw dw c1 c2"
    and "in_buffer src sp (int sw * ss) sw n" "in_buffer mid mp (int dw * ms) dw n" "in_buffer out op (int sw * os) sw n"
    and "ms \<noteq> 0" "os \<noteq> 0"
  shows "\<exists>mid' out'. c1 mid mp ms src sp ss n d = Some (mid', d) \<and> c2 out op os mid' mp ms n d' = Some (out', d') \<and>
     (\<forall>i<n. sample out' op (int sw * os) sw i = sample src sp (int sw * ss) sw i)"
proof -
  obtain f g where c: "c1 = convert sw dw f" "c2 = convert dw sw g" "\<And>bs. length bs = sw \<Longrightarrow> length (f bs) = dw \<and> g (f bs) = bs"
    "\<And>bs. length bs = dw \<Longrightarrow> length (g bs) = sw" using assms(1) by (auto simp: inverse_conv_def)
  obtain mid' where m: "c1 mid mp ms src sp ss n d = Some (mid', d)" "length mid' = length mid"
    "\<And>i. i < n \<Longrightarrow> sample mid' mp (int dw * ms) dw i = f (sample src sp (int sw * ss) sw i)"
    using convert_ok [of sw f dw src sp ss n mid mp ms d] c(3) assms(2,3,5) unfolding c(1) by blast
  have "in_buffer mid' mp (int dw * ms) dw n" using assms(3) m(2) by (simp add: in_buffer_def)
  then obtain out' where o: "c2 out op os mid' mp ms n d' = Some (out', d')"
    "\<And>i. i < n \<Longrightarrow> sample out' op (int sw * os) sw i = g (sample mid' mp (int dw * ms) dw i)"
    using convert_ok [of dw g sw mid' mp ms n out op os d'] c(4) assms(4,6) unfolding c(2) by blast
  have "sample out' op (int sw * os) sw i = sample src sp (int sw * ss) sw i" if "i < n" for i
    using o(2) [OF that] m(3) [OF that] c(3) [OF length_sample [OF assms(2) that]] by simp
  then show ?thesis using m(1) o(1) by blast
qed

section \<open>Dither\<close>

lemma sint32: "- (2 ^ 31) \<le> k \<Longrightarrow> k < 2 ^ 31 \<Longrightarrow> sint (word_of_int k :: u32) = k"
  by (simp add: signed_of_int signed_take_bit_int_eq_self)

lemma sint32_bounds: "- (2 ^ 31) \<le> sint (w :: u32)" "sint (w :: u32) < 2 ^ 31"
  using sint_ge [of w] sint_lt [of w] by simp_all

lemma sint32_add: "- (2 ^ 31) \<le> sint a + sint b \<Longrightarrow> sint a + sint b < 2 ^ 31 \<Longrightarrow> sint (a + b :: u32) = sint a + sint b"
  using sint32 [of "sint a + sint b"] by simp

lemma sint32_diff: "- (2 ^ 31) \<le> sint a - sint b \<Longrightarrow> sint a - sint b < 2 ^ 31 \<Longrightarrow> sint (a - b :: u32) = sint a - sint b"
  using sint32 [of "sint a - sint b"] by simp

lemma sint_shift: "sint (signed_drop_bit n (w :: u32)) = sint w div 2 ^ n"
  by (simp add: sint_signed_drop_bit_eq drop_bit_eq_div)

text \<open>The invariant of the generator: the previous value is the sum of two 14-bit values.\<close>

definition dither_ok :: "dither \<Rightarrow> bool" where
  "dither_ok d \<longleftrightarrow> - 16384 \<le> sint (previous d) \<and> sint (previous d) \<le> 16382"

lemma dither_step:
  assumes "dither_ok d" "PaUtil_Generate16BitTriangularDither d = (x, d')"
  shows "dither_ok d'" "- 32766 \<le> sint x" "sint x \<le> 32766"
proof -
  define a where "a = signed_drop_bit pa_dither_shift (randSeed1 d * 196314165 + 907633515)"
  define b where "b = signed_drop_bit pa_dither_shift (randSeed2 d * 196314165 + 907633515)"
  have r: "- 8192 \<le> sint (signed_drop_bit pa_dither_shift (w :: u32))" "sint (signed_drop_bit pa_dither_shift w) \<le> 8191" for w
    using sint32_bounds [of w] by (simp_all add: sint_shift pa_dither_shift_def)
  have ab: "- 8192 \<le> sint a" "sint a \<le> 8191" "- 8192 \<le> sint b" "sint b \<le> 8191" using r by (simp_all add: a_def b_def)
  then have s: "sint (a + b) = sint a + sint b" by (intro sint32_add) auto
  have x: "x = a + b - previous d" "previous d' = a + b"
    using assms(2) by (auto simp: PaUtil_Generate16BitTriangularDither_def Let_def a_def b_def)
  show "dither_ok d'" using ab s x by (simp add: dither_ok_def)
  have "sint x = sint (a + b) - sint (previous d)"
    unfolding x(1) using assms(1) ab s by (intro sint32_diff) (auto simp: dither_ok_def)
  then show "- 32766 \<le> sint x" "sint x \<le> 32766" using assms(1) ab s by (auto simp: dither_ok_def)
qed

lemma dither_start: "dither_ok PaUtil_InitializeTriangularDitherState"
  by (simp add: dither_ok_def PaUtil_InitializeTriangularDitherState_def)

text \<open>The dithered sample before the cast to 16 bits.\<close>

lemma dither_sum:
  assumes "- 32766 \<le> sint x" "sint x \<le> 32766"
  shows "sint (signed_drop_bit 1 s + x :: u32) = sint s div 2 + sint x"
    "sint (signed_drop_bit 15 (signed_drop_bit 1 s + x)) = (sint s div 2 + sint x) div 2 ^ 15"
proof -
  have "sint (signed_drop_bit 1 s + x) = sint (signed_drop_bit 1 s) + sint x"
    using sint32_bounds [of s] assms by (intro sint32_add) (simp_all add: sint_shift)
  then show "sint (signed_drop_bit 1 s + x :: u32) = sint s div 2 + sint x" by (simp add: sint_shift)
  then show "sint (signed_drop_bit 15 (signed_drop_bit 1 s + x)) = (sint s div 2 + sint x) div 2 ^ 15"
    by (simp only: sint_shift)
qed

lemma div_near:
  fixes t x c :: int
  assumes "0 < c" "- c \<le> x" "x \<le> c"
  shows "\<bar>(t + x) div c - t div c\<bar> \<le> 1"
proof -
  have "(t + x) div c \<le> (t + c) div c" "(t - c) div c \<le> (t + x) div c"
    using assms by (intro zdiv_mono1; simp)+
  moreover have "(t + c) div c = t div c + 1" "(t - c) div c = t div c - 1"
    using div_add_self2 [of c t] div_add_self2 [of c "t - c"] assms(1) by simp_all
  ultimately show ?thesis unfolding abs_le_iff by linarith
qed

lemma dither_near:
  fixes s x :: int
  assumes "- 32766 \<le> x" "x \<le> 32766"
  shows "\<bar>(s div 2 + x) div 2 ^ 15 - s div 2 ^ 16\<bar> \<le> 1"
proof -
  have "s div 2 ^ 16 = s div (2 * 2 ^ 15)" by simp
  also have "\<dots> = (s div 2) div 2 ^ 15" by (rule zdiv_zmult2_eq) simp
  finally have e: "s div 2 ^ 16 = (s div 2) div 2 ^ 15" .
  show ?thesis unfolding e by (rule div_near) (use assms in simp_all)
qed

section \<open>The closest available format\<close>

lemma pow_and: "k < 64 \<Longrightarrow> ((2 :: u64) ^ k AND A = 0) \<longleftrightarrow> \<not> bit A k"
  by (simp add: and.commute [of _ A] and_exp_eq_0_iff_not_bit)

text \<open>The best available format below k, the first one above.\<close>

primrec best_below :: "u64 \<Rightarrow> nat \<Rightarrow> nat option" where
  "best_below A 0 = None"
| "best_below A (Suc k) = (if bit A k then Some k else best_below A k)"

lemma scan_better_pow:
  "k < 64 \<Longrightarrow> scan_better A (2 ^ k) = Some (case best_below A k of Some j \<Rightarrow> 2 ^ j | None \<Rightarrow> 0)"
proof (induction k)
  case 0
  then show ?case by (subst scan_better.simps) simp
next
  case (Suc k)
  have "drop_bit 1 ((2 :: u64) ^ Suc k) = 2 ^ k" using Suc.prems by (simp only: drop_bit_exp_eq) simp
  then show ?case using Suc pow_and [of k A] by (subst scan_better.simps) (simp add: Let_def)
qed

lemma scan_worse_zero: "scan_worse A x = Some y \<Longrightarrow> x \<noteq> 0"
proof (rule scan_worse.raw_induct [where P = "\<lambda>A x y. x \<noteq> 0"], goal_cases)
  case (1 scan A x y)
  show ?case
  proof
    assume "x = 0"
    then have "scan A 0 = Some y" using 1(3) by (auto simp: Let_def paCustomFormat_def split: if_splits)
    then show False using 1(2) by blast
  qed
qed

text \<open>The formats that a stream can ask for are the bits 0 to 15; the last one is followed by paCustomFormat.\<close>

primrec first_above :: "u64 \<Rightarrow> nat \<Rightarrow> nat \<Rightarrow> nat option" where
  "first_above A k 0 = None"
| "first_above A k (Suc n) = (if bit A k then Some k else first_above A (Suc k) n)"

lemma scan_worse_pow:
  "k + n = 16 \<Longrightarrow> 0 < n \<Longrightarrow>
   scan_worse A (2 ^ k) = Some (case first_above A (Suc k) n of Some j \<Rightarrow> 2 ^ j | None \<Rightarrow> paCustomFormat)"
proof (induction n arbitrary: k)
  case (Suc n)
  have p: "push_bit 1 ((2 :: u64) ^ k) = 2 ^ Suc k" by (simp add: push_bit_eq_mult)
  show ?case
  proof (cases n)
    case 0
    then have "Suc k = 16" using Suc.prems by simp
    then have "(2 :: u64) ^ Suc k = paCustomFormat" by (simp add: paCustomFormat_def)
    then show ?thesis using 0 pow_and [of "Suc k" A] \<open>Suc k = 16\<close>
      by (subst scan_worse.simps) (simp add: p paCustomFormat_def Let_def)
  next
    case (Suc m)
    then have k: "Suc k < 16" using Suc.prems by simp
    have c: "paCustomFormat = 2 ^ 16" by (simp add: paCustomFormat_def)
    have "bit ((2 :: u64) ^ Suc k) (Suc k)" "\<not> bit paCustomFormat (Suc k)"
      using k unfolding c by (simp_all only: bit_exp_iff possible_bit_word) auto
    then have "(2 :: u64) ^ Suc k \<noteq> paCustomFormat" by metis
    moreover have "scan_worse A (2 ^ k) = (if 2 ^ Suc k AND A = 0 \<and> 2 ^ Suc k \<noteq> paCustomFormat
        then scan_worse A (2 ^ Suc k) else Some (2 ^ Suc k))"
      by (subst scan_worse.simps) (simp only: p Let_def)
    ultimately show ?thesis using Suc.IH [of "Suc k"] Suc.prems Suc pow_and [of "Suc k" A] k
      by (auto simp del: power_Suc)
  qed
qed simp

text \<open>The formats of A with bits lo to hi.\<close>

definition offered :: "u64 \<Rightarrow> nat \<Rightarrow> nat \<Rightarrow> nat set" where
  "offered A lo hi = {j \<in> {lo..hi}. bit A j}"

lemma finite_offered [simp]: "finite (offered A lo hi)"
  by (simp add: offered_def)

lemma offered_ends: "lo \<le> hi \<Longrightarrow> \<not> bit A lo \<Longrightarrow> offered A lo hi = offered A (Suc lo) hi"
  "\<not> bit A (Suc hi) \<Longrightarrow> offered A lo (Suc hi) = offered A lo hi"
  by (auto simp: offered_def le_Suc_eq) (metis le_neq_implies_less Suc_leI)

lemma best_below_Max: "best_below A (Suc k) = (if offered A 0 k = {} then None else Some (Max (offered A 0 k)))"
proof (induction k)
  case 0
  have "offered A 0 0 = (if bit A 0 then {0} else {})" by (auto simp: offered_def)
  then show ?case by simp
next
  case (Suc k)
  show ?case
  proof (cases "bit A (Suc k)")
    case True
    then have "Max (offered A 0 (Suc k)) = Suc k" by (intro Max_eqI) (auto simp: offered_def)
    moreover have "Suc k \<in> offered A 0 (Suc k)" using True by (simp add: offered_def)
    ultimately show ?thesis using True by auto
  next
    case False
    then show ?thesis using Suc offered_ends(2) [of A k 0] by simp
  qed
qed

lemma first_above_Min: "first_above A k (Suc n) = (if offered A k (k + n) = {} then None else Some (Min (offered A k (k + n))))"
proof (induction n arbitrary: k)
  case 0
  have "offered A k k = (if bit A k then {k} else {})" by (auto simp: offered_def)
  then show ?case by simp
next
  case (Suc n)
  show ?case
  proof (cases "bit A k")
    case True
    then have "Min (offered A k (k + Suc n)) = k" by (intro Min_eqI) (auto simp: offered_def)
    moreover have "k \<in> offered A k (k + Suc n)" using True by (simp add: offered_def)
    ultimately show ?thesis using True by (auto simp del: add_Suc_right)
  next
    case False
    then have "offered A k (k + Suc n) = offered A (Suc k) (Suc k + n)" using offered_ends(1) [of k "k + Suc n" A] by simp
    then show ?thesis using False Suc [of "Suc k"] by (simp del: add_Suc add_Suc_right)
  qed
qed

lemma mask_fmt:
  assumes "k < 31"
  shows "(2 :: u64) ^ k AND NOT paNonInterleaved = 2 ^ k" "bit (A AND NOT paNonInterleaved) k = bit A k"
proof -
  have n: "paNonInterleaved = 2 ^ 31" by (simp add: paNonInterleaved_def)
  show "(2 :: u64) ^ k AND NOT paNonInterleaved = 2 ^ k"
    unfolding n by (rule bit_word_eqI) (use assms in \<open>auto simp: bit_and_iff bit_not_iff bit_exp_iff simp del: power_numeral\<close>)
  show "bit (A AND NOT paNonInterleaved) k = bit A k"
    unfolding n using assms by (auto simp: bit_and_iff bit_not_iff bit_exp_iff simp del: power_numeral)
qed

lemma offered_mask: "hi < 31 \<Longrightarrow> offered (A AND NOT paNonInterleaved) lo hi = offered A lo hi"
  using mask_fmt(2) by (auto simp: offered_def)

lemma closest_below:
  assumes "k < 16" "\<not> bit A k"
  shows "(case best_below (A AND NOT paNonInterleaved) k of Some j \<Rightarrow> (2 :: u64) ^ j | None \<Rightarrow> 0) =
    (if offered A 0 k = {} then 0 else 2 ^ Max (offered A 0 k))"
proof (cases k)
  case 0
  then show ?thesis using assms by (auto simp: offered_def)
next
  case (Suc m)
  then show ?thesis using assms offered_ends(2) [of A m 0] by (simp only: best_below_Max) (simp add: offered_mask)
qed

lemma closest_above:
  assumes "k < 16" "\<not> bit A k"
  shows "first_above (A AND NOT paNonInterleaved) (Suc k) (16 - k) =
    (if offered A k 16 = {} then None else Some (Min (offered A k 16)))"
proof -
  have "16 - k = Suc (15 - k)" "Suc k + (15 - k) = 16" using assms(1) by auto
  then show ?thesis using assms offered_ends(1) [of k 16 A] by (simp only: first_above_Min) (simp add: offered_mask)
qed

text \<open>For each of the formats 2^0 to 2^15, PaUtil\_SelectClosestAvailableFormat returns the highest offered bit up to the requested one if there is any, otherwise the lowest offered bit above it (paCustomFormat included), otherwise paSampleFormatNotSupported.\<close>

theorem closest_format_spec:
  assumes "k < 16"
  shows "PaUtil_SelectClosestAvailableFormat A (2 ^ k) = Some
    (if offered A 0 k \<noteq> {} then 2 ^ Max (offered A 0 k)
     else if offered A k 16 \<noteq> {} then 2 ^ Min (offered A k 16)
     else paSampleFormatNotSupported)"
proof (cases "bit A k")
  case True
  then have "Max (offered A 0 k) = k" by (intro Max_eqI) (auto simp: offered_def)
  moreover have "k \<in> offered A 0 k" using True by (simp add: offered_def)
  moreover have "(2 :: u64) ^ k AND (A AND NOT paNonInterleaved) \<noteq> 0"
    using True assms pow_and [of k "A AND NOT paNonInterleaved"] mask_fmt(2) [of k A] by simp
  ultimately show ?thesis using assms mask_fmt(1) [of k]
    by (auto simp: PaUtil_SelectClosestAvailableFormat_def Let_def)
next
  case False
  let ?A = "A AND NOT paNonInterleaved"
  have b: "bit ?A j = bit A j" if "j \<le> 16" for j using that by (intro mask_fmt) simp
  have n: "(2 :: u64) ^ k AND ?A = 0"
    using False assms pow_and [of k ?A] b [of k] by simp
  have better: "(if (2 :: u64) ^ k \<noteq> 0x01 then scan_better ?A (2 ^ k) else Some 0) =
      Some (if offered A 0 k = {} then 0 else 2 ^ Max (offered A 0 k))"
  proof (cases "k = 0")
    case True
    then show ?thesis using False by (auto simp: offered_def)
  next
    case 0: False
    have "(2 :: u64) ^ k \<noteq> 1"
    proof
      assume "(2 :: u64) ^ k = 1"
      then have "bit ((2 :: u64) ^ k) k = bit (1 :: u64) k" by simp
      then show False using 0 assms by (simp add: bit_exp_iff bit_1_iff)
    qed
    then show ?thesis using scan_better_pow [of k ?A] closest_below [OF assms False] assms by simp
  qed
  show ?thesis
  proof (cases "offered A 0 k = {}")
    case False
    have "Max (offered A 0 k) \<in> offered A 0 k" using False by (intro Max_in) auto
    then have "Max (offered A 0 k) \<le> k" by (simp add: offered_def)
    then have "(2 :: u64) ^ Max (offered A 0 k) \<noteq> 0" using assms by simp
    then show ?thesis using False mask_fmt(1) [of k] assms n better
      by (simp add: PaUtil_SelectClosestAvailableFormat_def Let_def)
  next
    case none: True
    define r where "r = (if offered A k 16 = {} then paCustomFormat else (2 :: u64) ^ Min (offered A k 16))"
    have w: "scan_worse ?A (2 ^ k) = Some r"
      using scan_worse_pow [of k "16 - k" ?A] assms closest_above [OF assms False] by (auto simp: r_def)
    have "r AND ?A = 0 \<longleftrightarrow> offered A k 16 = {}"
    proof (cases "offered A k 16 = {}")
      case False
      have "Min (offered A k 16) \<in> offered A k 16" using False by (intro Min_in) auto
      then have "Min (offered A k 16) \<le> 16" "bit A (Min (offered A k 16))" by (simp_all add: offered_def)
      then show ?thesis using False pow_and [of "Min (offered A k 16)" ?A] b by (simp add: r_def)
    next
      case True
      then have "16 \<notin> offered A k 16" by simp
      then have "\<not> bit A 16" using assms by (simp add: offered_def)
      moreover have "paCustomFormat = 2 ^ 16" by (simp add: paCustomFormat_def)
      ultimately show ?thesis using True pow_and [of 16 ?A] b [of 16] by (simp add: r_def)
    qed
    then show ?thesis using none mask_fmt(1) [of k] assms n better w
      by (simp add: PaUtil_SelectClosestAvailableFormat_def Let_def r_def)
  qed
qed

lemma offered_code: "offered A lo hi = set (filter (bit A) [lo..<Suc hi])"
  by (auto simp: offered_def)

theorem closest_format_spec_witness:
  "PaUtil_SelectClosestAvailableFormat 0x28 (2 ^ 1) = Some 8 \<and> PaUtil_SelectClosestAvailableFormat 0x2A (2 ^ 4) = Some 8"
proof -
  have "offered 0x28 0 1 = {}" "offered 0x28 1 16 = {3, 5}" "offered 0x2A 0 4 = {1, 3}"
    unfolding offered_code by code_simp+
  then show ?thesis using closest_format_spec [of 1 "0x28"] closest_format_spec [of 4 "0x2A"] by simp
qed

lemma scan_worse_none: "scan_worse A x = Some y \<Longrightarrow> A = 0 \<longrightarrow> (\<exists>n<16. bit x n)"
proof (rule scan_worse.raw_induct [where P = "\<lambda>A x y. A = 0 \<longrightarrow> (\<exists>n<16. bit x n)"], goal_cases)
  case (1 scan A x y)
  have c: "paCustomFormat = 2 ^ 16" by (simp add: paCustomFormat_def)
  have s: "bit (push_bit 1 x) n \<Longrightarrow> n < 17 \<Longrightarrow> \<exists>n<16. bit x n" for n
  proof (cases n)
    case (Suc m)
    assume "bit (push_bit 1 x) n" "n < 17"
    then have "bit x m" "m < 16" using Suc by (simp_all only: bit_push_bit_iff diff_Suc_1)
    then show ?thesis by blast
  qed (simp only: bit_push_bit_iff not_one_le_zero simp_thms)
  show ?case
  proof
    assume A: "A = 0"
    show "\<exists>n<16. bit x n"
    proof (cases "push_bit 1 x = paCustomFormat")
      case True
      then have "bit (push_bit 1 x) 16" unfolding c by (simp add: bit_exp_iff del: power_numeral push_bit_numeral)
      then show ?thesis by (rule s) simp
    next
      case False
      then have "scan A (push_bit 1 x) = Some y" using 1(3) A by (auto simp: Let_def)
      then obtain n where "n < 16" "bit (push_bit 1 x) n" using 1(2) A by blast
      then show ?thesis using s by force
    qed
  qed
qed

text \<open>PaUtil\_SelectClosestAvailableFormat does not return for format 0, whatever is available, nor for paCustomFormat when nothing is available.\<close>

theorem closest_format_endless:
  "PaUtil_SelectClosestAvailableFormat A 0 = None \<and> PaUtil_SelectClosestAvailableFormat 0 paCustomFormat = None"
proof
  have z: "scan_worse B 0 = None" for B using scan_worse_zero [of B 0] by (cases "scan_worse B 0") auto
  have "scan_better B 0 = Some 0" for B by (subst scan_better.simps) simp
  then show "PaUtil_SelectClosestAvailableFormat A 0 = None"
    by (simp add: PaUtil_SelectClosestAvailableFormat_def z)
  have c: "paCustomFormat = 2 ^ 16" by (simp add: paCustomFormat_def)
  have "scan_worse 0 (2 ^ 16) = None"
  proof (cases "scan_worse 0 (2 ^ 16)")
    case (Some y)
    then show ?thesis using scan_worse_none [of 0 "2 ^ 16" y] by (auto simp: bit_exp_iff simp del: power_numeral)
  qed
  moreover have "scan_better 0 (2 ^ 16) = Some 0" using scan_better_pow [of 16 0] by (simp add: best_below_Max offered_def eval_nat_numeral)
  moreover have "(2 :: u64) ^ 16 \<noteq> 1" "(2 :: u64) ^ 16 AND NOT paNonInterleaved = 2 ^ 16" by (simp, rule mask_fmt) simp
  ultimately show "PaUtil_SelectClosestAvailableFormat 0 paCustomFormat = None"
    unfolding c by (simp add: PaUtil_SelectClosestAvailableFormat_def Let_def del: power_numeral)
qed

section \<open>Conversions\<close>

text \<open>C19: For every pair of distinct integer formats, a conversion to a format that is not narrower and back, by the converters that PaUtil\_SelectConverter picks with dither off, restores every sample; buffers, offsets and strides (negative ones too) are arbitrary as long as the samples lie in the buffers and the destination strides are not 0.\<close>

theorem widen_roundtrip:
  assumes "widens s d" "flags AND paDitherOff \<noteq> 0"
    and "in_buffer src sp (int (fmt_width s) * ss) (fmt_width s) n"
    and "in_buffer mid mp (int (fmt_width d) * ms) (fmt_width d) n"
    and "in_buffer out op (int (fmt_width s) * os) (fmt_width s) n"
    and "ms \<noteq> 0" "os \<noteq> 0"
  shows "\<exists>widen narrow mid' out'. selected s d flags = Some widen \<and> selected d s flags = Some narrow \<and>
    widen mid mp ms src sp ss n gen = Some (mid', gen) \<and> narrow out op os mid' mp ms n gen = Some (out', gen) \<and>
    (\<forall>i<n. sample out' op (int (fmt_width s) * os) (fmt_width s) i = sample src sp (int (fmt_width s) * ss) (fmt_width s) i)"
proof -
  obtain c1 c2 where c: "selected s d flags = Some c1" "selected d s flags = Some c2" "inverse_conv (fmt_width s) (fmt_width d) c1 c2"
    using widen_pair [OF assms(1,2)] by blast
  show ?thesis using c(1,2) round_trip [OF c(3) assms(3-7), of gen gen] by blast
qed

theorem widen_roundtrip_witness:
  "\<exists>widen narrow mid' out'. selected UInt8 Int24 2 = Some widen \<and> selected Int24 UInt8 2 = Some narrow \<and>
    widen (replicate 6 0) 3 (-1) [200, 0, 7] 0 2 2 PaUtil_InitializeTriangularDitherState = Some (mid', PaUtil_InitializeTriangularDitherState) \<and>
    narrow [0, 0] 0 1 mid' 3 (-1) 2 PaUtil_InitializeTriangularDitherState = Some (out', PaUtil_InitializeTriangularDitherState) \<and>
    sample out' 0 1 1 0 = [200] \<and> sample out' 0 1 1 1 = [7]"
proof -
  have "widens UInt8 Int24" "(2 :: u64) AND paDitherOff \<noteq> 0" by (simp_all add: widens_def fmt_width_def paDitherOff_def)
  moreover have "in_buffer [200, 0, 7] 0 (int (fmt_width UInt8) * 2) (fmt_width UInt8) 2"
    "in_buffer (replicate 6 0) 3 (int (fmt_width Int24) * - 1) (fmt_width Int24) 2"
    "in_buffer [0, 0] 0 (int (fmt_width UInt8) * 1) (fmt_width UInt8) 2" by (simp_all add: in_buffer_def fmt_width_def upt_rec)
  ultimately show ?thesis
    using widen_roundtrip [of UInt8 Int24 2 "[200, 0, 7]" 0 2 2 "replicate 6 0" 3 "-1" "[0, 0]" 0 1 PaUtil_InitializeTriangularDitherState]
    by (simp add: fmt_width_def less_Suc_eq numeral_2_eq_2 sample_def) (metis One_nat_def)
qed

lemma sint_ucast16:
  fixes w :: u32
  assumes "- 32768 \<le> sint w" "sint w < 32768"
  shows "sint (ucast w :: u16) = sint w"
proof -
  have "(ucast w :: u16) = word_of_int (sint w)"
    by (rule bit_word_eqI) (simp add: bit_simps_conv bit_word_of_int_iff bit_sint_iff min_def)
  then have "sint (ucast w :: u16) = sint (word_of_int (sint w) :: u16)" by (rule arg_cong)
  also have "\<dots> = sint w" using assms by (simp only: signed_of_int) (simp add: signed_take_bit_int_eq_self)
  finally show ?thesis .
qed

lemma dither16_sample:
  assumes "dither_ok e" "PaUtil_Generate16BitTriangularDither e = (x, e')"
    and "- 32768 < sint (s :: u32) div 65536" "sint s div 65536 < 32767"
  shows "\<bar>sint (ucast (signed_drop_bit 15 (signed_drop_bit 1 s + x)) :: u16) - sint s div 65536\<bar> \<le> 1"
proof -
  note b = dither_step [OF assms(1,2)]
  let ?t = "sint (signed_drop_bit 15 (signed_drop_bit 1 s + x))"
  have t: "\<bar>?t - sint s div 65536\<bar> \<le> 1"
    using dither_sum(2) [OF b(2,3), of s] dither_near [OF b(2,3), of "sint s"] by simp
  moreover define q where "q = sint s div 65536"
  ultimately have "- 32768 \<le> ?t" "?t < 32768" using assms(3,4) unfolding q_def [symmetric] abs_le_iff by simp_all
  then have "sint (ucast (signed_drop_bit 15 (signed_drop_bit 1 s + x)) :: u16) = ?t" by (rule sint_ucast16)
  then show ?thesis using t by simp
qed

text \<open>C20: From a generator state that satisfies the invariant, Int32\_To\_Int16\_Dither converts any number of samples: it returns, the generator keeps its invariant, and each output is within 1 of the truncated input, as long as that is not at the ends of the 16-bit range.\<close>

theorem dither16_bounds:
  assumes "dither_ok gen" "in_buffer src sp (4 * ss) 4 n" "in_buffer dest dp (2 * ds) 2 n" "ds \<noteq> 0"
  shows "\<exists>dest' gen'. Int32_To_Int16_Dither dest dp ds src sp ss n gen = Some (dest', gen') \<and> dither_ok gen' \<and>
    (\<forall>i<n. let s = sint (load32 (sample src sp (4 * ss) 4 i)) div 65536 in
       - 32768 < s \<and> s < 32767 \<longrightarrow> \<bar>sint (load16 (sample dest' dp (2 * ds) 2 i)) - s\<bar> \<le> 1)"
proof -
  let ?f = "\<lambda>s (d :: dither). let (x, d') = PaUtil_Generate16BitTriangularDither d
      in (store16 (ucast (signed_drop_bit 15 (signed_drop_bit 1 (load32 s) + x))), d')"
  let ?R = "\<lambda>s r. - 32768 < sint (load32 s) div 65536 \<and> sint (load32 s) div 65536 < 32767 \<longrightarrow>
      \<bar>sint (load16 r) - sint (load32 s) div 65536\<bar> \<le> 1"
  have "\<forall>bs d. length bs = 4 \<and> dither_ok d \<longrightarrow> length (fst (?f bs d)) = 2 \<and> ?R bs (fst (?f bs d)) \<and> dither_ok (snd (?f bs d))"
  proof (intro allI impI)
    fix bs :: "byte list" and d assume "length bs = 4 \<and> dither_ok d"
    moreover obtain x d' where g: "PaUtil_Generate16BitTriangularDither d = (x, d')" by fastforce
    ultimately show "length (fst (?f bs d)) = 2 \<and> ?R bs (fst (?f bs d)) \<and> dither_ok (snd (?f bs d))"
      using dither_step(1) [OF _ g] dither16_sample [OF _ g, of "load32 bs"] by (simp add: load_store16)
  qed
  from conv_loop_ok [where I = dither_ok and R = ?R and f = ?f, OF this _ _ _ assms(1), of src sp "4 * ss" n dest dp "2 * ds"]
  show ?thesis using assms stride [OF assms(4), of 2]
    unfolding Int32_To_Int16_Dither_def convert_dither_def by (simp add: Let_def) blast
qed

theorem dither16_bounds_witness:
  "\<exists>dest' gen'. Int32_To_Int16_Dither [0, 0] 0 1 [0, 0, 200, 1] 0 1 1 PaUtil_InitializeTriangularDitherState = Some (dest', gen') \<and>
     dither_ok gen' \<and> \<bar>sint (load16 (sample dest' 0 2 2 0)) - 456\<bar> \<le> 1"
proof -
  have "in_buffer [0, 0, 200, 1] 0 (4 * 1) 4 1" "in_buffer [0, 0] 0 (2 * 1) 2 1" by (simp_all add: in_buffer_def)
  moreover have "sint (load32 (sample [0, 0, 200, 1] 0 (4 * 1) 4 0)) div 65536 = 456" by (simp add: sample_def) code_simp
  ultimately show ?thesis
    using dither16_bounds [of PaUtil_InitializeTriangularDitherState "[0, 0, 200, 1]" 0 1 1 "[0, 0]" 0 1] dither_start by (auto simp: Let_def)
qed

text \<open>At full scale the dither wraps: from the initial state Int32\_To\_Int16\_Dither turns the largest sample into the smallest one.\<close>

theorem dither16_full_scale:
  "\<exists>gen'. Int32_To_Int16_Dither [0, 0] 0 1 (store32 0x7FFFFFFF) 0 1 1 PaUtil_InitializeTriangularDitherState = Some (store16 0x8000, gen') \<and>
     sint (0x8000 :: u16) = - 32768 \<and> sint (0x7FFFFFFF :: u32) div 65536 = 32767"
proof -
  have "map_option fst (Int32_To_Int16_Dither [0, 0] 0 1 (store32 0x7FFFFFFF) 0 1 1 PaUtil_InitializeTriangularDitherState) = Some (store16 0x8000)"
    by code_simp
  moreover have "sint (0x8000 :: u16) = - 32768" "sint (0x7FFFFFFF :: u32) div 65536 = 32767" by simp_all
  ultimately show ?thesis by auto
qed

text \<open>With dither on, PaUtil\_SelectConverter picks for five pairs of formats a converter that leaves the destination as it was.\<close>

theorem dither_unimplemented:
  assumes "flags AND paDitherOff = 0"
  shows "list_all (\<lambda>(s, d). \<exists>c. selected s d flags = Some c \<and> (\<forall>dest dp ds src sp ss n gen. c dest dp ds src sp ss n gen = Some (dest, gen)))
    [(Int32, Int24), (Int32, UInt8), (Int24, UInt8), (Int16, Int8), (Int16, UInt8)]"
proof -
  have c: "selected Int32 Int24 flags = Some Int32_To_Int24_Dither" "selected Int32 UInt8 flags = Some Int32_To_UInt8_Dither"
    "selected Int24 UInt8 flags = Some Int24_To_UInt8_Dither" "selected Int16 Int8 flags = Some Int16_To_Int8_Dither"
    "selected Int16 UInt8 flags = Some Int16_To_UInt8_Dither"
    using assms by (simp_all add: select_defs)
  show ?thesis
    by (simp add: c) (simp add: Int32_To_Int24_Dither_def Int32_To_UInt8_Dither_def Int24_To_UInt8_Dither_def
      Int16_To_Int8_Dither_def Int16_To_UInt8_Dither_def convert_nothing_def)
qed

theorem dither_unimplemented_witness:
  "list_all (\<lambda>(s, d). \<exists>c. selected s d 0 = Some c \<and> (\<forall>dest dp ds src sp ss n gen. c dest dp ds src sp ss n gen = Some (dest, gen)))
    [(Int32, Int24), (Int32, UInt8), (Int24, UInt8), (Int16, Int8), (Int16, UInt8)]"
  by (rule dither_unimplemented) simp

end
