(* ===== verification/Fnmatch.thy ===== *)
theory Fnmatch
  imports Cstr
begin

text \<open>
  Wildcard matching, todo-later/libgit2/src/fnmatch.c.  Pattern and string are C strings, lists
  of bytes without NUL; the NUL is what hd0 finds at the end.  The two pointers are the rest of the
  list from them on; the byte before the string pointer is kept beside it, None where the string
  pointer is still stringstart.
\<close>

unbundle bit_operations_syntax

definition FNM_NOMATCH :: int where "FNM_NOMATCH = 1"
definition FNM_NORES :: int where "FNM_NORES = 3"
definition FNM_NOESCAPE :: u32 where "FNM_NOESCAPE = 0x01"
definition FNM_PATHNAME :: u32 where "FNM_PATHNAME = 0x02"
definition FNM_PERIOD :: u32 where "FNM_PERIOD = 0x04"
definition FNM_LEADING_DIR :: u32 where "FNM_LEADING_DIR = 0x08"
definition FNM_CASEFOLD :: u32 where "FNM_CASEFOLD = 0x10"

text \<open>(char)tolower((unsigned char)c).\<close>

definition lower_char :: "byte \<Rightarrow> byte" where
  "lower_char c = word_of_int (to_lower (uint c))"

section \<open>Bracket expressions\<close>

datatype range_result = RANGE_ERROR | RANGE_NOMATCH | RANGE_MATCH "byte list"

text \<open>The loop over the list in brackets; c is the byte that the loop has read and pattern what
  follows it.  The result is the final ok and the pattern after the bracket, or the early return.\<close>

function range_loop :: "byte \<Rightarrow> u32 \<Rightarrow> byte \<Rightarrow> byte list \<Rightarrow> bool \<Rightarrow> range_result + bool \<times> byte list" where
  "range_loop test flags c pattern ok =
     (let (c, pattern) = (if c = 92 \<and> flags AND FNM_NOESCAPE = 0 then (hd0 pattern, tl pattern) else (c, pattern)) in
      if c = 0 then Inl RANGE_ERROR
      else if c = 47 \<and> flags AND FNM_PATHNAME \<noteq> 0 then Inl RANGE_NOMATCH
      else
        let c = (if flags AND FNM_CASEFOLD \<noteq> 0 then lower_char c else c) in
        if hd0 pattern = 45 \<and> hd0 (tl pattern) \<noteq> 0 \<and> hd0 (tl pattern) \<noteq> 93 then
          let c2 = hd0 (tl pattern);
              pattern = drop 2 pattern;
              (c2, pattern) = (if c2 = 92 \<and> flags AND FNM_NOESCAPE = 0 then (hd0 pattern, tl pattern) else (c2, pattern)) in
          if c2 = 0 then Inl RANGE_ERROR
          else
            let c2 = (if flags AND FNM_CASEFOLD \<noteq> 0 then lower_char c2 else c2);
                ok = (if schar c \<le> schar test \<and> schar test \<le> schar c2 then True else ok);
                c = hd0 pattern;
                pattern' = tl pattern in
            if c \<noteq> 93 then range_loop test flags c pattern' ok else Inr (ok, pattern')
        else
          let ok = (if c = test then True else ok);
              c = hd0 pattern;
              pattern' = tl pattern in
          if c \<noteq> 93 then range_loop test flags c pattern' ok else Inr (ok, pattern'))"
  by pat_completeness auto

lemma hd0_nonzero: "hd0 xs \<noteq> 0 \<Longrightarrow> xs = hd0 xs # tl xs"
  by (cases xs) (simp_all add: hd0_def)

lemma hd0_eq: "hd0 xs = c \<Longrightarrow> c \<noteq> 0 \<Longrightarrow> xs = c # tl xs"
  using hd0_nonzero by auto

lemma length_tl0: "hd0 xs \<noteq> 0 \<Longrightarrow> length (tl xs) < length xs"
  by (cases xs) simp_all

termination range_loop
proof (relation "measure (\<lambda>(test, flags, c, pattern, ok). length pattern + of_bool (c \<noteq> 0))", goal_cases)
  case 1
  then show ?case by simp
next
  case (2 test flags c pattern ok x c' p x2 x3 x4 c2 p2 x5 x6 x7 x8)
  then show ?case by (cases pattern; cases p; cases p2; auto split: if_splits simp: hd0_def split: list.splits)
next
  case (3 test flags c pattern ok x c' p x2 x3 x4 x5)
  then show ?case by (cases pattern; cases p; auto split: if_splits simp: hd0_def split: list.splits)
qed

declare range_loop.simps [simp del]

lemma range_loop_result:
  "range_loop test flags c pattern ok = r \<Longrightarrow>
     (case r of Inl e \<Rightarrow> e = RANGE_ERROR \<or> e = RANGE_NOMATCH | Inr (ok', newp) \<Rightarrow> length newp \<le> length pattern)"
proof (induction test flags c pattern ok rule: range_loop.induct)
  case (1 test flags c pattern ok)
  obtain c' p where cp: "(if c = 92 \<and> flags AND FNM_NOESCAPE = 0 then (hd0 pattern, tl pattern) else (c, pattern)) = (c', p)"
    by fastforce
  obtain d q where dq: "(if hd0 (tl p) = 92 \<and> flags AND FNM_NOESCAPE = 0 then (hd0 (drop 2 p), tl (drop 2 p)) else (hd0 (tl p), drop 2 p)) = (d, q)"
    by fastforce
  have "length p \<le> length pattern" "length q \<le> length p" using cp dq by (auto split: if_splits)
  then show ?case
    using 1(3) 1(1) [OF cp [symmetric] refl _ _ refl _ refl refl dq [symmetric] refl _ refl refl refl refl] 1(2) [OF cp [symmetric] refl _ _ refl _ refl refl refl]
    by (subst (asm) range_loop.simps) (auto simp only: cp dq Let_def prod.case sum.simps prod.inject split: if_splits, auto split: sum.splits prod.splits)
qed

definition rangematch :: "byte list \<Rightarrow> byte \<Rightarrow> u32 \<Rightarrow> range_result" where
  "rangematch pattern test flags =
     (let negate = (hd0 pattern = 33 \<or> hd0 pattern = 94);
          pattern = (if negate then tl pattern else pattern);
          test = (if flags AND FNM_CASEFOLD \<noteq> 0 then lower_char test else test)
      in case range_loop test flags (hd0 pattern) (tl pattern) False of
           Inl e \<Rightarrow> e
         | Inr (ok, newp) \<Rightarrow> (if ok = negate then RANGE_NOMATCH else RANGE_MATCH newp))"

lemma rangematch_length: "rangematch pattern test flags = RANGE_MATCH newp \<Longrightarrow> length newp \<le> length pattern"
  by (auto simp: rangematch_def Let_def split: sum.splits if_splits dest!: range_loop_result)

section \<open>The matcher\<close>

text \<open>A leading period that FNM\_PERIOD reserves; prev is the byte before the string pointer.\<close>

definition fnm_hidden :: "u32 \<Rightarrow> byte option \<Rightarrow> byte list \<Rightarrow> bool" where
  "fnm_hidden flags prev string =
     (hd0 string = 46 \<and> flags AND FNM_PERIOD \<noteq> 0 \<and> (prev = None \<or> flags AND FNM_PATHNAME \<noteq> 0 \<and> prev = Some 47))"

text \<open>The test of an ordinary character.\<close>

definition fnm_text :: "u32 \<Rightarrow> byte \<Rightarrow> byte \<Rightarrow> bool" where
  "fnm_text flags c x = (c = x \<or> flags AND FNM_CASEFOLD \<noteq> 0 \<and> to_lower (uint c) = to_lower (uint x))"

text \<open>fnm\_loop is the loop over the pattern, fnm\_star the loop that tries what follows a star at every
  suffix of the string; recurs is the count after its decrement.\<close>

function fnm_loop :: "nat \<Rightarrow> u32 \<Rightarrow> byte list \<Rightarrow> byte option \<Rightarrow> byte list \<Rightarrow> int"
  and fnm_star :: "nat \<Rightarrow> u32 \<Rightarrow> byte list \<Rightarrow> byte list \<Rightarrow> int"
  and p_fnmatchx :: "byte list \<Rightarrow> byte list \<Rightarrow> u32 \<Rightarrow> nat \<Rightarrow> int" where
  "fnm_loop recurs flags pattern prev string =
     (let c = hd0 pattern; pattern' = tl pattern;
          pathname = (flags AND FNM_PATHNAME \<noteq> 0) in
      if c = 0 then
        (if flags AND FNM_LEADING_DIR \<noteq> 0 \<and> hd0 string = 47 then 0
         else if hd0 string = 0 then 0 else FNM_NOMATCH)
      else if c = 63 then
        (if hd0 string = 0 then FNM_NOMATCH
         else if hd0 string = 47 \<and> pathname then FNM_NOMATCH
         else if fnm_hidden flags prev string then FNM_NOMATCH
         else fnm_loop recurs flags pattern' (Some (hd0 string)) (tl string))
      else if c = 42 then
        (let pattern2 = dropWhile (\<lambda>c. c = 42) pattern';
             c = hd0 pattern2 in
         if fnm_hidden flags prev string then FNM_NOMATCH
         else if c = 0 then
           (if pathname then (if flags AND FNM_LEADING_DIR \<noteq> 0 \<or> 47 \<notin> set string then 0 else FNM_NOMATCH)
            else 0)
         else if c = 47 \<and> pathname then
           (if 47 \<notin> set string then FNM_NOMATCH
            else
              let skipped = takeWhile (\<lambda>c. c \<noteq> 47) string
              in fnm_loop recurs flags pattern2 (if skipped = [] then prev else Some (last skipped)) (dropWhile (\<lambda>c. c \<noteq> 47) string))
         else fnm_star recurs flags pattern2 string)
      else if c = 91 then
        (if hd0 string = 0 then FNM_NOMATCH
         else if hd0 string = 47 \<and> pathname then FNM_NOMATCH
         else if fnm_hidden flags prev string then FNM_NOMATCH
         else
           case rangematch pattern' (hd0 string) flags of
             RANGE_ERROR \<Rightarrow>
               (if fnm_text flags c (hd0 string) then fnm_loop recurs flags pattern' (Some (hd0 string)) (tl string) else FNM_NOMATCH)
           | RANGE_MATCH newp \<Rightarrow> fnm_loop recurs flags newp (Some (hd0 string)) (tl string)
           | RANGE_NOMATCH \<Rightarrow> FNM_NOMATCH)
      else if c = 92 \<and> flags AND FNM_NOESCAPE = 0 then
        (let (c, pattern2) = (if hd0 pattern' = 0 then (92, pattern') else (hd0 pattern', tl pattern')) in
         if fnm_text flags c (hd0 string) then fnm_loop recurs flags pattern2 (Some (hd0 string)) (tl string) else FNM_NOMATCH)
      else if fnm_text flags c (hd0 string) then fnm_loop recurs flags pattern' (Some (hd0 string)) (tl string)
      else FNM_NOMATCH)"
| "fnm_star recurs flags pattern string =
     (if hd0 string = 0 then FNM_NOMATCH
      else
        let test = hd0 string;
            e = p_fnmatchx pattern string (flags AND NOT FNM_PERIOD) recurs in
        if e \<noteq> FNM_NOMATCH then e
        else if test = 47 \<and> flags AND FNM_PATHNAME \<noteq> 0 then FNM_NOMATCH
        else fnm_star recurs flags pattern (tl string))"
| "p_fnmatchx pattern string flags recurs =
     (if recurs = 0 then FNM_NORES else fnm_loop (recurs - 1) flags pattern None string)"
  by pat_completeness auto

lemma shorter_iff [simp]: "length p - Suc 0 < length p \<longleftrightarrow> p \<noteq> []" "length p - Suc (Suc 0) < length p \<longleftrightarrow> p \<noteq> []"
  by (cases p; simp)+

lemma length_dropWhile_tl: "hd0 pattern \<noteq> 0 \<Longrightarrow> length (dropWhile P (tl pattern)) < length pattern"
  using length_dropWhile_le [of P "tl pattern"] length_tl0 [of pattern] by linarith

termination fnm_loop
proof (relation "measures [\<lambda>x. (case x of Inl (r, f, p, v, s) \<Rightarrow> r | Inr (Inl (r, f, p, s)) \<Rightarrow> r | Inr (Inr (p, s, f, r)) \<Rightarrow> r),
     \<lambda>x. (case x of Inl (r, f, p, v, s) \<Rightarrow> Suc (length p) | Inr (Inl (r, f, p, s)) \<Rightarrow> Suc (length p) | Inr (Inr (p, s, f, r)) \<Rightarrow> 0),
     \<lambda>x. (case x of Inl (r, f, p, v, s) \<Rightarrow> length s | Inr (Inl (r, f, p, s)) \<Rightarrow> length s | Inr (Inr (p, s, f, r)) \<Rightarrow> length s)]", goal_cases)
qed (auto simp: length_tl0 dest!: rangematch_length split: if_splits intro: length_dropWhile_tl)

declare fnm_loop.simps [simp del] fnm_star.simps [simp del] p_fnmatchx.simps [simp del]

definition p_fnmatch :: "byte list \<Rightarrow> byte list \<Rightarrow> u32 \<Rightarrow> int" where
  "p_fnmatch pattern string flags = p_fnmatchx pattern string flags 64"

end
