(* ===== verification/FnmatchProps.thy ===== *)
theory FnmatchProps
  imports Fnmatch
begin

text \<open>
  The meaning of a wildcard pattern, as a list of tokens and the strings they stand for, and the
  proof that the matcher decides it.
\<close>


section \<open>Patterns as tokens\<close>

text \<open>What a pattern means, apart from how it is matched: one character, any run of characters, a character
  of a list of ranges (or not of them), a given character, and a bracket that never matches.\<close>

datatype glob_token = One | Many | Class bool "(byte \<times> byte) list" | Lit byte | Never

text \<open>One possibly escaped character and what follows it; NUL at the end.\<close>

definition char_at :: "u32 \<Rightarrow> byte list \<Rightarrow> byte \<times> byte list" where
  "char_at flags s = (if hd0 s = 92 \<and> flags AND FNM_NOESCAPE = 0 then (hd0 (tl s), tl (tl s)) else (hd0 s, tl s))"

definition fold_case :: "u32 \<Rightarrow> byte \<Rightarrow> byte" where
  "fold_case flags c = (if flags AND FNM_CASEFOLD \<noteq> 0 then lower_char c else c)"

datatype bracket = Unclosed | Slash | Ranges "(byte \<times> byte) list" "byte list"

primrec add_range :: "byte \<times> byte \<Rightarrow> bracket \<Rightarrow> bracket" where
  "add_range r Unclosed = Unclosed"
| "add_range r Slash = Slash"
| "add_range r (Ranges rs rest) = Ranges (r # rs) rest"

function bracket_list :: "u32 \<Rightarrow> byte list \<Rightarrow> bracket" where
  "bracket_list flags s =
     (let (c, s1) = char_at flags s in
      if c = 0 then Unclosed
      else if c = 47 \<and> flags AND FNM_PATHNAME \<noteq> 0 then Slash
      else
        let (d, s2) = (if hd0 s1 = 45 \<and> hd0 (tl s1) \<noteq> 0 \<and> hd0 (tl s1) \<noteq> 93 then char_at flags (tl s1) else (c, s1)) in
        if d = 0 then Unclosed
        else if hd0 s2 = 93 then Ranges [(fold_case flags c, fold_case flags d)] (tl s2)
        else add_range (fold_case flags c, fold_case flags d) (bracket_list flags s2))"
  by pat_completeness auto

lemma char_at_length: "char_at flags s = (c, s') \<Longrightarrow> length s' \<le> length s \<and> (c \<noteq> 0 \<longrightarrow> length s' < length s)"
  by (cases s; cases "tl s") (auto simp: char_at_def split: if_splits)

termination bracket_list
proof (relation "measure (\<lambda>(flags, s). length s)", goal_cases)
  case (2 flags s p c s1 q d s2)
  then have "char_at flags s = (c, s1)" "c \<noteq> 0" by simp_all
  moreover have "char_at flags (tl s1) = (d, s2) \<or> (c, s1) = (d, s2)" using 2(5,6) by (metis (full_types))
  moreover have "length (tl s1) \<le> length s1" by simp
  ultimately show ?case using char_at_length [of flags s c s1] char_at_length [of flags "tl s1" d s2]
    by (auto simp del: length_tl)
qed simp

declare bracket_list.simps [simp del]

definition in_ranges :: "byte \<Rightarrow> (byte \<times> byte) list \<Rightarrow> bool" where
  "in_ranges x rs = list_ex (\<lambda>(a, b). schar a \<le> schar x \<and> schar x \<le> schar b) rs"

lemma range_loop_bracket:
  "range_loop test flags (hd0 s) (tl s) ok =
     (case bracket_list flags s of Unclosed \<Rightarrow> Inl RANGE_ERROR | Slash \<Rightarrow> Inl RANGE_NOMATCH
      | Ranges rs rest \<Rightarrow> Inr (ok \<or> in_ranges test rs, rest))"
proof (induction flags s arbitrary: ok rule: bracket_list.induct)
  case (1 flags s)
  obtain c s1 where c: "char_at flags s = (c, s1)" by fastforce
  then have c': "(if hd0 s = 92 \<and> flags AND FNM_NOESCAPE = 0 then (hd0 (tl s), tl (tl s)) else (hd0 s, tl s)) = (c, s1)"
    by (simp add: char_at_def)
  obtain d s2 where d: "(if hd0 s1 = 45 \<and> hd0 (tl s1) \<noteq> 0 \<and> hd0 (tl s1) \<noteq> 93 then char_at flags (tl s1) else (c, s1)) = (d, s2)"
    by fastforce
  have d2: "drop 2 s1 = tl (tl s1)" by (simp add: eval_nat_numeral drop_Suc)
  have e: "c = x \<longleftrightarrow> schar c \<le> schar x \<and> schar x \<le> schar c" for c x :: byte
    by (auto simp: schar_def intro: signed_word_eqI)
  note IH = 1 [OF c [symmetric] refl _ _ d [symmetric] refl]
  have if3: "(if b then True else ok) = (ok \<or> b)" for b by simp
  have e3: "schar (fold_case flags c) \<le> schar test \<and> schar test \<le> schar (fold_case flags c) \<longleftrightarrow> fold_case flags c = test"
    using e by blast
  show ?case
  proof (cases "c = 0 \<or> c = 47 \<and> flags AND FNM_PATHNAME \<noteq> 0")
    case True
    then have "range_loop test flags (hd0 s) (tl s) ok = Inl (if c = 0 then RANGE_ERROR else RANGE_NOMATCH)"
      by (subst range_loop.simps) (simp only: c' Let_def prod.case, cases "c = 0", simp_all only: if_True if_False simp_thms)
    moreover have "bracket_list flags s = (if c = 0 then Unclosed else Slash)"
      using True by (subst bracket_list.simps) (simp only: c Let_def prod.case, cases "c = 0", simp_all only: if_True if_False simp_thms)
    ultimately show ?thesis by simp
  next
    case False
    have nc: "c \<noteq> 0" "\<not> (c = 47 \<and> flags AND FNM_PATHNAME \<noteq> 0)" using False by blast+
    show ?thesis
    proof (cases "hd0 s1 = 45 \<and> hd0 (tl s1) \<noteq> 0 \<and> hd0 (tl s1) \<noteq> 93")
      case True
      then have "(if hd0 (tl s1) = 92 \<and> flags AND FNM_NOESCAPE = 0 then (hd0 (drop 2 s1), tl (drop 2 s1)) else (hd0 (tl s1), drop 2 s1)) = (d, s2)"
        using d unfolding char_at_def d2 by (simp only: if_True simp_thms)
      then have r: "range_loop test flags (hd0 s) (tl s) ok =
          (if d = 0 then Inl RANGE_ERROR
           else if hd0 s2 \<noteq> 93 then range_loop test flags (hd0 s2) (tl s2) (ok \<or> schar (fold_case flags c) \<le> schar test \<and> schar test \<le> schar (fold_case flags d))
           else Inr (ok \<or> schar (fold_case flags c) \<le> schar test \<and> schar test \<le> schar (fold_case flags d), tl s2))"
        using True by (subst range_loop.simps) (simp only: nc c' Let_def prod.case if_False if_True if3 fold_case_def simp_thms de_Morgan_disj de_Morgan_conj)
      show ?thesis unfolding r using False IH
        by (subst bracket_list.simps) (auto simp: c d Let_def in_ranges_def split: bracket.splits)
    next
      case single: False
      then have "d = c" "s2 = s1" using d by auto
      have r: "range_loop test flags (hd0 s) (tl s) ok =
          (if hd0 s1 \<noteq> 93 then range_loop test flags (hd0 s1) (tl s1) (ok \<or> fold_case flags c = test)
           else Inr (ok \<or> fold_case flags c = test, tl s1))"
        by (subst range_loop.simps) (simp only: nc c' single Let_def prod.case if_False if_True if3 fold_case_def simp_thms)
      show ?thesis unfolding r using False IH \<open>d = c\<close> \<open>s2 = s1\<close> e3
        by (subst bracket_list.simps) (auto simp: c d Let_def in_ranges_def split: bracket.splits)
    qed
  qed
qed

lemma bracket_list_length: "bracket_list flags s = Ranges rs rest \<Longrightarrow> length rest \<le> length s"
  using range_loop_result [OF range_loop_bracket [of 0 flags s False]] by simp

definition negated :: "byte list \<Rightarrow> bool" where
  "negated pattern = (hd0 pattern = 33 \<or> hd0 pattern = 94)"

definition bracket_at :: "u32 \<Rightarrow> byte list \<Rightarrow> bracket" where
  "bracket_at flags pattern = bracket_list flags (if negated pattern then tl pattern else pattern)"

lemma rangematch_bracket:
  "rangematch pattern test flags = (case bracket_at flags pattern of
     Unclosed \<Rightarrow> RANGE_ERROR | Slash \<Rightarrow> RANGE_NOMATCH
   | Ranges rs rest \<Rightarrow> if in_ranges (fold_case flags test) rs = negated pattern then RANGE_NOMATCH else RANGE_MATCH rest)"
  unfolding rangematch_def Let_def range_loop_bracket bracket_at_def negated_def [symmetric] fold_case_def [symmetric]
  by (auto split: bracket.splits)

lemma bracket_at_length: "bracket_at flags pattern = Ranges rs rest \<Longrightarrow> length rest \<le> length pattern"
  by (auto simp: bracket_at_def dest!: bracket_list_length split: if_splits)

lemma length_tl_tl: "hd0 p \<noteq> 0 \<Longrightarrow> length (tl (tl p)) < length p"
  by (cases p) (simp_all add: less_Suc_eq_le)

function tokens :: "u32 \<Rightarrow> byte list \<Rightarrow> glob_token list" where
  "tokens flags pattern =
     (let c = hd0 pattern; rest = tl pattern in
      if c = 0 then []
      else if c = 63 then One # tokens flags rest
      else if c = 42 then Many # tokens flags (dropWhile (\<lambda>c. c = 42) rest)
      else if c = 91 then
        (case bracket_at flags rest of
           Unclosed \<Rightarrow> Lit c # tokens flags rest
         | Slash \<Rightarrow> [Never]
         | Ranges rs after \<Rightarrow> Class (negated rest) rs # tokens flags after)
      else if c = 92 \<and> flags AND FNM_NOESCAPE = 0 \<and> hd0 rest \<noteq> 0 then Lit (hd0 rest) # tokens flags (tl rest)
      else Lit c # tokens flags rest)"
  by pat_completeness auto

termination tokens
  by (relation "measure (\<lambda>(flags, pattern). length pattern)")
    (auto simp: length_tl0 length_tl_tl intro: length_dropWhile_tl le_less_trans [OF _ length_tl0] dest!: bracket_at_length split: if_splits simp del: length_tl)

declare tokens.simps [simp del]

section \<open>The strings that match\<close>

definition crosses :: "u32 \<Rightarrow> byte \<Rightarrow> bool" where
  "crosses flags x = (x = 47 \<and> flags AND FNM_PATHNAME \<noteq> 0)"

fun glob :: "u32 \<Rightarrow> glob_token list \<Rightarrow> byte list \<Rightarrow> bool" where
  "glob flags [] s = (s = [] \<or> flags AND FNM_LEADING_DIR \<noteq> 0 \<and> hd s = 47)"
| "glob flags (One # ts) s = (\<exists>x s'. s = x # s' \<and> \<not> crosses flags x \<and> glob flags ts s')"
| "glob flags (Many # ts) s = (\<exists>u v. s = u @ v \<and> list_all (\<lambda>x. \<not> crosses flags x) u \<and> glob flags ts v)"
| "glob flags (Class neg rs # ts) s =
     (\<exists>x s'. s = x # s' \<and> \<not> crosses flags x \<and> in_ranges (fold_case flags x) rs \<noteq> neg \<and> glob flags ts s')"
| "glob flags (Lit c # ts) s = (\<exists>x s'. s = x # s' \<and> fnm_text flags c x \<and> glob flags ts s')"
| "glob flags (Never # ts) s = False"

definition stars :: "glob_token list \<Rightarrow> nat" where
  "stars ts = length (filter (\<lambda>t. t = Many) ts)"

text \<open>A result that is right, or out of resources for the given reason.\<close>

definition answers :: "int \<Rightarrow> bool \<Rightarrow> bool \<Rightarrow> bool" where
  "answers r m deep \<longleftrightarrow> r = (if m then 0 else FNM_NOMATCH) \<or> r = FNM_NORES \<and> deep"

lemma glob_many_Nil: "glob flags (Many # ts) [] \<longleftrightarrow> glob flags ts []"
  by simp

lemma glob_many_Cons:
  "glob flags (Many # ts) (x # s) \<longleftrightarrow> glob flags ts (x # s) \<or> \<not> crosses flags x \<and> glob flags (Many # ts) s"
proof
  assume "glob flags (Many # ts) (x # s)"
  then obtain u v where "x # s = u @ v" "list_all (\<lambda>x. \<not> crosses flags x) u" "glob flags ts v" by auto
  then show "glob flags ts (x # s) \<or> \<not> crosses flags x \<and> glob flags (Many # ts) s" by (cases u) auto
next
  assume r: "glob flags ts (x # s) \<or> \<not> crosses flags x \<and> glob flags (Many # ts) s"
  show "glob flags (Many # ts) (x # s)"
  proof (cases "glob flags ts (x # s)")
    case True
    then have "x # s = [] @ (x # s) \<and> list_all (\<lambda>x. \<not> crosses flags x) [] \<and> glob flags ts (x # s)" by simp
    then show ?thesis unfolding glob.simps by blast
  next
    case False
    then obtain u v where "s = u @ v" "list_all (\<lambda>x. \<not> crosses flags x) u" "glob flags ts v" "\<not> crosses flags x" using r by auto
    then have "x # s = (x # u) @ v \<and> list_all (\<lambda>x. \<not> crosses flags x) (x # u) \<and> glob flags ts v" by simp
    then show ?thesis unfolding glob.simps by blast
  qed
qed

lemma fnm_text_slash: "fnm_text flags 47 x \<longleftrightarrow> x = 47"
proof -
  have "to_lower (uint x) = 47 \<Longrightarrow> uint x = uint (47 :: byte)" by (auto simp: to_lower_def split: if_splits)
  then show ?thesis by (auto simp: fnm_text_def to_lower_def word_uint_eq_iff split: if_splits)
qed

lemma fnm_text_bracket: "fnm_text flags 91 x \<longleftrightarrow> x = 91"
proof -
  have "to_lower (uint x) = 91 \<Longrightarrow> uint x = uint (91 :: byte)" by (auto simp: to_lower_def split: if_splits)
  then show ?thesis by (auto simp: fnm_text_def to_lower_def word_uint_eq_iff split: if_splits)
qed

lemma glob_many_slash:
  "flags AND FNM_PATHNAME \<noteq> 0 \<Longrightarrow>
   glob flags (Many # Lit 47 # ts) s \<longleftrightarrow> 47 \<in> set s \<and> glob flags (Lit 47 # ts) (dropWhile (\<lambda>c. c \<noteq> 47) s)"
proof (induction s)
  case (Cons x s)
  then show ?case by (subst glob_many_Cons) (auto simp: fnm_text_slash crosses_def simp del: glob.simps(3))
qed simp

lemma glob_many_last:
  "glob flags [Many] s \<longleftrightarrow> flags AND FNM_PATHNAME = 0 \<or> flags AND FNM_LEADING_DIR \<noteq> 0 \<or> 47 \<notin> set s"
proof (induction s)
  case (Cons x s)
  then show ?case by (subst glob_many_Cons) (auto simp: crosses_def simp del: glob.simps(3))
qed simp

lemma to_lower_zero: "to_lower (uint (c :: byte)) = 0 \<longleftrightarrow> c = 0"
  using uint_ge_0 [of c] by (auto simp: to_lower_def uint_0_iff)

lemma fnm_text_end: "c \<noteq> 0 \<Longrightarrow> \<not> fnm_text flags c 0"
  using to_lower_zero [of c] by (auto simp: fnm_text_def to_lower_def split: if_splits)

text \<open>The tokens after a star that is not at the end start with one that takes a character.\<close>

lemma glob_needs_char: "hd0 pattern \<noteq> 0 \<Longrightarrow> hd0 pattern \<noteq> 42 \<Longrightarrow> \<not> glob flags (tokens flags pattern) []"
  by (subst tokens.simps) (auto simp: Let_def split: bracket.splits)

lemma stars_simps [simp]: "stars [] = 0" "stars (t # ts) = of_bool (t = Many) + stars ts"
  by (simp_all add: stars_def)

lemma no_period: "\<not> fnm_hidden flags prev s" "flags AND NOT FNM_PERIOD = flags"
  if p: "flags AND FNM_PERIOD = 0" for flags :: u32
proof -
  show "\<not> fnm_hidden flags prev s" using p by (simp add: fnm_hidden_def)
  have "\<not> (bit flags n \<and> bit FNM_PERIOD n)" for n using arg_cong [OF p, of "\<lambda>w. bit w n"] by (simp add: bit_and_iff)
  then show "flags AND NOT FNM_PERIOD = flags" by (intro bit_word_eqI) (auto simp: bit_and_iff bit_not_iff)
qed

definition matcher_ok :: "u32 \<Rightarrow> nat \<Rightarrow> bool" where
  "matcher_ok flags r \<longleftrightarrow> (\<forall>pattern s. 0 \<notin> set s \<longrightarrow>
     answers (p_fnmatchx pattern s flags r) (glob flags (tokens flags pattern) s) (r \<le> stars (tokens flags pattern)))"

lemma star_answers:
  assumes f: "flags AND FNM_PERIOD = 0" "matcher_ok flags r" and p: "hd0 pattern \<noteq> 0" "hd0 pattern \<noteq> 42"
  shows "0 \<notin> set s \<Longrightarrow>
     answers (fnm_star r flags pattern s) (glob flags (Many # tokens flags pattern) s) (r \<le> stars (tokens flags pattern))"
proof (induction s)
  case Nil
  then show ?case using glob_needs_char [OF p, of flags] by (subst fnm_star.simps) (simp add: answers_def)
next
  case (Cons x s)
  have "answers (p_fnmatchx pattern (x # s) flags r) (glob flags (tokens flags pattern) (x # s)) (r \<le> stars (tokens flags pattern))"
    using f(2) Cons.prems unfolding matcher_ok_def by blast
  then show ?case using Cons
    by (subst fnm_star.simps, subst glob_many_Cons, cases "glob flags (tokens flags pattern) (x # s)")
      (auto simp: no_period(2) [OF f(1)] answers_def crosses_def Let_def FNM_NOMATCH_def FNM_NORES_def simp del: glob.simps(3))
qed

lemma hd0_dropWhile: "hd0 (dropWhile (\<lambda>c. c = 42) p) \<noteq> 42"
  by (induction p) auto

lemma list_end: "0 \<notin> set s \<Longrightarrow> hd0 s = 0 \<longleftrightarrow> s = []"
  by (cases s) auto

lemma tl_no_nul: "0 \<notin> set s \<Longrightarrow> (0 :: byte) \<notin> set (tl s)"
  by (cases s) auto

lemma loop_end:
  assumes f: "flags AND FNM_PERIOD = 0" and c: "hd0 pattern = 0"
    and IH: "\<And>p prev s. length p < length pattern \<Longrightarrow> 0 \<notin> set s \<Longrightarrow>
      answers (fnm_loop r flags p prev s) (glob flags (tokens flags p) s) (r < stars (tokens flags p))"
    and z: "0 \<notin> set s"
  shows "answers (fnm_loop r flags pattern prev s) (glob flags (tokens flags pattern) s) (r < stars (tokens flags pattern))"
proof -
  note np = no_period(1) [OF f] and s' = tl_no_nul [OF z]
  have "tokens flags pattern = []" using c by (subst tokens.simps) simp
  moreover have "fnm_loop r flags pattern prev s = (if flags AND FNM_LEADING_DIR \<noteq> 0 \<and> hd0 s = 47 then 0 else if hd0 s = 0 then 0 else FNM_NOMATCH)"
    using c by (subst fnm_loop.simps) (simp add: Let_def)
  ultimately show ?thesis using z by (cases s) (auto simp: answers_def)
qed

lemma loop_one:
  assumes f: "flags AND FNM_PERIOD = 0" and c: "hd0 pattern = 63"
    and IH: "\<And>p prev s. length p < length pattern \<Longrightarrow> 0 \<notin> set s \<Longrightarrow>
      answers (fnm_loop r flags p prev s) (glob flags (tokens flags p) s) (r < stars (tokens flags p))"
    and z: "0 \<notin> set s"
  shows "answers (fnm_loop r flags pattern prev s) (glob flags (tokens flags pattern) s) (r < stars (tokens flags pattern))"
proof -
  note np = no_period(1) [OF f] and s' = tl_no_nul [OF z]
  have t: "tokens flags pattern = One # tokens flags (tl pattern)" using c by (subst tokens.simps) simp
  have l: "fnm_loop r flags pattern prev s = (if hd0 s = 0 \<or> crosses flags (hd0 s) then FNM_NOMATCH
      else fnm_loop r flags (tl pattern) (Some (hd0 s)) (tl s))"
    using c by (subst fnm_loop.simps) (simp add: Let_def np crosses_def)
  show ?thesis using IH [of "tl pattern" "tl s" "Some (hd0 s)"] length_tl0 [of pattern] c s' z
    unfolding t l by (cases s) (auto simp: answers_def)
qed

lemma loop_star:
  assumes f: "flags AND FNM_PERIOD = 0" "matcher_ok flags r" and c: "hd0 pattern = 42"
    and IH: "\<And>p prev s. length p < length pattern \<Longrightarrow> 0 \<notin> set s \<Longrightarrow>
      answers (fnm_loop r flags p prev s) (glob flags (tokens flags p) s) (r < stars (tokens flags p))"
    and z: "0 \<notin> set s"
  shows "answers (fnm_loop r flags pattern prev s) (glob flags (tokens flags pattern) s) (r < stars (tokens flags pattern))"
proof -
  note np = no_period(1) [OF f(1)] and s' = tl_no_nul [OF z]
  let ?p = "dropWhile (\<lambda>c. c = 42) (tl pattern)"
  have t: "tokens flags pattern = Many # tokens flags ?p" using c by (subst tokens.simps) (simp add: Let_def)
  have ls: "length ?p < length pattern" using c by (intro length_dropWhile_tl) simp
  have h: "hd0 ?p \<noteq> 42" by (rule hd0_dropWhile)
  let ?u = "takeWhile (\<lambda>c. c \<noteq> 47) s" and ?v = "dropWhile (\<lambda>c. c \<noteq> 47) s"
  have l: "fnm_loop r flags pattern prev s =
     (if hd0 ?p = 0 then (if flags AND FNM_PATHNAME \<noteq> 0 then (if flags AND FNM_LEADING_DIR \<noteq> 0 \<or> 47 \<notin> set s then 0 else FNM_NOMATCH) else 0)
      else if hd0 ?p = 47 \<and> flags AND FNM_PATHNAME \<noteq> 0 then
        (if 47 \<notin> set s then FNM_NOMATCH else fnm_loop r flags ?p (if ?u = [] then prev else Some (last ?u)) ?v)
      else fnm_star r flags ?p s)"
    using c by (subst fnm_loop.simps) (simp only: Let_def np if_False, simp)
  consider "hd0 ?p = 0" | "hd0 ?p = 47" "flags AND FNM_PATHNAME \<noteq> 0" | "hd0 ?p \<noteq> 0" "\<not> (hd0 ?p = 47 \<and> flags AND FNM_PATHNAME \<noteq> 0)" by blast
  then show ?thesis
  proof cases
    case 1
    then have "tokens flags ?p = []" by (subst tokens.simps) simp
    then show ?thesis unfolding t l using 1 by (auto simp: answers_def glob_many_last simp del: glob.simps(3))
  next
    case 2
    have "tokens flags ?p = Lit 47 # tokens flags (tl ?p)" using 2 by (subst tokens.simps) simp
    then have g: "glob flags (Many # tokens flags ?p) s \<longleftrightarrow> 47 \<in> set s \<and> glob flags (tokens flags ?p) ?v"
      using glob_many_slash [OF 2(2)] by simp
    have "0 \<notin> set ?v" using z by (meson set_dropWhileD)
    from IH [OF ls this, of "if ?u = [] then prev else Some (last ?u)"]
    show ?thesis unfolding t l g using 2 by (auto simp: answers_def simp del: glob.simps)
  next
    case 3
    then show ?thesis using star_answers [OF f 3(1) h z] unfolding t l by (auto simp: answers_def simp del: glob.simps(3))
  qed
qed

lemma loop_bracket:
  assumes f: "flags AND FNM_PERIOD = 0" and c: "hd0 pattern = 91"
    and IH: "\<And>p prev s. length p < length pattern \<Longrightarrow> 0 \<notin> set s \<Longrightarrow>
      answers (fnm_loop r flags p prev s) (glob flags (tokens flags p) s) (r < stars (tokens flags p))"
    and z: "0 \<notin> set s"
  shows "answers (fnm_loop r flags pattern prev s) (glob flags (tokens flags pattern) s) (r < stars (tokens flags pattern))"
proof -
  note np = no_period(1) [OF f] and s' = tl_no_nul [OF z]
  have l: "fnm_loop r flags pattern prev s = (if hd0 s = 0 \<or> crosses flags (hd0 s) then FNM_NOMATCH
      else case rangematch (tl pattern) (hd0 s) flags of
           RANGE_ERROR \<Rightarrow> (if fnm_text flags 91 (hd0 s) then fnm_loop r flags (tl pattern) (Some (hd0 s)) (tl s) else FNM_NOMATCH)
         | RANGE_MATCH newp \<Rightarrow> fnm_loop r flags newp (Some (hd0 s)) (tl s)
         | RANGE_NOMATCH \<Rightarrow> FNM_NOMATCH)"
    using c by (subst fnm_loop.simps) (simp add: Let_def np crosses_def)
  have tl: "length (tl pattern) < length pattern" using c by (intro length_tl0) simp
  show ?thesis
  proof (cases "bracket_at flags (tl pattern)")
    case Unclosed
    then have t: "tokens flags pattern = Lit 91 # tokens flags (tl pattern)" using c by (subst tokens.simps) simp
    have "fnm_text flags 91 c \<longrightarrow> \<not> crosses flags c" for c by (auto simp: fnm_text_bracket crosses_def)
    then show ?thesis using IH [OF tl s', of "Some (hd0 s)"] Unclosed z fnm_text_end [of 91 flags]
      unfolding t l rangematch_bracket by (cases s) (auto simp: answers_def)
  next
    case Slash
    then have "tokens flags pattern = [Never]" using c by (subst tokens.simps) simp
    then show ?thesis using Slash unfolding l rangematch_bracket by (simp add: answers_def)
  next
    case (Ranges rs rest)
    then have t: "tokens flags pattern = Class (negated (tl pattern)) rs # tokens flags rest" using c by (subst tokens.simps) simp
    have "length rest < length pattern" using bracket_at_length [OF Ranges] tl by linarith
    then show ?thesis using IH [OF _ s', of rest "Some (hd0 s)"] Ranges z
      unfolding t l rangematch_bracket by (cases s) (auto simp: answers_def)
  qed
qed

lemma loop_escape:
  assumes f: "flags AND FNM_PERIOD = 0" and c: "hd0 pattern = 92" "flags AND FNM_NOESCAPE = 0"
    and IH: "\<And>p prev s. length p < length pattern \<Longrightarrow> 0 \<notin> set s \<Longrightarrow>
      answers (fnm_loop r flags p prev s) (glob flags (tokens flags p) s) (r < stars (tokens flags p))"
    and z: "0 \<notin> set s"
  shows "answers (fnm_loop r flags pattern prev s) (glob flags (tokens flags pattern) s) (r < stars (tokens flags pattern))"
proof -
  note np = no_period(1) [OF f] and s' = tl_no_nul [OF z]
  let ?c = "if hd0 (tl pattern) = 0 then 92 else hd0 (tl pattern)"
  let ?p = "if hd0 (tl pattern) = 0 then tl pattern else tl (tl pattern)"
  have t: "tokens flags pattern = Lit ?c # tokens flags ?p" using c by (subst tokens.simps) (simp add: Let_def)
  have l: "fnm_loop r flags pattern prev s = (if fnm_text flags ?c (hd0 s) then fnm_loop r flags ?p (Some (hd0 s)) (tl s) else FNM_NOMATCH)"
    using c by (subst fnm_loop.simps) (simp add: Let_def)
  have "length ?p < length pattern" "?c \<noteq> 0" using c by (auto intro: length_tl0 length_tl_tl simp del: length_tl)
  then show ?thesis using IH [of ?p "tl s" "Some (hd0 s)"] s' fnm_text_end [of ?c flags]
    unfolding t l by (cases s) (auto simp: answers_def)
qed

lemma loop_text:
  assumes f: "flags AND FNM_PERIOD = 0" and c: "hd0 pattern \<noteq> 0" "hd0 pattern \<noteq> 63" "hd0 pattern \<noteq> 42" "hd0 pattern \<noteq> 91" "\<not> (hd0 pattern = 92 \<and> flags AND FNM_NOESCAPE = 0)"
    and IH: "\<And>p prev s. length p < length pattern \<Longrightarrow> 0 \<notin> set s \<Longrightarrow>
      answers (fnm_loop r flags p prev s) (glob flags (tokens flags p) s) (r < stars (tokens flags p))"
    and z: "0 \<notin> set s"
  shows "answers (fnm_loop r flags pattern prev s) (glob flags (tokens flags pattern) s) (r < stars (tokens flags pattern))"
proof -
  note np = no_period(1) [OF f] and s' = tl_no_nul [OF z]
  have t: "tokens flags pattern = Lit (hd0 pattern) # tokens flags (tl pattern)"
    using c(5) by (subst tokens.simps) (simp only: Let_def c(1-4) if_False, auto)
  have l: "fnm_loop r flags pattern prev s = (if fnm_text flags (hd0 pattern) (hd0 s) then fnm_loop r flags (tl pattern) (Some (hd0 s)) (tl s) else FNM_NOMATCH)"
    by (subst fnm_loop.simps) (simp only: Let_def c if_False)
  show ?thesis using IH [of "tl pattern" "tl s" "Some (hd0 s)"] length_tl0 [of pattern] c(1) s' fnm_text_end [of "hd0 pattern" flags]
    unfolding t l by (cases s) (auto simp: answers_def)
qed

lemma loop_answers:
  assumes f: "flags AND FNM_PERIOD = 0" "matcher_ok flags r"
  shows "0 \<notin> set s \<Longrightarrow>
     answers (fnm_loop r flags pattern prev s) (glob flags (tokens flags pattern) s) (r < stars (tokens flags pattern))"
proof (induction "length pattern" arbitrary: pattern prev s rule: less_induct)
  case less
  consider "hd0 pattern = 0" | "hd0 pattern = 63" | "hd0 pattern = 42" | "hd0 pattern = 91" | "hd0 pattern = 92" "flags AND FNM_NOESCAPE = 0"
    | "hd0 pattern \<noteq> 0" "hd0 pattern \<noteq> 63" "hd0 pattern \<noteq> 42" "hd0 pattern \<noteq> 91" "\<not> (hd0 pattern = 92 \<and> flags AND FNM_NOESCAPE = 0)" by blast
  then show ?case
  proof cases
    case 1
    show ?thesis by (rule loop_end [OF f(1) 1 less.hyps less.prems])
  next
    case 2
    show ?thesis by (rule loop_one [OF f(1) 2 less.hyps less.prems])
  next
    case 3
    show ?thesis by (rule loop_star [OF f 3 less.hyps less.prems])
  next
    case 4
    show ?thesis by (rule loop_bracket [OF f(1) 4 less.hyps less.prems])
  next
    case 5
    show ?thesis by (rule loop_escape [OF f(1) 5 less.hyps less.prems])
  next
    case 6
    show ?thesis by (rule loop_text [OF f(1) 6 less.hyps less.prems])
  qed
qed

lemma matcher_all: "flags AND FNM_PERIOD = 0 \<Longrightarrow> matcher_ok flags r"
proof (induction r)
  case 0
  then show ?case by (simp add: matcher_ok_def p_fnmatchx.simps answers_def)
next
  case (Suc r)
  then show ?case using loop_answers [of flags r] by (simp add: matcher_ok_def p_fnmatchx.simps Suc_le_eq)
qed
section \<open>Properties\<close>

text \<open>C18: For every pattern, every string and every combination of flags without FNM\_PERIOD, p\_fnmatch answers
  whether the string matches the meaning of the pattern, where a star stands for any run of characters
  (without a slash under FNM\_PATHNAME); or it gives up with FNM\_NORES, and then the pattern has
  at least 64 separate stars.\<close>

theorem fnmatch_spec:
  assumes "flags AND FNM_PERIOD = 0" "0 \<notin> set string"
  shows "p_fnmatch pattern string flags = (if glob flags (tokens flags pattern) string then 0 else FNM_NOMATCH) \<or>
    p_fnmatch pattern string flags = FNM_NORES \<and> 64 \<le> stars (tokens flags pattern)"
  using matcher_all [OF assms(1), of 64] assms(2) unfolding matcher_ok_def answers_def p_fnmatch_def by blast

theorem fnmatch_spec_witness:
  "p_fnmatch [97, 42, 91, 98, 45, 100, 93] [97, 120, 99] 0 = 0 \<and> glob 0 (tokens 0 [97, 42, 91, 98, 45, 100, 93]) [97, 120, 99]"
proof -
  have "p_fnmatch [97, 42, 91, 98, 45, 100, 93] [97, 120, 99] 0 = 0" by code_simp
  then show ?thesis using fnmatch_spec [of 0 "[97, 120, 99]" "[97, 42, 91, 98, 45, 100, 93]"]
    by (auto simp: FNM_NOMATCH_def FNM_NORES_def split: if_splits)
qed

text \<open>FNM\_PERIOD is lost after a star: with FNM\_PATHNAME and FNM\_PERIOD the pattern a/?b does not match a/.b,
  where the period leads the second component, but *a/?b does.\<close>

theorem fnmatch_period_lost:
  "p_fnmatch [97, 47, 63, 98] [97, 47, 46, 98] (FNM_PATHNAME OR FNM_PERIOD) = FNM_NOMATCH \<and>
   p_fnmatch [42, 97, 47, 63, 98] [97, 47, 46, 98] (FNM_PATHNAME OR FNM_PERIOD) = 0"
  by code_simp

end
