(* ===== verification/Buffer.thy ===== *)
theory Buffer
  imports Cstr
begin

text \<open>
  The growable byte buffer git_buf of todo-later/libgit2/src/buffer.c and buffer.h.  A buffer has a
  pointer, the size of the allocation (0 when the memory is not the buffer's own) and the number of
  bytes in use.  The pointer carries the bytes of the object it points to, so that an access
  outside of it is None; the two static buffers have one byte, which stays NUL.
\<close>

unbundle bit_operations_syntax

section \<open>Memory\<close>

datatype buf_ptr = Null | Initbuf | Oombuf | Mem "byte list"

record git_buf =
  b_ptr :: buf_ptr
  b_asize :: nat
  b_size :: nat

definition ptr_bytes :: "buf_ptr \<Rightarrow> byte list option" where
  "ptr_bytes p = (case p of Null \<Rightarrow> None | Initbuf \<Rightarrow> Some [0] | Oombuf \<Rightarrow> Some [0] | Mem m \<Rightarrow> Some m)"

definition buf_read :: "git_buf \<Rightarrow> nat \<Rightarrow> nat \<Rightarrow> byte list option" where
  "buf_read buf off n = (if n = 0 then Some [] else do { m \<leftarrow> ptr_bytes (b_ptr buf); rd_blk m off n })"

text \<open>A write into a static buffer must leave it as it is.\<close>

definition buf_write :: "git_buf \<Rightarrow> nat \<Rightarrow> byte list \<Rightarrow> git_buf option" where
  "buf_write buf off bs =
     (if bs = [] then Some buf
      else case b_ptr buf of
        Mem m \<Rightarrow> do { m' \<leftarrow> wr_blk m off bs; Some (buf\<lparr>b_ptr := Mem m'\<rparr>) }
      | Null \<Rightarrow> None
      | _ \<Rightarrow> (if off = 0 \<and> bs = [0] then Some buf else None))"

text \<open>buf->size = n; buf->ptr[buf->size] = 0.\<close>

definition set_size :: "git_buf \<Rightarrow> nat \<Rightarrow> git_buf option" where
  "set_size buf n = buf_write (buf\<lparr>b_size := n\<rparr>) n [0]"

text \<open>Arguments that point to bytes: the null pointer, a position in the buffer's own memory, and other memory.\<close>

datatype bytes_ptr = NoData | Own nat | Bytes "byte list"

text \<open>Reading n bytes of an argument after the buffer may have been reallocated (which shows in asize): a pointer into
  the old block is dangling then.\<close>

definition arg_read :: "git_buf \<Rightarrow> git_buf \<Rightarrow> bytes_ptr \<Rightarrow> nat \<Rightarrow> byte list option" where
  "arg_read old buf data n =
     (if n = 0 then Some []
      else case data of
        NoData \<Rightarrow> None
      | Own k \<Rightarrow> (if b_asize buf = b_asize old then buf_read buf k n else None)
      | Bytes bs \<Rightarrow> rd_blk bs 0 n)"

definition cstrlen :: "byte list \<Rightarrow> nat option" where
  "cstrlen m = (if 0 \<in> set m then Some (length (takeWhile (\<lambda>c. c \<noteq> 0) m)) else None)"

definition arg_strlen :: "git_buf \<Rightarrow> bytes_ptr \<Rightarrow> nat option" where
  "arg_strlen buf data = (case data of
       NoData \<Rightarrow> None
     | Own k \<Rightarrow> do { m \<leftarrow> ptr_bytes (b_ptr buf); (if k \<le> length m then cstrlen (drop k m) else None) }
     | Bytes bs \<Rightarrow> cstrlen bs)"

section \<open>Growing\<close>

text \<open>The loop that grows the size by half.\<close>

partial_function (option) grow_size :: "nat \<Rightarrow> nat \<Rightarrow> nat option" where
  "grow_size new_size target =
     (if new_size < target then grow_size (szw (szw (2 * new_size) + (2 ^ 64 - new_size div 2))) target
      else Some new_size)"

declare grow_size.simps [code]

text \<open>The allocator's answers are in ok; new memory has arbitrary contents, given by junk.\<close>

type_synonym heap = "(nat \<Rightarrow> byte) \<times> alloc"

definition git__realloc :: "heap \<Rightarrow> byte list \<Rightarrow> nat \<Rightarrow> byte list option" where
  "git__realloc h old n =
     (let (junk, ok) = h in
      if ok n then Some (take n old @ map junk [length old ..< n]) else None)"

definition git_buf_try_grow :: "heap \<Rightarrow> git_buf \<Rightarrow> nat \<Rightarrow> bool \<Rightarrow> bool \<Rightarrow> (int \<times> git_buf) option" where
  "git_buf_try_grow h buf target mark_oom preserve_external =
     (if b_ptr buf = Oombuf then Some (-1, buf)
      else
        let target = (if target = 0 then b_size buf else target) in
        if target \<le> b_asize buf then Some (0, buf)
        else do {
          old \<leftarrow> (if b_asize buf = 0 then Some [] else
                   case b_ptr buf of Mem m \<Rightarrow> Some m | Null \<Rightarrow> Some [] | _ \<Rightarrow> None);
          new_size \<leftarrow> grow_size (if b_asize buf = 0 then target else b_asize buf) target;
          (let new_size = szw (new_size + 7) div 8 * 8 in
           case git__realloc h old new_size of
             None \<Rightarrow> Some (-1, if mark_oom then buf\<lparr>b_ptr := Oombuf\<rparr> else buf)
           | Some new_ptr \<Rightarrow> do {
               new_ptr \<leftarrow> (if preserve_external \<and> b_asize buf = 0 \<and> b_ptr buf \<noteq> Null \<and> 0 < b_size buf
                           then do {
                             bs \<leftarrow> buf_read buf 0 (min (b_size buf) new_size);
                             wr_blk new_ptr 0 bs }
                           else Some new_ptr);
               buf \<leftarrow> set_size (buf\<lparr>b_asize := new_size, b_ptr := Mem new_ptr\<rparr>)
                        (if new_size \<le> b_size buf then szw (new_size + (2 ^ 64 - 1)) else b_size buf);
               Some (0, buf) })})"

definition git_buf_grow :: "heap \<Rightarrow> git_buf \<Rightarrow> nat \<Rightarrow> (int \<times> git_buf) option" where
  "git_buf_grow h buf target = git_buf_try_grow h buf target True True"

text \<open>ENSURE\_SIZE; Inl is the early return of the function that uses it.\<close>

definition ENSURE_SIZE :: "heap \<Rightarrow> git_buf \<Rightarrow> nat \<Rightarrow> (git_buf + git_buf) option" where
  "ENSURE_SIZE h buf d =
     (if b_asize buf < d then do {
        (rc, buf) \<leftarrow> git_buf_grow h buf d;
        Some (if rc < 0 then Inl buf else Inr buf) }
      else Some (Inr buf))"

definition with_size :: "heap \<Rightarrow> git_buf \<Rightarrow> nat \<Rightarrow> (git_buf \<Rightarrow> (int \<times> git_buf) option) \<Rightarrow> (int \<times> git_buf) option" where
  "with_size h buf d body = do {
     r \<leftarrow> ENSURE_SIZE h buf d;
     (case r of Inl buf \<Rightarrow> Some (-1, buf) | Inr buf \<Rightarrow> body buf) }"

definition git_buf_init :: "heap \<Rightarrow> nat \<Rightarrow> git_buf option" where
  "git_buf_init h initial_size =
     (let buf = \<lparr>b_ptr = Initbuf, b_asize = 0, b_size = 0\<rparr> in
      if initial_size \<noteq> 0 then map_option snd (git_buf_grow h buf initial_size) else Some buf)"

definition GIT_BUF_INIT :: git_buf where
  "GIT_BUF_INIT = \<lparr>b_ptr = Initbuf, b_asize = 0, b_size = 0\<rparr>"

definition git_buf_free :: "heap \<Rightarrow> git_buf \<Rightarrow> git_buf option" where
  "git_buf_free h buf =
     (if 0 < b_asize buf \<and> b_ptr buf = Initbuf then None else git_buf_init h 0)"

definition git_buf_clear :: "git_buf \<Rightarrow> git_buf option" where
  "git_buf_clear buf =
     (let buf = buf\<lparr>b_size := 0\<rparr>;
          buf = (if b_ptr buf = Null then buf\<lparr>b_ptr := Initbuf\<rparr> else buf) in
      if 0 < b_asize buf then buf_write buf 0 [0] else Some buf)"

definition git_buf_is_allocated :: "git_buf \<Rightarrow> bool" where
  "git_buf_is_allocated buf = (b_ptr buf \<noteq> Null \<and> 0 < b_asize buf)"

definition git_buf_oom :: "git_buf \<Rightarrow> bool" where
  "git_buf_oom buf = (b_ptr buf = Oombuf)"

section \<open>Writing\<close>

definition git_buf_set :: "heap \<Rightarrow> git_buf \<Rightarrow> bytes_ptr \<Rightarrow> nat \<Rightarrow> (int \<times> git_buf) option" where
  "git_buf_set h buf data len =
     (if len = 0 \<or> data = NoData then do { buf \<leftarrow> git_buf_clear buf; Some (0, buf) }
      else if data \<noteq> Own 0 then
        with_size h buf (szw (len + 1)) (\<lambda>buf'. do {
          bs \<leftarrow> arg_read buf buf' data len;
          buf' \<leftarrow> buf_write buf' 0 bs;
          buf' \<leftarrow> set_size buf' len;
          Some (0, buf') })
      else do { buf \<leftarrow> set_size buf len; Some (0, buf) })"

definition git_buf_sets :: "heap \<Rightarrow> git_buf \<Rightarrow> bytes_ptr \<Rightarrow> (int \<times> git_buf) option" where
  "git_buf_sets h buf string = do {
     n \<leftarrow> (if string = NoData then Some 0 else arg_strlen buf string);
     git_buf_set h buf string n }"

definition git_buf_putc :: "heap \<Rightarrow> git_buf \<Rightarrow> byte \<Rightarrow> (int \<times> git_buf) option" where
  "git_buf_putc h buf c =
     with_size h buf (szw (b_size buf + 2)) (\<lambda>buf. do {
       buf \<leftarrow> buf_write buf (b_size buf) [c];
       buf \<leftarrow> set_size buf (szw (b_size buf + 1));
       Some (0, buf) })"

definition git_buf_put :: "heap \<Rightarrow> git_buf \<Rightarrow> bytes_ptr \<Rightarrow> nat \<Rightarrow> (int \<times> git_buf) option" where
  "git_buf_put h buf data len =
     with_size h buf (szw (b_size buf + len + 1)) (\<lambda>buf'. do {
       bs \<leftarrow> arg_read buf buf' data len;
       buf' \<leftarrow> buf_write buf' (b_size buf') bs;
       buf' \<leftarrow> set_size buf' (szw (b_size buf' + len));
       Some (0, buf') })"

definition git_buf_puts :: "heap \<Rightarrow> git_buf \<Rightarrow> bytes_ptr \<Rightarrow> (int \<times> git_buf) option" where
  "git_buf_puts h buf string = do { n \<leftarrow> arg_strlen buf string; git_buf_put h buf string n }"

section \<open>Base64\<close>

definition b64str :: "byte list" where
  "b64str = map word_of_nat ([65..<91] @ [97..<123] @ [48..<58] @ [43, 47])"

definition b64_at :: "u32 \<Rightarrow> byte" where
  "b64_at i = b64str ! unat i"

text \<open>The loop over the runs of three bytes; n of them.  The operands are promoted to int.\<close>

primrec b64_runs :: "nat \<Rightarrow> byte list \<Rightarrow> (byte list \<times> byte list) option" where
  "b64_runs 0 data = Some ([], data)"
| "b64_runs (Suc n) data = do {
     a8 \<leftarrow> rd data 0; b8 \<leftarrow> rd data 1; c8 \<leftarrow> rd data 2;
     (let a = ucast a8; b = ucast b8; c = ucast c8;
          quad = [b64_at (drop_bit 2 a), b64_at (push_bit 4 (a AND 0x03) OR drop_bit 4 b),
                  b64_at (push_bit 2 (b AND 0x0f) OR drop_bit 6 c), b64_at (c AND 0x3f)] in do {
        (out, rest) \<leftarrow> b64_runs n (drop 3 data);
        Some (quad @ out, rest) })}"

definition b64_tail :: "nat \<Rightarrow> byte list \<Rightarrow> byte list option" where
  "b64_tail extra data =
     (if 0 < extra then do {
        a8 \<leftarrow> rd data 0;
        b8 \<leftarrow> (if 1 < extra then rd data 1 else Some 0);
        (let a = ucast a8; b = ucast b8 in
         Some [b64_at (drop_bit 2 a), b64_at (push_bit 4 (a AND 0x03) OR drop_bit 4 b),
               if 1 < extra then b64_at (push_bit 2 (b AND 0x0f)) else 61, 61]) }
      else Some [])"

definition git_buf_put_base64 :: "heap \<Rightarrow> git_buf \<Rightarrow> byte list \<Rightarrow> nat \<Rightarrow> (int \<times> git_buf) option" where
  "git_buf_put_base64 h buf data len =
     (let extra = len mod 3 in
      with_size h buf (szw (b_size buf + 4 * (len div 3 + (if extra = 0 then 0 else 1)) + 1)) (\<lambda>buf. do {
        (out, rest) \<leftarrow> b64_runs ((len - extra) div 3) data;
        last \<leftarrow> b64_tail extra rest;
        buf \<leftarrow> buf_write buf (b_size buf) (out @ last);
        buf \<leftarrow> set_size buf (szw (b_size buf + length (out @ last)));
        Some (0, buf) }))"

section \<open>Formatted text\<close>

text \<open>text is what the format denotes for its arguments, None an error of vsnprintf.  The function stores at most
  room bytes with the NUL and returns the length of the whole text.\<close>

definition p_vsnprintf :: "git_buf \<Rightarrow> nat \<Rightarrow> nat \<Rightarrow> byte list option \<Rightarrow> (int \<times> git_buf) option" where
  "p_vsnprintf buf off room text = (case text of
       None \<Rightarrow> Some (-1, buf)
     | Some t \<Rightarrow> do {
         buf \<leftarrow> (if room = 0 then Some buf else buf_write buf off (take (room - 1) t @ [0]));
         Some (int (length t), buf) })"

text \<open>After an error the memory is released, which must not be one of the static buffers.\<close>

partial_function (option) vprintf_loop :: "heap \<Rightarrow> git_buf \<Rightarrow> byte list option \<Rightarrow> (int \<times> git_buf) option" where
  "vprintf_loop h buf text = do {
     (len, buf) \<leftarrow> p_vsnprintf buf (b_size buf) (szw (b_asize buf + (2 ^ 64 - b_size buf))) text;
     (if len < 0 then (if b_ptr buf = Initbuf \<or> b_ptr buf = Oombuf then None else Some (-1, buf\<lparr>b_ptr := Oombuf\<rparr>))
      else if szw (nat len + 1) \<le> szw (b_asize buf + (2 ^ 64 - b_size buf)) then
        Some (0, buf\<lparr>b_size := szw (b_size buf + nat len)\<rparr>)
      else do {
        r \<leftarrow> ENSURE_SIZE h buf (szw (b_size buf + nat len + 1));
        (case r of Inl buf \<Rightarrow> Some (-1, buf) | Inr buf \<Rightarrow> vprintf_loop h buf text) })}"

declare vprintf_loop.simps [code]

definition git_buf_vprintf :: "heap \<Rightarrow> git_buf \<Rightarrow> nat \<Rightarrow> byte list option \<Rightarrow> (int \<times> git_buf) option" where
  "git_buf_vprintf h buf format_len text =
     with_size h buf (szw (b_size buf + szw (format_len * 2))) (\<lambda>buf. vprintf_loop h buf text)"

definition git_buf_printf :: "heap \<Rightarrow> git_buf \<Rightarrow> nat \<Rightarrow> byte list option \<Rightarrow> (int \<times> git_buf) option" where
  "git_buf_printf h buf format_len text = git_buf_vprintf h buf format_len text"

section \<open>Reading and shortening\<close>

text \<open>data is the array of datasize bytes that receives the copy; a failed assert is None.\<close>

definition git_buf_copy_cstr :: "byte list \<Rightarrow> nat \<Rightarrow> git_buf \<Rightarrow> byte list option" where
  "git_buf_copy_cstr data datasize buf =
     (if datasize = 0 then None
      else do {
        data \<leftarrow> wr data 0 0;
        (if b_size buf = 0 \<or> b_asize buf \<le> 0 then Some data
         else
           let copylen = (if datasize - 1 < b_size buf then datasize - 1 else b_size buf) in do {
           bs \<leftarrow> buf_read buf 0 copylen;
           data \<leftarrow> wr_blk data 0 bs;
           wr data copylen 0 })})"

text \<open>end is the distance of the argument from ptr.\<close>

definition git_buf_consume :: "git_buf \<Rightarrow> int \<Rightarrow> git_buf option" where
  "git_buf_consume buf endp =
     (if 0 < endp \<and> endp \<le> int (b_size buf) then
        let consumed = nat endp in do {
          bs \<leftarrow> buf_read buf consumed (b_size buf - consumed);
          buf \<leftarrow> buf_write buf 0 bs;
          set_size buf (b_size buf - consumed) }
      else Some buf)"

definition git_buf_truncate :: "git_buf \<Rightarrow> nat \<Rightarrow> git_buf option" where
  "git_buf_truncate buf len = (if len < b_size buf then set_size buf len else Some buf)"

definition git_buf_shorten :: "git_buf \<Rightarrow> nat \<Rightarrow> git_buf option" where
  "git_buf_shorten buf amount =
     (let amount = (if b_size buf < amount then b_size buf else amount) in
      set_size buf (b_size buf - amount))"

text \<open>The backward scans; n is idx + 1, the result the final value of it.\<close>

primrec scan_back :: "(byte \<Rightarrow> bool) \<Rightarrow> git_buf \<Rightarrow> nat \<Rightarrow> nat option" where
  "scan_back p buf 0 = Some 0"
| "scan_back p buf (Suc n) = do {
     m \<leftarrow> ptr_bytes (b_ptr buf);
     c \<leftarrow> rd m n;
     (if p c then scan_back p buf n else Some (Suc n)) }"

definition git_buf_rfind_next :: "git_buf \<Rightarrow> byte \<Rightarrow> int option" where
  "git_buf_rfind_next buf ch = do {
     n \<leftarrow> scan_back (\<lambda>c. c = ch) buf (b_size buf);
     n \<leftarrow> scan_back (\<lambda>c. c \<noteq> ch) buf n;
     Some (int n - 1) }"

definition git_buf_rfind :: "git_buf \<Rightarrow> byte \<Rightarrow> int option" where
  "git_buf_rfind buf ch = do {
     n \<leftarrow> scan_back (\<lambda>c. c \<noteq> ch) buf (b_size buf);
     Some (int n - 1) }"

definition git_buf_find :: "git_buf \<Rightarrow> byte \<Rightarrow> int option" where
  "git_buf_find buf ch = do {
     bs \<leftarrow> buf_read buf 0 (b_size buf);
     Some (if ch \<in> set bs then int (length (takeWhile (\<lambda>c. c \<noteq> ch) bs)) else -1) }"

definition git_buf_rtruncate_at_char :: "git_buf \<Rightarrow> byte \<Rightarrow> git_buf option" where
  "git_buf_rtruncate_at_char buf separator = do {
     idx \<leftarrow> git_buf_rfind_next buf separator;
     git_buf_truncate buf (if idx < 0 then 0 else nat idx) }"

definition git_buf_rtrim :: "git_buf \<Rightarrow> git_buf option" where
  "git_buf_rtrim buf = do {
     n \<leftarrow> scan_back (\<lambda>c. git__isspace (schar c)) buf (b_size buf);
     set_size buf n }"

definition git_buf_cstr :: "git_buf \<Rightarrow> buf_ptr" where
  "git_buf_cstr buf = b_ptr buf"

definition git_buf_len :: "git_buf \<Rightarrow> nat" where
  "git_buf_len buf = b_size buf"

primrec memcmp :: "byte list \<Rightarrow> byte list \<Rightarrow> int" where
  "memcmp [] ys = 0"
| "memcmp (x # xs) ys = (if x = hd ys then memcmp xs (tl ys) else if x < hd ys then -1 else 1)"

definition git_buf_cmp :: "git_buf \<Rightarrow> git_buf \<Rightarrow> int option" where
  "git_buf_cmp a b = do {
     x \<leftarrow> buf_read a 0 (min (b_size a) (b_size b));
     y \<leftarrow> buf_read b 0 (min (b_size a) (b_size b));
     (let result = memcmp x y in
      Some (if result \<noteq> 0 then result
            else if b_size a < b_size b then -1 else if b_size b < b_size a then 1 else 0)) }"

section \<open>Ownership\<close>

definition git_buf_swap :: "git_buf \<Rightarrow> git_buf \<Rightarrow> git_buf \<times> git_buf" where
  "git_buf_swap buf_a buf_b = (buf_b, buf_a)"

definition git_buf_detach :: "heap \<Rightarrow> git_buf \<Rightarrow> (buf_ptr \<times> git_buf) option" where
  "git_buf_detach h buf =
     (if b_asize buf = 0 \<or> b_ptr buf = Oombuf then Some (Null, buf)
      else do { buf' \<leftarrow> git_buf_init h 0; Some (b_ptr buf, buf') })"

definition git_buf_attach :: "heap \<Rightarrow> git_buf \<Rightarrow> byte list option \<Rightarrow> nat \<Rightarrow> git_buf option" where
  "git_buf_attach h buf ptr asize = do {
     buf \<leftarrow> git_buf_free h buf;
     (case ptr of
        Some m \<Rightarrow> do {
          n \<leftarrow> cstrlen m;
          Some (buf\<lparr>b_ptr := Mem m, b_size := n,
                    b_asize := (if asize \<noteq> 0 then (if asize < n then n + 1 else asize) else n + 1)\<rparr>) }
      | None \<Rightarrow> map_option snd (git_buf_grow h buf asize)) }"

section \<open>Joining and splicing\<close>

definition arg_byte :: "git_buf \<Rightarrow> bytes_ptr \<Rightarrow> nat \<Rightarrow> byte option" where
  "arg_byte buf data i = (case data of
       NoData \<Rightarrow> None
     | Own k \<Rightarrow> do { m \<leftarrow> ptr_bytes (b_ptr buf); rd m (k + i) }
     | Bytes bs \<Rightarrow> rd bs i)"

text \<open>The first pass of git\_buf\_join\_n: the space that the segments need.\<close>

primrec join_total :: "git_buf \<Rightarrow> byte \<Rightarrow> bytes_ptr list \<Rightarrow> nat \<Rightarrow> nat option" where
  "join_total buf separator [] total_size = Some total_size"
| "join_total buf separator (segment # rest) total_size =
     (if segment = NoData then join_total buf separator rest total_size
      else do {
        segment_len \<leftarrow> arg_strlen buf segment;
        need \<leftarrow> (if segment_len = 0 then Some True
                 else do { c \<leftarrow> arg_byte buf segment (segment_len - 1); Some (c \<noteq> separator) });
        join_total buf separator rest (szw (total_size + segment_len + (if need then 1 else 0))) })"

text \<open>The byte before out, if there is one, is the separator.\<close>

definition ends_with :: "git_buf \<Rightarrow> nat \<Rightarrow> byte \<Rightarrow> bool option" where
  "ends_with buf out separator =
     (if out = 0 then Some False else do { bs \<leftarrow> buf_read buf (out - 1) 1; Some (bs = [separator]) })"

text \<open>The second pass; old is the buffer before it has grown.\<close>

primrec join_copy :: "git_buf \<Rightarrow> byte \<Rightarrow> bytes_ptr list \<Rightarrow> git_buf \<Rightarrow> nat \<Rightarrow> (git_buf \<times> nat) option" where
  "join_copy old separator [] buf out = Some (buf, out)"
| "join_copy old separator (segment # rest) buf out =
     (if segment = NoData then join_copy old separator rest buf out
      else do {
        bs \<leftarrow> (case segment of
            Own k \<Rightarrow> (if k < b_size old then buf_read buf k (b_size old - k)
                      else if b_asize buf = b_asize old then do { n \<leftarrow> arg_strlen buf segment; buf_read buf k n }
                      else None)
          | Bytes bs \<Rightarrow> do { n \<leftarrow> cstrlen bs; rd_blk bs 0 n }
          | NoData \<Rightarrow> None);
        skip \<leftarrow> ends_with buf out separator;
        (let bs = (if skip then dropWhile (\<lambda>c. c = separator) bs else bs) in do {
          buf \<leftarrow> buf_write buf out bs;
          (let out = out + length bs in do {
            at_end \<leftarrow> ends_with buf out separator;
            (if rest \<noteq> [] \<and> 0 < out \<and> \<not> at_end then do {
               buf \<leftarrow> buf_write buf out [separator];
               join_copy old separator rest buf (out + 1) }
             else join_copy old separator rest buf out) })})})"

definition git_buf_join_n :: "heap \<Rightarrow> git_buf \<Rightarrow> byte \<Rightarrow> bytes_ptr list \<Rightarrow> (int \<times> git_buf) option" where
  "git_buf_join_n h buf separator segments = do {
     at_end \<leftarrow> ends_with buf (b_size buf) separator;
     total_size \<leftarrow> join_total buf separator segments (if 0 < b_size buf \<and> \<not> at_end then 1 else 0);
     (if total_size = 0 then Some (0, buf)
      else do {
        (rc, buf') \<leftarrow> git_buf_grow h buf (szw (b_size buf + total_size + 1));
        (if rc < 0 then Some (-1, buf')
         else do {
           at_end \<leftarrow> ends_with buf' (b_size buf') separator;
           (buf1, out) \<leftarrow> (if 0 < b_size buf' \<and> \<not> at_end
                          then do { b \<leftarrow> buf_write buf' (b_size buf') [separator]; Some (b, b_size buf' + 1) }
                          else Some (buf', b_size buf'));
           (buf2, out) \<leftarrow> join_copy buf separator segments buf1 out;
           buf3 \<leftarrow> set_size buf2 out;
           Some (0, buf3) })})}"

text \<open>str\_b must lie outside of the buffer, as the code asserts.\<close>

definition git_buf_join :: "heap \<Rightarrow> git_buf \<Rightarrow> byte \<Rightarrow> bytes_ptr \<Rightarrow> byte list \<Rightarrow> (int \<times> git_buf) option" where
  "git_buf_join h buf separator str_a str_b = do {
     strlen_a \<leftarrow> (if str_a = NoData then Some 0 else arg_strlen buf str_a);
     strlen_b \<leftarrow> cstrlen str_b;
     (let b = take strlen_b str_b in do {
       (b, need_sep) \<leftarrow> (if separator \<noteq> 0 \<and> strlen_a \<noteq> 0 then do {
            c \<leftarrow> arg_byte buf str_a (strlen_a - 1);
            Some (dropWhile (\<lambda>c. c = separator) b, c \<noteq> separator) }
          else Some (b, False));
       (let offset_a = (case str_a of Own k \<Rightarrow> if k < b_size buf then Some k else None | _ \<Rightarrow> None);
            strlen_b = length b;
            sep = (if need_sep then 1 else 0) in do {
         (rc, buf') \<leftarrow> git_buf_grow h buf (szw (strlen_a + strlen_b + sep + 1));
         (if rc < 0 then Some (-1, buf')
          else do {
            buf1 \<leftarrow> (if offset_a = Some 0 then Some buf'
                     else do {
                       a \<leftarrow> (case offset_a of Some k \<Rightarrow> buf_read buf' k strlen_a | None \<Rightarrow> arg_read buf buf' str_a strlen_a);
                       buf_write buf' 0 a });
            buf2 \<leftarrow> (if need_sep then buf_write buf1 strlen_a [separator] else Some buf1);
            buf3 \<leftarrow> buf_write buf2 (strlen_a + sep) b;
            buf4 \<leftarrow> set_size buf3 (szw (strlen_a + strlen_b + sep));
            Some (0, buf4) })})})}"

definition git_buf_joinpath :: "heap \<Rightarrow> git_buf \<Rightarrow> bytes_ptr \<Rightarrow> byte list \<Rightarrow> (int \<times> git_buf) option" where
  "git_buf_joinpath h buf a b = git_buf_join h buf 47 a b"

definition git_buf_splice :: "heap \<Rightarrow> git_buf \<Rightarrow> nat \<Rightarrow> nat \<Rightarrow> byte list \<Rightarrow> nat \<Rightarrow> (int \<times> git_buf) option" where
  "git_buf_splice h buf where_at nb_to_remove data nb_to_insert =
     (if \<not> (where_at \<le> git_buf_len buf \<and> szw (where_at + nb_to_remove) \<le> git_buf_len buf) then None
      else do {
        (rc, buf) \<leftarrow> git_buf_grow h buf (szw (szw (git_buf_len buf + nb_to_insert) + (2 ^ 64 - nb_to_remove)));
        (if rc < 0 then Some (-1, buf)
         else do {
           bs \<leftarrow> buf_read buf (where_at + nb_to_remove) (b_size buf - where_at - nb_to_remove);
           buf \<leftarrow> buf_write buf (where_at + nb_to_insert) bs;
           ins \<leftarrow> rd_blk data 0 nb_to_insert;
           buf \<leftarrow> buf_write buf where_at ins;
           buf \<leftarrow> set_size buf (szw (szw (b_size buf + nb_to_insert) + (2 ^ 64 - nb_to_remove)));
           Some (0, buf) })})"

end
