(* ===== verification/BufText.thy ===== *)
theory BufText
  imports Buffer
begin

text \<open>
  Text operations on buffers: todo-later/libgit2/src/buf\_text.c and buf\_text.h.  A C string argument
  is the list of its bytes before the NUL and lies outside of the buffer.  The source of a conversion is
  another buffer than the target.
\<close>

section \<open>Escaping\<close>

definition strcspn :: "byte list \<Rightarrow> byte list \<Rightarrow> nat" where
  "strcspn s chars = length (takeWhile (\<lambda>c. c \<notin> set chars) s)"

definition strspn :: "byte list \<Rightarrow> byte list \<Rightarrow> nat" where
  "strspn s chars = length (takeWhile (\<lambda>c. c \<in> set chars) s)"

lemma spn_shorter: "s \<noteq> [] \<Longrightarrow> length (drop (strspn (drop (strcspn s cs) s) cs) (drop (strcspn s cs) s)) < length s"
proof -
  assume s: "s \<noteq> []"
  have "0 < strcspn s cs + strspn (drop (strcspn s cs) s) cs"
  proof (cases "hd s \<in> set cs")
    case True
    then have "strcspn s cs = 0" using s by (cases s) (auto simp: strcspn_def)
    then show ?thesis using True s by (cases s) (auto simp: strspn_def)
  qed (use s in \<open>cases s; auto simp: strcspn_def\<close>)
  moreover have "0 < length s" using s by simp
  ultimately show ?thesis unfolding length_drop by linarith
qed

text \<open>The two passes: the space that is needed, and the copy.\<close>

function escape_total :: "byte list \<Rightarrow> nat \<Rightarrow> byte list \<Rightarrow> nat \<Rightarrow> nat" where
  "escape_total esc_chars esc_len scan tot =
     (if scan = [] then tot
      else
        let cnt = strcspn scan esc_chars; tot = szw (tot + cnt); rest = drop cnt scan;
            cnt' = strspn rest esc_chars; tot = szw (tot + cnt' * (esc_len + 1)) in
        escape_total esc_chars esc_len (drop cnt' rest) tot)"
  by pat_completeness auto
termination escape_total
  by (relation "measure (\<lambda>(_, _, scan, _). length scan)") (auto dest: spn_shorter simp del: length_drop)

declare escape_total.simps [simp del]

text \<open>memmove(buf->ptr + buf->size, bs, n); buf->size += n.\<close>

definition buf_emit :: "git_buf \<Rightarrow> byte list \<Rightarrow> git_buf option" where
  "buf_emit buf bs = do {
     buf \<leftarrow> buf_write buf (b_size buf) bs;
     Some (buf\<lparr>b_size := szw (b_size buf + length bs)\<rparr>) }"

primrec escape_run :: "nat \<Rightarrow> byte list \<Rightarrow> byte list \<Rightarrow> git_buf \<Rightarrow> git_buf option" where
  "escape_run 0 esc_with scan buf = Some buf"
| "escape_run (Suc cnt) esc_with scan buf = do {
     buf \<leftarrow> buf_emit buf esc_with;
     c \<leftarrow> rd scan 0;
     buf \<leftarrow> buf_emit buf [c];
     escape_run cnt esc_with (tl scan) buf }"

function escape_copy :: "byte list \<Rightarrow> byte list \<Rightarrow> byte list \<Rightarrow> git_buf \<Rightarrow> git_buf option" where
  "escape_copy esc_chars esc_with scan buf =
     (if scan = [] then Some buf
      else
        let cnt = strcspn scan esc_chars; rest = drop cnt scan; cnt' = strspn rest esc_chars in
        Option.bind (buf_emit buf (take cnt scan)) (\<lambda>buf1.
          Option.bind (escape_run cnt' esc_with rest buf1) (\<lambda>buf2.
            escape_copy esc_chars esc_with (drop cnt' rest) buf2)))"
  by pat_completeness auto
termination escape_copy
  by (relation "measure (\<lambda>(_, _, scan, _). length scan)") (auto dest: spn_shorter simp del: length_drop)

declare escape_copy.simps [simp del]

definition git_buf_text_puts_escaped ::
  "heap \<Rightarrow> git_buf \<Rightarrow> byte list option \<Rightarrow> byte list \<Rightarrow> byte list \<Rightarrow> (int \<times> git_buf) option" where
  "git_buf_text_puts_escaped h buf string esc_chars esc_with =
     (case string of
        None \<Rightarrow> Some (0, buf)
      | Some string \<Rightarrow>
          let tot = escape_total esc_chars (length esc_with) string 0 in do {
            (rc, buf) \<leftarrow> git_buf_grow h buf (szw (b_size buf + tot + 1));
            (if rc < 0 then Some (-1, buf)
             else do {
               buf \<leftarrow> escape_copy esc_chars esc_with string buf;
               buf \<leftarrow> set_size buf (b_size buf);
               Some (0, buf) }) })"

text \<open>The characters of "\^{}.[]$()|*+?\{\}" and the backslash.\<close>

definition regex_chars :: "byte list" where
  "regex_chars = [94, 46, 91, 93, 36, 40, 41, 124, 42, 43, 63, 123, 125, 92]"

definition git_buf_text_puts_escape_regex :: "heap \<Rightarrow> git_buf \<Rightarrow> byte list option \<Rightarrow> (int \<times> git_buf) option" where
  "git_buf_text_puts_escape_regex h buf string = git_buf_text_puts_escaped h buf string regex_chars [92]"

text \<open>git\_\_unescape works in place on the string at ptr and ends it with a NUL when it has become shorter.\<close>

definition git_buf_text_unescape :: "git_buf \<Rightarrow> git_buf option" where
  "git_buf_text_unescape buf =
     (if b_ptr buf = Null then Some (buf\<lparr>b_size := fst (git__unescape None)\<rparr>)
      else do {
        m \<leftarrow> ptr_bytes (b_ptr buf);
        n \<leftarrow> cstrlen m;
        (let s = unescape_loop (take n m); pos = fst (git__unescape (Some (take n m))) in do {
          buf \<leftarrow> (if pos = n then Some buf else buf_write buf 0 (s @ [0]));
          Some (buf\<lparr>b_size := pos\<rparr>) }) })"

section \<open>Line ends\<close>

text \<open>The list is the text from scan to scan\_end; the result is what remains of it, out and the target.\<close>

function crlf_loop :: "byte list \<Rightarrow> nat \<Rightarrow> git_buf \<Rightarrow> (byte list \<times> nat \<times> git_buf) option" where
  "crlf_loop scan out tgt =
     (if 13 \<in> set scan then
        let chunk = takeWhile (\<lambda>c. c \<noteq> 13) scan; after = tl (dropWhile (\<lambda>c. c \<noteq> 13) scan) in
        Option.bind (buf_write tgt out chunk) (\<lambda>tgt1.
          let out1 = out + length chunk in
          if after = [] \<or> hd after \<noteq> 10 then
            Option.bind (buf_write tgt1 out1 [13]) (\<lambda>tgt2. crlf_loop after (out1 + 1) tgt2)
          else crlf_loop after out1 tgt1)
      else Some (scan, out, tgt))"
  by pat_completeness auto

lemma tl_dropWhile_shorter: "c \<in> set s \<Longrightarrow> length (tl (dropWhile (\<lambda>x. x \<noteq> c) s)) < length s"
  by (induction s) (auto simp: less_Suc_eq)

termination crlf_loop
  by (relation "measure (\<lambda>(scan, _, _). length scan)") (auto dest: tl_dropWhile_shorter simp del: length_tl)

declare crlf_loop.simps [simp del]

definition git_buf_text_crlf_to_lf :: "heap \<Rightarrow> git_buf \<Rightarrow> git_buf \<Rightarrow> (int \<times> git_buf) option" where
  "git_buf_text_crlf_to_lf h tgt src = do {
     data \<leftarrow> buf_read src 0 (b_size src);
     (if 13 \<notin> set data then git_buf_set h tgt (Bytes data) (b_size src)
      else do {
        (rc, tgt) \<leftarrow> git_buf_grow h tgt (szw (b_size src + 1));
        (if rc < 0 then Some (-1, tgt)
         else do {
           (scan, out, tgt) \<leftarrow> crlf_loop data 0 (tgt\<lparr>b_size := 0\<rparr>);
           tgt \<leftarrow> buf_write tgt out scan;
           tgt \<leftarrow> set_size tgt (out + length scan);
           Some (0, tgt) }) }) }"

text \<open>scan is the position in the text of the source.\<close>

function lf_loop :: "heap \<Rightarrow> byte list \<Rightarrow> nat \<Rightarrow> git_buf \<Rightarrow> (int \<times> git_buf) option" where
  "lf_loop h data scan tgt =
     (if 10 \<in> set (drop scan data) then
        let copylen = length (takeWhile (\<lambda>c. c \<noteq> 10) (drop scan data)); nxt = scan + copylen;
            extralen = (if 0 < nxt \<and> data ! (nxt - 1) = 13 then 1 else 2);
            needsize = szw (b_size tgt + copylen + extralen + 1) in
        Option.bind (ENSURE_SIZE h tgt needsize) (\<lambda>r. case r of
            Inl tgt1 \<Rightarrow> Some (-1, tgt1)
          | Inr tgt1 \<Rightarrow>
              Option.bind (buf_emit tgt1 (take copylen (drop scan data))) (\<lambda>tgt2.
              Option.bind (if extralen = (2 :: nat) then buf_emit tgt2 [13] else Some tgt2) (\<lambda>tgt3.
              Option.bind (buf_emit tgt3 [10]) (\<lambda>tgt4.
              lf_loop h data (nxt + 1) tgt4))))
      else git_buf_put h tgt (Bytes (drop scan data)) (length data - scan))"
  by pat_completeness auto
termination lf_loop
proof (relation "measure (\<lambda>(_, data, scan, _). length data - scan)", goal_cases)
  case (2 h data scan tgt)
  then have "scan < length data" by (cases "scan < length data") auto
  then show ?case using 2 by (simp add: Let_def)
qed simp

declare lf_loop.simps [simp del]

definition git_buf_text_lf_to_crlf :: "heap \<Rightarrow> git_buf \<Rightarrow> git_buf \<Rightarrow> (int \<times> git_buf) option" where
  "git_buf_text_lf_to_crlf h tgt src = do {
     data \<leftarrow> buf_read src 0 (b_size src);
     (if 10 \<notin> set data then git_buf_set h tgt (Bytes data) (b_size src)
      else do {
        (rc, tgt) \<leftarrow> git_buf_grow h tgt (szw (b_size src + b_size src div 16 + 1));
        (if rc < 0 then Some (-1, tgt) else lf_loop h data 0 (tgt\<lparr>b_size := 0\<rparr>)) }) }"

section \<open>The common prefix of strings\<close>

primrec prefix_scan :: "byte list \<Rightarrow> byte list \<Rightarrow> nat \<Rightarrow> nat option" where
  "prefix_scan [] m k = Some k"
| "prefix_scan (c # str) m k = do { x \<leftarrow> rd m k; (if c = x then prefix_scan str m (k + 1) else Some k) }"

primrec prefix_loop :: "byte list list \<Rightarrow> git_buf \<Rightarrow> (int \<times> git_buf) option" where
  "prefix_loop [] buf = Some (0, buf)"
| "prefix_loop (str # strings) buf = do {
     m \<leftarrow> ptr_bytes (b_ptr buf);
     n \<leftarrow> prefix_scan str m 0;
     buf \<leftarrow> git_buf_truncate buf n;
     (if b_size buf = 0 then Some (0, buf) else prefix_loop strings buf) }"

definition git_buf_text_common_prefix :: "heap \<Rightarrow> git_buf \<Rightarrow> byte list list option \<Rightarrow> (int \<times> git_buf) option" where
  "git_buf_text_common_prefix h buf strings = do {
     buf \<leftarrow> git_buf_clear buf;
     (case strings of
        Some (s # rest) \<Rightarrow> do {
          (rc, buf) \<leftarrow> git_buf_sets h buf (Bytes (s @ [0]));
          (if rc < 0 then Some (-1, buf) else prefix_loop rest buf) }
      | _ \<Rightarrow> Some (0, buf)) }"

section \<open>Looking at text\<close>

datatype git_bom_t = GIT_BOM_NONE | GIT_BOM_UTF8 | GIT_BOM_UTF16_LE | GIT_BOM_UTF16_BE | GIT_BOM_UTF32_LE | GIT_BOM_UTF32_BE

primrec bom_value :: "git_bom_t \<Rightarrow> nat" where
  "bom_value GIT_BOM_NONE = 0"
| "bom_value GIT_BOM_UTF8 = 1"
| "bom_value GIT_BOM_UTF16_LE = 2"
| "bom_value GIT_BOM_UTF16_BE = 3"
| "bom_value GIT_BOM_UTF32_LE = 4"
| "bom_value GIT_BOM_UTF32_BE = 5"

lemma bom_value_inj: "bom_value x = bom_value y \<Longrightarrow> x = y"
  by (cases x; cases y; simp)

instantiation git_bom_t :: linorder
begin

definition less_eq_git_bom_t :: "git_bom_t \<Rightarrow> git_bom_t \<Rightarrow> bool" where
  "less_eq_git_bom_t x y = (bom_value x \<le> bom_value y)"

definition less_git_bom_t :: "git_bom_t \<Rightarrow> git_bom_t \<Rightarrow> bool" where
  "less_git_bom_t x y = (bom_value x < bom_value y)"

instance
  by standard (auto simp: less_eq_git_bom_t_def less_git_bom_t_def dest: bom_value_inj)

end

definition git_buf_text_contains_nul :: "git_buf \<Rightarrow> bool option" where
  "git_buf_text_contains_nul buf = do { data \<leftarrow> buf_read buf 0 (b_size buf); Some (0 \<in> set data) }"

text \<open>ptr is the position behind the byte that is switched on.\<close>

definition git_buf_text_detect_bom :: "git_buf \<Rightarrow> nat \<Rightarrow> (git_bom_t \<times> nat) option" where
  "git_buf_text_detect_bom buf offset =
     (if b_size buf < szw (offset + 2) then Some (GIT_BOM_NONE, 0)
      else
        let len = szw (b_size buf + (2 ^ 64 - offset)) in do {
          m \<leftarrow> ptr_bytes (b_ptr buf);
          c \<leftarrow> rd m offset;
          (let p = drop (offset + 1) m in
           if c = 0 then do {
             hit \<leftarrow> (if 4 \<le> len then do {
                      x \<leftarrow> rd p 0; y \<leftarrow> rd p 1; z \<leftarrow> rd p 2;
                      Some (x = 0 \<and> y = 0xFE \<and> z = 0xFF) } else Some False);
             Some (if hit then (GIT_BOM_UTF32_BE, 4) else (GIT_BOM_NONE, 0)) }
           else if c = 0xEF then do {
             hit \<leftarrow> (if 3 \<le> len then do {
                      x \<leftarrow> rd p 0; y \<leftarrow> rd p 1;
                      Some (x = 0xBB \<and> y = 0xBF) } else Some False);
             Some (if hit then (GIT_BOM_UTF8, 3) else (GIT_BOM_NONE, 0)) }
           else if c = 0xFE then do {
             x \<leftarrow> rd p 0;
             Some (if x = 0xFF then (GIT_BOM_UTF16_BE, 2) else (GIT_BOM_NONE, 0)) }
           else if c = 0xFF then do {
             x \<leftarrow> rd p 0;
             (if x \<noteq> 0xFE then Some (GIT_BOM_NONE, 0)
              else do {
                hit \<leftarrow> (if 4 \<le> len then do {
                         y \<leftarrow> rd p 1; z \<leftarrow> rd p 2;
                         Some (y = 0 \<and> z = 0) } else Some False);
                Some (if hit then (GIT_BOM_UTF32_LE, 4) else (GIT_BOM_UTF16_LE, 2)) }) }
           else Some (GIT_BOM_NONE, 0)) })"

text \<open>The counters are of type int; one that would overflow is None.\<close>

definition int_incr :: "int \<Rightarrow> int option" where
  "int_incr n = (if n = 2 ^ 31 - 1 then None else Some (n + 1))"

primrec binary_loop :: "byte list \<Rightarrow> int \<Rightarrow> int \<Rightarrow> bool option" where
  "binary_loop [] printable nonprintable = Some (printable div 128 < nonprintable)"
| "binary_loop (c # scan) printable nonprintable =
     (if 0x1F < c \<and> c < 0x7F then do { n \<leftarrow> int_incr printable; binary_loop scan n nonprintable }
      else if c = 0 then Some True
      else if \<not> git__isspace (uint c) then do { n \<leftarrow> int_incr nonprintable; binary_loop scan printable n }
      else binary_loop scan printable nonprintable)"

definition git_buf_text_is_binary :: "git_buf \<Rightarrow> bool option" where
  "git_buf_text_is_binary buf = do {
     (bom, skip) \<leftarrow> git_buf_text_detect_bom buf 0;
     (if GIT_BOM_UTF8 < bom then Some True
      else do {
        scan \<leftarrow> buf_read buf skip (b_size buf - skip);
        binary_loop scan 0 0 }) }"

record git_buf_text_stats =
  st_bom :: git_bom_t
  st_nul :: nat
  st_cr :: nat
  st_lf :: nat
  st_crlf :: nat
  st_printable :: nat
  st_nonprintable :: nat

definition no_stats :: git_buf_text_stats where
  "no_stats = \<lparr>st_bom = GIT_BOM_NONE, st_nul = 0, st_cr = 0, st_lf = 0, st_crlf = 0, st_printable = 0, st_nonprintable = 0\<rparr>"

text \<open>The counters are unsigned.\<close>

primrec stats_loop :: "byte list \<Rightarrow> git_buf_text_stats \<Rightarrow> git_buf_text_stats" where
  "stats_loop [] stats = stats"
| "stats_loop (c # scan) stats = stats_loop scan
     (if 0x1F < c \<and> c \<noteq> 0x7F then stats\<lparr>st_printable := u32w (st_printable stats + 1)\<rparr>
      else if c = 0 then stats\<lparr>st_nul := u32w (st_nul stats + 1), st_nonprintable := u32w (st_nonprintable stats + 1)\<rparr>
      else if c = 10 then stats\<lparr>st_lf := u32w (st_lf stats + 1)\<rparr>
      else if c = 13 then
        (let stats = stats\<lparr>st_cr := u32w (st_cr stats + 1)\<rparr> in
         if scan \<noteq> [] \<and> hd scan = 10 then stats\<lparr>st_crlf := u32w (st_crlf stats + 1)\<rparr> else stats)
      else if c \<in> {9, 12, 11, 8, 0x1b} then stats\<lparr>st_printable := u32w (st_printable stats + 1)\<rparr>
      else stats\<lparr>st_nonprintable := u32w (st_nonprintable stats + 1)\<rparr>)"

definition git_buf_text_gather_stats :: "git_buf \<Rightarrow> bool \<Rightarrow> (bool \<times> git_buf_text_stats) option" where
  "git_buf_text_gather_stats buf skip_bom = do {
     (bom, skip) \<leftarrow> git_buf_text_detect_bom buf 0;
     data \<leftarrow> buf_read buf 0 (b_size buf);
     (let stats = no_stats\<lparr>st_bom := bom\<rparr>;
          data = (if data \<noteq> [] \<and> last data = 26 then butlast data else data);
          stats = stats_loop (drop (if skip_bom then skip else 0) data) stats in
      Some (0 < st_nul stats \<or> st_printable stats div 128 < st_nonprintable stats, stats)) }"

end
