(* ===== verification/BufferProps.thy ===== *)
theory BufferProps
  imports Buffer
begin

text \<open>
  The contract of the byte buffer: what every operation leaves in the buffer as a string of bytes, that it keeps the
  buffer well formed, that a sequence of operations refines the operations on byte strings, that base64 text can be
  decoded again, and the two places where the buffer writes outside of its memory.
\<close>

section \<open>Well-formed buffers\<close>

text \<open>Own memory of at least asize bytes with room for the NUL, or a fresh buffer; and the NUL is there.\<close>

definition buf_mem :: "git_buf \<Rightarrow> bool" where
  "buf_mem b = (case b_ptr b of
       Mem m \<Rightarrow> 0 < b_asize b \<and> b_asize b < 2 ^ 64 \<and> b_asize b \<le> length m \<and> b_size b \<le> b_asize b \<and> b_size b < length m
     | Initbuf \<Rightarrow> b_asize b = 0 \<and> b_size b = 0
     | _ \<Rightarrow> False)"

definition buf_ok :: "git_buf \<Rightarrow> bool" where
  "buf_ok b = (buf_mem b \<and> (case b_ptr b of Mem m \<Rightarrow> m ! b_size b = 0 | _ \<Rightarrow> True))"

definition content :: "git_buf \<Rightarrow> byte list" where
  "content b = (case b_ptr b of Mem m \<Rightarrow> take (b_size b) m | _ \<Rightarrow> [])"

lemma buf_ok_mem: "buf_ok b \<Longrightarrow> buf_mem b"
  by (simp add: buf_ok_def)

lemma length_content: "buf_mem b \<Longrightarrow> length (content b) = b_size b"
  by (auto simp: buf_mem_def content_def split: buf_ptr.splits)

lemma grow_size_ok: "0 < n \<Longrightarrow> t \<le> 2 ^ 61 \<Longrightarrow> \<exists>r. grow_size n t = Some r \<and> t \<le> r \<and> n \<le> r \<and> r \<le> max n (2 * t)"
proof (induction "t - n" arbitrary: n rule: less_induct)
  case less
  show ?case
  proof (cases "n < t")
    case False
    then show ?thesis by (subst grow_size.simps) auto
  next
    case True
    let ?n = "2 * n - n div 2"
    have b: "2 * n < 2 ^ 64" "n < ?n" "?n \<le> 2 * t" using True less.prems by auto
    have "2 * n + (2 ^ 64 - n div 2) = 2 ^ 64 + ?n" using b(1) by linarith
    then have "szw (szw (2 * n) + (2 ^ 64 - n div 2)) = szw (2 ^ 64 + ?n)" using b(1) by simp
    also have "\<dots> = ?n mod 2 ^ 64" unfolding szw_def by (rule mod_add_self1)
    also have "\<dots> = ?n" using b(1) by simp
    finally have e: "grow_size n t = grow_size ?n t" using True by (subst grow_size.simps) simp
    have "t - ?n < t - n" "0 < ?n" using b True by linarith+
    from less.hyps [OF this less.prems(2)]
    obtain r where "grow_size ?n t = Some r" "t \<le> r" "?n \<le> r" "r \<le> max ?n (2 * t)" by blast
    then show ?thesis unfolding e using b(2,3) by (intro exI [of _ r]) simp
  qed
qed

lemma round_up8: "n \<le> (n + 7) div 8 * (8 :: nat)" "(n + 7) div 8 * (8 :: nat) \<le> n + 7"
  by linarith+

text \<open>What growing does to a buffer: it stays as it is, or its bytes move to a larger block, or the
  buffer is marked.\<close>

lemma grow_ok:
  assumes b: "buf_mem b" and d: "d < 2 ^ 61"
  shows "(\<exists>b'. git_buf_grow h b d = Some (0, b') \<and> buf_mem b' \<and> content b' = content b \<and> d \<le> b_asize b' \<and> b_size b' = b_size b \<and>
            (b' = b \<or> b_asize b < b_asize b' \<and> buf_ok b')) \<or>
         (\<exists>b'. git_buf_grow h b d = Some (-1, b') \<and> b_ptr b' = Oombuf \<and> \<not> (\<forall>n. snd h n))"
proof (cases "(if d = 0 then b_size b else d) \<le> b_asize b")
  case True
  then show ?thesis using b unfolding git_buf_grow_def git_buf_try_grow_def by (auto simp: buf_mem_def split: buf_ptr.splits if_splits)
next
  case False
  then have d0: "0 < d" "b_asize b < d" using b by (auto simp: buf_mem_def split: buf_ptr.splits if_splits)
  obtain junk ok where h: "h = (junk, ok)" by fastforce
  define old where "old = (case b_ptr b of Mem m \<Rightarrow> m | _ \<Rightarrow> [])"
  have old: "(if b_asize b = 0 then Some [] else case b_ptr b of Mem m \<Rightarrow> Some m | Null \<Rightarrow> Some [] | _ \<Rightarrow> None) = Some old"
    using b by (auto simp: buf_mem_def old_def split: buf_ptr.splits)
  obtain r where r: "grow_size (if b_asize b = 0 then d else b_asize b) d = Some r" "d \<le> r" "r \<le> 2 * d"
    using grow_size_ok [of "if b_asize b = 0 then d else b_asize b" d] d0 d by (cases "b_asize b = 0") auto
  define n where "n = (r + 7) div 8 * 8"
  have n: "szw (r + 7) div 8 * 8 = n" "d \<le> n" "n < 2 ^ 64" using r d round_up8 [of r] by (auto simp: n_def)
  have s: "b_size b < n" "b_size b \<le> b_asize b" "b_asize b = 0 \<longrightarrow> b_size b = 0"
    using b d0 n by (auto simp: buf_mem_def split: buf_ptr.splits)
  show ?thesis
  proof (cases "ok n")
    case False
    then have "\<not> (\<forall>n. snd h n)" by (auto simp: h)
    then show ?thesis using b d0 False
      unfolding git_buf_grow_def git_buf_try_grow_def
      by (simp add: old r(1) n(1) h git__realloc_def Let_def buf_mem_def split: buf_ptr.splits)
  next
    case True
    let ?m = "take n old @ map junk [length old ..< n]"
    have l: "n \<le> length ?m" by simp
    let ?b = "\<lparr>b_ptr = Mem (?m[b_size b := 0]), b_asize = n, b_size = b_size b\<rparr>"
    have c: "(b_ptr b = Oombuf) = False" "(d = 0) = False" "(d \<le> b_asize b) = False" "(n \<le> b_size b) = False"
      "(b_asize b = 0 \<and> b_ptr b \<noteq> Null \<and> 0 < b_size b) = False"
      using b d0 s by (auto simp: buf_mem_def split: buf_ptr.splits)
    have re: "git__realloc h old n = Some ?m" using True by (simp add: git__realloc_def h)
    have w: "set_size (b\<lparr>b_asize := n, b_ptr := Mem ?m\<rparr>) (b_size b) = Some ?b"
      using s(1) l by (cases b) (simp add: set_size_def buf_write_def wr_blk_def upd_conv_take_nth_drop)
    have "git_buf_grow h b d = Some (0, ?b)"
      unfolding git_buf_grow_def git_buf_try_grow_def
      by (simp only: c Let_def if_False if_True old bind.bind_lunit r(1) n(1) re option.case simp_thms w)
    moreover have "buf_ok ?b" using s d0 n l by (auto simp: buf_ok_def buf_mem_def)
    moreover have "content ?b = content b" using b s by (auto simp: content_def buf_mem_def old_def split: buf_ptr.splits)
    ultimately show ?thesis using d0 n by (auto simp: buf_ok_def)
  qed
qed

text \<open>Writing at or before the end of the contents and ending them behind what is written.\<close>

lemma write_at:
  assumes b: "buf_mem b" "k \<le> b_size b" "k + length bs < b_asize b \<or> k + length bs \<le> b_size b"
  shows "\<exists>b1 b'. buf_write b k bs = Some b1 \<and> b_size b1 = b_size b \<and> b_asize b1 = b_asize b \<and> buf_mem b1 \<and>
    set_size b1 (k + length bs) = Some b' \<and> buf_ok b' \<and> content b' = take k (content b) @ bs"
proof (cases "b_ptr b")
  case Initbuf
  then have "b = \<lparr>b_ptr = Initbuf, b_asize = 0, b_size = 0\<rparr>" "k = 0" "bs = []"
    using b by (cases b; auto simp: buf_mem_def)+
  then show ?thesis by (simp add: buf_write_def set_size_def buf_ok_def buf_mem_def content_def)
next
  case (Mem m)
  then have m: "0 < b_asize b" "b_asize b < 2 ^ 64" "b_asize b \<le> length m" "b_size b \<le> b_asize b" "b_size b < length m"
    using b(1) by (auto simp: buf_mem_def)
  define m1 where "m1 = take k m @ bs @ drop (k + length bs) m"
  have l: "length m1 = length m" "k + length bs < length m" using b m by (auto simp: m1_def)
  let ?b1 = "b\<lparr>b_ptr := Mem m1\<rparr>" and ?b' = "b\<lparr>b_ptr := Mem (m1[k + length bs := 0]), b_size := k + length bs\<rparr>"
  have "buf_write b k bs = Some ?b1"
    using Mem l by (cases b) (auto simp: buf_write_def m1_def wr_blk_def)
  moreover have "set_size ?b1 (k + length bs) = Some ?b'"
    using l by (cases b) (simp add: set_size_def buf_write_def wr_blk_def upd_conv_take_nth_drop)
  moreover have "buf_mem ?b1" using m l by (simp add: buf_mem_def)
  moreover have "buf_ok ?b'" using m l b by (auto simp: buf_ok_def buf_mem_def)
  moreover have "content ?b' = take k (content b) @ bs" using m l b Mem by (auto simp: content_def m1_def)
  ultimately show ?thesis by (intro exI [of _ ?b1] exI [of _ ?b']) simp
qed (use b in \<open>simp_all add: buf_mem_def\<close>)

lemma shorten_at:
  assumes "buf_mem b" "k \<le> b_size b"
  shows "\<exists>b'. set_size b k = Some b' \<and> buf_ok b' \<and> content b' = take k (content b)"
  using write_at [OF assms, of "[]"] assms by (auto simp: buf_write_def)

text \<open>The two outcomes of a function that writes: the contents c, or a failed allocation.\<close>

definition yields :: "heap \<Rightarrow> (int \<times> git_buf) option \<Rightarrow> byte list \<Rightarrow> bool" where
  "yields h r c \<longleftrightarrow> (\<exists>b. r = Some (0, b) \<and> buf_ok b \<and> content b = c) \<or> (\<exists>b. r = Some (-1, b) \<and> b_ptr b = Oombuf \<and> \<not> (\<forall>n. snd h n))"

lemma yieldsI: "buf_ok b \<Longrightarrow> content b = c \<Longrightarrow> yields h (Some (0, b)) c"
  by (simp add: yields_def)

lemma yields_ok: "yields h r c \<Longrightarrow> \<forall>n. snd h n \<Longrightarrow> \<exists>b. r = Some (0, b) \<and> buf_ok b \<and> content b = c"
  by (auto simp: yields_def)

lemma yields_fail: "b_ptr b = Oombuf \<Longrightarrow> \<not> (\<forall>n. snd h n) \<Longrightarrow> yields h (Some (-1, b)) c"
  by (simp add: yields_def)

lemma with_size_yields:
  assumes "buf_mem b" "d < 2 ^ 61"
    and "\<And>b'. buf_mem b' \<Longrightarrow> content b' = content b \<Longrightarrow> b_size b' = b_size b \<Longrightarrow> d \<le> b_asize b' \<Longrightarrow>
      b' = b \<or> b_asize b < b_asize b' \<and> buf_ok b' \<Longrightarrow> yields h (body b') c"
  shows "yields h (with_size h b d body) c"
proof (cases "b_asize b < d")
  case True
  from grow_ok [OF assms(1,2), of h] show ?thesis
  proof (elim disjE exE conjE)
    fix b' assume *: "git_buf_grow h b d = Some (0, b')" "buf_mem b'" "content b' = content b" "b_size b' = b_size b" "d \<le> b_asize b'" "b' = b"
    then show ?thesis using True by simp
  next
    fix b' assume *: "git_buf_grow h b d = Some (0, b')" "buf_mem b'" "content b' = content b" "b_size b' = b_size b" "d \<le> b_asize b'" "b_asize b < b_asize b'" "buf_ok b'"
    then show ?thesis using True assms(3) [of b'] by (simp add: with_size_def ENSURE_SIZE_def)
  next
    fix b' assume "git_buf_grow h b d = Some (-1, b')" "b_ptr b' = Oombuf" "\<not> (\<forall>n. snd h n)"
    then show ?thesis using True by (simp add: with_size_def ENSURE_SIZE_def yields_def)
  qed
next
  case False
  then show ?thesis using assms(3) [of b] assms(1) by (simp add: with_size_def ENSURE_SIZE_def)
qed

lemma append_yields:
  assumes "buf_mem b" "b_size b + length bs < b_asize b" "b_size b + length bs < 2 ^ 61" "content b = c"
  shows "yields h (do { b1 \<leftarrow> buf_write b (b_size b) bs; b2 \<leftarrow> set_size b1 (szw (b_size b1 + length bs)); Some (0, b2) }) (c @ bs)"
  using write_at [of b "b_size b" bs] length_content [OF assms(1)] assms by (auto simp: yields_def)

section \<open>The operations\<close>

lemma put_yields:
  assumes "buf_mem b" "b_size b + length bs + 1 < 2 ^ 61"
  shows "yields h (git_buf_put h b (Bytes bs) (length bs)) (content b @ bs)"
  unfolding git_buf_put_def
proof (rule with_size_yields [OF assms(1)])
  fix b' assume b': "buf_mem b'" "content b' = content b" "b_size b' = b_size b" "szw (b_size b + length bs + 1) \<le> b_asize b'"
  have "arg_read b b' (Bytes bs) (length bs) = Some bs" by (simp add: arg_read_def rd_blk_def)
  then show "yields h (do { x \<leftarrow> arg_read b b' (Bytes bs) (length bs); b' \<leftarrow> buf_write b' (b_size b') x;
      b' \<leftarrow> set_size b' (szw (b_size b' + length bs)); Some (0, b') }) (content b @ bs)"
    using append_yields [OF b'(1), of bs "content b"] b' assms by simp
qed (use assms in simp)

lemma takeWhile_nul: "0 \<notin> set s \<Longrightarrow> takeWhile (\<lambda>c. c \<noteq> 0) (s @ 0 # r) = (s :: byte list)"
  by (induction s) auto

lemma cstrlen_app: "0 \<notin> set s \<Longrightarrow> cstrlen (s @ [0]) = Some (length s)"
  by (simp add: cstrlen_def takeWhile_nul)

lemma puts_yields:
  assumes "buf_mem b" "b_size b + length s + 1 < 2 ^ 61" "0 \<notin> set s"
  shows "yields h (git_buf_puts h b (Bytes (s @ [0]))) (content b @ s)"
proof -
  have "arg_read b b' (Bytes (s @ [0])) (length s) = arg_read b b' (Bytes s) (length s)" for b'
    by (simp add: arg_read_def rd_blk_def)
  then show ?thesis using put_yields [OF assms(1,2), of h] assms(3)
    by (simp add: git_buf_puts_def git_buf_put_def arg_strlen_def cstrlen_app)
qed

lemma putc_yields:
  assumes "buf_mem b" "b_size b + 2 < 2 ^ 61"
  shows "yields h (git_buf_putc h b x) (content b @ [x])"
  unfolding git_buf_putc_def
proof (rule with_size_yields [OF assms(1)])
  fix b' assume b': "buf_mem b'" "content b' = content b" "b_size b' = b_size b" "szw (b_size b + 2) \<le> b_asize b'"
  then show "yields h (do { b' \<leftarrow> buf_write b' (b_size b') [x]; b' \<leftarrow> set_size b' (szw (b_size b' + 1)); Some (0, b') }) (content b @ [x])"
    using append_yields [OF b'(1), of "[x]" "content b"] assms by simp
qed (use assms in simp)

lemma clear_yields:
  assumes "buf_mem b"
  shows "yields h (do { b \<leftarrow> git_buf_clear b; Some (0, b) }) []"
proof (cases "b_ptr b")
  case (Mem m)
  then obtain x m' where "m = x # m'" using assms by (cases m) (auto simp: buf_mem_def)
  then show ?thesis using assms Mem
    by (cases b) (auto simp: git_buf_clear_def Let_def buf_write_def wr_blk_def yields_def buf_ok_def buf_mem_def content_def)
qed (use assms in \<open>auto simp: git_buf_clear_def Let_def yields_def buf_ok_def buf_mem_def content_def\<close>)

lemma set_yields:
  assumes "buf_mem b" "length bs + 1 < 2 ^ 61"
  shows "yields h (git_buf_set h b (Bytes bs) (length bs)) bs"
proof (cases "bs = []")
  case True
  then show ?thesis using clear_yields [OF assms(1)] by (simp add: git_buf_set_def)
next
  case False
  have "yields h (with_size h b (szw (length bs + 1)) (\<lambda>b'. do { x \<leftarrow> arg_read b b' (Bytes bs) (length bs);
      b' \<leftarrow> buf_write b' 0 x; b' \<leftarrow> set_size b' (length bs); Some (0, b') })) bs"
  proof (rule with_size_yields [OF assms(1)])
    fix b' assume b': "buf_mem b'" "szw (length bs + 1) \<le> b_asize b'"
    then show "yields h (do { x \<leftarrow> arg_read b b' (Bytes bs) (length bs); b' \<leftarrow> buf_write b' 0 x; b' \<leftarrow> set_size b' (length bs); Some (0, b') }) bs"
      using write_at [of b' 0 bs] assms(2) by (auto simp: arg_read_def rd_blk_def yields_def)
  qed (use assms in simp)
  then show ?thesis using False by (simp add: git_buf_set_def)
qed

text \<open>The text that encodes some bytes, and its decoding.\<close>

fun encode64 :: "byte list \<Rightarrow> byte list" where
  "encode64 (a # b # c # r) =
     [b64_at (drop_bit 2 (ucast a)), b64_at (push_bit 4 (ucast a AND 0x03) OR drop_bit 4 (ucast b)),
      b64_at (push_bit 2 (ucast b AND 0x0f) OR drop_bit 6 (ucast c)), b64_at (ucast c AND 0x3f)] @ encode64 r"
| "encode64 [a, b] =
     [b64_at (drop_bit 2 (ucast a)), b64_at (push_bit 4 (ucast a AND 0x03) OR drop_bit 4 (ucast b)),
      b64_at (push_bit 2 (ucast b AND 0x0f)), 61]"
| "encode64 [a] = [b64_at (drop_bit 2 (ucast a)), b64_at (push_bit 4 (ucast a AND 0x03)), 61, 61]"
| "encode64 [] = []"

lemma length_encode64: "length (encode64 bs) = 4 * (length bs div 3 + (if length bs mod 3 = 0 then 0 else 1))"
proof (induction bs rule: encode64.induct)
  case (1 a b c r)
  have e: "length (a # b # c # r) = 3 + length r" by simp
  have "length (a # b # c # r) div 3 = Suc (length r div 3)" "length (a # b # c # r) mod 3 = length r mod 3"
    unfolding e by simp_all
  then show ?case using 1 by simp
qed simp_all

definition sextet :: "byte \<Rightarrow> u32" where
  "sextet c = word_of_nat (length (takeWhile (\<lambda>d. d \<noteq> c) b64str))"

fun decode64 :: "byte list \<Rightarrow> byte list option" where
  "decode64 (w # x # y # z # r) =
     (let a = ucast (push_bit 2 (sextet w) OR drop_bit 4 (sextet x));
          b = ucast (push_bit 4 (sextet x) OR drop_bit 2 (sextet y));
          c = ucast (push_bit 6 (sextet y) OR sextet z)
      in if z = 61 then (if r \<noteq> [] then None else Some (if y = 61 then [a] else [a, b]))
         else map_option (\<lambda>bs. a # b # c # bs) (decode64 r))"
| "decode64 [] = Some []"
| "decode64 _ = None"

lemma b64str_eval: "b64str = [65, 66, 67, 68, 69, 70, 71, 72, 73, 74, 75, 76, 77, 78, 79, 80, 81, 82, 83, 84, 85, 86, 87, 88, 89, 90,
    97, 98, 99, 100, 101, 102, 103, 104, 105, 106, 107, 108, 109, 110, 111, 112, 113, 114, 115, 116, 117, 118, 119, 120, 121, 122,
    48, 49, 50, 51, 52, 53, 54, 55, 56, 57, 43, 47]"
  by (simp add: b64str_def upt_rec)

lemma b64_distinct: "distinct b64str" "61 \<notin> set b64str" "length b64str = 64"
  unfolding b64str_eval by simp_all

lemma takeWhile_nth: "distinct xs \<Longrightarrow> i < length xs \<Longrightarrow> length (takeWhile (\<lambda>y. y \<noteq> xs ! i) xs) = i"
proof (induction xs arbitrary: i)
  case (Cons x xs)
  then show ?case by (cases i) (auto simp: in_set_conv_nth)
qed simp

lemma b64_nth:
  assumes "i < 64"
  shows "sextet (b64str ! i) = word_of_nat i" "b64str ! i \<noteq> 61"
proof -
  show "sextet (b64str ! i) = word_of_nat i"
    using takeWhile_nth [of b64str i] b64_distinct assms by (simp add: sextet_def)
  have "b64str ! i \<in> set b64str" using assms by (simp add: b64_distinct)
  then show "b64str ! i \<noteq> 61" using b64_distinct(2) by metis
qed

lemma b64_word: "w < 64 \<Longrightarrow> sextet (b64_at w) = w \<and> b64_at w \<noteq> 61"
  using b64_nth [of "unat w"] by (simp add: b64_at_def word_less_nat_alt)

lemma below_64: "(\<And>n. bit (w :: u32) n \<Longrightarrow> n < 6) \<Longrightarrow> w < 64"
proof -
  assume "\<And>n. bit w n \<Longrightarrow> n < 6"
  then have "take_bit 6 w = w" by (intro bit_word_eqI) (auto simp: bit_take_bit_iff)
  then have "take_bit 6 (unat w) = unat w" by (metis unsigned_take_bit_eq)
  then have "unat w < 2 ^ 6" by (simp only: take_bit_nat_eq_self_iff)
  then show ?thesis by (simp add: word_less_nat_alt)
qed

lemma masks: "(w :: u32) AND 0x03 = take_bit 2 w" "w AND 0x0f = take_bit 4 w" "w AND 0x3f = take_bit 6 w"
  by (simp_all add: take_bit_eq_mask mask_eq_exp_minus_1)

lemmas bits64 = bit_or_iff bit_take_bit_iff bit_push_bit_iff bit_drop_bit_eq bit_word_ucast_iff

lemma sextets:
  fixes a b c :: byte
  shows "drop_bit 2 (ucast a :: u32) < 64" "push_bit 4 (take_bit 2 (ucast a)) OR drop_bit 4 (ucast b) < (64 :: u32)"
    "push_bit 2 (take_bit 4 (ucast b)) OR drop_bit 6 (ucast c) < (64 :: u32)" "(take_bit 6 (ucast c) :: u32) < 64"
    "push_bit 4 (take_bit 2 (ucast a)) < (64 :: u32)" "push_bit 2 (take_bit 4 (ucast b)) < (64 :: u32)"
  by (rule below_64; auto simp only: bits64 comp_apply dest!: bit_imp_le_length; simp)+

lemma byte_eqI: "bit x 0 = bit y 0 \<Longrightarrow> bit x 1 = bit y 1 \<Longrightarrow> bit x 2 = bit y 2 \<Longrightarrow> bit x 3 = bit y 3 \<Longrightarrow>
    bit x 4 = bit y 4 \<Longrightarrow> bit x 5 = bit y 5 \<Longrightarrow> bit x 6 = bit y 6 \<Longrightarrow> bit x 7 = bit y 7 \<Longrightarrow> x = (y :: byte)"
proof (rule bit_word_eqI)
  fix n
  assume "n < LENGTH(8)"
  then have "n = 0 \<or> n = 1 \<or> n = 2 \<or> n = 3 \<or> n = 4 \<or> n = 5 \<or> n = 6 \<or> n = 7" by auto
  moreover assume "bit x 0 = bit y 0" "bit x 1 = bit y 1" "bit x 2 = bit y 2" "bit x 3 = bit y 3"
    "bit x 4 = bit y 4" "bit x 5 = bit y 5" "bit x 6 = bit y 6" "bit x 7 = bit y 7"
  ultimately show "bit x n = bit y n" by blast
qed

lemma sextets_bytes:
  fixes a b c :: byte
  shows "ucast (push_bit 2 (drop_bit 2 (ucast a :: u32)) OR drop_bit 4 (push_bit 4 (take_bit 2 (ucast a)) OR drop_bit 4 (ucast b))) = a"
    "ucast (push_bit 4 (push_bit 4 (take_bit 2 (ucast a)) OR drop_bit 4 (ucast b) :: u32) OR drop_bit 2 (push_bit 2 (take_bit 4 (ucast b)) OR drop_bit 6 (ucast c))) = b"
    "ucast (push_bit 6 (push_bit 2 (take_bit 4 (ucast b)) OR drop_bit 6 (ucast c) :: u32) OR take_bit 6 (ucast c)) = c"
    "ucast (push_bit 2 (drop_bit 2 (ucast a :: u32)) OR drop_bit 4 (push_bit 4 (take_bit 2 (ucast a)))) = a"
    "ucast (push_bit 4 (push_bit 4 (take_bit 2 (ucast a)) OR drop_bit 4 (ucast b) :: u32) OR drop_bit 2 (push_bit 2 (take_bit 4 (ucast b)))) = b"
  by (rule byte_eqI; simp only: bits64 comp_apply; simp)+

lemma decode_encode: "decode64 (encode64 bs) = Some bs"
  by (induction bs rule: encode64.induct) (simp_all only: encode64.simps masks append.simps decode64.simps Let_def b64_word sextets sextets_bytes, simp_all add: masks b64_word sextets sextets_bytes)

lemma b64_runs_ok: "3 * n \<le> length data \<Longrightarrow> \<exists>out. b64_runs n data = Some (out, drop (3 * n) data) \<and> length out = 4 * n \<and>
    encode64 data = out @ encode64 (drop (3 * n) data)"
proof (induction n arbitrary: data)
  case (Suc n)
  then obtain a b c r where d: "data = a # b # c # r"
    by (cases data; cases "tl data"; cases "tl (tl data)") auto
  have "drop (3 * Suc n) data = drop (3 * n) r" by (simp add: d eval_nat_numeral drop_Suc)
  moreover have "3 * n \<le> length r" using d Suc.prems by simp
  ultimately show ?case using d Suc.IH [of r] by (auto simp: Let_def simp del: mult_Suc_right) simp
qed simp

lemma b64_tail_ok: "length data < 3 \<Longrightarrow> b64_tail (length data) data = Some (encode64 data)"
  by (cases data; cases "tl data"; cases "tl (tl data)") (auto simp: b64_tail_def Let_def)

lemma base64_yields:
  assumes "buf_mem b" "b_size b + 4 * (length bs div 3 + 1) + 1 < 2 ^ 61"
  shows "yields h (git_buf_put_base64 h b bs (length bs)) (content b @ encode64 bs)"
proof -
  let ?n = "length bs div 3" and ?e = "length bs mod 3"
  have n: "3 * ?n \<le> length bs" "(length bs - ?e) div 3 = ?n" by (simp_all add: minus_mod_eq_mult_div)
  obtain out where out: "b64_runs ?n bs = Some (out, drop (3 * ?n) bs)" "length out = 4 * ?n" "encode64 bs = out @ encode64 (drop (3 * ?n) bs)"
    using b64_runs_ok [OF n(1)] by blast
  have "length (drop (3 * ?n) bs) = ?e" by (simp add: minus_mult_div_eq_mod)
  then have tl: "b64_tail ?e (drop (3 * ?n) bs) = Some (encode64 (drop (3 * ?n) bs))"
    using b64_tail_ok [of "drop (3 * ?n) bs"] by simp
  have l: "b_size b + length (encode64 bs) + 1 < 2 ^ 61" "szw (b_size b + 4 * (?n + (if ?e = 0 then 0 else 1)) + 1) = b_size b + length (encode64 bs) + 1"
    using assms(2) by (auto simp: length_encode64)
  show ?thesis unfolding git_buf_put_base64_def Let_def l(2)
  proof (rule with_size_yields [OF assms(1)])
    fix b' assume b': "buf_mem b'" "content b' = content b" "b_size b' = b_size b" "b_size b + length (encode64 bs) + 1 \<le> b_asize b'"
    show "yields h (do { (out, rest) \<leftarrow> b64_runs ((length bs - ?e) div 3) bs; last \<leftarrow> b64_tail ?e rest;
        buf \<leftarrow> buf_write b' (b_size b') (out @ last); buf \<leftarrow> set_size buf (szw (b_size buf + length (out @ last))); Some (0, buf) }) (content b @ encode64 bs)"
      using append_yields [OF b'(1), of "encode64 bs" "content b"] b' l(1) by (simp add: n(2) out tl)
  qed (use l in simp)
qed

lemma room: "buf_mem b \<Longrightarrow> szw (b_asize b + (2 ^ 64 - b_size b)) = b_asize b - b_size b"
proof -
  assume "buf_mem b"
  then have "b_size b \<le> b_asize b" "b_asize b < 2 ^ 64" by (auto simp: buf_mem_def split: buf_ptr.splits)
  then have "b_asize b + (2 ^ 64 - b_size b) = 2 ^ 64 + (b_asize b - b_size b)" "b_asize b - b_size b < 2 ^ 64" by linarith+
  then show ?thesis unfolding szw_def by (simp only: mod_add_self1 mod_less)
qed

text \<open>What vsnprintf leaves in the buffer: the text up to the end of the allocation, behind the contents.\<close>

lemma vsnprintf_ok:
  assumes "buf_mem b"
  shows "\<exists>b1. p_vsnprintf b (b_size b) (b_asize b - b_size b) (Some t) = Some (int (length t), b1) \<and>
    buf_mem b1 \<and> content b1 = content b \<and> b_size b1 = b_size b \<and> b_asize b1 = b_asize b \<and>
    (b_size b + length t < b_asize b \<longrightarrow> buf_ok (b1\<lparr>b_size := b_size b + length t\<rparr>) \<and> content (b1\<lparr>b_size := b_size b + length t\<rparr>) = content b @ t)"
proof (cases "b_asize b - b_size b = 0")
  case True
  then show ?thesis using assms by (auto simp: p_vsnprintf_def)
next
  case False
  then obtain m where m: "b_ptr b = Mem m" "b_asize b \<le> length m" "b_asize b < 2 ^ 64" "b_size b < length m"
    using assms by (auto simp: buf_mem_def split: buf_ptr.splits)
  let ?t = "take (b_asize b - b_size b - 1) t"
  let ?m = "take (b_size b) m @ (?t @ [0]) @ drop (b_size b + length (?t @ [0])) m"
  have "b_size b + length (?t @ [0]) \<le> length m" using m False by simp
  then have "p_vsnprintf b (b_size b) (b_asize b - b_size b) (Some t) = Some (int (length t), b\<lparr>b_ptr := Mem ?m\<rparr>)"
    using False m(1) by (simp add: p_vsnprintf_def buf_write_def wr_blk_def)
  then show ?thesis using m False assms
    by (auto simp: buf_mem_def buf_ok_def content_def nth_append)
qed

lemma vprintf_step:
  assumes "buf_mem b" "b_size b + length t + 1 < 2 ^ 61"
    "p_vsnprintf b (b_size b) (b_asize b - b_size b) (Some t) = Some (int (length t), b1)"
    "buf_mem b1" "b_size b1 = b_size b" "b_asize b1 = b_asize b"
  shows "vprintf_loop h b (Some t) =
    (if b_size b + length t < b_asize b then Some (0, b1\<lparr>b_size := b_size b + length t\<rparr>)
     else with_size h b1 (szw (b_size b1 + length t + 1)) (\<lambda>b2. vprintf_loop h b2 (Some t)))"
proof -
  have n: "(int (length t) < 0) = False" "nat (int (length t)) = length t" "szw (length t + 1) = length t + 1"
    "szw (b_size b1 + length t) = b_size b + length t" using assms by simp_all
  have c: "(length t + 1 \<le> b_asize b1 - b_size b1) = (b_size b + length t < b_asize b)" using assms(5,6) by linarith
  show ?thesis
    by (subst vprintf_loop.simps)
      (simp only: room [OF assms(1)] room [OF assms(4)] assms(3) bind.bind_lunit prod.case n c if_False with_size_def cong: if_cong)
qed

lemma vprintf_fit:
  assumes "buf_mem b" "b_size b + length t < b_asize b" "b_size b + length t + 1 < 2 ^ 61"
  shows "yields h (vprintf_loop h b (Some t)) (content b @ t)"
proof -
  obtain b1 where b1: "p_vsnprintf b (b_size b) (b_asize b - b_size b) (Some t) = Some (int (length t), b1)" "buf_mem b1"
    "b_size b1 = b_size b" "b_asize b1 = b_asize b"
    "buf_ok (b1\<lparr>b_size := b_size b + length t\<rparr>)" "content (b1\<lparr>b_size := b_size b + length t\<rparr>) = content b @ t"
    using vsnprintf_ok [OF assms(1), of t] assms(2) by blast
  then show ?thesis using vprintf_step [OF assms(1,3) b1(1-4), of h] assms(2) by (simp add: yieldsI)
qed

lemma printf_yields:
  assumes b: "buf_mem b" "b_size b + 2 * fl + length t + 1 < 2 ^ 61"
  shows "yields h (git_buf_printf h b fl (Some t)) (content b @ t)"
  unfolding git_buf_printf_def git_buf_vprintf_def
proof (rule with_size_yields [OF b(1)])
  fix b' assume b': "buf_mem b'" "content b' = content b" "b_size b' = b_size b"
  show "yields h (vprintf_loop h b' (Some t)) (content b @ t)"
  proof (cases "b_size b' + length t < b_asize b'")
    case True
    then show ?thesis using vprintf_fit [OF b'(1) True, of h] b' b by simp
  next
    case False
    obtain b1 where b1: "p_vsnprintf b' (b_size b') (b_asize b' - b_size b') (Some t) = Some (int (length t), b1)" "buf_mem b1"
      "content b1 = content b'" "b_size b1 = b_size b'" "b_asize b1 = b_asize b'"
      using vsnprintf_ok [OF b'(1), of t] by blast
    have "yields h (with_size h b1 (szw (b_size b1 + length t + 1)) (\<lambda>b2. vprintf_loop h b2 (Some t))) (content b @ t)"
    proof (rule with_size_yields [OF b1(2)])
      fix b2 assume "buf_mem b2" "content b2 = content b1" "b_size b2 = b_size b1" "szw (b_size b1 + length t + 1) \<le> b_asize b2"
      then show "yields h (vprintf_loop h b2 (Some t)) (content b @ t)"
        using vprintf_fit [of b2 t h] b b' b1 by simp
    qed (use b b' b1 in simp)
    moreover have "vprintf_loop h b' (Some t) = with_size h b1 (szw (b_size b1 + length t + 1)) (\<lambda>b2. vprintf_loop h b2 (Some t))"
      using vprintf_step [OF b'(1) _ b1(1,2,4,5), of h] False b b' by simp
    ultimately show ?thesis by simp
  qed
qed (use b in simp)

section \<open>Shortening\<close>

lemma truncate_ok:
  assumes "buf_ok b"
  shows "\<exists>b'. git_buf_truncate b n = Some b' \<and> buf_ok b' \<and> content b' = take n (content b)"
  using shorten_at [OF buf_ok_mem [OF assms], of n] length_content [OF buf_ok_mem [OF assms]] assms
  by (cases "n < b_size b") (auto simp: git_buf_truncate_def)

lemma shorten_ok:
  assumes "buf_ok b"
  shows "\<exists>b'. git_buf_shorten b n = Some b' \<and> buf_ok b' \<and> content b' = take (b_size b - n) (content b)"
  using shorten_at [OF buf_ok_mem [OF assms], of "b_size b - n"] by (auto simp: git_buf_shorten_def Let_def)

lemma consume_ok:
  assumes "buf_ok b"
  shows "\<exists>b'. git_buf_consume b k = Some b' \<and> buf_ok b' \<and>
    content b' = (if 0 < k \<and> k \<le> int (b_size b) then drop (nat k) (content b) else content b)"
proof (cases "0 < k \<and> k \<le> int (b_size b)")
  case True
  then obtain m where m: "b_ptr b = Mem m" "b_size b < length m" using assms by (auto simp: buf_ok_def buf_mem_def split: buf_ptr.splits)
  have "buf_read b (nat k) (b_size b - nat k) = Some (drop (nat k) (content b))"
    using m True by (auto simp: buf_read_def ptr_bytes_def rd_blk_def content_def drop_take)
  then show ?thesis using True write_at [OF buf_ok_mem [OF assms], of 0 "drop (nat k) (content b)"] length_content [OF buf_ok_mem [OF assms]]
    by (auto simp: git_buf_consume_def Let_def)
qed (use assms in \<open>auto simp: git_buf_consume_def\<close>)

lemma scan_back_ok:
  assumes "buf_mem b"
  shows "n \<le> b_size b \<Longrightarrow> scan_back p b n = Some (length (dropWhile p (rev (take n (content b)))))"
proof (induction n)
  case (Suc n)
  then obtain m where m: "b_ptr b = Mem m" "b_size b < length m" using assms by (auto simp: buf_mem_def split: buf_ptr.splits)
  then have "take (Suc n) (content b) = take n (content b) @ [m ! n]" using Suc.prems by (simp add: content_def take_Suc_conv_app_nth min_def)
  then show ?case using Suc m by (simp add: ptr_bytes_def length_content [OF assms])
qed simp

lemma drop_to_dropWhile: "drop (length ys - length (dropWhile P ys)) ys = dropWhile P ys"
  by (induction ys) (auto simp: Suc_diff_le length_dropWhile_le)

lemma take_to_dropWhile: "take (length (dropWhile P (rev xs))) xs = rev (dropWhile P (rev xs))"
proof -
  have "rev (take (length (dropWhile P (rev xs))) xs) = drop (length xs - length (dropWhile P (rev xs))) (rev xs)" by (rule rev_take)
  also have "\<dots> = dropWhile P (rev xs)" using drop_to_dropWhile [of "rev xs" P] by simp
  finally show ?thesis by (simp add: rev_swap)
qed

lemma rtrim_ok:
  assumes "buf_ok b"
  shows "\<exists>b'. git_buf_rtrim b = Some b' \<and> buf_ok b' \<and> content b' = rev (dropWhile (\<lambda>c. git__isspace (schar c)) (rev (content b)))"
proof -
  note l = length_content [OF buf_ok_mem [OF assms]]
  let ?n = "length (dropWhile (\<lambda>c. git__isspace (schar c)) (rev (content b)))"
  have "?n \<le> b_size b" using length_dropWhile_le [of _ "rev (content b)"] l by simp
  moreover have "take ?n (content b) = rev (dropWhile (\<lambda>c. git__isspace (schar c)) (rev (content b)))"
    by (rule take_to_dropWhile)
  ultimately show ?thesis using scan_back_ok [OF buf_ok_mem [OF assms], of "b_size b"] shorten_at [OF buf_ok_mem [OF assms], of ?n] l
    by (auto simp: git_buf_rtrim_def)
qed

text \<open>The contents before the last run of characters other than ch, and that ch.\<close>

definition before_last :: "byte \<Rightarrow> byte list \<Rightarrow> byte list" where
  "before_last ch c = rev (tl (dropWhile (\<lambda>x. x \<noteq> ch) (dropWhile (\<lambda>x. x = ch) (rev c))))"

lemma before_last_take:
  "take (length (dropWhile (\<lambda>x. x \<noteq> ch) (dropWhile (\<lambda>x. x = ch) (rev c))) - 1) c = before_last ch c"
proof -
  define r where "r = dropWhile (\<lambda>x. x \<noteq> ch) (dropWhile (\<lambda>x. x = ch) (rev c))"
  define u where "u = takeWhile (\<lambda>x. x = ch) (rev c) @ takeWhile (\<lambda>x. x \<noteq> ch) (dropWhile (\<lambda>x. x = ch) (rev c))"
  have "rev c = u @ r" by (simp add: u_def r_def)
  then have "c = rev r @ rev u" by (metis rev_append rev_rev_ident)
  then have "take (length r - 1) c = rev (tl r)" by (cases r) simp_all
  then show ?thesis by (simp add: r_def before_last_def)
qed

lemma rtruncate_ok:
  assumes "buf_ok b"
  shows "\<exists>b'. git_buf_rtruncate_at_char b ch = Some b' \<and> buf_ok b' \<and> content b' = before_last ch (content b)"
proof -
  note mem = buf_ok_mem [OF assms]
  note l = length_content [OF mem]
  let ?n1 = "length (dropWhile (\<lambda>x. x = ch) (rev (content b)))"
  let ?r = "dropWhile (\<lambda>x. x \<noteq> ch) (dropWhile (\<lambda>x. x = ch) (rev (content b)))"
  have n1: "?n1 \<le> b_size b" using length_dropWhile_le [of _ "rev (content b)"] l by simp
  have "rev (take ?n1 (content b)) = dropWhile (\<lambda>x. x = ch) (rev (content b))" by (simp add: take_to_dropWhile)
  then have s: "git_buf_rfind_next b ch = Some (int (length ?r) - 1)"
    using scan_back_ok [OF mem, of "b_size b"] scan_back_ok [OF mem n1] l by (simp add: git_buf_rfind_next_def)
  have "take (length ?r - 1) (content b) = before_last ch (content b)" by (rule before_last_take)
  moreover have e: "(if int L - 1 < 0 then 0 else nat (int L - 1)) = L - 1" for L by (cases L) auto
  have "git_buf_rtruncate_at_char b ch = git_buf_truncate b (length ?r - 1)"
    unfolding git_buf_rtruncate_at_char_def s bind.bind_lunit e ..
  ultimately show ?thesis using truncate_ok [OF assms, of "length ?r - 1"] by (simp only:)
qed

section \<open>Joining\<close>

lemma buf_write_append:
  "do { b1 \<leftarrow> buf_write b k xs; buf_write b1 (k + length xs) ys } = buf_write b k (xs @ ys)"
proof (cases "b_ptr b")
  case (Mem m)
  then show ?thesis by (cases "k + length xs \<le> length m") (auto simp: buf_write_def wr_blk_def ac_simps)
qed (auto simp: buf_write_def append_eq_Cons_conv)

lemma buf_write_Nil [simp]: "buf_write b k [] = Some b"
  by (simp add: buf_write_def)

text \<open>Two paths with a separator between them.\<close>

definition join_path :: "byte \<Rightarrow> byte list \<Rightarrow> byte list \<Rightarrow> byte list" where
  "join_path sep a b =
     (if sep \<noteq> 0 \<and> a \<noteq> [] then a @ (if last a = sep then [] else [sep]) @ dropWhile (\<lambda>c. c = sep) b else a @ b)"

text \<open>The first string is in front of the buffer already (the buffer's own contents up to a NUL), or elsewhere.\<close>

lemma join_yields:
  assumes b: "buf_mem b" "0 \<notin> set s" "length a + length s + 2 < 2 ^ 61"
    and a: "arg_strlen b str_a = Some (length a)" "a \<noteq> [] \<Longrightarrow> arg_byte b str_a (length a - 1) = Some (last a)"
    and own: "str_a = Own 0 \<and> a = take (length a) (content b) \<or> str_a = Bytes (a @ [0])"
  shows "yields h (git_buf_join h b sep str_a (s @ [0])) (join_path sep a s)"
proof -
  define need where "need = (sep \<noteq> 0 \<and> a \<noteq> [] \<and> last a \<noteq> sep)"
  define t where "t = (if sep \<noteq> 0 \<and> a \<noteq> [] then dropWhile (\<lambda>c. c = sep) s else s)"
  define mid where "mid = (if need then [sep] else [])"
  have jp: "join_path sep a s = a @ mid @ t" by (auto simp: join_path_def need_def t_def mid_def)
  have lt: "length t \<le> length s" by (simp add: t_def length_dropWhile_le)
  have lm: "(if need then 1 else 0) = length mid" by (simp add: mid_def)
  have t1: "(if sep \<noteq> 0 \<and> length a \<noteq> 0 then do { c \<leftarrow> arg_byte b str_a (length a - 1); Some (dropWhile (\<lambda>c. c = sep) s, c \<noteq> sep) }
      else Some (s, False)) = Some (t, need)"
    using a(2) by (auto simp: t_def need_def)
  let ?k = "if str_a = Own 0 then length a else 0" and ?w = "if str_a = Own 0 then mid @ t else a @ mid @ t"
  let ?off = "case str_a of Own k \<Rightarrow> if k < b_size b then Some k else None | _ \<Rightarrow> None"
  let ?d = "length a + length t + length mid + 1"
  have d: "szw ?d = ?d" "szw (length a + length t + length mid) = length a + length t + length mid" "?d < 2 ^ 61" using b(3) lt by (auto simp: mid_def)
  have sa: "str_a \<noteq> NoData" using own by auto
  have J: "git_buf_join h b sep str_a (s @ [0]) = do {
      (rc, b') \<leftarrow> git_buf_grow h b ?d;
      (if rc < 0 then Some (-1, b')
       else do {
         b1 \<leftarrow> (if ?off = Some 0 then Some b'
               else do {
                 x \<leftarrow> (case ?off of Some k \<Rightarrow> buf_read b' k (length a) | None \<Rightarrow> arg_read b b' str_a (length a));
                 buf_write b' 0 x });
         b2 \<leftarrow> (if need then buf_write b1 (length a) [sep] else Some b1);
         b3 \<leftarrow> buf_write b2 (length a + length mid) t;
         b4 \<leftarrow> set_size b3 (length a + length t + length mid);
         Some (0, b4) })}"
    unfolding git_buf_join_def
    by (simp only: sa if_False a(1) bind.bind_lunit cstrlen_app [OF b(2)] Let_def take_append take_all diff_self_eq_0 take_0 append_Nil2 order_refl t1 prod.case lm d)
  have w: "do { b1 \<leftarrow> (if ?off = Some 0 then Some b'
               else do {
                 x \<leftarrow> (case ?off of Some k \<Rightarrow> buf_read b' k (length a) | None \<Rightarrow> arg_read b b' str_a (length a));
                 buf_write b' 0 x });
         b2 \<leftarrow> (if need then buf_write b1 (length a) [sep] else Some b1);
         b3 \<leftarrow> buf_write b2 (length a + length mid) t;
         b4 \<leftarrow> set_size b3 (length a + length t + length mid);
         Some (0 :: int, b4) } = do { b3 \<leftarrow> buf_write b' ?k ?w; b4 \<leftarrow> set_size b3 (length a + length t + length mid); Some (0, b4) }" for b'
  proof -
    have m: "(if need then buf_write b1 (length a) [sep] else Some b1) = buf_write b1 (length a) mid" for b1
      by (cases need) (simp_all add: mid_def)
    have two: "do { b2 \<leftarrow> buf_write b1 (length a) mid; b3 \<leftarrow> buf_write b2 (length a + length mid) t; f b3 } =
        do { b3 \<leftarrow> buf_write b1 (length a) (mid @ t); f b3 }" for b1 and f :: "git_buf \<Rightarrow> (int \<times> git_buf) option"
      unfolding buf_write_append [symmetric] by simp
    show ?thesis
    proof (cases "str_a = Own 0")
      case True
      then have "a \<noteq> [] \<Longrightarrow> 0 < b_size b" using own length_content [OF b(1)] by (cases "content b") auto
      then have "(if ?off = Some 0 then Some b' else do { x \<leftarrow> (case ?off of Some k \<Rightarrow> buf_read b' k (length a) | None \<Rightarrow> arg_read b b' str_a (length a));
          buf_write b' 0 x }) = Some b'"
        using True by (auto simp: arg_read_def)
      then show ?thesis using True unfolding m two by simp
    next
      case False
      then have o: "?off = None" "arg_read b b' str_a (length a) = Some a" using own by (auto simp: arg_read_def rd_blk_def)
      have "do { b1 \<leftarrow> buf_write b' 0 a; b3 \<leftarrow> buf_write b1 (length a) (mid @ t); f b3 } = do { b3 \<leftarrow> buf_write b' 0 (a @ mid @ t); f b3 }"
        for f :: "git_buf \<Rightarrow> (int \<times> git_buf) option"
        unfolding buf_write_append [of b' 0 a, symmetric] by simp
      then show ?thesis using False unfolding m two o by simp
    qed
  qed
  have "(\<exists>b'. git_buf_grow h b ?d = Some (0, b') \<and> buf_mem b' \<and> content b' = content b \<and> ?d \<le> b_asize b' \<and> b_size b' = b_size b) \<or>
      (\<exists>b'. git_buf_grow h b ?d = Some (-1, b') \<and> b_ptr b' = Oombuf \<and> \<not> (\<forall>n. snd h n))"
    using grow_ok [OF b(1) d(3), of h] by blast
  then show ?thesis
  proof (elim disjE exE conjE)
    fix b'
    assume g: "git_buf_grow h b ?d = Some (0, b')" "buf_mem b'" "content b' = content b" "?d \<le> b_asize b'" "b_size b' = b_size b"
    have k: "?k \<le> b_size b'" using own g length_content [OF b(1)] by (auto dest!: arg_cong [where f = length])
    have l: "?k + length ?w = length a + length t + length mid" by simp
    have c: "take ?k (content b') @ ?w = join_path sep a s" using own g(3) by (auto simp: jp)
    obtain b1 b4 where "buf_write b' ?k ?w = Some b1" "set_size b1 (?k + length ?w) = Some b4" "buf_ok b4" "content b4 = take ?k (content b') @ ?w"
      using write_at [OF g(2) k, of ?w] g(4) l by auto
    then show "yields h (git_buf_join h b sep str_a (s @ [0])) (join_path sep a s)"
      unfolding J g(1) bind.bind_lunit prod.case w l c by (simp add: yieldsI)
  qed (simp_all add: J yields_fail)
qed

text \<open>The contents of the buffer up to a NUL, as the first string.\<close>

lemma takeWhile_take:
  assumes "m ! n = 0" "n < length m"
  shows "takeWhile (\<lambda>c. c \<noteq> 0) (take n m) = takeWhile (\<lambda>c. c \<noteq> (0 :: byte)) m"
proof -
  have "takeWhile (\<lambda>c. c \<noteq> 0) (take n m @ 0 # drop (Suc n) m) = takeWhile (\<lambda>c. c \<noteq> 0) (take n m)"
  proof (cases "0 \<in> set (take n m)")
    case True
    then show ?thesis by (intro takeWhile_append1) auto
  next
    case False
    then have "takeWhile (\<lambda>c. c \<noteq> 0) (take n m) = take n m" unfolding takeWhile_eq_all_conv by metis
    then show ?thesis unfolding takeWhile_nul [OF False] by (rule sym)
  qed
  then show ?thesis using id_take_nth_drop [OF assms(2)] assms(1) by simp
qed

lemma own_string:
  assumes "buf_ok b"
  shows "arg_strlen b (Own 0) = Some (length (takeWhile (\<lambda>c. c \<noteq> 0) (content b)))"
    "takeWhile (\<lambda>c. c \<noteq> 0) (content b) \<noteq> [] \<Longrightarrow>
     arg_byte b (Own 0) (length (takeWhile (\<lambda>c. c \<noteq> 0) (content b)) - 1) = Some (last (takeWhile (\<lambda>c. c \<noteq> 0) (content b)))"
proof -
  let ?a = "takeWhile (\<lambda>c. c \<noteq> 0) (content b)"
  have "arg_strlen b (Own 0) = Some (length ?a) \<and> (?a \<noteq> [] \<longrightarrow> arg_byte b (Own 0) (length ?a - 1) = Some (last ?a))"
  proof (cases "b_ptr b")
    case (Mem m)
    then have m: "b_size b < length m" "m ! b_size b = 0" using assms by (auto simp: buf_ok_def buf_mem_def)
    then have a: "?a = takeWhile (\<lambda>c. c \<noteq> 0) m" using Mem takeWhile_take [of m "b_size b"] by (simp add: content_def)
    have "0 \<in> set m" using m by (metis nth_mem)
    moreover have "m ! (length ?a - 1) = last ?a \<and> length ?a - 1 < length m" if ne: "?a \<noteq> []"
    proof -
      have l: "length ?a - 1 < length (takeWhile (\<lambda>c. c \<noteq> 0) m)" using ne a by (cases ?a) simp_all
      then have "takeWhile (\<lambda>c. c \<noteq> 0) m ! (length ?a - 1) = m ! (length ?a - 1)" by (rule List.takeWhile_nth)
      moreover have "last ?a = ?a ! (length ?a - 1)" by (rule last_conv_nth [OF ne])
      moreover have "length (takeWhile (\<lambda>c. c \<noteq> 0) m) \<le> length m" by (rule length_takeWhile_le)
      ultimately show ?thesis using l a by simp
    qed
    ultimately show ?thesis using Mem a by (simp add: arg_strlen_def arg_byte_def ptr_bytes_def cstrlen_def)
  qed (use assms in \<open>auto simp: buf_ok_def buf_mem_def arg_strlen_def ptr_bytes_def cstrlen_def content_def\<close>)
  then show "arg_strlen b (Own 0) = Some (length ?a)" "?a \<noteq> [] \<Longrightarrow> arg_byte b (Own 0) (length ?a - 1) = Some (last ?a)" by auto
qed

lemma join_own_yields:
  assumes "buf_ok b" "0 \<notin> set s" "b_size b + length s + 2 < 2 ^ 61"
  shows "yields h (git_buf_join h b sep (Own 0) (s @ [0])) (join_path sep (takeWhile (\<lambda>c. c \<noteq> 0) (content b)) s)"
proof (rule join_yields [OF buf_ok_mem [OF assms(1)] assms(2)])
  let ?a = "takeWhile (\<lambda>c. c \<noteq> 0) (content b)"
  have "length ?a \<le> b_size b" using length_takeWhile_le [of _ "content b"] length_content [OF buf_ok_mem [OF assms(1)]] by metis
  then show "length ?a + length s + 2 < 2 ^ 61" using assms(3) by simp
  show "Own 0 = Own 0 \<and> ?a = take (length ?a) (content b) \<or> Own 0 = Bytes (?a @ [0])" using takeWhile_eq_take by blast
qed (rule own_string [OF assms(1)]; assumption?)+

lemma join_other_yields:
  assumes "buf_mem b" "0 \<notin> set a" "0 \<notin> set s" "length a + length s + 2 < 2 ^ 61"
  shows "yields h (git_buf_join h b sep (Bytes (a @ [0])) (s @ [0])) (join_path sep a s)"
  by (rule join_yields [OF assms(1,3,4)])
    (use assms in \<open>auto simp: arg_strlen_def cstrlen_app arg_byte_def nth_append last_conv_nth\<close>)

text \<open>Several strings, with a separator after each of them but the last, and without doubling separators.\<close>

fun join_spec :: "byte \<Rightarrow> byte list list \<Rightarrow> byte list \<Rightarrow> byte list" where
  "join_spec sep [] c = c"
| "join_spec sep (s # rest) c =
     (let c' = c @ (if c \<noteq> [] \<and> last c = sep then dropWhile (\<lambda>x. x = sep) s else s)
      in join_spec sep rest (if rest \<noteq> [] \<and> c' \<noteq> [] \<and> last c' \<noteq> sep then c' @ [sep] else c'))"

definition with_sep :: "byte \<Rightarrow> byte list \<Rightarrow> byte list" where
  "with_sep sep c = (if c \<noteq> [] \<and> last c \<noteq> sep then c @ [sep] else c)"

definition holds :: "nat \<Rightarrow> git_buf \<Rightarrow> byte list \<Rightarrow> bool" where
  "holds n b c = (b_asize b = n \<and> length c \<le> n \<and> (\<exists>m. b_ptr b = Mem m \<and> n \<le> length m \<and> take (length c) m = c))"

lemma holds_write:
  assumes "holds n b c" "length c + length bs \<le> n"
  shows "\<exists>b'. buf_write b (length c) bs = Some b' \<and> holds n b' (c @ bs)"
proof -
  obtain m where "b_asize b = n" "b_ptr b = Mem m" "n \<le> length m" "take (length c) m = c" using assms(1) by (auto simp: holds_def)
  then show ?thesis using assms(2) by (cases "bs = []") (auto simp: buf_write_def wr_blk_def holds_def)
qed

lemma holds_end: "holds n b c \<Longrightarrow> ends_with b (length c) sep = Some (c \<noteq> [] \<and> last c = sep)"
proof (cases c rule: rev_cases)
  case (snoc c' x)
  assume "holds n b c"
  then obtain m where m: "b_ptr b = Mem m" "take (length c) m = c" "length c \<le> length m" by (auto simp: holds_def)
  then have "m ! length c' = x" "length c' < length m" using snoc by (metis length_append_singleton lessI nth_append_length nth_take, simp)
  then have "take 1 (drop (length c') m) = [x]" by (simp add: take_Suc_conv_app_nth)
  then show ?thesis using m snoc by (simp add: ends_with_def buf_read_def ptr_bytes_def rd_blk_def)
qed (simp add: ends_with_def)

definition need_sep :: "byte \<Rightarrow> byte list \<Rightarrow> nat" where
  "need_sep sep s = length s + (if s = [] \<or> last s \<noteq> sep then 1 else 0)"

definition seg :: "byte list \<Rightarrow> bytes_ptr" where
  "seg s = Bytes (s @ [0])"

lemma join_total_ok: "list_all (\<lambda>s. 0 \<notin> set s) segs \<Longrightarrow> t + sum_list (map (need_sep sep) segs) < 2 ^ 61 \<Longrightarrow>
    join_total b sep (map seg segs) t = Some (t + sum_list (map (need_sep sep) segs))"
proof (induction segs arbitrary: t)
  case (Cons s segs)
  have "arg_strlen b (seg s) = Some (length s)" using Cons.prems by (simp add: arg_strlen_def seg_def cstrlen_app)
  moreover have "s \<noteq> [] \<Longrightarrow> arg_byte b (seg s) (length s - 1) = Some (last s)"
    by (simp add: arg_byte_def seg_def nth_append last_conv_nth)
  moreover have "seg s \<noteq> NoData" by (simp add: seg_def)
  ultimately show ?case using Cons by (auto simp: need_sep_def)
qed simp

lemma last_dropWhile_suffix: "dropWhile P s \<noteq> [] \<Longrightarrow> last (dropWhile P s) = last s"
  by (induction s) auto

definition add_segment :: "byte \<Rightarrow> byte list \<Rightarrow> byte list \<Rightarrow> bool \<Rightarrow> byte list" where
  "add_segment sep c s again =
     (let c' = c @ (if c \<noteq> [] \<and> last c = sep then dropWhile (\<lambda>x. x = sep) s else s)
      in if again \<and> c' \<noteq> [] \<and> last c' \<noteq> sep then c' @ [sep] else c')"

lemma length_add_segment: "length (add_segment sep c s again) \<le> length c + need_sep sep s"
proof -
  have "dropWhile (\<lambda>x. x = sep) s \<noteq> [] \<Longrightarrow> last (dropWhile (\<lambda>x. x = sep) s) = last s" by (rule last_dropWhile_suffix)
  moreover have "length (dropWhile (\<lambda>x. x = sep) s) \<le> length s" by (rule length_dropWhile_le)
  ultimately show ?thesis
    by (cases "dropWhile (\<lambda>x. x = sep) s = []"; cases "s = []") (auto simp: add_segment_def need_sep_def Let_def)
qed

lemma join_copy_step:
  assumes s: "0 \<notin> set s" and h: "holds n b c" and l: "length c + need_sep sep s \<le> n"
  shows "\<exists>b'. join_copy old sep (seg s # rest) b (length c) = join_copy old sep rest b' (length (add_segment sep c s (rest \<noteq> []))) \<and>
    holds n b' (add_segment sep c s (rest \<noteq> []))"
proof -
  let ?bs = "if c \<noteq> [] \<and> last c = sep then dropWhile (\<lambda>x. x = sep) s else s"
  have rd: "do { n \<leftarrow> cstrlen (s @ [0]); rd_blk (s @ [0]) 0 n } = Some s" using s by (simp add: cstrlen_app rd_blk_def)
  have lb: "length (c @ ?bs) \<le> length (add_segment sep c s (rest \<noteq> []))" by (simp add: add_segment_def Let_def)
  then have "length c + length ?bs \<le> n" using length_add_segment [of sep c s "rest \<noteq> []"] l by simp
  then obtain b1 where b1: "buf_write b (length c) ?bs = Some b1" "holds n b1 (c @ ?bs)" using holds_write [OF h] by blast
  have J: "join_copy old sep (seg s # rest) b (length c) =
      (if rest \<noteq> [] \<and> c @ ?bs \<noteq> [] \<and> last (c @ ?bs) \<noteq> sep then do { b \<leftarrow> buf_write b1 (length (c @ ?bs)) [sep]; join_copy old sep rest b (length (c @ ?bs) + 1) }
       else join_copy old sep rest b1 (length (c @ ?bs)))"
  proof -
    have e: "length c + length ?bs = length (c @ ?bs)" by simp
    have z: "(0 < length (c @ ?bs)) = (c @ ?bs \<noteq> [])" by (rule length_greater_0_conv)
    have w: "(rest \<noteq> [] \<and> c @ ?bs \<noteq> [] \<and> \<not> (c @ ?bs \<noteq> [] \<and> last (c @ ?bs) = sep)) = (rest \<noteq> [] \<and> c @ ?bs \<noteq> [] \<and> last (c @ ?bs) \<noteq> sep)" by blast
    show ?thesis
      unfolding join_copy.simps
      by (simp only: seg_def bytes_ptr.case bytes_ptr.distinct if_False rd holds_end [OF h] bind.bind_lunit Let_def b1(1) e holds_end [OF b1(2)] z w)
  qed
  show ?thesis
  proof (cases "rest \<noteq> [] \<and> c @ ?bs \<noteq> [] \<and> last (c @ ?bs) \<noteq> sep")
    case True
    then have j: "add_segment sep c s (rest \<noteq> []) = (c @ ?bs) @ [sep]" unfolding add_segment_def Let_def by (simp only: if_True simp_thms)
    then have "length (c @ ?bs) + length [sep] \<le> n" using length_add_segment [of sep c s "rest \<noteq> []"] l by simp
    then obtain b2 where "buf_write b1 (length (c @ ?bs)) [sep] = Some b2" "holds n b2 ((c @ ?bs) @ [sep])" using holds_write [OF b1(2)] by blast
    then show ?thesis unfolding J j using True by (intro exI [of _ b2]) (simp only: if_True bind.bind_lunit length_append list.size simp_thms, simp)
  next
    case False
    then have "add_segment sep c s (rest \<noteq> []) = c @ ?bs" unfolding add_segment_def Let_def by (simp only: if_False)
    then show ?thesis unfolding J using False b1(2) by (intro exI [of _ b1]) (simp only: if_False simp_thms)
  qed
qed

lemma join_copy_ok:
  "list_all (\<lambda>s. 0 \<notin> set s) segs \<Longrightarrow> holds n b c \<Longrightarrow> length c + sum_list (map (need_sep sep) segs) \<le> n \<Longrightarrow>
   \<exists>b'. join_copy old sep (map seg segs) b (length c) = Some (b', length (join_spec sep segs c)) \<and> holds n b' (join_spec sep segs c) \<and>
     length (join_spec sep segs c) \<le> length c + sum_list (map (need_sep sep) segs)"
proof (induction segs arbitrary: b c)
  case (Cons s segs)
  have l: "length c + need_sep sep s \<le> n" using Cons.prems by simp
  obtain b1 where b1: "join_copy old sep (seg s # map seg segs) b (length c) = join_copy old sep (map seg segs) b1 (length (add_segment sep c s (segs \<noteq> [])))"
    "holds n b1 (add_segment sep c s (segs \<noteq> []))"
    using join_copy_step [of s n b c sep old "map seg segs"] Cons.prems l by auto
  have sp: "join_spec sep (s # segs) c = join_spec sep segs (add_segment sep c s (segs \<noteq> []))" by (simp add: add_segment_def Let_def)
  have "length (add_segment sep c s (segs \<noteq> [])) \<le> length c + need_sep sep s" by (rule length_add_segment)
  then show ?case using Cons.IH [OF _ b1(2)] Cons.prems b1(1) unfolding sp by fastforce
qed simp

lemma holds_content: "buf_mem b \<Longrightarrow> b_ptr b = Mem m \<Longrightarrow> holds (b_asize b) b (content b)"
  by (auto simp: holds_def buf_mem_def content_def)

lemma content_end: "buf_mem b \<Longrightarrow> ends_with b (b_size b) sep = Some (content b \<noteq> [] \<and> last (content b) = sep)"
proof (cases "b_ptr b")
  case (Mem m)
  assume b: "buf_mem b"
  show ?thesis using holds_end [OF holds_content [OF b Mem], of sep] by (simp add: length_content [OF b])
qed (auto simp: buf_mem_def ends_with_def content_def)

lemma holds_finish:
  assumes "holds n b c" "length c < n" "n < 2 ^ 64"
  shows "\<exists>b'. set_size b (length c) = Some b' \<and> buf_ok b' \<and> content b' = c"
proof -
  obtain m where m: "b_asize b = n" "b_ptr b = Mem m" "n \<le> length m" "take (length c) m = c" using assms(1) by (auto simp: holds_def)
  have "set_size b (length c) = Some (b\<lparr>b_ptr := Mem (m[length c := 0]), b_size := length c\<rparr>)"
    using m assms(2) by (cases b) (simp add: set_size_def buf_write_def wr_blk_def upd_conv_take_nth_drop)
  then show ?thesis using m assms(2,3) by (auto simp: buf_ok_def buf_mem_def content_def)
qed

lemma sum_need_zero: "sum_list (map (need_sep sep) segs) = 0 \<Longrightarrow> segs = []"
  by (cases segs) (auto simp: need_sep_def)

lemma join_n_yields:
  assumes b: "buf_mem b" and segs: "list_all (\<lambda>s. 0 \<notin> set s) segs" and d: "b_size b + sum_list (map (need_sep sep) segs) + 2 < 2 ^ 61" and ok: "buf_ok b"
  shows "yields h (git_buf_join_n h b sep (map seg segs)) (join_spec sep segs (with_sep sep (content b)))"
proof -
  let ?e = "content b \<noteq> [] \<and> last (content b) = sep"
  let ?t0 = "if 0 < b_size b \<and> \<not> ?e then 1 else 0 :: nat" and ?n = "sum_list (map (need_sep sep) segs)"
  note lc = length_content [OF b]
  have tot: "join_total b sep (map seg segs) ?t0 = Some (?t0 + ?n)" using join_total_ok [OF segs, of ?t0 sep b] d by simp
  have ws: "length (with_sep sep (content b)) = b_size b + ?t0" using lc by (cases "content b") (auto simp: with_sep_def)
  show ?thesis
  proof (cases "?t0 + ?n = 0")
    case True
    then have "segs = []" "with_sep sep (content b) = content b" using sum_need_zero [of sep segs] lc by (auto simp: with_sep_def split: if_splits)
    moreover have "git_buf_join_n h b sep (map seg segs) = Some (0, b)"
      unfolding git_buf_join_n_def content_end [OF b] bind.bind_lunit tot by (simp only: True bind.bind_lunit refl if_True)
    ultimately show ?thesis using ok by (simp add: yieldsI)
  next
    case False
    let ?d = "b_size b + (?t0 + ?n) + 1"
    have d': "?d < 2 ^ 61" "szw ?d = ?d" using d by auto
    have J: "git_buf_join_n h b sep (map seg segs) = do {
        (rc, b') \<leftarrow> git_buf_grow h b ?d;
        (if rc < 0 then Some (-1, b')
         else do {
           at_end \<leftarrow> ends_with b' (b_size b') sep;
           (b1, out) \<leftarrow> (if 0 < b_size b' \<and> \<not> at_end
                          then do { b \<leftarrow> buf_write b' (b_size b') [sep]; Some (b, b_size b' + 1) }
                          else Some (b', b_size b'));
           (b2, out) \<leftarrow> join_copy b sep (map seg segs) b1 out;
           b3 \<leftarrow> set_size b2 out;
           Some (0, b3) })}"
      unfolding git_buf_join_n_def content_end [OF b] bind.bind_lunit tot d' using False by (simp only: bind.bind_lunit if_False)
    have "(\<exists>b'. git_buf_grow h b ?d = Some (0, b') \<and> buf_mem b' \<and> content b' = content b \<and> ?d \<le> b_asize b' \<and> b_size b' = b_size b) \<or>
        (\<exists>b'. git_buf_grow h b ?d = Some (-1, b') \<and> b_ptr b' = Oombuf \<and> \<not> (\<forall>n. snd h n))"
      using grow_ok [OF b d'(1), of h] by blast
    then show ?thesis
    proof (elim disjE exE conjE)
      fix b'
      assume g: "git_buf_grow h b ?d = Some (0, b')" "buf_mem b'" "content b' = content b" "?d \<le> b_asize b'" "b_size b' = b_size b"
      then obtain m where m: "b_ptr b' = Mem m" "b_asize b' < 2 ^ 64" by (auto simp: buf_mem_def split: buf_ptr.splits)
      have h0: "holds (b_asize b') b' (content b)" using holds_content [OF g(2) m(1)] g(3) by simp
      obtain b1 where b1: "(if 0 < b_size b' \<and> \<not> ?e then do { b \<leftarrow> buf_write b' (b_size b') [sep]; Some (b, b_size b' + 1) }
          else Some (b', b_size b')) = Some (b1, length (with_sep sep (content b)))" "holds (b_asize b') b1 (with_sep sep (content b))"
        using holds_write [OF h0, of "[sep]"] h0 g(4,5) lc by (cases "0 < b_size b' \<and> \<not> ?e"; cases "content b") (auto simp: with_sep_def)
      obtain b2 where b2: "join_copy b sep (map seg segs) b1 (length (with_sep sep (content b))) = Some (b2, length (join_spec sep segs (with_sep sep (content b))))"
        "holds (b_asize b') b2 (join_spec sep segs (with_sep sep (content b)))"
        "length (join_spec sep segs (with_sep sep (content b))) \<le> length (with_sep sep (content b)) + ?n"
        using join_copy_ok [OF segs b1(2), of sep b] g(4) ws by auto
      obtain b3 where b3: "set_size b2 (length (join_spec sep segs (with_sep sep (content b)))) = Some b3" "buf_ok b3"
        "content b3 = join_spec sep segs (with_sep sep (content b))"
        using holds_finish [OF b2(2) _ m(2)] b2(3) ws g(4) by auto
      have "ends_with b' (b_size b') sep = Some ?e" using content_end [OF g(2), of sep] g(3) by simp
      then show "yields h (git_buf_join_n h b sep (map seg segs)) (join_spec sep segs (with_sep sep (content b)))"
        unfolding J g(1) bind.bind_lunit prod.case using b1(1) b2(1) b3 by (simp add: yieldsI)
    qed (simp_all add: J yields_fail)
  qed
qed

section \<open>Sequences of operations\<close>

datatype buf_op =
    OpSet "byte list" | OpSets "byte list" | OpPutc byte | OpPut "byte list" | OpPuts "byte list" | OpBase64 "byte list"
  | OpPrintf nat "byte list" | OpClear | OpConsume int | OpTruncate nat | OpShorten nat | OpRtruncate byte | OpRtrim
  | OpJoin byte "byte list" | OpJoinOther byte "byte list" "byte list" | OpJoinN byte "byte list list"

definition done_with :: "git_buf option \<Rightarrow> (int \<times> git_buf) option" where
  "done_with r = do { b \<leftarrow> r; Some (0, b) }"

primrec run_op :: "heap \<Rightarrow> buf_op \<Rightarrow> git_buf \<Rightarrow> (int \<times> git_buf) option" where
  "run_op h (OpSet bs) b = git_buf_set h b (Bytes bs) (length bs)"
| "run_op h (OpSets s) b = git_buf_sets h b (Bytes (s @ [0]))"
| "run_op h (OpPutc c) b = git_buf_putc h b c"
| "run_op h (OpPut bs) b = git_buf_put h b (Bytes bs) (length bs)"
| "run_op h (OpPuts s) b = git_buf_puts h b (Bytes (s @ [0]))"
| "run_op h (OpBase64 bs) b = git_buf_put_base64 h b bs (length bs)"
| "run_op h (OpPrintf fl t) b = git_buf_printf h b fl (Some t)"
| "run_op h OpClear b = done_with (git_buf_clear b)"
| "run_op h (OpConsume k) b = done_with (git_buf_consume b k)"
| "run_op h (OpTruncate n) b = done_with (git_buf_truncate b n)"
| "run_op h (OpShorten n) b = done_with (git_buf_shorten b n)"
| "run_op h (OpRtruncate ch) b = done_with (git_buf_rtruncate_at_char b ch)"
| "run_op h OpRtrim b = done_with (git_buf_rtrim b)"
| "run_op h (OpJoin sep s) b = git_buf_join h b sep (Own 0) (s @ [0])"
| "run_op h (OpJoinOther sep a s) b = git_buf_join h b sep (Bytes (a @ [0])) (s @ [0])"
| "run_op h (OpJoinN sep segs) b = git_buf_join_n h b sep (map seg segs)"

text \<open>What the operations do to the contents.\<close>

primrec spec_op :: "buf_op \<Rightarrow> byte list \<Rightarrow> byte list" where
  "spec_op (OpSet bs) c = bs"
| "spec_op (OpSets s) c = s"
| "spec_op (OpPutc x) c = c @ [x]"
| "spec_op (OpPut bs) c = c @ bs"
| "spec_op (OpPuts s) c = c @ s"
| "spec_op (OpBase64 bs) c = c @ encode64 bs"
| "spec_op (OpPrintf fl t) c = c @ t"
| "spec_op OpClear c = []"
| "spec_op (OpConsume k) c = (if 0 < k \<and> k \<le> int (length c) then drop (nat k) c else c)"
| "spec_op (OpTruncate n) c = take n c"
| "spec_op (OpShorten n) c = take (length c - n) c"
| "spec_op (OpRtruncate ch) c = before_last ch c"
| "spec_op OpRtrim c = rev (dropWhile (\<lambda>x. git__isspace (schar x)) (rev c))"
| "spec_op (OpJoin sep s) c = join_path sep (takeWhile (\<lambda>x. x \<noteq> 0) c) s"
| "spec_op (OpJoinOther sep a s) c = join_path sep a s"
| "spec_op (OpJoinN sep segs) c = join_spec sep segs (with_sep sep c)"

text \<open>C strings have no NUL inside.\<close>

primrec op_valid :: "buf_op \<Rightarrow> bool" where
  "op_valid (OpSet bs) = True"
| "op_valid (OpSets s) = (0 \<notin> set s)"
| "op_valid (OpPutc x) = True"
| "op_valid (OpPut bs) = True"
| "op_valid (OpPuts s) = (0 \<notin> set s)"
| "op_valid (OpBase64 bs) = True"
| "op_valid (OpPrintf fl t) = True"
| "op_valid OpClear = True"
| "op_valid (OpConsume k) = True"
| "op_valid (OpTruncate n) = True"
| "op_valid (OpShorten n) = True"
| "op_valid (OpRtruncate ch) = True"
| "op_valid OpRtrim = True"
| "op_valid (OpJoin sep s) = (0 \<notin> set s)"
| "op_valid (OpJoinOther sep a s) = (0 \<notin> set a \<and> 0 \<notin> set s)"
| "op_valid (OpJoinN sep segs) = list_all (\<lambda>s. 0 \<notin> set s) segs"

text \<open>A bound on the bytes that an operation needs beyond the contents.\<close>

primrec op_cost :: "buf_op \<Rightarrow> nat" where
  "op_cost (OpSet bs) = length bs + 1"
| "op_cost (OpSets s) = length s + 1"
| "op_cost (OpPutc x) = 2"
| "op_cost (OpPut bs) = length bs + 1"
| "op_cost (OpPuts s) = length s + 1"
| "op_cost (OpBase64 bs) = 4 * (length bs div 3 + 1) + 1"
| "op_cost (OpPrintf fl t) = 2 * fl + length t + 1"
| "op_cost OpClear = 0"
| "op_cost (OpConsume k) = 0"
| "op_cost (OpTruncate n) = 0"
| "op_cost (OpShorten n) = 0"
| "op_cost (OpRtruncate ch) = 0"
| "op_cost OpRtrim = 0"
| "op_cost (OpJoin sep s) = length s + 2"
| "op_cost (OpJoinOther sep a s) = length a + length s + 2"
| "op_cost (OpJoinN sep segs) = sum_list (map (\<lambda>s. length s + 1) segs) + 2"

lemma done_yields: "\<exists>b'. r = Some b' \<and> buf_ok b' \<and> content b' = c \<Longrightarrow> yields h (done_with r) c"
  by (auto simp: done_with_def yieldsI)

lemma sets_yields:
  assumes "buf_mem b" "length s + 1 < 2 ^ 61" "0 \<notin> set s"
  shows "yields h (git_buf_sets h b (Bytes (s @ [0]))) s"
proof -
  have "git_buf_set h b (Bytes (s @ [0])) (length s) = git_buf_set h b (Bytes s) (length s)"
    by (simp add: git_buf_set_def arg_read_def rd_blk_def)
  then show ?thesis using set_yields [OF assms(1,2), of h] assms(3) by (simp add: git_buf_sets_def arg_strlen_def cstrlen_app)
qed

lemma need_le: "sum_list (map (need_sep sep) segs) \<le> sum_list (map (\<lambda>s. length s + 1) segs)"
  by (induction segs) (auto simp: need_sep_def)

lemma op_yields:
  assumes b: "buf_ok b" "op_valid x" "b_size b + op_cost x < 2 ^ 61"
  shows "yields h (run_op h x b) (spec_op x (content b))"
proof -
  note m = buf_ok_mem [OF b(1)]
  note l = length_content [OF m]
  show ?thesis
  proof (cases x)
    case (OpJoinN sep segs)
    then show ?thesis using join_n_yields [OF m _ _ b(1), of segs sep h] need_le [of sep segs] b by simp
  next
    case OpClear
    then show ?thesis using clear_yields [OF m, of h] by (simp add: done_with_def)
  next
    case (OpSet bs)
    then show ?thesis using b l by (simp add: set_yields [OF m])
  next
    case (OpSets s)
    then show ?thesis using b l by (simp add: sets_yields [OF m])
  next
    case (OpPutc c)
    then show ?thesis using b l by (simp add: putc_yields [OF m])
  next
    case (OpPut bs)
    then show ?thesis using b l by (simp add: put_yields [OF m])
  next
    case (OpPuts s)
    then show ?thesis using b l by (simp add: puts_yields [OF m])
  next
    case (OpBase64 bs)
    then show ?thesis using b l by (simp add: base64_yields [OF m])
  next
    case (OpPrintf fl t)
    then show ?thesis using b l by (simp add: printf_yields [OF m])
  next
    case (OpConsume k)
    then show ?thesis using b l by (simp add: done_yields [OF consume_ok [OF b(1)]])
  next
    case (OpTruncate n)
    then show ?thesis using b l by (simp add: done_yields [OF truncate_ok [OF b(1)]])
  next
    case (OpShorten n)
    then show ?thesis using b l by (simp add: done_yields [OF shorten_ok [OF b(1)]])
  next
    case (OpRtruncate ch)
    then show ?thesis using b l by (simp add: done_yields [OF rtruncate_ok [OF b(1)]])
  next
    case OpRtrim
    then show ?thesis using b l by (simp add: done_yields [OF rtrim_ok [OF b(1)]])
  next
    case (OpJoin sep s)
    then show ?thesis using b l by (simp add: join_own_yields [OF b(1)])
  next
    case (OpJoinOther sep a s)
    then show ?thesis using b l by (simp add: join_other_yields [OF m])
  qed
qed

text \<open>A sequence of calls, up to the first that fails.\<close>

fun run_ops :: "heap \<Rightarrow> buf_op list \<Rightarrow> git_buf \<Rightarrow> (int \<times> git_buf) option" where
  "run_ops h [] b = Some (0, b)"
| "run_ops h (x # xs) b = do {
     (rc, b') \<leftarrow> run_op h x b;
     (if rc < 0 then Some (rc, b') else run_ops h xs b') }"

lemma length_before_last: "length (before_last ch c) \<le> length c"
  using length_dropWhile_le [of "\<lambda>x. x \<noteq> ch" "dropWhile (\<lambda>x. x = ch) (rev c)"] length_dropWhile_le [of "\<lambda>x. x = ch" "rev c"]
  by (simp add: before_last_def)

lemma length_join_path: "length (join_path sep a s) \<le> length a + length s + 1"
  using length_dropWhile_le [of "\<lambda>c. c = sep" s] by (simp add: join_path_def)

lemma length_join_spec: "length (join_spec sep segs c) \<le> length c + sum_list (map (need_sep sep) segs)"
proof (induction segs arbitrary: c)
  case (Cons s segs)
  have sp: "join_spec sep (s # segs) c = join_spec sep segs (add_segment sep c s (segs \<noteq> []))" by (simp add: add_segment_def Let_def)
  show ?case using Cons [of "add_segment sep c s (segs \<noteq> [])"] length_add_segment [of sep c s "segs \<noteq> []"] unfolding sp by simp
qed simp

lemma length_spec_op: "length (spec_op x c) \<le> length c + op_cost x"
proof (cases x)
  case (OpJoin sep s)
  then show ?thesis using length_join_path [of sep "takeWhile (\<lambda>x. x \<noteq> 0) c" s] length_takeWhile_le [of "\<lambda>x. x \<noteq> 0" c] by simp
next
  case (OpJoinOther sep a s)
  then show ?thesis using length_join_path [of sep a s] by simp
next
  case (OpJoinN sep segs)
  have "length (with_sep sep c) \<le> length c + 1" by (simp add: with_sep_def)
  then show ?thesis using OpJoinN length_join_spec [of sep segs "with_sep sep c"] need_le [of sep segs] by simp
next
  case (OpRtruncate ch)
  then show ?thesis using length_before_last by simp
next
  case OpRtrim
  then show ?thesis using length_dropWhile_le [of _ "rev c"] by simp
qed (auto simp: length_encode64)

lemma run_ops_yields:
  "buf_ok b \<Longrightarrow> list_all op_valid xs \<Longrightarrow> b_size b + sum_list (map op_cost xs) < 2 ^ 61 \<Longrightarrow>
   yields h (run_ops h xs b) (fold spec_op xs (content b))"
proof (induction xs arbitrary: b)
  case Nil
  then show ?case by (simp add: yieldsI)
next
  case (Cons x xs)
  have "yields h (run_op h x b) (spec_op x (content b))" using Cons.prems by (intro op_yields) simp_all
  then show ?case unfolding yields_def
  proof (elim disjE exE conjE, goal_cases)
    case (1 b')
    have "b_size b' \<le> b_size b + op_cost x"
      using 1 length_spec_op [of x "content b"] length_content [OF buf_ok_mem [OF Cons.prems(1)]] length_content [OF buf_ok_mem [OF 1(2)]] by simp
    then show ?case using Cons.IH [OF 1(2)] 1 Cons.prems by (simp add: yields_def)
  qed simp
qed

section \<open>Properties\<close>

text \<open>C13: A git\_buf is a byte string.  Any sequence of writing, shortening, trimming, joining, base64 and
  formatting calls on a fresh buffer ends with exactly the contents that the calls describe, in a
  well-formed buffer with a NUL behind them; no access leaves an object, whatever the allocator's blocks
  contained and wherever it decides to move them.  The only other outcome is -1 from the first
  refused allocation, with the buffer marked.\<close>

theorem git_buf_refines:
  assumes "list_all op_valid xs" "sum_list (map op_cost xs) < 2 ^ 61"
  shows "(\<exists>b. run_ops h xs GIT_BUF_INIT = Some (0, b) \<and> buf_ok b \<and> content b = fold spec_op xs []) \<or>
    (\<exists>b. run_ops h xs GIT_BUF_INIT = Some (-1, b) \<and> git_buf_oom b \<and> \<not> (\<forall>n. snd h n))"
  using run_ops_yields [of GIT_BUF_INIT xs h] assms
  by (auto simp: yields_def GIT_BUF_INIT_def buf_ok_def buf_mem_def content_def git_buf_oom_def)

theorem git_buf_refines_witness:
  "\<exists>b. run_ops (\<lambda>_. 7, \<lambda>_. True) [OpPuts [97, 98], OpJoin 47 [47, 99], OpBase64 [77, 97, 110], OpRtruncate 47, OpPutc 100] GIT_BUF_INIT = Some (0, b) \<and>
     buf_ok b \<and> content b = [97, 98, 100]"
proof -
  have "fold spec_op [OpPuts [97, 98], OpJoin 47 [47, 99], OpBase64 [77, 97, 110], OpRtruncate 47, OpPutc 100] [] = [97, 98, 100]" by code_simp
  then show ?thesis
    using git_buf_refines [of "[OpPuts [97, 98], OpJoin 47 [47, 99], OpBase64 [77, 97, 110], OpRtruncate 47, OpPutc 100]" "(\<lambda>_. 7, \<lambda>_. True)"] by simp
qed

text \<open>C14: Base64 is lossless: what git\_buf\_put\_base64 appends to a buffer decodes to the bytes it was given.\<close>

theorem base64_roundtrip:
  assumes "buf_ok b" "b_size b + 4 * (length bs div 3 + 1) + 1 < 2 ^ 61" "\<forall>n. snd h n"
  shows "\<exists>b'. git_buf_put_base64 h b bs (length bs) = Some (0, b') \<and> buf_ok b' \<and> take (b_size b) (content b') = content b \<and>
    decode64 (drop (b_size b) (content b')) = Some bs"
  using base64_yields [OF buf_ok_mem [OF assms(1)] assms(2), of h] length_content [OF buf_ok_mem [OF assms(1)]] assms(3)
  by (auto simp: yields_def decode_encode)

theorem base64_roundtrip_witness:
  "\<exists>b'. git_buf_put_base64 (\<lambda>_. 7, \<lambda>_. True) GIT_BUF_INIT [0, 255, 16, 131] 4 = Some (0, b') \<and> decode64 (content b') = Some [0, 255, 16, 131]"
proof -
  have "buf_ok GIT_BUF_INIT" "b_size GIT_BUF_INIT = 0" by (simp_all add: GIT_BUF_INIT_def buf_ok_def buf_mem_def)
  then obtain b' where "git_buf_put_base64 (\<lambda>_. 7, \<lambda>_. True) GIT_BUF_INIT [0, 255, 16, 131] (length [0, 255, 16, 131 :: byte]) = Some (0, b')"
    "decode64 (drop (b_size GIT_BUF_INIT) (content b')) = Some [0, 255, 16, 131]"
    using base64_roundtrip [of GIT_BUF_INIT "[0, 255, 16, 131]" "(\<lambda>_. 7, \<lambda>_. True)"] by auto
  moreover have "length [0, 255, 16, 131 :: byte] = 4" by simp
  ultimately show ?thesis using \<open>b_size GIT_BUF_INIT = 0\<close> by (metis drop0)
qed

text \<open>Two ways to leave the buffer's memory.  After a refused allocation on a buffer that had memory, the
  mark hides a positive size: the next git\_buf\_putc writes through the mark.  And git\_buf\_splice
  makes no room for the NUL: on a buffer with 7 bytes in a block of 8 an insertion of one writes
  it behind the block.\<close>

theorem git_buf_overruns:
  "git_buf_put (\<lambda>_. 7, \<lambda>n. n < 100) \<lparr>b_ptr = Mem [65, 66, 67, 0, 7, 7, 7, 7], b_asize = 8, b_size = 3\<rparr> (Bytes (replicate 100 1)) 100 =
     Some (-1, \<lparr>b_ptr = Oombuf, b_asize = 8, b_size = 3\<rparr>) \<and>
   git_buf_putc (\<lambda>_. 7, \<lambda>n. n < 100) \<lparr>b_ptr = Oombuf, b_asize = 8, b_size = 3\<rparr> 68 = None \<and>
   buf_ok \<lparr>b_ptr = Mem [65, 66, 67, 68, 69, 70, 71, 0], b_asize = 8, b_size = 7\<rparr> \<and>
   git_buf_splice (\<lambda>_. 7, \<lambda>n. n < 100) \<lparr>b_ptr = Mem [65, 66, 67, 68, 69, 70, 71, 0], b_asize = 8, b_size = 7\<rparr> 0 0 [64] 1 = None"
proof -
  have g: "grow_size 8 104 = Some 140" by ((subst grow_size.simps, simp add: szw_def)+)
  have "git_buf_put (\<lambda>_. 7, \<lambda>n. n < 100) \<lparr>b_ptr = Mem [65, 66, 67, 0, 7, 7, 7, 7], b_asize = 8, b_size = 3\<rparr> (Bytes (replicate 100 1)) 100 =
     Some (-1, \<lparr>b_ptr = Oombuf, b_asize = 8, b_size = 3\<rparr>)"
    by (simp add: git_buf_put_def with_size_def ENSURE_SIZE_def git_buf_grow_def git_buf_try_grow_def g git__realloc_def)
  moreover have "git_buf_putc (\<lambda>_. 7, \<lambda>n. n < 100) \<lparr>b_ptr = Oombuf, b_asize = 8, b_size = 3\<rparr> 68 = None"
    by (simp add: git_buf_putc_def with_size_def ENSURE_SIZE_def buf_write_def)
  moreover have "buf_ok \<lparr>b_ptr = Mem [65, 66, 67, 68, 69, 70, 71, 0], b_asize = 8, b_size = 7\<rparr>"
    by (simp add: buf_ok_def buf_mem_def)
  moreover have "git_buf_splice (\<lambda>_. 7, \<lambda>n. n < 100) \<lparr>b_ptr = Mem [65, 66, 67, 68, 69, 70, 71, 0], b_asize = 8, b_size = 7\<rparr> 0 0 [64] 1 = None"
    by (simp add: git_buf_splice_def git_buf_len_def szw_def git_buf_grow_def git_buf_try_grow_def buf_read_def ptr_bytes_def rd_blk_def
        buf_write_def wr_blk_def set_size_def)
  ultimately show ?thesis by blast
qed

section \<open>Splicing\<close>

text \<open>The number of bytes that may be written at the pointer of a buffer.\<close>

definition block_size :: "git_buf \<Rightarrow> nat" where
  "block_size b = (case b_ptr b of Mem m \<Rightarrow> length m | _ \<Rightarrow> 1)"

lemma write_mem:
  assumes "b_ptr b = Mem m"
  shows "buf_write b k bs = (if k + length bs \<le> length m \<or> bs = [] then Some (b\<lparr>b_ptr := Mem (take k m @ bs @ drop (k + length bs) m)\<rparr>) else None)"
  using assms by (cases b) (auto simp: buf_write_def wr_blk_def)

lemma splice_mem:
  assumes b: "buf_mem b" "w + r \<le> b_size b" "b_ptr b = Mem m" "d = b_size b + length data - r" "d \<le> b_asize b"
  shows "Option.bind (buf_read b (w + r) (b_size b - w - r)) (\<lambda>bs. Option.bind (buf_write b (w + length data) bs) (\<lambda>b'.
      Option.bind (buf_write b' w data) (\<lambda>b'. set_size b' d))) =
    (if d < length m then Some \<lparr>b_ptr = Mem (take w m @ data @ take (b_size b - w - r) (drop (w + r) m) @ 0 # drop (d + 1) m), b_asize = b_asize b, b_size = d\<rparr>
     else None)"
proof -
  let ?n = "length data" and ?t = "take (b_size b - w - r) (drop (w + r) m)"
  have m: "b_asize b \<le> length m" "b_size b < length m" using b(1,3) by (auto simp: buf_mem_def)
  have t: "length ?t = b_size b - w - r" "w + ?n + length ?t = d" using b(2,4) m by simp_all
  have rd: "buf_read b (w + r) (b_size b - w - r) = Some ?t"
    using b(2,3) m by (simp add: buf_read_def ptr_bytes_def rd_blk_def)
  let ?m1 = "take (w + ?n) m @ ?t @ drop d m"
  have w1: "buf_write b (w + ?n) ?t = Some (b\<lparr>b_ptr := Mem ?m1\<rparr>)"
    unfolding write_mem [OF b(3)] t(2) using b(5) m by simp
  have l1: "length ?m1 = length m" using t b(5) m by (simp add: min_def) linarith
  let ?m2 = "take w m @ data @ ?t @ drop d m"
  have wn: "w + ?n \<le> length m" using t(2) b(5) m by linarith
  have w2: "buf_write (b\<lparr>b_ptr := Mem ?m1\<rparr>) w data = Some (b\<lparr>b_ptr := Mem ?m2\<rparr>)"
  proof -
    have "take w ?m1 = take w m" "drop (w + ?n) ?m1 = ?t @ drop d m" using wn by simp_all
    moreover have "b_ptr (b\<lparr>b_ptr := Mem ?m1\<rparr>) = Mem ?m1" by simp
    ultimately show ?thesis using write_mem [of "b\<lparr>b_ptr := Mem ?m1\<rparr>" ?m1 w data] wn l1 by simp
  qed
  define m2 where "m2 = ?m2"
  have l2: "length (take w m @ data @ ?t) = d" "length m2 = length m" using t(2) wn b(5) m by (simp_all add: m2_def)
  have td: "take d m2 = take w m @ data @ ?t" "drop (d + 1) m2 = drop (d + 1) m"
  proof -
    have e: "m2 = (take w m @ data @ ?t) @ drop d m" by (simp add: m2_def)
    show "take d m2 = take w m @ data @ ?t" using l2(1) unfolding e by (metis append_eq_conv_conj)
    have "drop d m2 = drop d m" using l2(1) unfolding e by (metis append_eq_conv_conj)
    then show "drop (d + 1) m2 = drop (d + 1) m" by (metis drop_drop add.commute)
  qed
  have "set_size (b\<lparr>b_ptr := Mem m2\<rparr>) d = (if d < length m then Some \<lparr>b_ptr = Mem ((take w m @ data @ ?t) @ 0 # drop (d + 1) m), b_asize = b_asize b, b_size = d\<rparr> else None)"
    using write_mem [of "b\<lparr>b_ptr := Mem m2, b_size := d\<rparr>" m2 d "[0]"] l2(2)
    unfolding td [symmetric] by (cases b) (simp add: set_size_def)
  then show ?thesis unfolding rd bind.bind_lunit w1 w2 m2_def by simp
qed

text \<open>The wrapping computation of the new size is the difference that is meant.\<close>

lemma splice_target:
  assumes "w + r \<le> k" "k + n < 2 ^ 60"
  shows "szw (szw (k + n) + (2 ^ 64 - r)) = k + n - r"
proof -
  have "k + n + (2 ^ 64 - r) = k + n - r + 2 ^ 64" using assms by simp
  then have "szw (k + n + (2 ^ 64 - r)) = (k + n - r) mod 2 ^ 64" by (simp only: szw_def mod_add_self2)
  then show ?thesis using assms by simp
qed

lemma splice_by_grow:
  assumes "w + r \<le> b_size b" "b_size b + length data < 2 ^ 60" "git_buf_grow h b (b_size b + length data - r) = Some (0, b1)" "b_size b1 = b_size b"
  shows "git_buf_splice h b w r data (length data) =
    map_option (Pair 0) (Option.bind (buf_read b1 (w + r) (b_size b1 - w - r)) (\<lambda>bs. Option.bind (buf_write b1 (w + length data) bs) (\<lambda>b'.
      Option.bind (buf_write b' w data) (\<lambda>b'. set_size b' (b_size b + length data - r)))))"
proof -
  note s = splice_target [OF assms(1,2)]
  have keep: "b_size b' = b_size c" if "buf_write c k x = Some b'" for c k x b'
    using that by (cases "b_ptr c") (auto simp: buf_write_def split: if_splits Option.bind_splits)
  have "szw (w + r) = w + r" using assms(1,2) by simp
  then show ?thesis unfolding git_buf_splice_def git_buf_len_def
    using assms(1,3) s keep
    by (auto simp: assms(4) rd_blk_def map_option_case split: Option.bind_splits option.splits)
qed

lemma splice_refused:
  assumes "w + r \<le> b_size b" "b_size b + length data < 2 ^ 60" "git_buf_grow h b (b_size b + length data - r) = Some (-1, b1)"
  shows "git_buf_splice h b w r data (length data) = Some (-1, b1)"
proof -
  note t = splice_target [OF assms(1,2)]
  have "szw (w + r) = w + r" using assms(1,2) by simp
  then show ?thesis unfolding git_buf_splice_def git_buf_len_def t using assms by simp
qed

lemma splice_after_grow:
  assumes "buf_ok b" "w + r \<le> b_size b" "b_size b + length data < 2 ^ 60"
    and b1: "git_buf_grow h b (b_size b + length data - r) = Some (0, b1)" "buf_mem b1" "content b1 = content b"
      "b_size b + length data - r \<le> b_asize b1" "b_size b1 = b_size b"
  shows "if b_size b + length data - r < block_size b1
     then \<exists>b'. git_buf_splice h b w r data (length data) = Some (0, b') \<and> buf_ok b' \<and>
       content b' = take w (content b) @ data @ drop (w + r) (content b)
     else git_buf_splice h b w r data (length data) = None"
proof -
  let ?d = "b_size b + length data - r"
  note sp = splice_by_grow [OF assms(2,3) b1(1,5)]
  show ?thesis
  proof (cases "b_ptr b1")
    case (Mem m)
    let ?b = "\<lparr>b_ptr = Mem (take w m @ data @ take (b_size b1 - w - r) (drop (w + r) m) @ 0 # drop (?d + 1) m), b_asize = b_asize b1, b_size = ?d\<rparr>"
    have s: "git_buf_splice h b w r data (length data) = (if ?d < length m then Some (0, ?b) else None)"
      unfolding sp using splice_mem [OF b1(2) _ Mem, of w r ?d data] assms(2) b1(4,5) by simp
    have m: "b_asize b1 \<le> length m" "b_size b < length m" "0 < b_asize b1" "b_asize b1 < 2 ^ 64" using b1(2,5) Mem by (auto simp: buf_mem_def)
    have c: "content b = take (b_size b) m" using b1(3,5) Mem by (simp add: content_def)
    have l: "length (take w m @ data @ take (b_size b1 - w - r) (drop (w + r) m)) = ?d" using assms(2) m b1(5) by simp
    have "buf_ok ?b \<and> content ?b = take w (content b) @ data @ drop (w + r) (content b)" if "?d < length m"
    proof -
      have n: "(take w m @ data @ take (b_size b1 - w - r) (drop (w + r) m) @ 0 # drop (?d + 1) m) ! ?d = 0"
        using l by (metis append.assoc nth_append_length)
      have t: "take ?d (take w m @ data @ take (b_size b1 - w - r) (drop (w + r) m) @ 0 # drop (?d + 1) m) = take w m @ data @ take (b_size b1 - w - r) (drop (w + r) m)"
        using l by (metis append.assoc append_eq_conv_conj)
      have "take (b_size b1 - w - r) (drop (w + r) m) = drop (w + r) (take (b_size b) m)" using b1(5) by (simp add: drop_take)
      moreover have "take w (take (b_size b) m) = take w m" using assms(2) by simp
      moreover have "content ?b = take w m @ data @ take (b_size b1 - w - r) (drop (w + r) m)" unfolding t [symmetric] by (simp add: content_def)
      ultimately have "content ?b = take w (content b) @ data @ drop (w + r) (content b)" unfolding c by simp
      moreover have "buf_ok ?b"
      proof -
        have "length (take w m @ data @ take (b_size b1 - w - r) (drop (w + r) m) @ 0 # drop (?d + 1) m) =
          length (take w m @ data @ take (b_size b1 - w - r) (drop (w + r) m)) + 1 + (length m - (?d + 1))" by simp
        also have "\<dots> = length m" unfolding l using that by simp
        finally show ?thesis using n m b1(4) that
          by (simp only: buf_ok_def buf_mem_def git_buf.simps buf_ptr.simps)
      qed
      ultimately show ?thesis by blast
    qed
    then show ?thesis using Mem s by (simp add: block_size_def)
  next
    case Initbuf
    then have z: "b_asize b1 = 0" "b_size b1 = 0" using b1(2) by (simp_all add: buf_mem_def)
    then have e: "data = []" "w = 0" "r = 0" "b_size b = 0" "content b = []"
      using b1(3-5) assms(2) Initbuf by (simp_all add: content_def)
    have "git_buf_splice h b w r data (length data) = Some (0, b1)" "buf_ok b1" "content b1 = []"
      unfolding sp using z e Initbuf b1(2) by (cases b1; simp add: buf_read_def buf_write_def set_size_def buf_ok_def content_def)+
    then show ?thesis using Initbuf e by (simp add: block_size_def)
  qed (use b1(2) in \<open>simp_all add: buf_mem_def\<close>)
qed

text \<open>C15: git\_buf\_splice on any well-formed buffer, within the range its assert asks for.  Either an allocation
  is refused, and it fails with the buffer marked as out of memory, or the buffer grows to the new size
  and then all depends on the byte for the terminating NUL, which git\_buf\_grow was not asked for:
  when the block is longer than the new contents, the call succeeds, the buffer is well-formed and its
  contents are the old ones with the given range replaced by the data; when the new contents fill
  the block, the NUL is written behind it.\<close>

theorem git_buf_splice_spec:
  assumes "buf_ok b" "w + r \<le> b_size b" "b_size b + length data < 2 ^ 60"
  shows "(\<exists>b1. \<not> (\<forall>n. snd h n) \<and> b_ptr b1 = Oombuf \<and> git_buf_splice h b w r data (length data) = Some (-1, b1)) \<or>
   (\<exists>b1. git_buf_grow h b (b_size b + length data - r) = Some (0, b1) \<and> content b1 = content b \<and>
    (if b_size b + length data - r < block_size b1
     then \<exists>b'. git_buf_splice h b w r data (length data) = Some (0, b') \<and> buf_ok b' \<and>
       content b' = take w (content b) @ data @ drop (w + r) (content b)
     else git_buf_splice h b w r data (length data) = None))"
proof -
  let ?d = "b_size b + length data - r"
  have d: "?d < 2 ^ 61" using assms(3) by simp
  consider b1 where "git_buf_grow h b ?d = Some (0, b1)" "buf_mem b1" "content b1 = content b" "?d \<le> b_asize b1" "b_size b1 = b_size b"
    | b1 where "git_buf_grow h b ?d = Some (-1, b1)" "b_ptr b1 = Oombuf" "\<not> (\<forall>n. snd h n)"
    using grow_ok [OF buf_ok_mem [OF assms(1)] d, of h] by blast
  then show ?thesis
  proof cases
    case b1: 1
    then show ?thesis using splice_after_grow [OF assms b1] by blast
  next
    case b1: 2
    then show ?thesis using splice_refused [OF assms(2,3) b1(1)] by blast
  qed
qed

theorem git_buf_splice_spec_witness:
  "(\<exists>b'. git_buf_splice (\<lambda>_. 7, \<lambda>_. True) \<lparr>b_ptr = Mem [65, 66, 67, 0, 9, 9, 9, 9], b_asize = 8, b_size = 3\<rparr> 1 2 [1, 2, 3] 3 = Some (0, b') \<and>
     buf_ok b' \<and> content b' = [65, 1, 2, 3]) \<and>
   git_buf_splice (\<lambda>_. 7, \<lambda>_. True) \<lparr>b_ptr = Mem [65, 66, 67, 0, 9, 9, 9, 9], b_asize = 8, b_size = 3\<rparr> 1 0 [1, 2, 3, 4, 5] 5 = None"
proof -
  let ?b = "\<lparr>b_ptr = Mem [65, 66, 67, 0, 9, 9, 9, 9 :: byte], b_asize = 8, b_size = 3\<rparr>" and ?h = "(\<lambda>_. 7, \<lambda>_. True)"
  have b: "buf_ok ?b" "content ?b = [65, 66, 67]" by (simp_all add: buf_ok_def buf_mem_def content_def)
  have g: "git_buf_grow ?h ?b 4 = Some (0, ?b)" "git_buf_grow ?h ?b 8 = Some (0, ?b)" "block_size ?b = 8"
    by (simp_all add: git_buf_grow_def git_buf_try_grow_def block_size_def)
  have l: "length [1, 2, 3 :: byte] = 3" "length [1, 2, 3, 4, 5 :: byte] = 5" by simp_all
  show ?thesis
    using git_buf_splice_spec [OF b(1), of 1 2 "[1, 2, 3]" ?h, unfolded l] git_buf_splice_spec [OF b(1), of 1 0 "[1, 2, 3, 4, 5]" ?h, unfolded l] g b(2)
    by simp
qed

end
