(* ===== verification/BufTextProps.thy ===== *)
theory BufTextProps
  imports BufText BufferProps "HOL-Library.Sublist"
begin

text \<open>
  The contract of the text operations over that of the byte buffer: escaping and unescaping, line ends, the
  greatest common prefix, and the statistics of a text.
\<close>

section \<open>Appending without the NUL\<close>

lemma reset_mem: "buf_mem b \<Longrightarrow> buf_mem (b\<lparr>b_size := 0\<rparr>) \<and> content (b\<lparr>b_size := 0\<rparr>) = []"
  by (auto simp: buf_mem_def content_def split: buf_ptr.splits)

lemma emit_ok:
  assumes "buf_mem b" "b_size b + length bs < b_asize b"
  shows "\<exists>b'. buf_emit b bs = Some b' \<and> buf_mem b' \<and> content b' = content b @ bs \<and> b_size b' = b_size b + length bs \<and> b_asize b' = b_asize b"
proof (cases "b_ptr b")
  case (Mem m)
  then have m: "b_asize b < 2 ^ 64" "b_asize b \<le> length m" using assms by (auto simp: buf_mem_def)
  let ?m = "take (b_size b) m @ bs @ drop (b_size b + length bs) m"
  have "buf_write b (b_size b) bs = Some (b\<lparr>b_ptr := Mem ?m\<rparr>)"
    using Mem m assms(2) by (cases b) (auto simp: buf_write_def wr_blk_def)
  moreover have "szw (b_size b + length bs) = b_size b + length bs" using m assms(2) by simp
  ultimately have "buf_emit b bs = Some (b\<lparr>b_ptr := Mem ?m, b_size := b_size b + length bs\<rparr>)" by (simp add: buf_emit_def)
  then show ?thesis using Mem m assms by (auto simp: buf_mem_def content_def)
qed (use assms in \<open>auto simp: buf_mem_def\<close>)

lemma finish_mem: "buf_mem b \<Longrightarrow> \<exists>b'. set_size b (b_size b) = Some b' \<and> buf_ok b' \<and> content b' = content b"
  using shorten_at [of b "b_size b"] length_content [of b] by auto

text \<open>A call of git\_buf\_grow whose failure is returned.\<close>

lemma grow_yields:
  assumes "buf_mem b" "0 < d" "d < 2 ^ 61"
    and "\<And>b'. buf_mem b' \<Longrightarrow> content b' = content b \<Longrightarrow> b_size b' = b_size b \<Longrightarrow> d \<le> b_asize b' \<Longrightarrow> yields h (body b') c"
  shows "yields h (do { (rc, b') \<leftarrow> git_buf_grow h b d; (if rc < 0 then Some (-1, b') else body b') }) c"
  using grow_ok [OF assms(1,3), of h]
proof (elim disjE exE, goal_cases)
  case (1 b')
  then show ?case using assms(4) [of b'] by simp
next
  case (2 b')
  then show ?case using yields_fail [of b' h c] by auto
qed

section \<open>Escaping and unescaping\<close>

definition escaped :: "byte list \<Rightarrow> byte list \<Rightarrow> byte list \<Rightarrow> byte list" where
  "escaped chars esc s = concat (map (\<lambda>c. if c \<in> set chars then esc @ [c] else [c]) s)"

lemma escaped_append: "escaped chars esc (s @ t) = escaped chars esc s @ escaped chars esc t"
  by (simp add: escaped_def)

lemma escaped_plain: "\<forall>c \<in> set s. c \<notin> set chars \<Longrightarrow> escaped chars esc s = s"
  by (induction s) (auto simp: escaped_def)

lemma escaped_special: "\<forall>c \<in> set s. c \<in> set chars \<Longrightarrow> escaped chars esc s = concat (map (\<lambda>c. esc @ [c]) s)"
  by (induction s) (auto simp: escaped_def)

lemma cspn_split: "s = take (strcspn s cs) s @ drop (strcspn s cs) s" "\<forall>c \<in> set (take (strcspn s cs) s). c \<notin> set cs"
  by (rule append_take_drop_id [symmetric]) (auto simp: strcspn_def takeWhile_eq_take [symmetric] dest: set_takeWhileD)

lemma spn_split: "s = take (strspn s cs) s @ drop (strspn s cs) s" "\<forall>c \<in> set (take (strspn s cs) s). c \<in> set cs"
  "strspn s cs \<le> length s" "strcspn s cs \<le> length s"
  by (rule append_take_drop_id [symmetric])
    (auto simp: strspn_def strcspn_def takeWhile_eq_take [symmetric] length_takeWhile_le dest: set_takeWhileD)

lemma length_prefixed: "length (concat (map (\<lambda>c. esc @ [c]) s)) = length s * (length esc + 1)"
  by (induction s) auto

lemma escaped_step:
  "escaped cs esc s = take (strcspn s cs) s @ concat (map (\<lambda>c. esc @ [c]) (take (strspn (drop (strcspn s cs) s) cs) (drop (strcspn s cs) s)))
     @ escaped cs esc (drop (strspn (drop (strcspn s cs) s) cs) (drop (strcspn s cs) s))"
proof -
  let ?r = "drop (strcspn s cs) s"
  have "escaped cs esc s = escaped cs esc (take (strcspn s cs) s @ take (strspn ?r cs) ?r @ drop (strspn ?r cs) ?r)"
    using cspn_split(1) [of s cs] spn_split(1) [of ?r cs] by metis
  then show ?thesis
    unfolding escaped_append using escaped_plain [OF cspn_split(2)] escaped_special [OF spn_split(2)] by metis
qed

lemma escape_total_ok:
  "t + length (escaped cs esc s) < 2 ^ 61 \<Longrightarrow> escape_total cs (length esc) s t = t + length (escaped cs esc s)"
proof (induction cs "length esc" s t rule: escape_total.induct)
  case (1 cs s t)
  show ?case
  proof (cases "s = []")
    case True
    then show ?thesis by (subst escape_total.simps) (simp add: escaped_def)
  next
    case False
    let ?n = "strcspn s cs" and ?r = "drop (strcspn s cs) s"
    let ?k = "strspn ?r cs"
    have l: "length (escaped cs esc s) = ?n + ?k * (length esc + 1) + length (escaped cs esc (drop ?k ?r))"
      using spn_split(3) [of ?r cs] spn_split(4) [of s cs]
      by (subst escaped_step) (simp add: length_prefixed)
    have "escape_total cs (length esc) s t = escape_total cs (length esc) (drop ?k ?r) (t + ?n + ?k * (length esc + 1))"
      using False 1(2) l by (subst escape_total.simps) (simp add: Let_def)
    also have "\<dots> = t + ?n + ?k * (length esc + 1) + length (escaped cs esc (drop ?k ?r))"
      using 1(1) [OF False refl refl refl refl refl] 1(2) l by simp
    finally show ?thesis using l by simp
  qed
qed

lemma escape_run_ok:
  "k \<le> length s \<Longrightarrow> buf_mem b \<Longrightarrow> b_size b + k * (length esc + 1) < b_asize b \<Longrightarrow>
   \<exists>b'. escape_run k esc s b = Some b' \<and> buf_mem b' \<and> content b' = content b @ concat (map (\<lambda>c. esc @ [c]) (take k s)) \<and>
     b_size b' = b_size b + k * (length esc + 1) \<and> b_asize b' = b_asize b"
proof (induction k arbitrary: s b)
  case (Suc k)
  then obtain c r where s: "s = c # r" by (cases s) auto
  obtain b1 where b1: "buf_emit b esc = Some b1" "buf_mem b1" "content b1 = content b @ esc" "b_size b1 = b_size b + length esc" "b_asize b1 = b_asize b"
    using emit_ok [of b esc] Suc.prems by auto
  obtain b2 where b2: "buf_emit b1 [c] = Some b2" "buf_mem b2" "content b2 = content b1 @ [c]" "b_size b2 = b_size b1 + 1" "b_asize b2 = b_asize b1"
    using emit_ok [of b1 "[c]"] b1 Suc.prems by auto
  show ?case using Suc.IH [of r b2] Suc.prems b1 b2 s by (auto simp: algebra_simps)
qed simp

lemma escape_copy_ok:
  "buf_mem b \<Longrightarrow> b_size b + length (escaped cs esc s) < b_asize b \<Longrightarrow>
   \<exists>b'. escape_copy cs esc s b = Some b' \<and> buf_mem b' \<and> content b' = content b @ escaped cs esc s"
proof (induction "length s" arbitrary: s b rule: less_induct)
  case less
  show ?case
  proof (cases "s = []")
    case True
    then show ?thesis using less.prems by (subst escape_copy.simps) (simp add: escaped_def)
  next
    case False
    let ?n = "strcspn s cs" and ?r = "drop (strcspn s cs) s"
    let ?k = "strspn ?r cs"
    have len: "?k \<le> length ?r" "?n \<le> length s" by (rule spn_split)+
    have l: "length (escaped cs esc s) = ?n + ?k * (length esc + 1) + length (escaped cs esc (drop ?k ?r))"
      using len by (subst escaped_step) (simp add: length_prefixed)
    obtain b1 where b1: "buf_emit b (take ?n s) = Some b1" "buf_mem b1" "content b1 = content b @ take ?n s" "b_size b1 = b_size b + ?n" "b_asize b1 = b_asize b"
      using emit_ok [of b "take ?n s"] less.prems l len by auto
    obtain b2 where b2: "escape_run ?k esc ?r b1 = Some b2" "buf_mem b2" "content b2 = content b1 @ concat (map (\<lambda>c. esc @ [c]) (take ?k ?r))"
      "b_size b2 = b_size b1 + ?k * (length esc + 1)" "b_asize b2 = b_asize b1"
      using escape_run_ok [OF len(1) b1(2), of esc] b1(4,5) less.prems l by auto
    obtain b3 where b3: "escape_copy cs esc (drop ?k ?r) b2 = Some b3" "buf_mem b3" "content b3 = content b2 @ escaped cs esc (drop ?k ?r)"
      using less.hyps [OF spn_shorter [OF False, of cs] b2(2)] b1 b2 less.prems l by auto
    have "escape_copy cs esc s b = Some b3"
      using False by (subst escape_copy.simps) (simp only: if_False Let_def b1(1) b2(1) b3(1) bind.bind_lunit)
    moreover have "content b3 = content b @ escaped cs esc s"
      unfolding b3(3) b2(3) b1(3) using escaped_step [of cs esc s] by simp
    ultimately show ?thesis using b3(2) by blast
  qed
qed

lemma escaped_yields:
  assumes "buf_mem b" "b_size b + length (escaped cs esc s) + 1 < 2 ^ 61"
  shows "yields h (git_buf_text_puts_escaped h b (Some s) cs esc) (content b @ escaped cs esc s)"
proof -
  have t: "escape_total cs (length esc) s 0 = length (escaped cs esc s)" using escape_total_ok [of 0 cs esc s] assms by simp
  have z: "szw (b_size b + length (escaped cs esc s) + 1) = b_size b + length (escaped cs esc s) + 1" using assms by simp
  show ?thesis
    unfolding git_buf_text_puts_escaped_def option.case Let_def t z
  proof (rule grow_yields [OF assms(1) _ assms(2)])
    fix b' assume b': "buf_mem b'" "content b' = content b" "b_size b' = b_size b" "b_size b + length (escaped cs esc s) + 1 \<le> b_asize b'"
    obtain b1 where b1: "escape_copy cs esc s b' = Some b1" "buf_mem b1" "content b1 = content b' @ escaped cs esc s"
      using escape_copy_ok [OF b'(1), of cs esc s] b' by auto
    then show "yields h (do { buf \<leftarrow> escape_copy cs esc s b'; buf \<leftarrow> set_size buf (b_size buf); Some (0, buf) }) (content b @ escaped cs esc s)"
      using finish_mem [OF b1(2)] b' by (auto simp: yields_def)
  qed simp
qed

lemma unescape_plain: "92 \<notin> set c \<Longrightarrow> unescape_loop (c @ r) = c @ unescape_loop r"
proof (induction c)
  case (Cons x c)
  then show ?case by (cases "c @ r") auto
qed simp

lemma unescape_escaped: "92 \<in> set cs \<Longrightarrow> unescape_loop (escaped cs [92] s) = s"
proof (induction s)
  case (Cons c s)
  show ?case
  proof (cases "c \<in> set cs")
    case False
    then have "c \<noteq> 92" using Cons.prems by auto
    then show ?thesis using unescape_plain [of "[c]" "escaped cs [92] s"] Cons False by (simp add: escaped_def)
  qed (use Cons in \<open>simp add: escaped_def\<close>)
qed (simp add: escaped_def)

lemma unescape_longest: "length (unescape_loop s) = length s \<Longrightarrow> unescape_loop s = s"
proof (induction s rule: unescape_loop.induct)
  case (3 c d s)
  then show ?case using unescape_loop_length [of s] by (auto split: if_splits)
qed auto

lemma unescape_ok:
  assumes "buf_ok b" "0 \<notin> set (content b)"
  shows "\<exists>b'. git_buf_text_unescape b = Some b' \<and> buf_ok b' \<and> content b' = unescape_loop (content b)"
proof (cases "b_ptr b")
  case (Mem m)
  then have m: "m ! b_size b = 0" "b_size b < length m" "content b = take (b_size b) m" using assms(1) by (auto simp: buf_ok_def buf_mem_def content_def)
  then have e: "m = content b @ 0 # drop (Suc (b_size b)) m" by (metis id_take_nth_drop)
  have lc: "length (content b) = b_size b" by (rule length_content [OF buf_ok_mem [OF assms(1)]])
  have n: "cstrlen m = Some (b_size b)" using takeWhile_nul [OF assms(2)] lc
    by (subst e) (simp add: cstrlen_def)
  have t: "take (b_size b) m = content b" by (simp add: m)
  let ?s = "unescape_loop (content b)"
  have le: "length ?s \<le> b_size b" using unescape_loop_length [of "content b"] lc by simp
  show ?thesis
  proof (cases "length ?s = b_size b")
    case True
    then have "?s = content b" using unescape_longest lc by metis
    then show ?thesis using Mem assms(1) True n t by (auto simp: git_buf_text_unescape_def ptr_bytes_def git__unescape_def Let_def)
  next
    case False
    let ?m = "?s @ [0] @ drop (length ?s + 1) m"
    have w: "buf_write b 0 (?s @ [0]) = Some (b\<lparr>b_ptr := Mem ?m\<rparr>)" using Mem m le by (cases b) (auto simp: buf_write_def wr_blk_def)
    have "git_buf_text_unescape b = Some (b\<lparr>b_ptr := Mem ?m, b_size := length ?s\<rparr>)"
      using Mem False by (simp add: git_buf_text_unescape_def ptr_bytes_def git__unescape_def Let_def n t w)
    then show ?thesis using Mem m le assms(1) by (auto simp: buf_ok_def buf_mem_def content_def nth_append)
  qed
qed (use assms in \<open>auto simp: buf_ok_def buf_mem_def content_def git_buf_text_unescape_def ptr_bytes_def cstrlen_def git__unescape_def\<close>)

section \<open>Line ends\<close>

fun to_lf :: "byte list \<Rightarrow> byte list" where
  "to_lf (c # d # s) = (if c = 13 \<and> d = 10 then to_lf (d # s) else c # to_lf (d # s))"
| "to_lf s = s"

text \<open>The first argument says that a CR precedes.\<close>

primrec to_crlf :: "bool \<Rightarrow> byte list \<Rightarrow> byte list" where
  "to_crlf cr [] = []"
| "to_crlf cr (c # s) = (if c = 10 \<and> \<not> cr then [13, 10] else [c]) @ to_crlf (c = 13) s"

lemma to_lf_plain: "13 \<notin> set s \<Longrightarrow> to_lf s = s"
  by (induction s rule: to_lf.induct) auto

lemma to_lf_Cons: "c \<noteq> 13 \<Longrightarrow> to_lf (c # s) = c # to_lf s"
  by (cases s) auto

lemma to_lf_chunk: "13 \<notin> set a \<Longrightarrow> to_lf (a @ s) = a @ to_lf s"
  by (induction a) (auto simp: to_lf_Cons)

lemma to_lf_cr: "to_lf (13 # s) = (if s = [] \<or> hd s \<noteq> 10 then [13] else []) @ to_lf s"
  by (cases s) auto

lemma length_to_lf: "length (to_lf s) \<le> length s"
  by (induction s rule: to_lf.induct) auto

lemma length_to_crlf: "length (to_crlf cr s) \<le> 2 * length s"
  by (induction s arbitrary: cr) (auto intro: le_SucI)

lemma to_crlf_plain: "10 \<notin> set s \<Longrightarrow> to_crlf cr s = s"
  by (induction s arbitrary: cr) auto

lemma to_crlf_chunk: "10 \<notin> set a \<Longrightarrow> to_crlf cr (a @ 10 # s) = a @ (if if a = [] then cr else last a = 13 then [10] else [13, 10]) @ to_crlf False s"
  by (induction a arbitrary: cr) auto

lemma to_lf_to_crlf: "to_lf (to_crlf cr s) = to_lf s"
proof (induction s arbitrary: cr)
  case (Cons c s)
  have h: "s \<noteq> [] \<Longrightarrow> to_crlf True s \<noteq> [] \<and> hd (to_crlf True s) = hd s" by (cases s) auto
  show ?case
  proof (cases "c = 13")
    case True
    then show ?thesis using Cons [of True] h by (cases "s = []") (simp_all add: to_lf_cr)
  next
    case False
    then show ?thesis using Cons [of False] by (simp add: to_lf_Cons)
  qed
qed simp

lemma chunk_split: "x \<in> set s \<Longrightarrow> s = takeWhile (\<lambda>c. c \<noteq> x) s @ x # tl (dropWhile (\<lambda>c. c \<noteq> x) s)"
  by (induction s) auto

lemma chunk_rest: "tl (dropWhile P s) = drop (length (takeWhile P s) + 1) s"
  by (simp add: dropWhile_eq_drop drop_Suc tl_drop)

lemma notin_takeWhile: "x \<notin> set (takeWhile (\<lambda>c. c \<noteq> x) s)"
  by (auto dest: set_takeWhileD)

lemma crlf_loop_ok:
  "holds n b c \<Longrightarrow> length c + length s \<le> n \<Longrightarrow>
   \<exists>rest c' b'. crlf_loop s (length c) b = Some (rest, length c', b') \<and> holds n b' c' \<and> c' @ rest = c @ to_lf s \<and> length (c' @ rest) \<le> n"
proof (induction "length s" arbitrary: s b c rule: less_induct)
  case less
  show ?case
  proof (cases "13 \<in> set s")
    case False
    then show ?thesis using less.prems by (subst crlf_loop.simps) (auto simp: to_lf_plain)
  next
    case True
    define a where "a = takeWhile (\<lambda>c. c \<noteq> 13) s"
    define r where "r = tl (dropWhile (\<lambda>c. c \<noteq> 13) s)"
    have s: "s = a @ 13 # r" "13 \<notin> set a" using chunk_split [OF True] notin_takeWhile [of 13 s] by (simp_all add: a_def r_def)
    then have l: "length s = length a + 1 + length r" by simp
    have lf: "to_lf s = a @ (if r = [] \<or> hd r \<noteq> 10 then [13] else []) @ to_lf r" using s by (simp add: to_lf_chunk to_lf_cr)
    obtain b1 where b1: "buf_write b (length c) a = Some b1" "holds n b1 (c @ a)" using holds_write [OF less.prems(1), of a] less.prems l by auto
    have e: "length c + length a = length (c @ a)" by simp
    have J: "crlf_loop s (length c) b = (if r = [] \<or> hd r \<noteq> 10
        then Option.bind (buf_write b1 (length (c @ a)) [13]) (\<lambda>tgt2. crlf_loop r (length (c @ a) + 1) tgt2)
        else crlf_loop r (length (c @ a)) b1)"
      by (subst crlf_loop.simps) (simp only: True if_True Let_def a_def [symmetric] r_def [symmetric] b1(1) bind.bind_lunit e)
    show ?thesis
    proof (cases "r = [] \<or> hd r \<noteq> 10")
      case cr: True
      obtain b2 where b2: "buf_write b1 (length (c @ a)) [13] = Some b2" "holds n b2 ((c @ a) @ [13])"
        using holds_write [OF b1(2), of "[13]"] less.prems l by auto
      have "crlf_loop s (length c) b = crlf_loop r (length ((c @ a) @ [13])) b2"
        unfolding J if_P [OF cr] b2(1) by simp
      moreover have m: "length r < length s" "length ((c @ a) @ [13]) + length r \<le> n" using l less.prems by simp_all
      moreover obtain rest c' b' where "crlf_loop r (length ((c @ a) @ [13])) b2 = Some (rest, length c', b')" "holds n b' c'"
        "c' @ rest = ((c @ a) @ [13]) @ to_lf r" "length (c' @ rest) \<le> n"
        using less.hyps [OF m(1) b2(2) m(2)] by blast
      ultimately show ?thesis using cr lf by (intro exI [of _ rest] exI [of _ c'] exI [of _ b']) simp
    next
      case False
      have "crlf_loop s (length c) b = crlf_loop r (length (c @ a)) b1"
        unfolding J if_not_P [OF False] by (rule refl)
      moreover have m: "length r < length s" "length (c @ a) + length r \<le> n" using l less.prems by simp_all
      moreover obtain rest c' b' where "crlf_loop r (length (c @ a)) b1 = Some (rest, length c', b')" "holds n b' c'"
        "c' @ rest = (c @ a) @ to_lf r" "length (c' @ rest) \<le> n"
        using less.hyps [OF m(1) b1(2) m(2)] by blast
      ultimately show ?thesis using False lf by (intro exI [of _ rest] exI [of _ c'] exI [of _ b']) simp
    qed
  qed
qed

lemma source_read: "buf_ok src \<Longrightarrow> buf_read src 0 (b_size src) = Some (content src)"
  by (cases "b_ptr src") (auto simp: buf_ok_def buf_mem_def buf_read_def content_def ptr_bytes_def rd_blk_def)

lemma mem_holds_Nil: "buf_mem b \<Longrightarrow> 0 < b_asize b \<Longrightarrow> holds (b_asize b) (b\<lparr>b_size := 0\<rparr>) []"
  by (cases "b_ptr b") (auto simp: buf_mem_def holds_def)

lemma crlf_to_lf_yields:
  assumes tgt: "buf_mem tgt" and src: "buf_ok src" "b_size src + 1 < 2 ^ 61"
  shows "yields h (git_buf_text_crlf_to_lf h tgt src) (to_lf (content src))"
proof -
  have ls: "length (content src) = b_size src" by (rule length_content [OF buf_ok_mem [OF src(1)]])
  show ?thesis
  proof (cases "13 \<in> set (content src)")
    case False
    then show ?thesis using set_yields [OF tgt, of "content src" h] src ls
      by (simp add: git_buf_text_crlf_to_lf_def source_read to_lf_plain)
  next
    case True
    have z: "szw (b_size src + 1) = b_size src + 1" using src by simp
    have "yields h (do { (rc, tgt) \<leftarrow> git_buf_grow h tgt (b_size src + 1);
        (if rc < 0 then Some (-1, tgt) else do {
           (scan, out, tgt) \<leftarrow> crlf_loop (content src) 0 (tgt\<lparr>b_size := 0\<rparr>);
           tgt \<leftarrow> buf_write tgt out scan;
           tgt \<leftarrow> set_size tgt (out + length scan);
           Some (0, tgt) }) }) (to_lf (content src))"
    proof (rule grow_yields [OF tgt _ src(2)])
      fix b' assume b': "buf_mem b'" "b_size src + 1 \<le> b_asize b'"
      have n: "b_asize b' < 2 ^ 64" using b' by (cases "b_ptr b'") (auto simp: buf_mem_def)
      have "length [] + length (content src) \<le> b_asize b'" using b' ls by simp
      from crlf_loop_ok [OF mem_holds_Nil [OF b'(1)] this] b'(2)
      obtain rest c' b1 where b1: "crlf_loop (content src) 0 (b'\<lparr>b_size := 0\<rparr>) = Some (rest, length c', b1)" "holds (b_asize b') b1 c'"
        "c' @ rest = to_lf (content src)" "length (c' @ rest) \<le> b_asize b'" by fastforce
      obtain b2 where b2: "buf_write b1 (length c') rest = Some b2" "holds (b_asize b') b2 (c' @ rest)" using holds_write [OF b1(2)] b1(4) by auto
      have "length (c' @ rest) < b_asize b'" using length_to_lf [of "content src"] b' ls b1(3) by simp
      from holds_finish [OF b2(2) this n]
      obtain b3 where "set_size b2 (length c' + length rest) = Some b3" "buf_ok b3" "content b3 = c' @ rest" by auto
      then show "yields h (do { (scan, out, tgt) \<leftarrow> crlf_loop (content src) 0 (b'\<lparr>b_size := 0\<rparr>);
           tgt \<leftarrow> buf_write tgt out scan;
           tgt \<leftarrow> set_size tgt (out + length scan);
           Some (0, tgt) }) (to_lf (content src))"
        using b1 b2(1) by (simp add: yieldsI)
    qed simp
    then show ?thesis using True unfolding git_buf_text_crlf_to_lf_def source_read [OF src(1)] z by simp
  qed
qed

lemma lf_loop_step:
  assumes "10 \<in> set (drop k data)" "n = length (takeWhile (\<lambda>c. c \<noteq> 10) (drop k data))"
    "e = (if 0 < k + n \<and> data ! (k + n - 1) = 13 then 1 else 2 :: nat)"
  shows "lf_loop h data k b = with_size h b (szw (b_size b + n + e + 1)) (\<lambda>b. do {
     b1 \<leftarrow> buf_emit b (take n (drop k data));
     b2 \<leftarrow> (if e = 2 then buf_emit b1 [13] else Some b1);
     b3 \<leftarrow> buf_emit b2 [10];
     lf_loop h data (k + n + 1) b3 })"
  using assms(1) unfolding with_size_def
  by (subst lf_loop.simps) (simp only: if_True Let_def assms(2) [symmetric] assms(3) [symmetric])

lemma lf_loop_ok:
  "buf_mem b \<Longrightarrow> k \<le> length data \<Longrightarrow> k = 0 \<or> data ! (k - 1) = 10 \<Longrightarrow> b_size b + 2 * (length data - k) + 1 < 2 ^ 61 \<Longrightarrow>
   yields h (lf_loop h data k b) (content b @ to_crlf False (drop k data))"
proof (induction "length data - k" arbitrary: k b rule: less_induct)
  case less
  show ?case
  proof (cases "10 \<in> set (drop k data)")
    case False
    have "lf_loop h data k b = git_buf_put h b (Bytes (drop k data)) (length (drop k data))"
      using False by (subst lf_loop.simps) simp
    then show ?thesis using put_yields [OF less.prems(1), of "drop k data" h] less.prems False by (simp add: to_crlf_plain)
  next
    case True
    define a where "a = takeWhile (\<lambda>c. c \<noteq> 10) (drop k data)"
    define n where "n = length a"
    define e where "e = (if 0 < k + n \<and> data ! (k + n - 1) = 13 then 1 else 2 :: nat)"
    have d: "drop k data = a @ 10 # tl (dropWhile (\<lambda>c. c \<noteq> 10) (drop k data))" "10 \<notin> set a"
      using chunk_split [OF True] notin_takeWhile [of 10 "drop k data"] by (simp_all add: a_def)
    then have t: "take n (drop k data) = a" and r: "tl (dropWhile (\<lambda>c. c \<noteq> 10) (drop k data)) = drop (k + n + 1) data"
      by (simp_all add: n_def a_def takeWhile_eq_take [symmetric] chunk_rest ac_simps)
    have l: "k + n + 1 \<le> length data" using arg_cong [OF d(1), of length] less.prems(2) by (simp add: n_def r)
    have p: "a \<noteq> [] \<Longrightarrow> data ! (k + n - 1) = last a"
    proof -
      assume a: "a \<noteq> []"
      have "last a = (take n (drop k data)) ! (n - 1)" using a t by (simp add: last_conv_nth n_def)
      also have "\<dots> = data ! (k + (n - 1))" using a l by (simp add: n_def)
      finally show ?thesis using a by (cases a) (simp_all add: n_def)
    qed
    have nl: "data ! (k + n) = 10" using arg_cong [OF d(1), of "\<lambda>x. x ! n"] l by (simp add: n_def nth_append)
    have e: "e = (if a \<noteq> [] \<and> last a = 13 then 1 else 2)"
      using p less.prems(3) by (cases "a = []") (auto simp: e_def n_def)
    have spec: "to_crlf False (drop k data) = a @ (if e = 2 then [13] else []) @ [10] @ to_crlf False (drop (k + n + 1) data)"
      using to_crlf_chunk [OF d(2), of False "drop (k + n + 1) data"] e trans [OF d(1), of "a @ 10 # drop (k + n + 1) data"] r by auto
    have e2: "1 \<le> e" "e \<le> 2" by (auto simp: e_def)
    have z: "szw (b_size b + n + e + 1) = b_size b + n + e + 1" using less.prems l e2 by simp
    have nd: "n = length (takeWhile (\<lambda>c. c \<noteq> 10) (drop k data))" by (simp add: n_def a_def)
    show ?thesis
      unfolding lf_loop_step [OF True nd e_def] t z
    proof (rule with_size_yields [OF less.prems(1)])
      show "b_size b + n + e + 1 < 2 ^ 61" using less.prems l e2 by simp
      fix b' assume b': "buf_mem b'" "content b' = content b" "b_size b' = b_size b" "b_size b + n + e + 1 \<le> b_asize b'"
      obtain b1 where b1: "buf_emit b' a = Some b1" "buf_mem b1" "content b1 = content b' @ a" "b_size b1 = b_size b' + n" "b_asize b1 = b_asize b'"
        using emit_ok [OF b'(1), of a] b' e2 by (auto simp: n_def)
      have "\<exists>b2. (if e = 2 then buf_emit b1 [13] else Some b1) = Some b2 \<and> buf_mem b2 \<and> content b2 = content b1 @ (if e = 2 then [13] else []) \<and>
          b_size b2 = b_size b1 + (e - 1) \<and> b_asize b2 = b_asize b1"
        using emit_ok [OF b1(2), of "[13]"] b1 b' e2 by (cases "e = 2") (auto simp: le_Suc_eq)
      then obtain b2 where b2: "(if e = 2 then buf_emit b1 [13] else Some b1) = Some b2" "buf_mem b2" "content b2 = content b1 @ (if e = 2 then [13] else [])"
          "b_size b2 = b_size b1 + (e - 1)" "b_asize b2 = b_asize b1" by blast
      obtain b3 where b3: "buf_emit b2 [10] = Some b3" "buf_mem b3" "content b3 = content b2 @ [10]" "b_size b3 = b_size b2 + 1"
        using emit_ok [OF b2(2), of "[10]"] b1 b2 b' e2 by auto
      have "yields h (lf_loop h data (k + n + 1) b3) (content b3 @ to_crlf False (drop (k + n + 1) data))"
      proof (rule less.hyps [OF _ b3(2)])
        show "b_size b3 + 2 * (length data - (k + n + 1)) + 1 < 2 ^ 61" using b3 b2 b1 b' less.prems l e2 by linarith
      qed (use l nl in auto)
      then show "yields h (do { b1 \<leftarrow> buf_emit b' a; b2 \<leftarrow> (if e = 2 then buf_emit b1 [13] else Some b1); b3 \<leftarrow> buf_emit b2 [10];
          lf_loop h data (k + n + 1) b3 }) (content b @ to_crlf False (drop k data))"
        using b1 b2 b3 b' spec by simp
    qed
  qed
qed

lemma lf_to_crlf_yields:
  assumes tgt: "buf_mem tgt" and src: "buf_ok src" "2 * b_size src + 1 < 2 ^ 61"
  shows "yields h (git_buf_text_lf_to_crlf h tgt src) (to_crlf False (content src))"
proof -
  have ls: "length (content src) = b_size src" by (rule length_content [OF buf_ok_mem [OF src(1)]])
  have le: "b_size src + b_size src div 16 + 1 < 2 ^ 61" using src by linarith
  then have z: "szw (b_size src + b_size src div 16 + 1) = b_size src + b_size src div 16 + 1" by simp
  show ?thesis
  proof (cases "10 \<in> set (content src)")
    case False
    then show ?thesis using set_yields [OF tgt, of "content src" h] src ls
      by (simp add: git_buf_text_lf_to_crlf_def source_read to_crlf_plain)
  next
    case True
    have "yields h (do { (rc, tgt) \<leftarrow> git_buf_grow h tgt (b_size src + b_size src div 16 + 1);
        (if rc < 0 then Some (-1, tgt) else lf_loop h (content src) 0 (tgt\<lparr>b_size := 0\<rparr>)) }) (to_crlf False (content src))"
    proof (rule grow_yields [OF tgt _ le])
      fix b' assume "buf_mem b'"
      then show "yields h (lf_loop h (content src) 0 (b'\<lparr>b_size := 0\<rparr>)) (to_crlf False (content src))"
        using lf_loop_ok [of "b'\<lparr>b_size := 0\<rparr>" 0 "content src" h] reset_mem [of b'] src ls by simp
    qed simp
    then show ?thesis using True unfolding git_buf_text_lf_to_crlf_def source_read [OF src(1)] z by simp
  qed
qed

section \<open>The common prefix\<close>

lemma prefix_scan_ok:
  "0 \<notin> set s \<Longrightarrow> prefix_scan s (pre @ p @ 0 # r) (length pre) = Some (length pre + length (longest_common_prefix s p))"
proof (induction s arbitrary: pre p)
  case (Cons c s)
  show ?case
  proof (cases p)
    case Nil
    then show ?thesis using Cons.prems by simp
  next
    case (Cons x p')
    then show ?thesis using Cons.prems Cons.IH [of "pre @ [x]" p'] by simp
  qed
qed simp

lemma ok_memory: "buf_ok b \<Longrightarrow> \<exists>r. ptr_bytes (b_ptr b) = Some (content b @ 0 # r)"
proof (cases "b_ptr b")
  case (Mem m)
  assume "buf_ok b"
  then have "m ! b_size b = 0" "b_size b < length m" using Mem by (auto simp: buf_ok_def buf_mem_def)
  then show ?thesis using Mem by (auto simp: ptr_bytes_def content_def intro!: exI [of _ "drop (Suc (b_size b)) m"] dest: id_take_nth_drop)
qed (auto simp: buf_ok_def buf_mem_def ptr_bytes_def content_def)

lemma take_lcp: "take (length (longest_common_prefix s p)) p = longest_common_prefix s p"
  using longest_common_prefix_prefix2 [of s p] unfolding prefix_def by (metis append_eq_conv_conj)

lemma fold_lcp_Nil: "fold longest_common_prefix ss [] = []"
proof (induction ss)
  case (Cons s ss)
  then show ?case by (cases s) simp_all
qed simp

lemma prefix_fold_lcp: "prefix q (fold longest_common_prefix ss s) \<longleftrightarrow> prefix q s \<and> (\<forall>x \<in> set ss. prefix q x)"
proof (induction ss arbitrary: s)
  case (Cons y ss)
  have "prefix q (longest_common_prefix y s) \<longleftrightarrow> prefix q y \<and> prefix q s"
    using longest_common_prefix_prefix1 [of y s] longest_common_prefix_prefix2 [of y s] longest_common_prefix_max_prefix [of q y s]
      prefix_order.trans by blast
  then show ?case using Cons by auto
qed simp

lemma prefix_loop_ok:
  "buf_ok b \<Longrightarrow> list_all (\<lambda>s. 0 \<notin> set s) ss \<Longrightarrow>
   \<exists>b'. prefix_loop ss b = Some (0, b') \<and> buf_ok b' \<and> content b' = fold longest_common_prefix ss (content b)"
proof (induction ss arbitrary: b)
  case (Cons s ss)
  obtain r where r: "ptr_bytes (b_ptr b) = Some (content b @ 0 # r)" using ok_memory [OF Cons.prems(1)] by blast
  have n: "prefix_scan s (content b @ 0 # r) 0 = Some (length (longest_common_prefix s (content b)))"
    using prefix_scan_ok [of s "[]" "content b" r] Cons.prems(2) by simp
  obtain b1 where b1: "git_buf_truncate b (length (longest_common_prefix s (content b))) = Some b1" "buf_ok b1"
    "content b1 = longest_common_prefix s (content b)"
    using truncate_ok [OF Cons.prems(1), of "length (longest_common_prefix s (content b))"] by (auto simp: take_lcp)
  have "b_size b1 = 0 \<Longrightarrow> content b1 = []" using length_content [OF buf_ok_mem [OF b1(2)]] by simp
  then show ?case using Cons.IH [OF b1(2)] Cons.prems(2) b1 r n by (auto simp: fold_lcp_Nil)
qed simp

section \<open>Statistics\<close>

fun crlfs :: "byte list \<Rightarrow> nat" where
  "crlfs (c # d # s) = (if c = 13 \<and> d = 10 then 1 else 0) + crlfs (d # s)"
| "crlfs s = 0"

lemma crlfs_Cons: "crlfs (c # s) = (if c = 13 \<and> s \<noteq> [] \<and> hd s = 10 then 1 else 0) + crlfs s"
  by (cases s) auto

text \<open>A trailing end-of-file character is not counted.\<close>

definition counted :: "byte list \<Rightarrow> byte list" where
  "counted s = (if s \<noteq> [] \<and> last s = 26 then butlast s else s)"

definition occurrences :: "byte \<Rightarrow> byte list \<Rightarrow> nat" where
  "occurrences c s = length (filter (\<lambda>x. x = c) s)"

lemma stats_loop_ok:
  "st_nul st + length s < 2 ^ 32 \<Longrightarrow> st_cr st + length s < 2 ^ 32 \<Longrightarrow> st_lf st + length s < 2 ^ 32 \<Longrightarrow> st_crlf st + length s < 2 ^ 32 \<Longrightarrow>
   st_printable st + length s < 2 ^ 32 \<Longrightarrow> st_nonprintable st + length s < 2 ^ 32 \<Longrightarrow>
   st_nul (stats_loop s st) = st_nul st + occurrences 0 s \<and> st_cr (stats_loop s st) = st_cr st + occurrences 13 s \<and>
   st_lf (stats_loop s st) = st_lf st + occurrences 10 s \<and> st_crlf (stats_loop s st) = st_crlf st + crlfs s \<and>
   st_printable (stats_loop s st) + st_nonprintable (stats_loop s st) + occurrences 13 s + occurrences 10 s =
     st_printable st + st_nonprintable st + length s"
proof (induction s arbitrary: st)
  case (Cons c s)
  let ?st = "if 0x1F < c \<and> c \<noteq> 0x7F then st\<lparr>st_printable := st_printable st + 1\<rparr>
      else if c = 0 then st\<lparr>st_nul := st_nul st + 1, st_nonprintable := st_nonprintable st + 1\<rparr>
      else if c = 10 then st\<lparr>st_lf := st_lf st + 1\<rparr>
      else if c = 13 then
        (if s \<noteq> [] \<and> hd s = 10 then st\<lparr>st_cr := st_cr st + 1, st_crlf := st_crlf st + 1\<rparr> else st\<lparr>st_cr := st_cr st + 1\<rparr>)
      else if c \<in> {9, 12, 11, 8, 0x1b} then st\<lparr>st_printable := st_printable st + 1\<rparr>
      else st\<lparr>st_nonprintable := st_nonprintable st + 1\<rparr>"
  have e: "stats_loop (c # s) st = stats_loop s ?st" using Cons.prems by (simp add: Let_def)
  have ne: "0x1F < c \<Longrightarrow> c \<noteq> 0 \<and> c \<noteq> 10 \<and> c \<noteq> (13 :: byte)" by auto
  consider "0x1F < c \<and> c \<noteq> 0x7F" | "c = 0" | "c = 10" | "c = 13" | "\<not> (0x1F < c \<and> c \<noteq> 0x7F)" "c \<noteq> 0" "c \<noteq> 10" "c \<noteq> 13" by blast
  then show ?case
    unfolding e using Cons.prems by cases (use Cons.IH [of ?st] ne in \<open>auto simp: occurrences_def crlfs_Cons split: if_splits\<close>)
qed (simp add: occurrences_def)

lemma counted_same: "c \<noteq> 26 \<Longrightarrow> occurrences c (counted s) = occurrences c s" "crlfs (counted s) = crlfs s" "length (counted s) \<le> length s"
proof -
  have b: "crlfs (s' @ [26]) = crlfs s'" for s'
  proof (induction s')
    case (Cons x s')
    then show ?case by (cases s') (auto simp: crlfs_Cons)
  qed simp
  show "c \<noteq> 26 \<Longrightarrow> occurrences c (counted s) = occurrences c s" "crlfs (counted s) = crlfs s" "length (counted s) \<le> length s"
    by (cases s rule: rev_cases; auto simp: counted_def occurrences_def b)+
qed

lemma length_to_lf_crlfs: "length (to_lf s) + crlfs s = length s"
  by (induction s rule: to_lf.induct) auto

lemma length_to_crlf_crlfs: "length (to_crlf cr s) + crlfs s + (if cr \<and> s \<noteq> [] \<and> hd s = 10 then 1 else 0) = length s + occurrences 10 s"
proof (induction s arbitrary: cr)
  case (Cons c s)
  show ?case using Cons [of "c = 13"] by (auto simp: crlfs_Cons occurrences_def)
qed (simp add: occurrences_def)

lemma bom_ok:
  assumes "buf_ok b"
  shows "\<exists>bom skip. git_buf_text_detect_bom b 0 = Some (bom, skip) \<and> skip \<le> b_size b \<and> (bom \<le> GIT_BOM_UTF8 \<longrightarrow> 0 \<notin> set (take skip (content b)))"
proof (cases "b_size b < 2")
  case True
  then show ?thesis by (simp add: git_buf_text_detect_bom_def szw_def)
next
  case False
  let ?s = "content b"
  have l: "length ?s = b_size b" by (rule length_content [OF buf_ok_mem [OF assms]])
  obtain r where r: "ptr_bytes (b_ptr b) = Some (?s @ 0 # r)" using ok_memory [OF assms] by blast
  have n: "b_size b < 2 ^ 64" using assms by (cases "b_ptr b") (auto simp: buf_ok_def buf_mem_def)
  have len: "szw (b_size b + (2 ^ 64 - 0)) = b_size b" using n by (simp add: szw_def)
  obtain c x s' where s: "?s = c # x # s'" using False l by (cases ?s; cases "tl ?s") auto
  have le: "GIT_BOM_UTF8 \<le> GIT_BOM_UTF8" "\<not> GIT_BOM_UTF32_BE \<le> GIT_BOM_UTF8" "\<not> GIT_BOM_UTF16_BE \<le> GIT_BOM_UTF8"
    "\<not> GIT_BOM_UTF32_LE \<le> GIT_BOM_UTF8" "\<not> GIT_BOM_UTF16_LE \<le> GIT_BOM_UTF8"
    by (simp_all add: less_eq_git_bom_t_def)
  consider "length s' = 0" | y where "s' = [y]" | y z s'' where "s' = y # z # s''" by (cases s'; cases "tl s'") auto
  then show ?thesis
    by cases (use False l s in \<open>auto simp: git_buf_text_detect_bom_def r len le Let_def szw_def rd_def\<close>)
qed

section \<open>Properties\<close>

lemma to_lf_same: "crlfs s = 0 \<Longrightarrow> to_lf s = s"
  by (induction s rule: to_lf.induct) (auto split: if_splits)

text \<open>C16: Converting line ends loses nothing but the choice of line end.  Conversion to CRLF inserts a CR before
  every LF that has none, whatever the text contains; conversion back deletes the CR of every CRLF and no other.
  A text without CRLF comes back as it was.\<close>

theorem eol_roundtrip:
  assumes "buf_ok src" "buf_ok t1" "buf_ok t2" "b_size src < 2 ^ 59" "\<forall>n. snd h n"
  shows "\<exists>b1 b2. git_buf_text_lf_to_crlf h t1 src = Some (0, b1) \<and> content b1 = to_crlf False (content src) \<and>
    git_buf_text_crlf_to_lf h t2 b1 = Some (0, b2) \<and> buf_ok b2 \<and> content b2 = to_lf (content src) \<and>
    (crlfs (content src) = 0 \<longrightarrow> content b2 = content src)"
proof -
  obtain b1 where b1: "git_buf_text_lf_to_crlf h t1 src = Some (0, b1)" "buf_ok b1" "content b1 = to_crlf False (content src)"
    using yields_ok [OF lf_to_crlf_yields [OF buf_ok_mem [OF assms(2)] assms(1)] assms(5)] assms(4) by auto
  have "b_size b1 \<le> 2 * b_size src"
    using length_to_crlf [of False "content src"] b1(3) length_content [OF buf_ok_mem [OF b1(2)]] length_content [OF buf_ok_mem [OF assms(1)]] by simp
  then obtain b2 where "git_buf_text_crlf_to_lf h t2 b1 = Some (0, b2)" "buf_ok b2" "content b2 = to_lf (content b1)"
    using yields_ok [OF crlf_to_lf_yields [OF buf_ok_mem [OF assms(3)] b1(2)] assms(5)] assms(4) by auto
  then show ?thesis using b1 by (auto simp: to_lf_to_crlf to_lf_same)
qed

theorem eol_roundtrip_witness:
  "\<exists>b1 b2. git_buf_text_lf_to_crlf (\<lambda>_. 7, \<lambda>_. True) GIT_BUF_INIT \<lparr>b_ptr = Mem [97, 13, 10, 98, 10, 0], b_asize = 6, b_size = 5\<rparr> = Some (0, b1) \<and>
     content b1 = [97, 13, 10, 98, 13, 10] \<and> git_buf_text_crlf_to_lf (\<lambda>_. 7, \<lambda>_. True) GIT_BUF_INIT b1 = Some (0, b2) \<and> content b2 = [97, 10, 98, 10]"
  using eol_roundtrip [of "\<lparr>b_ptr = Mem [97, 13, 10, 98, 10, 0], b_asize = 6, b_size = 5\<rparr>" GIT_BUF_INIT GIT_BUF_INIT "(\<lambda>_. 7, \<lambda>_. True)"]
  by (auto simp: buf_ok_def buf_mem_def GIT_BUF_INIT_def content_def)

text \<open>The statistics of a text are its counts, and they predict the conversions: the text has st\_lf - st\_crlf
  bytes more after conversion to CRLF and st\_crlf fewer after conversion to LF.\<close>

theorem stats_predict:
  assumes "buf_ok src" "buf_ok t" "b_size src < 2 ^ 32" "\<forall>n. snd h n"
  shows "\<exists>bin st b1 b2. git_buf_text_gather_stats src False = Some (bin, st) \<and>
    st_nul st = occurrences 0 (content src) \<and> st_cr st = occurrences 13 (content src) \<and> st_lf st = occurrences 10 (content src) \<and>
    st_printable st + st_nonprintable st + st_cr st + st_lf st = length (counted (content src)) \<and>
    git_buf_text_lf_to_crlf h t src = Some (0, b1) \<and> b_size b1 + st_crlf st = b_size src + st_lf st \<and>
    git_buf_text_crlf_to_lf h t src = Some (0, b2) \<and> b_size b2 + st_crlf st = b_size src"
proof -
  let ?s = "content src"
  have l: "length ?s = b_size src" by (rule length_content [OF buf_ok_mem [OF assms(1)]])
  obtain bom skip where bom: "git_buf_text_detect_bom src 0 = Some (bom, skip)" using bom_ok [OF assms(1)] by blast
  let ?st = "stats_loop (counted ?s) (no_stats\<lparr>st_bom := bom\<rparr>)"
  have g: "git_buf_text_gather_stats src False = Some (0 < st_nul ?st \<or> st_printable ?st div 128 < st_nonprintable ?st, ?st)"
    by (simp add: git_buf_text_gather_stats_def bom source_read [OF assms(1)] counted_def Let_def)
  have st: "st_nul ?st = occurrences 0 ?s \<and> st_cr ?st = occurrences 13 ?s \<and> st_lf ?st = occurrences 10 ?s \<and> st_crlf ?st = crlfs ?s \<and>
      st_printable ?st + st_nonprintable ?st + occurrences 13 ?s + occurrences 10 ?s = length (counted ?s)"
    using stats_loop_ok [of "no_stats\<lparr>st_bom := bom\<rparr>" "counted ?s"] counted_same(3) [of ?s] l assms(3) by (simp add: no_stats_def counted_same(1,2))
  obtain b1 where b1: "git_buf_text_lf_to_crlf h t src = Some (0, b1)" "buf_ok b1" "content b1 = to_crlf False ?s"
    using yields_ok [OF lf_to_crlf_yields [OF buf_ok_mem [OF assms(2)] assms(1)] assms(4)] assms(3) by auto
  obtain b2 where b2: "git_buf_text_crlf_to_lf h t src = Some (0, b2)" "buf_ok b2" "content b2 = to_lf ?s"
    using yields_ok [OF crlf_to_lf_yields [OF buf_ok_mem [OF assms(2)] assms(1)] assms(4)] assms(3) by auto
  have "b_size b1 + crlfs ?s = b_size src + occurrences 10 ?s" "b_size b2 + crlfs ?s = b_size src"
    using length_to_crlf_crlfs [of False ?s] length_to_lf_crlfs [of ?s] l b1 b2 length_content [OF buf_ok_mem [OF b1(2)]] length_content [OF buf_ok_mem [OF b2(2)]]
    by simp_all
  then show ?thesis using g st b1(1) b2(1) by auto
qed

theorem stats_predict_witness:
  "\<exists>bin st. git_buf_text_gather_stats \<lparr>b_ptr = Mem [97, 13, 10, 98, 10, 26, 0], b_asize = 7, b_size = 6\<rparr> False = Some (bin, st) \<and>
     st_lf st = 2 \<and> st_cr st = 1 \<and> st_printable st + st_nonprintable st = 2"
  using stats_predict [of "\<lparr>b_ptr = Mem [97, 13, 10, 98, 10, 26, 0], b_asize = 7, b_size = 6\<rparr>" GIT_BUF_INIT "(\<lambda>_. 7, \<lambda>_. True)"]
  by (auto simp: buf_ok_def buf_mem_def GIT_BUF_INIT_def content_def occurrences_def counted_def)

text \<open>C17: Escaping for a regular expression puts a backslash before every special character and nothing else, and
  git\_buf\_text\_unescape takes exactly these backslashes out again.\<close>

theorem escape_roundtrip:
  assumes "buf_ok b" "0 \<notin> set (content b)" "92 \<notin> set (content b)" "0 \<notin> set s" "b_size b + 2 * length s + 1 < 2 ^ 61" "\<forall>n. snd h n"
  shows "\<exists>b1 b2. git_buf_text_puts_escape_regex h b (Some s) = Some (0, b1) \<and>
    content b1 = content b @ concat (map (\<lambda>c. if c \<in> set regex_chars then [92, c] else [c]) s) \<and>
    git_buf_text_unescape b1 = Some b2 \<and> buf_ok b2 \<and> content b2 = content b @ s"
proof -
  have le: "length (escaped regex_chars [92] s) \<le> 2 * length s" by (induction s) (auto simp: escaped_def)
  have nz: "0 \<notin> set (escaped regex_chars [92] s)" using assms(4) by (auto simp: escaped_def split: if_splits)
  have eq: "escaped regex_chars [92] s = concat (map (\<lambda>c. if c \<in> set regex_chars then [92, c] else [c]) s)"
    by (induction s) (auto simp: escaped_def)
  have bs: "92 \<in> set regex_chars" by (simp add: regex_chars_def)
  obtain b1 where b1: "git_buf_text_puts_escape_regex h b (Some s) = Some (0, b1)" "buf_ok b1" "content b1 = content b @ escaped regex_chars [92] s"
    using yields_ok [OF escaped_yields [OF buf_ok_mem [OF assms(1)], of regex_chars "[92]" s] assms(6)] assms(5) le by (auto simp: git_buf_text_puts_escape_regex_def)
  obtain b2 where "git_buf_text_unescape b1 = Some b2" "buf_ok b2" "content b2 = unescape_loop (content b1)"
    using unescape_ok [OF b1(2)] b1(3) assms(2) nz by auto
  then show ?thesis using b1 unescape_plain [OF assms(3)] unescape_escaped [OF bs, of s] eq by auto
qed

theorem escape_roundtrip_witness:
  "\<exists>b1 b2. git_buf_text_puts_escape_regex (\<lambda>_. 7, \<lambda>_. True) GIT_BUF_INIT (Some [97, 42, 92, 98]) = Some (0, b1) \<and>
     content b1 = [97, 92, 42, 92, 92, 98] \<and> git_buf_text_unescape b1 = Some b2 \<and> content b2 = [97, 42, 92, 98]"
  using escape_roundtrip [of GIT_BUF_INIT "[97, 42, 92, 98]" "(\<lambda>_. 7, \<lambda>_. True)"]
  by (auto simp: buf_ok_def buf_mem_def GIT_BUF_INIT_def content_def regex_chars_def)

text \<open>git\_buf\_text\_common\_prefix leaves the greatest common prefix in the buffer: its prefixes are exactly
  the strings that are prefixes of all the given ones.\<close>

theorem common_prefix_greatest:
  assumes "buf_ok b" "list_all (\<lambda>s. 0 \<notin> set s) (s # ss)" "length s + 1 < 2 ^ 61" "\<forall>n. snd h n"
  shows "\<exists>b'. git_buf_text_common_prefix h b (Some (s # ss)) = Some (0, b') \<and> buf_ok b' \<and>
    (\<forall>q. prefix q (content b') \<longleftrightarrow> (\<forall>x \<in> set (s # ss). prefix q x))"
proof -
  obtain b1 where b1: "git_buf_clear b = Some b1" "buf_ok b1"
    using yields_ok [OF clear_yields [OF buf_ok_mem [OF assms(1)]] assms(4)] by (cases "git_buf_clear b") auto
  obtain b2 where b2: "git_buf_sets h b1 (Bytes (s @ [0])) = Some (0, b2)" "buf_ok b2" "content b2 = s"
    using yields_ok [OF sets_yields [OF buf_ok_mem [OF b1(2)] assms(3)] assms(4)] assms(2) by auto
  obtain b3 where "prefix_loop ss b2 = Some (0, b3)" "buf_ok b3" "content b3 = fold longest_common_prefix ss s"
    using prefix_loop_ok [OF b2(2), of ss] assms(2) b2(3) by auto
  then show ?thesis using b1 b2 by (auto simp: git_buf_text_common_prefix_def prefix_fold_lcp)
qed

theorem common_prefix_greatest_witness:
  "\<exists>b'. git_buf_text_common_prefix (\<lambda>_. 7, \<lambda>_. True) GIT_BUF_INIT (Some [[97, 98, 99], [97, 98, 100, 101], [97, 98]]) = Some (0, b') \<and> buf_ok b' \<and>
     prefix [97, 98] (content b') \<and> \<not> prefix [97, 98, 99] (content b')"
  using common_prefix_greatest [of GIT_BUF_INIT "[97, 98, 99]" "[[97, 98, 100, 101], [97, 98]]" "(\<lambda>_. 7, \<lambda>_. True)"]
  by (auto simp: buf_ok_def buf_mem_def GIT_BUF_INIT_def)

text \<open>A NUL makes a text binary, but so does UTF-8 text outside of ASCII, which the statistics take for printable.\<close>

lemma binary_loop_nul: "0 \<in> set s \<Longrightarrow> p + int (length s) < 2 ^ 31 \<Longrightarrow> n + int (length s) < 2 ^ 31 \<Longrightarrow> binary_loop s p n = Some True"
  by (induction s arbitrary: p n) (auto simp: int_incr_def)

lemma nul_is_binary:
  assumes "buf_ok b" "0 \<in> set (content b)" "b_size b < 2 ^ 31"
  shows "git_buf_text_is_binary b = Some True"
proof -
  obtain bom skip where bom: "git_buf_text_detect_bom b 0 = Some (bom, skip)" "skip \<le> b_size b" "bom \<le> GIT_BOM_UTF8 \<longrightarrow> 0 \<notin> set (take skip (content b))"
    using bom_ok [OF assms(1)] by blast
  have l: "length (content b) = b_size b" by (rule length_content [OF buf_ok_mem [OF assms(1)]])
  show ?thesis
  proof (cases "GIT_BOM_UTF8 < bom")
    case False
    then have "0 \<in> set (drop skip (content b))" using bom(3) assms(2) append_take_drop_id [of skip "content b"] by (metis Un_iff not_less set_append)
    moreover have "buf_read b skip (b_size b - skip) = Some (drop skip (content b))"
      using ok_memory [OF assms(1)] bom(2) l by (auto simp: buf_read_def rd_blk_def)
    ultimately show ?thesis using bom False l assms(3) by (simp add: git_buf_text_is_binary_def binary_loop_nul)
  qed (use bom in \<open>simp add: git_buf_text_is_binary_def\<close>)
qed

lemma binary_disagrees:
  "git_buf_text_is_binary \<lparr>b_ptr = Mem [0xC3, 0xA9, 0], b_asize = 3, b_size = 2\<rparr> = Some True \<and>
   map_option fst (git_buf_text_gather_stats \<lparr>b_ptr = Mem [0xC3, 0xA9, 0], b_asize = 3, b_size = 2\<rparr> False) = Some False"
  by (simp add: git_buf_text_is_binary_def git_buf_text_gather_stats_def git_buf_text_detect_bom_def ptr_bytes_def buf_read_def rd_blk_def
      szw_def int_incr_def git__isspace_def no_stats_def less_git_bom_t_def u32w_def Let_def)

end
