(* ===== verification/OidText.thy ===== *)
theory OidText
  imports OidProps BufferProps
begin

text \<open>
  The lines of an object that name other objects: git\_oid\_\_writebuf of todo-later/libgit2/src/oid.c writes one
  into a byte buffer, git\_oid\_\_parse reads it.  The header is a C string.
\<close>

definition git_oid__writebuf :: "heap \<Rightarrow> git_buf \<Rightarrow> byte list \<Rightarrow> git_oid \<Rightarrow> git_buf option" where
  "git_oid__writebuf h buf header oid = do {
     hex_oid \<leftarrow> git_oid_fmt oid;
     (_, buf) \<leftarrow> git_buf_puts h buf (Bytes (header @ [0]));
     (_, buf) \<leftarrow> git_buf_put h buf (Bytes hex_oid) GIT_OID_HEXSZ;
     (_, buf) \<leftarrow> git_buf_putc h buf 10;
     Some buf }"

text \<open>A list of such lines, written and read.\<close>

primrec write_lines :: "heap \<Rightarrow> (byte list \<times> git_oid) list \<Rightarrow> git_buf \<Rightarrow> git_buf option" where
  "write_lines h [] buf = Some buf"
| "write_lines h (l # ls) buf = do { buf \<leftarrow> git_oid__writebuf h buf (fst l) (snd l); write_lines h ls buf }"

primrec parse_lines :: "git_oid \<Rightarrow> byte list list \<Rightarrow> byte list \<Rightarrow> (git_oid list \<times> byte list) option" where
  "parse_lines out [] text = Some ([], text)"
| "parse_lines out (header # headers) text = do {
     (rc, oid, rest) \<leftarrow> git_oid__parse out text header;
     (if rc < 0 then None
      else do { (oids, rest) \<leftarrow> parse_lines out headers rest; Some (oid # oids, rest) }) }"

definition line_of :: "byte list \<times> git_oid \<Rightarrow> byte list" where
  "line_of l = fst l @ concat (map fmt_one (oid_id (snd l))) @ [10]"

lemma length_line: "oid_ok (snd l) \<Longrightarrow> length (line_of l) = length (fst l) + 41"
  by (simp add: line_of_def oid_ok_def GIT_OID_RAWSZ_def)

lemma writebuf_ok:
  assumes b: "buf_ok b" and h: "\<forall>n. snd h n" and o: "oid_ok oid" "0 \<notin> set header" "b_size b + length header + 43 < 2 ^ 61"
  shows "\<exists>b'. git_oid__writebuf h b header oid = Some b' \<and> buf_ok b' \<and> content b' = content b @ line_of (header, oid)"
proof -
  let ?hex = "concat (map fmt_one (oid_id oid))"
  have l: "length ?hex = 40" using o(1) by (simp add: oid_ok_def GIT_OID_RAWSZ_def)
  obtain b1 where b1: "git_buf_puts h b (Bytes (header @ [0])) = Some (0, b1)" "buf_ok b1" "content b1 = content b @ header"
    using yields_ok [OF puts_yields [OF buf_ok_mem [OF b]] h, of header] o by auto
  have s1: "b_size b1 = b_size b + length header"
    using arg_cong [OF b1(3), of length] length_content [OF buf_ok_mem [OF b1(2)]] length_content [OF buf_ok_mem [OF b]] by simp
  obtain b2 where b2: "git_buf_put h b1 (Bytes ?hex) 40 = Some (0, b2)" "buf_ok b2" "content b2 = content b1 @ ?hex"
    using yields_ok [OF put_yields [OF buf_ok_mem [OF b1(2)], of ?hex] h] o s1 l by auto
  have s2: "b_size b2 = b_size b + length header + 40"
    using arg_cong [OF b2(3), of length] length_content [OF buf_ok_mem [OF b2(2)]] length_content [OF buf_ok_mem [OF b1(2)]] s1 l by simp
  obtain b3 where b3: "git_buf_putc h b2 10 = Some (0, b3)" "buf_ok b3" "content b3 = content b2 @ [10]"
    using yields_ok [OF putc_yields [OF buf_ok_mem [OF b2(2)], of h 10] h] o s2 by auto
  then show ?thesis using b1 b2 by (simp add: git_oid__writebuf_def oid_fmt_eq [OF o(1)] GIT_OID_HEXSZ_def line_of_def)
qed

lemma parse_line:
  assumes "oid_ok oid" "oid_ok out"
  shows "git_oid__parse out (line_of (header, oid) @ rest) header = Some (0, oid, rest)"
proof -
  have l: "length (concat (map fmt_one (oid_id oid))) = 40" using assms(1) by (simp add: oid_ok_def GIT_OID_RAWSZ_def)
  have "(line_of (header, oid) @ rest) ! (length header + 40) = 10" using l by (simp add: line_of_def nth_append)
  moreover have "drop (length header + 41) (line_of (header, oid) @ rest) = rest" using l by (simp add: line_of_def)
  moreover have "git_oid_fromstrn out (drop (length header) (line_of (header, oid) @ rest)) 40 = Some (0, oid)"
    using fromstr_fmt [OF assms, of "[10] @ rest"] by (simp add: line_of_def)
  ultimately show ?thesis using l by (simp add: git_oid__parse_def Let_def GIT_OID_HEXSZ_def) (simp add: line_of_def)
qed

lemma write_lines_ok:
  "buf_ok b \<Longrightarrow> \<forall>n. snd h n \<Longrightarrow> list_all (\<lambda>l. oid_ok (snd l) \<and> 0 \<notin> set (fst l)) ls \<Longrightarrow> b_size b + sum_list (map (\<lambda>l. length (fst l) + 43) ls) < 2 ^ 61 \<Longrightarrow>
   \<exists>b'. write_lines h ls b = Some b' \<and> buf_ok b' \<and> content b' = content b @ concat (map line_of ls)"
proof (induction ls arbitrary: b)
  case (Cons l ls)
  obtain b1 where b1: "git_oid__writebuf h b (fst l) (snd l) = Some b1" "buf_ok b1" "content b1 = content b @ line_of l"
    using writebuf_ok [OF Cons.prems(1,2), of "snd l" "fst l"] Cons.prems(3,4) by auto
  have "b_size b1 = b_size b + length (fst l) + 41"
    using arg_cong [OF b1(3), of length] length_content [OF buf_ok_mem [OF b1(2)]] length_content [OF buf_ok_mem [OF Cons.prems(1)]]
      length_line [of l] Cons.prems(3) by simp
  then show ?case using Cons.IH [OF b1(2) Cons.prems(2)] Cons.prems b1 by auto
qed simp

lemma parse_lines_ok:
  "list_all (\<lambda>l. oid_ok (snd l)) ls \<Longrightarrow> oid_ok out \<Longrightarrow> parse_lines out (map fst ls) (concat (map line_of ls) @ rest) = Some (map snd ls, rest)"
proof (induction ls)
  case (Cons l ls)
  then show ?case using parse_line [of "snd l" out "fst l" "concat (map line_of ls) @ rest"] by simp
qed simp

text \<open>C28: The id lines of an object survive writing and reading.  Whatever headers and ids git\_oid\_\_writebuf
  appends to a buffer, git\_oid\_\_parse with the same headers reads these ids in this order and consumes
  exactly what was written.\<close>

theorem object_lines_roundtrip:
  assumes "buf_ok b" "\<forall>n. snd h n" "list_all (\<lambda>l. oid_ok (snd l) \<and> 0 \<notin> set (fst l)) ls" "oid_ok out"
    "b_size b + sum_list (map (\<lambda>l. length (fst l) + 43) ls) < 2 ^ 61"
  shows "\<exists>b'. write_lines h ls b = Some b' \<and> buf_ok b' \<and> take (b_size b) (content b') = content b \<and>
    parse_lines out (map fst ls) (drop (b_size b) (content b')) = Some (map snd ls, [])"
proof -
  have "list_all (\<lambda>l. oid_ok (snd l)) ls" using assms(3) by (simp add: list_all_iff)
  then show ?thesis
    using write_lines_ok [OF assms(1,2,3,5)] length_content [OF buf_ok_mem [OF assms(1)]] parse_lines_ok [of ls out "[]"] assms(4) by auto
qed

theorem object_lines_roundtrip_witness:
  "\<exists>b'. write_lines (\<lambda>_. 7, \<lambda>_. True) [([116, 114, 101, 101, 32], \<lparr>oid_id = replicate 20 171\<rparr>), ([112, 32], \<lparr>oid_id = replicate 20 3\<rparr>)] GIT_BUF_INIT = Some b' \<and>
     parse_lines \<lparr>oid_id = replicate 20 0\<rparr> [[116, 114, 101, 101, 32], [112, 32]] (content b') =
       Some ([\<lparr>oid_id = replicate 20 171\<rparr>, \<lparr>oid_id = replicate 20 3\<rparr>], [])"
  using object_lines_roundtrip [of GIT_BUF_INIT "(\<lambda>_. 7, \<lambda>_. True)"
      "[([116, 114, 101, 101, 32], \<lparr>oid_id = replicate 20 171\<rparr>), ([112, 32], \<lparr>oid_id = replicate 20 3\<rparr>)]" "\<lparr>oid_id = replicate 20 0\<rparr>"]
  by (auto simp: GIT_BUF_INIT_def buf_ok_def buf_mem_def oid_ok_def GIT_OID_RAWSZ_def)

end
