(* ===== verification/OidShorten.thy ===== *)
theory OidShorten
  imports Oid
begin

text \<open>
  The id shortener of todo-later/libgit2/src/oid.c: a 16-ary trie in one growing array.  A node is
  a union: the 16 children of an inner node, or the rest of the one string that ends here.  A child is the
  index of an inner node, the negated index of a leaf, or 0.  Reading the children of a leaf (the bits
  of a pointer) or the string of an inner node is None.  The strings are C strings that stay
  alive as long as the trie; an array index is an int and None outside of the array.
\<close>

datatype trie_node = Tail "byte list" | Children "int list"

text \<open>32 zero bytes, which is also a leaf whose pointer has been set to NULL.\<close>

definition zero_node :: trie_node where
  "zero_node = Children (replicate 16 0)"

record oid_shorten =
  os_nodes :: "trie_node list"
  os_node_count :: nat
  os_size :: nat
  os_min_length :: int
  os_full :: bool

definition SHRT_MAX :: nat where
  "SHRT_MAX = 32767"

definition to_short :: "int \<Rightarrow> int" where
  "to_short v = (v + 2 ^ 15) mod 2 ^ 16 - 2 ^ 15"

type_synonym trie_heap = "(nat \<Rightarrow> trie_node) \<times> alloc"

definition rdi :: "'a list \<Rightarrow> int \<Rightarrow> 'a option" where
  "rdi xs i = (if 0 \<le> i then rd xs (nat i) else None)"

definition wri :: "'a list \<Rightarrow> int \<Rightarrow> 'a \<Rightarrow> 'a list option" where
  "wri xs i v = (if 0 \<le> i then wr xs (nat i) v else None)"

text \<open>The array has at most 65536 nodes, so that its size in bytes does not wrap.  After a refused allocation the pointer is
  NULL, here the empty array.\<close>

definition resize_trie :: "trie_heap \<Rightarrow> oid_shorten \<Rightarrow> nat \<Rightarrow> int \<times> oid_shorten" where
  "resize_trie h self new_size =
     (let (junk, ok) = h in
      if \<not> ok (new_size * 32) then (-1, self\<lparr>os_nodes := []\<rparr>)
      else
        let nodes = take new_size (os_nodes self) @ map junk [length (os_nodes self) ..< new_size];
            nodes = (if os_size self < new_size
                     then take (os_size self) nodes @ replicate (new_size - os_size self) zero_node else nodes) in
        (0, self\<lparr>os_nodes := nodes, os_size := new_size\<rparr>))"

definition children_at :: "oid_shorten \<Rightarrow> int \<Rightarrow> int list option" where
  "children_at os idx = do {
     node \<leftarrow> rdi (os_nodes os) idx;
     (case node of Children ks \<Rightarrow> Some ks | Tail _ \<Rightarrow> None) }"

definition set_child :: "oid_shorten \<Rightarrow> int \<Rightarrow> int \<Rightarrow> int \<Rightarrow> oid_shorten option" where
  "set_child os idx c v = do {
     ks \<leftarrow> children_at os idx;
     ks \<leftarrow> wri ks c v;
     nodes \<leftarrow> wri (os_nodes os) idx (Children ks);
     Some (os\<lparr>os_nodes := nodes\<rparr>) }"

text \<open>False is the result NULL.\<close>

definition push_leaf :: "trie_heap \<Rightarrow> oid_shorten \<Rightarrow> int \<Rightarrow> int \<Rightarrow> byte list \<Rightarrow> (bool \<times> oid_shorten) option" where
  "push_leaf h os idx push_at oid =
     (let (rc, os) = (if os_size os \<le> os_node_count os then resize_trie h os (os_size os * 2) else (0, os)) in
      if rc < 0 then Some (False, os)
      else
        let idx_leaf = to_short (int (os_node_count os));
            os = os\<lparr>os_node_count := os_node_count os + 1\<rparr> in
        if os_node_count os = SHRT_MAX then Some (False, os\<lparr>os_full := True\<rparr>)
        else do {
          os \<leftarrow> set_child os idx push_at (to_short (- idx_leaf));
          nodes \<leftarrow> wri (os_nodes os) idx_leaf (Tail oid);
          Some (True, os\<lparr>os_nodes := nodes\<rparr>) })"

definition to_int :: "nat \<Rightarrow> int" where
  "to_int n = (int n + 2 ^ 31) mod 2 ^ 32 - 2 ^ 31"

text \<open>None is the failed assert, Some None the result NULL; the structure has 32 bytes.\<close>

definition git_oid_shorten_new :: "trie_heap \<Rightarrow> nat \<Rightarrow> oid_shorten option option" where
  "git_oid_shorten_new h min_length =
     (if to_int min_length mod 2 ^ 64 \<noteq> int min_length then None
      else if \<not> snd h 32 then Some None
      else
        let (rc, os) = resize_trie h \<lparr>os_nodes = [], os_node_count = 0, os_size = 0, os_min_length = 0, os_full = False\<rparr> 16 in
        if rc < 0 then Some None
        else Some (Some (os\<lparr>os_node_count := 1, os_min_length := to_int min_length\<rparr>)))"

text \<open>The leaf at idx becomes an inner node with one leaf.\<close>

definition split_leaf :: "trie_heap \<Rightarrow> oid_shorten \<Rightarrow> int \<Rightarrow> (bool \<times> oid_shorten) option" where
  "split_leaf h os idx = do {
     node \<leftarrow> rdi (os_nodes os) idx;
     (case node of
        Children _ \<Rightarrow> None
      | Tail tail \<Rightarrow> do {
          nodes \<leftarrow> wri (os_nodes os) idx zero_node;
          push_leaf h (os\<lparr>os_nodes := nodes\<rparr>) idx (git__fromhex (hd0 tail)) (tl tail) }) }"

text \<open>The loop; Inl is an error return, Inr the final i.\<close>

function shorten_loop :: "trie_heap \<Rightarrow> byte list \<Rightarrow> nat \<Rightarrow> int \<Rightarrow> bool \<Rightarrow> oid_shorten \<Rightarrow> ((int + nat) \<times> oid_shorten) option" where
  "shorten_loop h text_oid i idx is_leaf os =
     (if i < GIT_OID_HEXSZ then
        let c = git__fromhex (hd0 (drop i text_oid)) in
        if c = -1 then Some (Inl (-1), os)
        else
          Option.bind (if is_leaf then split_leaf h os idx else Some (True, os)) (\<lambda>(ok, os1).
            if \<not> ok then Some (Inl (-1), os1)
            else
              Option.bind (children_at os1 idx) (\<lambda>ks.
              Option.bind (rdi ks c) (\<lambda>k.
                if k = 0 then
                  Option.bind (push_leaf h os1 idx c (drop (i + 1) text_oid)) (\<lambda>(ok2, os2).
                    Some (if ok2 then Inr i else Inl (-1), os2))
                else if k < 0 then
                  Option.bind (set_child os1 idx c (to_short (- k))) (\<lambda>os2.
                    shorten_loop h text_oid (i + 1) (to_short (- k)) True os2)
                else shorten_loop h text_oid (i + 1) k False os1)))
      else Some (Inr i, os))"
  by pat_completeness auto
termination shorten_loop
  by (relation "measure (\<lambda>(_, _, i, _). GIT_OID_HEXSZ - i)") auto

declare shorten_loop.simps [simp del]

definition git_oid_shorten_add :: "trie_heap \<Rightarrow> oid_shorten \<Rightarrow> byte list option \<Rightarrow> (int \<times> oid_shorten) option" where
  "git_oid_shorten_add h os text_oid =
     (if os_full os then Some (-1, os)
      else case text_oid of
        None \<Rightarrow> Some (os_min_length os, os)
      | Some text \<Rightarrow> do {
          (r, os) \<leftarrow> shorten_loop h text 0 0 False os;
          (case r of
             Inl rc \<Rightarrow> Some (rc, os)
           | Inr i \<Rightarrow>
               let os = (if os_min_length os < int (i + 1) then os\<lparr>os_min_length := int (i + 1)\<rparr> else os) in
               Some (os_min_length os, os)) })"

text \<open>Adding ids until one is refused, and asking for the length.\<close>

primrec shorten_all :: "trie_heap \<Rightarrow> oid_shorten \<Rightarrow> byte list list \<Rightarrow> (int \<times> oid_shorten) option" where
  "shorten_all h os [] = git_oid_shorten_add h os None"
| "shorten_all h os (text # texts) = do {
     (rc, os) \<leftarrow> git_oid_shorten_add h os (Some text);
     (if rc < 0 then Some (rc, os) else shorten_all h os texts) }"

end
