(* ===== verification/ShortenProps.thy ===== *)
theory ShortenProps
  imports OidShorten "HOL-Library.Sublist"
begin

text \<open>
  Correctness of the id shortener: the array represents a trie of the ids, every addition keeps this and finds
  the longest prefix shared with an earlier id; so the reported length is the shortest unambiguous one.
\<close>

section \<open>The trie\<close>

text \<open>
  The array represents a set S of keys.  M gives the index of the node at a path.
  An inner node has the indices of its children, negated for leaves; a leaf has the rest of
  the one key that continues its path.
\<close>

definition is_tail :: "trie_node \<Rightarrow> bool" where
  "is_tail n = (case n of Tail _ \<Rightarrow> True | Children _ \<Rightarrow> False)"

definition digits :: "nat \<Rightarrow> byte list \<Rightarrow> int list" where
  "digits n s = map git__fromhex (take n s)"

definition entry :: "trie_node list \<Rightarrow> (int list \<rightharpoonup> nat) \<Rightarrow> int list \<Rightarrow> int" where
  "entry nodes M q = (case M q of None \<Rightarrow> 0 | Some j \<Rightarrow> if is_tail (nodes ! j) then - int j else int j)"

definition node_rep :: "trie_node list \<Rightarrow> (int list \<rightharpoonup> nat) \<Rightarrow> int list set \<Rightarrow> int list \<Rightarrow> trie_node \<Rightarrow> bool" where
  "node_rep nodes M S p n = (case n of
       Children ks \<Rightarrow> length p < 40 \<and> ks = map (\<lambda>c. entry nodes M (p @ [int c])) [0..<16]
     | Tail s \<Rightarrow> p \<noteq> [] \<and> length p + length s \<ge> 40 \<and> p @ digits (40 - length p) s \<in> S \<and>
         (\<forall>k \<in> S. prefix p k \<longrightarrow> k = p @ digits (40 - length p) s))"

definition trie_rep :: "trie_node list \<Rightarrow> nat \<Rightarrow> (int list \<rightharpoonup> nat) \<Rightarrow> int list set \<Rightarrow> bool" where
  "trie_rep nodes n M S \<longleftrightarrow> M [] = Some 0 \<and> inj_on M (dom M) \<and> n \<le> length nodes \<and>
     (\<forall>p j. M p = Some j \<longrightarrow> j < n \<and> node_rep nodes M S p (nodes ! j)) \<and>
     (\<forall>p c. p @ [c] \<in> dom M \<longrightarrow> p \<in> dom M \<and> \<not> is_tail (nodes ! the (M p)) \<and> 0 \<le> c \<and> c < 16) \<and>
     (\<forall>k \<in> S. \<exists>p \<in> dom M. prefix p k \<and> is_tail (nodes ! the (M p))) \<and>
     (\<forall>k \<in> S. length k = 40 \<and> (\<forall>c \<in> set k. 0 \<le> c \<and> c < 16))"

definition covered :: "(int list \<rightharpoonup> nat) \<Rightarrow> int list set \<Rightarrow> bool" where
  "covered M S \<longleftrightarrow> (\<forall>p \<in> dom M. p \<noteq> [] \<longrightarrow> (\<exists>k \<in> S. prefix p k))"

lemma trie_prefix:
  assumes "trie_rep nodes n M S"
  shows "p @ q \<in> dom M \<Longrightarrow> p \<in> dom M \<and> (q \<noteq> [] \<longrightarrow> \<not> is_tail (nodes ! the (M p)))"
proof (induction q rule: rev_induct)
  case (snoc c q)
  have "(p @ q) @ [c] \<in> dom M" using snoc.prems by simp
  then have d: "p @ q \<in> dom M" "\<not> is_tail (nodes ! the (M (p @ q)))" using assms unfolding trie_rep_def by blast+
  then show ?case using snoc.IH by (cases "q = []") auto
qed simp

text \<open>No leaf lies above or below another.\<close>

lemma leaf_maximal:
  assumes "trie_rep nodes n M S" "p \<in> dom M" "q \<in> dom M" "prefix p q" "is_tail (nodes ! the (M p))"
  shows "p = q"
proof -
  obtain r where "q = p @ r" using assms(4) by (auto simp: prefix_def)
  then show ?thesis using trie_prefix [OF assms(1), of p r] assms(3,5) by auto
qed

text \<open>Where a child is missing no key goes.\<close>

lemma missing_child:
  assumes t: "trie_rep nodes n M S" and p: "p \<in> dom M" "\<not> is_tail (nodes ! the (M p))" and m: "p @ [c] \<notin> dom M" and k: "k \<in> S"
  shows "\<not> prefix (p @ [c]) k"
proof
  assume pk: "prefix (p @ [c]) k"
  obtain q where q: "q \<in> dom M" "prefix q k" "is_tail (nodes ! the (M q))" using t k unfolding trie_rep_def by blast
  consider "prefix q p" | "prefix (p @ [c]) q" using prefix_same_cases [OF q(2) pk] by (auto simp: prefix_snoc)
  then show False
  proof cases
    case 1
    then have "q = p" using leaf_maximal [OF t q(1) p(1)] q(3) by blast
    then show False using p q by simp
  next
    case 2
    then obtain r where "q = (p @ [c]) @ r" unfolding prefix_def by blast
    then show False using trie_prefix [OF t, of "p @ [c]" r] q(1) m by simp
  qed
qed

lemma node_of: "trie_rep nodes n M S \<Longrightarrow> M p = Some j \<Longrightarrow> j < n \<and> n \<le> length nodes \<and> node_rep nodes M S p (nodes ! j)"
  unfolding trie_rep_def by blast

lemma index_inj: "trie_rep nodes n M S \<Longrightarrow> M p = Some j \<Longrightarrow> M q = Some j \<Longrightarrow> p = q"
  unfolding trie_rep_def inj_on_def by (metis domI)

lemma child_of:
  "trie_rep nodes n M S \<Longrightarrow> M p = Some j \<Longrightarrow> nodes ! j = Children ks \<Longrightarrow>
   length ks = 16 \<and> length p < 40 \<and> (\<forall>c. 0 \<le> c \<and> c < 16 \<longrightarrow> ks ! nat c = entry nodes M (p @ [c]))"
  using node_of [of nodes n M S p j] by (auto simp: node_rep_def nat_less_iff)

text \<open>A new leaf at a free place.\<close>

lemma trie_add_leaf:
  assumes t: "trie_rep nodes n M S" and p: "M p = Some j" "nodes ! j = Children ks" and c: "M (p @ [c]) = None" "0 \<le> c" "c < 16"
    and n: "n < length nodes" and s: "length p + 1 + length s \<ge> 40" "k = p @ [c] @ digits (40 - length p - 1) s" "length k = 40" "\<forall>x \<in> set k. 0 \<le> x \<and> x < 16"
  shows "trie_rep (nodes[j := Children (ks[nat c := - int n]), n := Tail s]) (n + 1) (M(p @ [c] \<mapsto> n)) (insert k S)"
proof -
  define N where "N = nodes[j := Children (ks[nat c := - int n]), n := Tail s]"
  define M' where "M' = M(p @ [c] \<mapsto> n)"
  have j: "j < n" "n \<le> length nodes" "length ks = 16" "length p < 40" and ks: "\<And>c. 0 \<le> c \<Longrightarrow> c < 16 \<Longrightarrow> ks ! nat c = entry nodes M (p @ [c])"
    using node_of [OF t p(1)] child_of [OF t p] by auto
  have Nn: "N ! n = Tail s" "N ! j = Children (ks[nat c := - int n])" using j n by (simp_all add: N_def)
  have No: "\<And>q i. M q = Some i \<Longrightarrow> i \<noteq> j \<Longrightarrow> N ! i = nodes ! i" using node_of [OF t] by (force simp: N_def)
  have tail: "\<And>q i. M q = Some i \<Longrightarrow> is_tail (N ! i) = is_tail (nodes ! i)"
    using No Nn p(2) by (metis is_tail_def trie_node.case(2))
  have en: "\<And>q. q \<noteq> p @ [c] \<Longrightarrow> entry N M' q = entry nodes M q"
    using tail by (auto simp: entry_def M'_def split: option.splits)
  have en2: "entry N M' (p @ [c]) = - int n" using Nn by (simp add: entry_def M'_def is_tail_def)
  have rep: "M' q = Some i \<Longrightarrow> i < n + 1 \<and> node_rep N M' (insert k S) q (N ! i)" for q i
  proof -
    assume q: "M' q = Some i"
    show ?thesis
    proof (cases "q = p @ [c]")
      case True
      have "\<forall>k' \<in> S. \<not> prefix (p @ [c]) k'" using missing_child [OF t, of p c] p c(1) by (auto simp: is_tail_def)
      then show ?thesis using True q Nn s by (auto simp: M'_def node_rep_def)
    next
      case False
      then have Mq: "M q = Some i" using q by (simp add: M'_def)
      then have r: "i < n" "node_rep nodes M S q (nodes ! i)" using node_of [OF t Mq] by auto
      show ?thesis
      proof (cases "q = p")
        case True
        then have "i = j" using Mq p by simp
        moreover have "ks[nat c := - int n] = map (\<lambda>x. entry N M' (p @ [int x])) [0..<16]"
        proof (rule nth_equalityI)
          fix x assume "x < length (ks[nat c := - int n])"
          then have x: "x < 16" using j by simp
          then show "ks[nat c := - int n] ! x = map (\<lambda>x. entry N M' (p @ [int x])) [0..<16] ! x"
            using ks [of "int x"] en [of "p @ [int x]"] en2 c j by (cases "x = nat c") auto
        qed (simp add: j)
        ultimately show ?thesis using True Nn j by (simp add: node_rep_def)
      next
        case qp: False
        then have "i \<noteq> j" using index_inj [OF t Mq] p by blast
        then have "N ! i = nodes ! i" using No Mq by blast
        moreover have "entry N M' (q @ [int x]) = entry nodes M (q @ [int x])" for x using en qp by simp
        moreover have "is_tail (nodes ! i) \<Longrightarrow> \<not> prefix q k"
        proof
          assume tl: "is_tail (nodes ! i)" "prefix q k"
          have "prefix (p @ [c]) k" using s by (simp add: prefix_def)
          from prefix_same_cases [OF tl(2) this] consider "prefix q p" | "prefix (p @ [c]) q" by (auto simp: prefix_snoc)
          then show False
          proof cases
            case 1
            then show False using leaf_maximal [OF t _ _ 1] Mq p tl qp by auto
          next
            case 2
            then obtain r where "q = (p @ [c]) @ r" unfolding prefix_def by blast
            then show False using trie_prefix [OF t, of "p @ [c]" r] Mq c(1) by auto
          qed
        qed
        ultimately show ?thesis using r by (auto simp: node_rep_def is_tail_def split: trie_node.splits)
      qed
    qed
  qed
  have "trie_rep N (n + 1) M' (insert k S)"
    unfolding trie_rep_def
  proof (intro conjI)
    show "M' [] = Some 0" using t by (simp add: M'_def trie_rep_def)
    have "n \<notin> ran M" using node_of [OF t] by (force simp: ran_def)
    then show "inj_on M' (dom M')" using t unfolding M'_def trie_rep_def
      by (auto simp: inj_on_def ran_def)
    show "n + 1 \<le> length N" using n by (simp add: N_def)
    show "\<forall>p j. M' p = Some j \<longrightarrow> j < n + 1 \<and> node_rep N M' (insert k S) p (N ! j)" using rep by blast
    show "\<forall>q d. q @ [d] \<in> dom M' \<longrightarrow> q \<in> dom M' \<and> \<not> is_tail (N ! the (M' q)) \<and> 0 \<le> d \<and> d < 16"
    proof (intro allI impI)
      fix q d assume d: "q @ [d] \<in> dom M'"
      show "q \<in> dom M' \<and> \<not> is_tail (N ! the (M' q)) \<and> 0 \<le> d \<and> d < 16"
      proof (cases "q @ [d] = p @ [c]")
        case True
        then show ?thesis using p c Nn by (simp add: M'_def is_tail_def domI)
      next
        case False
        then have "q @ [d] \<in> dom M" using d by (auto simp: M'_def)
        then have q: "q \<in> dom M" "\<not> is_tail (nodes ! the (M q))" "0 \<le> d" "d < 16" using t unfolding trie_rep_def by blast+
        moreover have "q \<noteq> p @ [c]" using q(1) c by auto
        ultimately show ?thesis using tail by (auto simp: M'_def)
      qed
    qed
    show "\<forall>k' \<in> insert k S. \<exists>q \<in> dom M'. prefix q k' \<and> is_tail (N ! the (M' q))"
    proof
      fix k' assume "k' \<in> insert k S"
      then consider "k' = k" | "k' \<in> S" by blast
      then show "\<exists>q \<in> dom M'. prefix q k' \<and> is_tail (N ! the (M' q))"
      proof cases
        case 1
        then show ?thesis using s Nn by (intro bexI [of _ "p @ [c]"]) (auto simp: M'_def is_tail_def)
      next
        case 2
        then obtain q where q: "q \<in> dom M" "prefix q k'" "is_tail (nodes ! the (M q))" using t unfolding trie_rep_def by blast
        moreover have "q \<noteq> p @ [c]" using q(1) c by auto
        ultimately show ?thesis using tail by (intro bexI [of _ q]) (auto simp: M'_def)
      qed
    qed
    show "\<forall>k \<in> insert k S. length k = 40 \<and> (\<forall>c \<in> set k. 0 \<le> c \<and> c < 16)" using t s unfolding trie_rep_def by blast
  qed
  then show ?thesis by (simp add: N_def M'_def)
qed

text \<open>A leaf becomes an inner node without children, and its key goes.\<close>

lemma trie_open_leaf:
  assumes t: "trie_rep nodes n M S" and p: "M p = Some i" "nodes ! i = Children ks" and q: "M (p @ [c]) = Some j" "nodes ! j = Tail s"
    and l: "length p + 1 < 40" and k: "k = p @ [c] @ digits (40 - length p - 1) s"
  shows "trie_rep (nodes[i := Children (ks[nat c := int j]), j := zero_node]) n M (S - {k})"
proof -
  define N where "N = nodes[i := Children (ks[nat c := int j]), j := zero_node]"
  have i: "i < n" "n \<le> length nodes" "length ks = 16" "length p < 40" and ks: "\<And>c. 0 \<le> c \<Longrightarrow> c < 16 \<Longrightarrow> ks ! nat c = entry nodes M (p @ [c])"
    using node_of [OF t p(1)] child_of [OF t p] by auto
  have j: "j < n" "node_rep nodes M S (p @ [c]) (Tail s)" using node_of [OF t q(1)] q(2) by auto
  have c: "0 \<le> c" "c < 16" using t q(1) unfolding trie_rep_def by blast+
  have ij: "i \<noteq> j" using p(2) q(2) by auto
  have Nn: "N ! j = zero_node" "N ! i = Children (ks[nat c := int j])" using i j ij by (simp_all add: N_def)
  have No: "\<And>r m. M r = Some m \<Longrightarrow> m \<noteq> i \<Longrightarrow> m \<noteq> j \<Longrightarrow> N ! m = nodes ! m" by (simp add: N_def)
  have tail: "\<And>r m. M r = Some m \<Longrightarrow> m \<noteq> j \<Longrightarrow> is_tail (N ! m) = is_tail (nodes ! m)"
    using No Nn p(2) by (metis is_tail_def trie_node.case(2))
  have nj: "\<And>r m. M r = Some m \<Longrightarrow> r \<noteq> p @ [c] \<Longrightarrow> m \<noteq> j" using index_inj [OF t _ q(1)] by blast
  have en: "\<And>r. r \<noteq> p @ [c] \<Longrightarrow> entry N M r = entry nodes M r"
    using tail nj by (auto simp: entry_def split: option.splits)
  have en2: "entry N M (p @ [c]) = int j" using Nn q by (simp add: entry_def is_tail_def zero_node_def)
  have leafless: "M (p @ [c, d]) = None" for d
  proof (rule ccontr)
    assume "M (p @ [c, d]) \<noteq> None"
    then have "(p @ [c]) @ [d] \<in> dom M" by auto
    then have "\<not> is_tail (nodes ! the (M (p @ [c])))" using t unfolding trie_rep_def by blast
    then show False using q by (simp add: is_tail_def)
  qed
  have rep: "M r = Some m \<Longrightarrow> m < n \<and> node_rep N M (S - {k}) r (N ! m)" for r m
  proof -
    assume r: "M r = Some m"
    then have m: "m < n" "node_rep nodes M S r (nodes ! m)" using node_of [OF t] by auto
    consider "r = p @ [c]" | "r = p" | "r \<noteq> p @ [c]" "r \<noteq> p" by blast
    then show ?thesis
    proof cases
      case 1
      have "replicate 16 0 = map (\<lambda>x. entry N M ((p @ [c]) @ [int x])) [0..<16]"
        by (rule nth_equalityI) (auto simp: entry_def leafless)
      then show ?thesis using 1 r q(1) m(1) Nn l by (simp add: node_rep_def zero_node_def)
    next
      case 2
      have "ks[nat c := int j] = map (\<lambda>x. entry N M (p @ [int x])) [0..<16]"
      proof (rule nth_equalityI)
        fix x assume "x < length (ks[nat c := int j])"
        then have x: "x < 16" using i by simp
        then show "ks[nat c := int j] ! x = map (\<lambda>x. entry N M (p @ [int x])) [0..<16] ! x"
          using ks [of "int x"] en [of "p @ [int x]"] en2 c i by (cases "x = nat c") auto
      qed (simp add: i)
      then show ?thesis using 2 r p(1) m(1) Nn i by (simp add: node_rep_def)
    next
      case 3
      then have "m \<noteq> j" "m \<noteq> i" using nj [OF r] index_inj [OF t r, of p] p(1) by blast+
      then have e: "N ! m = nodes ! m" using No r by blast
      show ?thesis
      proof (cases "nodes ! m")
        case (Tail s')
        have "r @ digits (40 - length r) s' \<noteq> k"
        proof
          assume "r @ digits (40 - length r) s' = k"
          then have "prefix r k" by (rule prefixI [OF sym])
          moreover have "prefix (p @ [c]) k" using k by (simp add: prefix_def)
          moreover have "r \<in> dom M" "p @ [c] \<in> dom M" "is_tail (nodes ! the (M r))" "is_tail (nodes ! the (M (p @ [c])))"
            using r q Tail by (auto simp: is_tail_def)
          ultimately show False using leaf_maximal [OF t] 3(1) prefix_same_cases by metis
        qed
        then show ?thesis using m e Tail by (auto simp: node_rep_def)
      next
        case (Children ks')
        then show ?thesis using m e en 3 by (auto simp: node_rep_def)
      qed
    qed
  qed
  have "trie_rep N n M (S - {k})"
    unfolding trie_rep_def
  proof (intro conjI)
    show "M [] = Some 0" "inj_on M (dom M)" using t unfolding trie_rep_def by blast+
    show "n \<le> length N" using i by (simp add: N_def)
    show "\<forall>p j. M p = Some j \<longrightarrow> j < n \<and> node_rep N M (S - {k}) p (N ! j)" using rep by blast
    show "\<forall>r d. r @ [d] \<in> dom M \<longrightarrow> r \<in> dom M \<and> \<not> is_tail (N ! the (M r)) \<and> 0 \<le> d \<and> d < 16"
    proof (intro allI impI)
      fix r d assume d: "r @ [d] \<in> dom M"
      then have r: "r \<in> dom M" "\<not> is_tail (nodes ! the (M r))" "0 \<le> d" "d < 16" using t unfolding trie_rep_def by blast+
      moreover obtain m where m: "M r = Some m" using r(1) by blast
      moreover have "m \<noteq> j" using r(2) m q(2) by (auto simp: is_tail_def)
      ultimately show "r \<in> dom M \<and> \<not> is_tail (N ! the (M r)) \<and> 0 \<le> d \<and> d < 16" using tail [OF m] by simp
    qed
    show "\<forall>k' \<in> S - {k}. \<exists>r \<in> dom M. prefix r k' \<and> is_tail (N ! the (M r))"
    proof
      fix k' assume k': "k' \<in> S - {k}"
      then obtain r where r: "r \<in> dom M" "prefix r k'" "is_tail (nodes ! the (M r))" using t unfolding trie_rep_def by blast
      obtain m where m: "M r = Some m" using r(1) by blast
      have "r \<noteq> p @ [c]"
        using j(2) k' r(2) k by (auto simp: node_rep_def)
      then show "\<exists>r \<in> dom M. prefix r k' \<and> is_tail (N ! the (M r))" using r m nj [OF m] tail [OF m] by (intro bexI [of _ r]) auto
    qed
    show "\<forall>k \<in> S - {k}. length k = 40 \<and> (\<forall>c \<in> set k. 0 \<le> c \<and> c < 16)" using t unfolding trie_rep_def by blast
  qed
  then show ?thesis by (simp add: N_def)
qed

lemma trie_extend:
  assumes "trie_rep nodes n M S"
  shows "trie_rep (nodes @ ext) n M S"
proof -
  have e: "\<And>q j. M q = Some j \<Longrightarrow> (nodes @ ext) ! j = nodes ! j" using node_of [OF assms] by (metis less_le_trans nth_append)
  then have "entry (nodes @ ext) M q = entry nodes M q" for q by (auto simp: entry_def split: option.splits)
  then have r: "node_rep (nodes @ ext) M S q x = node_rep nodes M S q x" for q x by (cases x) (simp_all add: node_rep_def)
  have t: "q \<in> dom M \<Longrightarrow> (nodes @ ext) ! the (M q) = nodes ! the (M q)" for q using e by auto
  show ?thesis
    unfolding trie_rep_def r
  proof (intro conjI)
    show "M [] = Some 0" "inj_on M (dom M)" "\<forall>k \<in> S. length k = 40 \<and> (\<forall>c \<in> set k. 0 \<le> c \<and> c < 16)"
      using assms unfolding trie_rep_def by blast+
    show "n \<le> length (nodes @ ext)" using assms by (simp add: trie_rep_def)
    show "\<forall>p j. M p = Some j \<longrightarrow> j < n \<and> node_rep nodes M S p ((nodes @ ext) ! j)" using node_of [OF assms] e by simp
    show "\<forall>p c. p @ [c] \<in> dom M \<longrightarrow> p \<in> dom M \<and> \<not> is_tail ((nodes @ ext) ! the (M p)) \<and> 0 \<le> c \<and> c < 16"
      using assms t unfolding trie_rep_def by (metis (no_types, lifting))
    show "\<forall>k \<in> S. \<exists>p \<in> dom M. prefix p k \<and> is_tail ((nodes @ ext) ! the (M p))"
      using assms t unfolding trie_rep_def by (metis (no_types, lifting))
  qed
qed

section \<open>The operations\<close>

definition good :: "oid_shorten \<Rightarrow> (int list \<rightharpoonup> nat) \<Rightarrow> int list set \<Rightarrow> bool" where
  "good os M S \<longleftrightarrow> trie_rep (os_nodes os) (os_node_count os) M S \<and> length (os_nodes os) = os_size os \<and> 0 < os_node_count os"

lemma short_ids: "n \<le> 32767 \<Longrightarrow> to_short (int n) = int n" "n \<le> 32767 \<Longrightarrow> to_short (- int n) = - int n"
  by (simp_all add: to_short_def)

lemma set_child_ok:
  assumes "j < length (os_nodes os)" "os_nodes os ! j = Children ks" "0 \<le> c" "nat c < length ks"
  shows "set_child os (int j) c v = Some (os\<lparr>os_nodes := (os_nodes os)[j := Children (ks[nat c := v])]\<rparr>)"
  using assms by (simp add: set_child_def children_at_def rdi_def wri_def)

lemma push_leaf_ok:
  assumes g: "good os M S" and h: "\<forall>n. snd h n" and n: "os_node_count os + 1 < SHRT_MAX" and p: "M p = Some j" "os_nodes os ! j = Children ks"
    and c: "M (p @ [c]) = None" "0 \<le> c" "c < 16"
    and s: "length p + 1 + length s \<ge> 40" "k = p @ [c] @ digits (40 - length p - 1) s" "length k = 40" "\<forall>x \<in> set k. 0 \<le> x \<and> x < 16"
  shows "\<exists>os'. push_leaf h os (int j) c s = Some (True, os') \<and> good os' (M(p @ [c] \<mapsto> os_node_count os)) (insert k S) \<and>
    os_node_count os' = os_node_count os + 1 \<and> os_min_length os' = os_min_length os \<and> os_full os' = os_full os \<and>
    (\<exists>ext. os_nodes os' = (os_nodes os @ ext)[j := Children (ks[nat c := - int (os_node_count os)]), os_node_count os := Tail s])"
proof -
  let ?n = "os_node_count os"
  obtain junk ok where hh: "h = (junk, ok)" by fastforce
  have t: "trie_rep (os_nodes os) ?n M S" and l: "length (os_nodes os) = os_size os" and n0: "0 < ?n" using g by (auto simp: good_def)
  have le: "?n \<le> os_size os" using t l by (simp add: trie_rep_def)
  define ext where "ext = (if os_size os \<le> ?n then replicate (os_size os) zero_node else [])"
  define os1 where "os1 = os\<lparr>os_nodes := os_nodes os @ ext, os_size := os_size os + length ext\<rparr>"
  have r: "(if os_size os \<le> ?n then resize_trie h os (os_size os * 2) else (0, os)) = (0, os1)"
    using h l by (cases os) (simp add: resize_trie_def hh ext_def os1_def Let_def)
  have t1: "trie_rep (os_nodes os @ ext) ?n M S" by (rule trie_extend [OF t])
  have ln: "?n < length (os_nodes os @ ext)" using le l n0 by (simp add: ext_def)
  have j: "j < ?n" "(os_nodes os @ ext) ! j = Children ks" using node_of [OF t p(1)] p(2) by (auto simp: nth_append)
  have lk: "length ks = 16" using child_of [OF t p] by simp
  define os2 where "os2 = os1\<lparr>os_node_count := ?n + 1\<rparr>"
  have sc: "set_child os2 (int j) c (- int ?n) = Some (os2\<lparr>os_nodes := (os_nodes os @ ext)[j := Children (ks[nat c := - int ?n])]\<rparr>)"
    using set_child_ok [of j os2 ks c] j ln lk c by (simp add: os2_def os1_def)
  define os' where "os' = os2\<lparr>os_nodes := (os_nodes os @ ext)[j := Children (ks[nat c := - int ?n]), ?n := Tail s]\<rparr>"
  have sh: "to_short (int ?n) = int ?n" "to_short (- int ?n) = - int ?n" using short_ids [of ?n] n by (simp_all add: SHRT_MAX_def)
  have "push_leaf h os (int j) c s = Some (True, os')"
    unfolding push_leaf_def r
    using sc ln n by (simp add: Let_def sh os2_def [symmetric] os1_def wri_def os'_def)
      (simp add: os2_def os1_def)
  moreover have "good os' (M(p @ [c] \<mapsto> ?n)) (insert k S)"
    using trie_add_leaf [OF t1 p(1) j(2) c ln s] l by (simp add: good_def os'_def os2_def os1_def)
  ultimately show ?thesis by (intro exI [of _ os']) (auto simp: os'_def os2_def os1_def)
qed

lemma split_leaf_ok:
  assumes g: "good os M S" and h: "\<forall>n. snd h n" and n: "os_node_count os + 1 < SHRT_MAX"
    and p: "M p = Some i" "os_nodes os ! i = Children ks" and q: "M (p @ [c]) = Some j" "os_nodes os ! j = Tail s" and l: "length p + 1 < 40"
  shows "\<exists>os' d. split_leaf h (os\<lparr>os_nodes := (os_nodes os)[i := Children (ks[nat c := int j])]\<rparr>) (int j) = Some (True, os') \<and>
    good os' (M(p @ [c, d] \<mapsto> os_node_count os)) S \<and> os_node_count os' = os_node_count os + 1 \<and> os_min_length os' = os_min_length os \<and>
    os_full os' = os_full os \<and> (\<exists>k \<in> S. prefix (p @ [c, d]) k) \<and> \<not> is_tail (os_nodes os' ! j)"
proof -
  let ?n = "os_node_count os" and ?q = "p @ [c]"
  have t: "trie_rep (os_nodes os) ?n M S" "length (os_nodes os) = os_size os" "0 < ?n" using g by (auto simp: good_def)
  define k where "k = p @ [c] @ digits (40 - length p - 1) s"
  have j: "j < ?n" "?n \<le> os_size os" "40 \<le> length ?q + length s" "k \<in> S"
    using node_of [OF t(1) q(1)] q(2) t(2) by (auto simp: node_rep_def k_def)
  have k: "length k = 40" "\<forall>x \<in> set k. 0 \<le> x \<and> x < 16" using t(1) j(4) unfolding trie_rep_def by blast+
  obtain x s' where s: "s = x # s'" using j(3) l by (cases s) auto
  have ij: "i \<noteq> j" "i < ?n" using p q node_of [OF t(1) p(1)] by auto
  define d where "d = git__fromhex x"
  have "40 - length p - 1 = Suc (40 - length p - 2)" using l by simp
  then have kd: "k = ?q @ [d] @ digits (40 - length ?q - 1) s'" by (simp add: k_def s digits_def d_def)
  then have d: "0 \<le> d" "d < 16" using k(2) by auto
  define N where "N = (os_nodes os)[i := Children (ks[nat c := int j]), j := zero_node]"
  define os1 where "os1 = os\<lparr>os_nodes := N\<rparr>"
  have "trie_rep N ?n M (S - {k})" unfolding N_def by (rule trie_open_leaf [OF t(1) p q l k_def])
  then have g1: "good os1 M (S - {k})" using t by (simp add: good_def os1_def N_def)
  have Nj: "os_nodes os1 ! j = Children (replicate 16 0)" using j ij t(2) by (simp add: os1_def N_def zero_node_def)
  have free: "M (?q @ [d]) = None"
  proof (rule ccontr)
    assume "M (?q @ [d]) \<noteq> None"
    then have "?q @ [d] \<in> dom M" by blast
    then have "\<not> is_tail (os_nodes os ! the (M ?q))" using t(1) unfolding trie_rep_def by blast
    then show False using q by (simp add: is_tail_def)
  qed
  have "length ?q + 1 + length s' \<ge> 40" using j(3) s by simp
  from push_leaf_ok [OF g1 h _ q(1) Nj free d this kd k] n
  obtain os' ext where os': "push_leaf h os1 (int j) d s' = Some (True, os')" "good os' (M(?q @ [d] \<mapsto> ?n)) (insert k (S - {k}))"
    "os_node_count os' = ?n + 1" "os_min_length os' = os_min_length os" "os_full os' = os_full os"
    "os_nodes os' = (os_nodes os1 @ ext)[j := Children ((replicate 16 0)[nat d := - int ?n]), ?n := Tail s']"
    by (auto simp: os1_def)
  have "split_leaf h (os\<lparr>os_nodes := (os_nodes os)[i := Children (ks[nat c := int j])]\<rparr>) (int j) = push_leaf h os1 (int j) d s'"
    using q(2) s ij j t(2) by (simp add: split_leaf_def rdi_def wri_def hd0_def d_def os1_def N_def)
  moreover have "insert k (S - {k}) = S" using j(4) by blast
  moreover have "\<not> is_tail (os_nodes os' ! j)" using os'(6) j t(2) by (simp add: is_tail_def os1_def N_def nth_append)
  moreover have "prefix (p @ [c, d]) k" using kd by (simp add: prefix_def)
  ultimately show ?thesis using os' j(4) by (intro exI [of _ os'] exI [of _ d]) auto
qed

lemma loop_split:
  assumes "i < 40" "git__fromhex (hd0 (drop i text)) \<noteq> -1" "split_leaf h os idx = Some (True, os')"
  shows "shorten_loop h text i idx True os = shorten_loop h text i idx False os'"
proof -
  have i: "(i < GIT_OID_HEXSZ) = True" using assms(1) by (simp add: GIT_OID_HEXSZ_def)
  have c: "(git__fromhex (hd0 (drop i text)) = -1) = False" using assms(2) by simp
  have a: "shorten_loop h text i idx True os = Option.bind (Some (True, os')) (\<lambda>(ok, os1).
            if \<not> ok then Some (Inl (-1), os1)
            else
              Option.bind (children_at os1 idx) (\<lambda>ks.
              Option.bind (rdi ks (git__fromhex (hd0 (drop i text)))) (\<lambda>k.
                if k = 0 then
                  Option.bind (push_leaf h os1 idx (git__fromhex (hd0 (drop i text))) (drop (i + 1) text)) (\<lambda>(ok2, os2).
                    Some (if ok2 then Inr i else Inl (-1), os2))
                else if k < 0 then
                  Option.bind (set_child os1 idx (git__fromhex (hd0 (drop i text))) (to_short (- k))) (\<lambda>os2.
                    shorten_loop h text (i + 1) (to_short (- k)) True os2)
                else shorten_loop h text (i + 1) k False os1)))"
    by (subst shorten_loop.simps) (simp only: i c if_True if_False Let_def assms(3))
  show ?thesis unfolding a by (subst shorten_loop.simps) (simp only: i c if_True if_False Let_def)
qed

text \<open>The step of the loop at an inner node.\<close>

lemma loop_step:
  assumes "i < 40" "git__fromhex (hd0 (drop i text)) = c" "0 \<le> c" "nat c < length ks" "j < length (os_nodes os)" "os_nodes os ! j = Children ks"
  shows "shorten_loop h text i (int j) False os =
     (if ks ! nat c = 0 then
        Option.bind (push_leaf h os (int j) c (drop (i + 1) text)) (\<lambda>(ok, os2). Some (if ok then Inr i else Inl (-1), os2))
      else if ks ! nat c < 0 then
        shorten_loop h text (i + 1) (to_short (- (ks ! nat c))) True (os\<lparr>os_nodes := (os_nodes os)[j := Children (ks[nat c := to_short (- (ks ! nat c))])]\<rparr>)
      else shorten_loop h text (i + 1) (ks ! nat c) False os)"
proof -
  have i: "(i < GIT_OID_HEXSZ) = True" using assms(1) by (simp add: GIT_OID_HEXSZ_def)
  have c: "(c = -1) = False" using assms(3) by simp
  have k: "children_at os (int j) = Some ks" "rdi ks c = Some (ks ! nat c)" using assms by (simp_all add: children_at_def rdi_def)
  have s: "set_child os (int j) c v = Some (os\<lparr>os_nodes := (os_nodes os)[j := Children (ks[nat c := v])]\<rparr>)" for v
    using set_child_ok assms by blast
  show ?thesis
    by (subst shorten_loop.simps) (simp only: i assms(2) c if_True if_False Let_def k s bind.bind_lunit prod.case simp_thms)
qed

lemma digits_nth: "i < n \<Longrightarrow> n \<le> length s \<Longrightarrow> digits n s ! i = git__fromhex (hd0 (drop i s))"
  using Cons_nth_drop_Suc [of i s, symmetric] by (simp add: digits_def hd0_def)

lemma digits_drop: "drop i (digits n s) = digits (n - i) (drop i s)"
  by (simp add: digits_def drop_map drop_take)

lemma shorten_loop_ok:
  "good os M S \<Longrightarrow> covered M S \<Longrightarrow> \<forall>n. snd h n \<Longrightarrow> M (take i k) = Some j \<Longrightarrow> \<not> is_tail (os_nodes os ! j) \<Longrightarrow> i < 40 \<Longrightarrow> k \<notin> S \<Longrightarrow>
   40 \<le> length text \<Longrightarrow> k = digits 40 text \<Longrightarrow> \<forall>x \<in> set k. 0 \<le> x \<and> x < 16 \<Longrightarrow> os_node_count os + (40 - i) < SHRT_MAX \<Longrightarrow>
   \<exists>os' M' i'. shorten_loop h text i (int j) False os = Some (Inr i', os') \<and> good os' M' (insert k S) \<and> covered M' (insert k S) \<and>
     i' < 40 \<and> (\<forall>k' \<in> S. \<not> prefix (take (i' + 1) k) k') \<and> (i' = 0 \<or> (\<exists>k' \<in> S. prefix (take i' k) k')) \<and>
     os_node_count os' \<le> os_node_count os + (40 - i) \<and> os_min_length os' = os_min_length os \<and> os_full os' = os_full os"
proof (induction "40 - i" arbitrary: i j os M rule: less_induct)
  case less
  note g = less.prems(1) and cov = less.prems(2) and h = less.prems(3) and Mp = less.prems(4) and inner = less.prems(5) and i = less.prems(6)
    and kS = less.prems(7) and lt = less.prems(8) and kd = less.prems(9) and kr = less.prems(10) and room = less.prems(11)
  have lk: "length k = 40" using lt kd by (simp add: digits_def)
  define p where "p = take i k"
  define c where "c = k ! i"
  have lp: "length p = i" using i lk by (simp add: p_def)
  have pc: "p @ [c] = take (i + 1) k" using i lk by (simp add: p_def c_def take_Suc_conv_app_nth)
  have c: "0 \<le> c" "c < 16" using kr i lk by (auto simp: c_def)
  have cf: "git__fromhex (hd0 (drop i text)) = c" using digits_nth [OF i lt] kd by (simp add: c_def)
  obtain ks where ks: "os_nodes os ! j = Children ks" using inner by (cases "os_nodes os ! j") (auto simp: is_tail_def)
  have t: "trie_rep (os_nodes os) (os_node_count os) M S" using g by (simp add: good_def)
  have Mp': "M p = Some j" using Mp by (simp add: p_def)
  have ch: "length ks = 16" "ks ! nat c = entry (os_nodes os) M (p @ [c])" using child_of [OF t Mp' ks] c by auto
  have jl: "j < length (os_nodes os)" using node_of [OF t Mp'] by simp
  have nc: "nat c < length ks" using ch c by simp
  have rm: "os_node_count os + 1 < SHRT_MAX" using room i by linarith
  note step = loop_step [OF i cf c(1) nc jl ks, of h]
  show ?case
  proof (cases "M (p @ [c])")
    case None
    let ?s = "drop (i + 1) text"
    have k: "k = p @ [c] @ digits (40 - length p - 1) ?s"
    proof -
      have "drop (i + 1) k = digits (40 - length p - 1) ?s" by (simp add: kd digits_drop lp)
      then show ?thesis using append_take_drop_id [of "i + 1" k] unfolding pc [symmetric] by simp
    qed
    have s: "length p + 1 + length ?s \<ge> 40" using lt i lp by simp
    obtain os' where os': "push_leaf h os (int j) c ?s = Some (True, os')" "good os' (M(p @ [c] \<mapsto> os_node_count os)) (insert k S)"
      "os_node_count os' = os_node_count os + 1" "os_min_length os' = os_min_length os" "os_full os' = os_full os"
      using push_leaf_ok [OF g h rm Mp' ks None c s k lk kr] by auto
    have "shorten_loop h text i (int j) False os = Some (Inr i, os')"
      unfolding step using ch None os'(1) by (simp add: entry_def)
    moreover have "covered (M(p @ [c] \<mapsto> os_node_count os)) (insert k S)"
      using cov pc take_is_prefix [of "i + 1" k] by (auto simp: covered_def)
    moreover have "\<forall>k' \<in> S. \<not> prefix (take (i + 1) k) k'"
    proof -
      have "p \<in> dom M" "\<not> is_tail (os_nodes os ! the (M p))" "p @ [c] \<notin> dom M" using Mp' None inner by auto
      then show ?thesis unfolding pc [symmetric] using missing_child [OF t] by blast
    qed
    moreover have "i = 0 \<or> (\<exists>k' \<in> S. prefix (take i k) k')"
    proof -
      have "p \<in> dom M" "i = 0 \<or> p \<noteq> []" using Mp' lp by auto
      then show ?thesis using cov unfolding covered_def p_def by blast
    qed
    ultimately show ?thesis using os' i by (intro exI [of _ os'] exI [of _ "M(p @ [c] \<mapsto> os_node_count os)"] exI [of _ i]) simp
  next
    case (Some j')
    have j': "j' < os_node_count os" "node_rep (os_nodes os) M S (p @ [c]) (os_nodes os ! j')" using node_of [OF t Some] by auto
    have j0: "j' \<noteq> 0"
    proof
      assume "j' = 0"
      then have "p @ [c] = []" using index_inj [OF t Some, of "[]"] t by (simp add: trie_rep_def)
      then show False by simp
    qed
    have sh: "j' \<le> 32767" using j'(1) room by (simp add: SHRT_MAX_def)
    show ?thesis
    proof (cases "os_nodes os ! j'")
      case (Children ks')
      then have i1: "i + 1 < 40" using j'(2) lp by (simp add: node_rep_def)
      have e: "ks ! nat c = int j'" using ch Some Children by (simp add: entry_def is_tail_def)
      have "shorten_loop h text i (int j) False os = shorten_loop h text (i + 1) (int j') False os"
        unfolding step e using j0 by simp
      moreover have "40 - (i + 1) < 40 - i" "M (take (i + 1) k) = Some j'" "\<not> is_tail (os_nodes os ! j')"
        "os_node_count os + (40 - (i + 1)) < SHRT_MAX"
        using i Some pc Children room by (simp_all add: is_tail_def)
      ultimately show ?thesis using less.hyps [OF _ g cov h _ _ i1 kS lt kd kr, of j'] by fastforce
    next
      case (Tail s)
      have i1: "i + 1 < 40"
      proof (rule ccontr)
        assume "\<not> i + 1 < 40"
        then have "i + 1 = 40" using i by simp
        then have "p @ [c] = k" using pc lk by simp
        then show False using j'(2) Tail kS lk by (auto simp: node_rep_def digits_def)
      qed
      have e: "ks ! nat c = - int j'" using ch Some Tail by (simp add: entry_def is_tail_def)
      define os1 where "os1 = os\<lparr>os_nodes := (os_nodes os)[j := Children (ks[nat c := int j'])]\<rparr>"
      have "shorten_loop h text i (int j) False os = shorten_loop h text (i + 1) (int j') True os1"
        unfolding step e os1_def using j0 short_ids [OF sh] by simp
      moreover obtain os2 d where os2: "split_leaf h os1 (int j') = Some (True, os2)" "good os2 (M(p @ [c, d] \<mapsto> os_node_count os)) S"
        "os_node_count os2 = os_node_count os + 1" "os_min_length os2 = os_min_length os" "os_full os2 = os_full os"
        "\<exists>k \<in> S. prefix (p @ [c, d]) k" "\<not> is_tail (os_nodes os2 ! j')"
        using split_leaf_ok [OF g h rm Mp' ks Some Tail] i1 lp unfolding os1_def by auto
      moreover have "git__fromhex (hd0 (drop (i + 1) text)) \<noteq> -1"
        using digits_nth [OF i1 lt] kd kr lk i1 by (metis nth_mem not_one_le_zero neg_0_le_iff_le)
      ultimately have st: "shorten_loop h text i (int j) False os = shorten_loop h text (i + 1) (int j') False os2"
        using loop_split [OF i1] by simp
      let ?M = "M(p @ [c, d] \<mapsto> os_node_count os)"
      have "covered ?M S" using cov os2(6) by (auto simp: covered_def)
      moreover have "?M (take (i + 1) k) = Some j'" using Some pc by (metis append_Cons append_assoc append_self_conv append_Nil fun_upd_apply list.distinct(1) same_append_eq)
      moreover have "40 - (i + 1) < 40 - i" "os_node_count os2 + (40 - (i + 1)) < SHRT_MAX" using i room os2(3) by simp_all
      ultimately obtain os' M' i' where r: "shorten_loop h text (i + 1) (int j') False os2 = Some (Inr i', os') \<and> good os' M' (insert k S) \<and> covered M' (insert k S) \<and>
         i' < 40 \<and> (\<forall>k' \<in> S. \<not> prefix (take (i' + 1) k) k') \<and> (i' = 0 \<or> (\<exists>k' \<in> S. prefix (take i' k) k')) \<and>
         os_node_count os' \<le> os_node_count os2 + (40 - (i + 1)) \<and> os_min_length os' = os_min_length os2 \<and> os_full os' = os_full os2"
        using less.hyps [OF _ os2(2) _ h _ os2(7) i1 kS lt kd kr] by blast
      have "os_node_count os' \<le> os_node_count os + (40 - i)" using r os2(3) i by linarith
      then show ?thesis unfolding st using r os2(4,5) by (intro exI [of _ os'] exI [of _ M'] exI [of _ i']) simp
    qed
  qed
qed

definition key :: "byte list \<Rightarrow> int list" where
  "key text = digits 40 text"

text \<open>An id: at least 40 characters, of which the first 40 are hexadecimal digits.\<close>

definition hex_id :: "byte list \<Rightarrow> bool" where
  "hex_id text \<longleftrightarrow> 40 \<le> length text \<and> list_all (\<lambda>c. 0 \<le> git__fromhex c) (take 40 text)"

lemma fromhex_below: "git__fromhex c < 16"
proof -
  have l: "length from_hex = 256" and a: "list_all (\<lambda>v. v < 16) from_hex" by (simp_all add: from_hex_def list_all_iff)
  have "unat c < 256" using unsigned_less [of c] by simp
  then show ?thesis using a l unfolding git__fromhex_def list_all_length by simp
qed

lemma key_digits: "hex_id t \<Longrightarrow> length (key t) = 40 \<and> (\<forall>x \<in> set (key t). 0 \<le> x \<and> x < 16)"
  using fromhex_below by (auto simp: hex_id_def key_def digits_def list_all_iff)

text \<open>The new trie is empty.\<close>

lemma shorten_new_ok:
  assumes "\<forall>n. snd h n" "m < 2 ^ 31"
  shows "\<exists>os. git_oid_shorten_new h m = Some (Some os) \<and> good os [[] \<mapsto> 0] {} \<and> os_node_count os = 1 \<and> os_min_length os = int m \<and> \<not> os_full os"
proof -
  obtain junk ok where hh: "h = (junk, ok)" by fastforce
  have m: "to_int m = int m" using assms(2) by (simp add: to_int_def)
  let ?os = "\<lparr>os_nodes = replicate 16 zero_node, os_node_count = 1, os_size = 16, os_min_length = int m, os_full = False\<rparr>"
  have "git_oid_shorten_new h m = Some (Some ?os)"
    using assms by (simp add: git_oid_shorten_new_def resize_trie_def hh m Let_def)
  moreover have "good ?os [[] \<mapsto> 0] {}"
  proof -
    have "replicate 16 (0 :: int) = map (\<lambda>c. entry (replicate 16 zero_node) [[] \<mapsto> 0] ([] @ [int c])) [0..<16]"
      by (rule nth_equalityI) (simp_all add: entry_def)
    then show ?thesis by (auto simp: good_def trie_rep_def node_rep_def zero_node_def)
  qed
  ultimately show ?thesis by (intro exI [of _ ?os]) simp
qed

lemma good_root:
  assumes "good os M S"
  shows "M [] = Some 0" "\<not> is_tail (os_nodes os ! 0)"
proof -
  have t: "trie_rep (os_nodes os) (os_node_count os) M S" using assms by (simp add: good_def)
  then show m: "M [] = Some 0" by (simp add: trie_rep_def)
  have "node_rep (os_nodes os) M S [] (os_nodes os ! 0)" using node_of [OF t m] by blast
  then show "\<not> is_tail (os_nodes os ! 0)" by (cases "os_nodes os ! 0") (simp_all add: node_rep_def is_tail_def)
qed

text \<open>One addition: the length becomes one more than the longest prefix shared with an earlier id.\<close>

lemma shorten_add_ok:
  assumes g: "good os M S" "covered M S" and h: "\<forall>n. snd h n" and t: "hex_id t" "key t \<notin> S" and n: "os_node_count os + 40 < SHRT_MAX" and f: "\<not> os_full os"
  shows "\<exists>os' M' i. git_oid_shorten_add h os (Some t) = Some (os_min_length os', os') \<and> good os' M' (insert (key t) S) \<and> covered M' (insert (key t) S) \<and>
    os_node_count os' \<le> os_node_count os + 40 \<and> \<not> os_full os' \<and> os_min_length os' = max (os_min_length os) (int (i + 1)) \<and>
    (\<forall>k \<in> S. \<not> prefix (take (i + 1) (key t)) k) \<and> (i = 0 \<or> (\<exists>k \<in> S. prefix (take i (key t)) k)) \<and> i < 40"
proof -
  have r: "M (take 0 (key t)) = Some 0" "\<not> is_tail (os_nodes os ! 0)" using good_root [OF g(1)] by simp_all
  have l: "40 \<le> length t" "key t = digits 40 t" "\<forall>x \<in> set (key t). 0 \<le> x \<and> x < 16" using t(1) key_digits [OF t(1)] by (auto simp: hex_id_def key_def)
  have z: "0 < (40 :: nat)" and room: "os_node_count os + (40 - 0) < SHRT_MAX" using n by simp_all
  obtain os' M' i where i: "shorten_loop h t 0 0 False os = Some (Inr i, os')" "good os' M' (insert (key t) S)" "covered M' (insert (key t) S)"
    "i < 40" "\<forall>k \<in> S. \<not> prefix (take (i + 1) (key t)) k" "i = 0 \<or> (\<exists>k \<in> S. prefix (take i (key t)) k)"
    "os_node_count os' \<le> os_node_count os + 40" "os_min_length os' = os_min_length os" "os_full os' = os_full os"
    using shorten_loop_ok [OF g h r z t(2) l room] by auto
  let ?os = "if os_min_length os' < int (i + 1) then os'\<lparr>os_min_length := int (i + 1)\<rparr> else os'"
  have "git_oid_shorten_add h os (Some t) = Some (os_min_length ?os, ?os)" using f i(1) by (simp add: git_oid_shorten_add_def Let_def)
  moreover have "good ?os M' (insert (key t) S)" using i(2) by (simp add: good_def)
  ultimately show ?thesis using i f by (intro exI [of _ ?os] exI [of _ M'] exI [of _ i]) auto
qed

text \<open>What the length means: it tells the ids apart and no shorter one does.\<close>

definition separates :: "nat \<Rightarrow> int list set \<Rightarrow> bool" where
  "separates n S \<longleftrightarrow> (\<forall>k \<in> S. \<forall>k' \<in> S. take n k = take n k' \<longrightarrow> k = k')"

lemma separates_mono: "separates n S \<Longrightarrow> n \<le> n' \<Longrightarrow> separates n' S"
  unfolding separates_def by (metis min.absorb1 take_take)

lemma prefix_take: "prefix (take n k) k' \<Longrightarrow> length k = length k' \<Longrightarrow> take n k = take n k'"
  by (cases "n \<le> length k") (auto simp: prefix_def)

lemma separates_insert:
  assumes "separates n S" "\<forall>k \<in> S. \<not> prefix (take n k') k"
  shows "separates n (insert k' S)"
proof -
  have "take n k' \<noteq> take n k" if "k \<in> S" for k using assms(2) that take_is_prefix [of n k] by auto
  then show ?thesis using assms(1) unfolding separates_def by (metis insert_iff)
qed

lemma shorten_all_ok:
  "good os M S \<Longrightarrow> covered M S \<Longrightarrow> \<forall>n. snd h n \<Longrightarrow> list_all hex_id ts \<Longrightarrow> distinct (map key ts) \<Longrightarrow> set (map key ts) \<inter> S = {} \<Longrightarrow>
   os_node_count os + 40 * length ts < SHRT_MAX \<Longrightarrow> \<not> os_full os \<Longrightarrow> os_min_length os = int n \<Longrightarrow> separates n S \<Longrightarrow>
   n = m \<or> n = 1 \<or> \<not> separates (n - 1) S \<Longrightarrow> m \<le> n \<Longrightarrow> S \<noteq> {} \<longrightarrow> 0 < n \<Longrightarrow> finite S \<Longrightarrow> \<forall>k \<in> S. length k = 40 \<Longrightarrow>
   \<exists>os' n'. shorten_all h os ts = Some (int n', os') \<and> separates n' (set (map key ts) \<union> S) \<and> m \<le> n' \<and>
     (n' = m \<or> n' = 1 \<or> \<not> separates (n' - 1) (set (map key ts) \<union> S))"
proof (induction ts arbitrary: os M S n)
  case Nil
  then show ?case by (auto simp: git_oid_shorten_add_def)
next
  case (Cons t ts)
  have t: "hex_id t" "key t \<notin> S" using Cons.prems by auto
  have nc: "os_node_count os + 40 < SHRT_MAX" using Cons.prems(7) by simp
  have lk: "length (key t) = 40" using key_digits [OF t(1)] by simp
  obtain os' M' i where i: "git_oid_shorten_add h os (Some t) = Some (os_min_length os', os')" "good os' M' (insert (key t) S)" "covered M' (insert (key t) S)"
    "os_node_count os' \<le> os_node_count os + 40" "\<not> os_full os'" "os_min_length os' = max (os_min_length os) (int (i + 1))"
    "\<forall>k \<in> S. \<not> prefix (take (i + 1) (key t)) k" "i = 0 \<or> (\<exists>k \<in> S. prefix (take i (key t)) k)" "i < 40"
    using shorten_add_ok [OF Cons.prems(1,2,3) t nc Cons.prems(8)] by blast
  let ?n = "max n (i + 1)"
  have ml: "os_min_length os' = int ?n" using i(6) Cons.prems(9) by simp
  have "separates ?n S" using separates_mono [OF Cons.prems(10)] by simp
  moreover have "\<not> prefix (take ?n (key t)) k" if "k \<in> S" for k
  proof
    assume "prefix (take ?n (key t)) k"
    moreover have "take (i + 1) (take ?n (key t)) = take (i + 1) (key t)" by simp
    then have "prefix (take (i + 1) (key t)) (take ?n (key t))" using take_is_prefix [of "i + 1" "take ?n (key t)"] by simp
    ultimately show False using i(7) that prefix_order.trans by blast
  qed
  ultimately have sep: "separates ?n (insert (key t) S)" by (intro separates_insert) auto
  have minimal: "?n = m \<or> ?n = 1 \<or> \<not> separates (?n - 1) (insert (key t) S)"
  proof (cases "i + 1 \<le> n")
    case True
    then have "?n = n" by simp
    moreover have "\<not> separates (n - 1) S \<Longrightarrow> \<not> separates (n - 1) (insert (key t) S)" by (auto simp: separates_def)
    ultimately show ?thesis using Cons.prems(11) by auto
  next
    case False
    then have e: "?n = i + 1" by simp
    show ?thesis
    proof (cases "i = 0")
      case False
      then obtain k where k: "k \<in> S" "prefix (take i (key t)) k" using i(8) by blast
      then have "take i (key t) = take i k" using prefix_take [OF k(2)] lk Cons.prems(15) by simp
      then have "\<not> separates i (insert (key t) S)" using k(1) t(2) by (auto simp: separates_def)
      then show ?thesis using e by simp
    qed (use e in simp)
  qed
  have step: "shorten_all h os (t # ts) = shorten_all h os' ts" using i(1) ml by simp
  have u: "set (map key (t # ts)) \<union> S = set (map key ts) \<union> insert (key t) S" by auto
  show ?case
    unfolding step u
  proof (rule Cons.IH [OF i(2,3) Cons.prems(3) _ _ _ _ i(5) ml sep minimal])
    show "os_node_count os' + 40 * length ts < SHRT_MAX" using Cons.prems(7) i(4) by simp
  qed (use Cons.prems lk in auto)
qed

text \<open>An id that is in the trie already: the loop runs to its end.\<close>

lemma duplicate_loop:
  "good os M S \<Longrightarrow> \<forall>n. snd h n \<Longrightarrow> M (take i k) = Some j \<Longrightarrow> \<not> is_tail (os_nodes os ! j) \<Longrightarrow> i < 40 \<Longrightarrow> k \<in> S \<Longrightarrow>
   40 \<le> length text \<Longrightarrow> k = digits 40 text \<Longrightarrow> os_node_count os + (40 - i) < SHRT_MAX \<Longrightarrow>
   \<exists>os'. shorten_loop h text i (int j) False os = Some (Inr 40, os') \<and> os_min_length os' = os_min_length os"
proof (induction "40 - i" arbitrary: i j os M rule: less_induct)
  case less
  note g = less.prems(1) and h = less.prems(2) and Mp = less.prems(3) and inner = less.prems(4) and i = less.prems(5)
    and kS = less.prems(6) and lt = less.prems(7) and kd = less.prems(8) and room = less.prems(9)
  have t: "trie_rep (os_nodes os) (os_node_count os) M S" using g by (simp add: good_def)
  have lk: "length k = 40" "\<forall>x \<in> set k. 0 \<le> x \<and> x < 16" using t kS unfolding trie_rep_def by blast+
  define p where "p = take i k"
  define c where "c = k ! i"
  have lp: "length p = i" using i lk by (simp add: p_def)
  have pc: "p @ [c] = take (i + 1) k" using i lk by (simp add: p_def c_def take_Suc_conv_app_nth)
  have c: "0 \<le> c" "c < 16" using lk i by (auto simp: c_def)
  have cf: "git__fromhex (hd0 (drop i text)) = c" using digits_nth [OF i lt] kd by (simp add: c_def)
  obtain ks where ks: "os_nodes os ! j = Children ks" using inner by (cases "os_nodes os ! j") (auto simp: is_tail_def)
  have Mp': "M p = Some j" using Mp by (simp add: p_def)
  have ch: "length ks = 16" "ks ! nat c = entry (os_nodes os) M (p @ [c])" using child_of [OF t Mp' ks] c by auto
  have jl: "j < length (os_nodes os)" using node_of [OF t Mp'] by simp
  have nc: "nat c < length ks" using ch c by simp
  have rm: "os_node_count os + 1 < SHRT_MAX" using room i by linarith
  note step = loop_step [OF i cf c(1) nc jl ks, of h]
  have "p \<in> dom M" "\<not> is_tail (os_nodes os ! the (M p))" using Mp' inner by auto
  moreover have "prefix (p @ [c]) k" unfolding pc by (rule take_is_prefix)
  ultimately obtain j' where Some: "M (p @ [c]) = Some j'" using missing_child [OF t] kS by blast
  have j': "j' < os_node_count os" "node_rep (os_nodes os) M S (p @ [c]) (os_nodes os ! j')" using node_of [OF t Some] by auto
  have j0: "j' \<noteq> 0"
  proof
    assume "j' = 0"
    then have "p @ [c] = []" using index_inj [OF t Some, of "[]"] t by (simp add: trie_rep_def)
    then show False by simp
  qed
  have sh: "j' \<le> 32767" using j'(1) room by (simp add: SHRT_MAX_def)
  show ?case
  proof (cases "os_nodes os ! j'")
    case (Children ks')
    then have i1: "i + 1 < 40" using j'(2) lp by (simp add: node_rep_def)
    have e: "ks ! nat c = int j'" using ch Some Children by (simp add: entry_def is_tail_def)
    have st: "shorten_loop h text i (int j) False os = shorten_loop h text (i + 1) (int j') False os"
      unfolding step e using j0 by simp
    have "40 - (i + 1) < 40 - i" "M (take (i + 1) k) = Some j'" "\<not> is_tail (os_nodes os ! j')"
      "os_node_count os + (40 - (i + 1)) < SHRT_MAX"
      using i Some pc Children room by (simp_all add: is_tail_def)
    then show ?thesis unfolding st using less.hyps [OF _ g h _ _ i1 kS lt kd, of j'] by blast
  next
    case (Tail s)
    have e: "ks ! nat c = - int j'" using ch Some Tail by (simp add: entry_def is_tail_def)
    define os1 where "os1 = os\<lparr>os_nodes := (os_nodes os)[j := Children (ks[nat c := int j'])]\<rparr>"
    have st1: "shorten_loop h text i (int j) False os = shorten_loop h text (i + 1) (int j') True os1"
      unfolding step e os1_def using j0 short_ids [OF sh] by simp
    show ?thesis
    proof (cases "i + 1 < 40")
      case False
      then have "\<not> i + 1 < GIT_OID_HEXSZ" "i + 1 = 40" using i by (simp_all add: GIT_OID_HEXSZ_def)
      then have "shorten_loop h text (i + 1) (int j') True os1 = Some (Inr 40, os1)"
        by (subst shorten_loop.simps) simp
      then show ?thesis unfolding st1 by (simp add: os1_def)
    next
      case i1: True
      obtain os2 d where os2: "split_leaf h os1 (int j') = Some (True, os2)" "good os2 (M(p @ [c, d] \<mapsto> os_node_count os)) S"
        "os_node_count os2 = os_node_count os + 1" "os_min_length os2 = os_min_length os" "\<not> is_tail (os_nodes os2 ! j')"
        using split_leaf_ok [OF g h rm Mp' ks Some Tail] i1 lp unfolding os1_def by auto
      moreover have "git__fromhex (hd0 (drop (i + 1) text)) \<noteq> -1"
        using digits_nth [OF i1 lt] kd lk i1 by (metis nth_mem not_one_le_zero neg_0_le_iff_le)
      ultimately have st: "shorten_loop h text i (int j) False os = shorten_loop h text (i + 1) (int j') False os2"
        using loop_split [OF i1] st1 by simp
      have "(M(p @ [c, d] \<mapsto> os_node_count os)) (take (i + 1) k) = Some j'" unfolding pc [symmetric] using Some by simp
      moreover have "40 - (i + 1) < 40 - i" "os_node_count os2 + (40 - (i + 1)) < SHRT_MAX" using i room os2(3) by simp_all
      ultimately show ?thesis unfolding st using less.hyps [OF _ os2(2) h _ os2(5) i1 kS lt kd] os2(4) by auto
    qed
  qed
qed

lemma duplicate_add:
  assumes "good os M S" "\<forall>n. snd h n" "hex_id t" "key t \<in> S" "os_node_count os + 40 < SHRT_MAX" "\<not> os_full os" "os_min_length os \<le> 41"
  shows "\<exists>os'. git_oid_shorten_add h os (Some t) = Some (41, os')"
proof -
  have r: "M (take 0 (key t)) = Some 0" "\<not> is_tail (os_nodes os ! 0)" using good_root [OF assms(1)] by simp_all
  have l: "40 \<le> length t" "key t = digits 40 t" using assms(3) by (simp_all add: hex_id_def key_def)
  have z: "0 < (40 :: nat)" and room: "os_node_count os + (40 - 0) < SHRT_MAX" using assms(5) by simp_all
  show ?thesis using duplicate_loop [OF assms(1,2) r z assms(4) l room] assms(6,7) by (auto simp: git_oid_shorten_add_def Let_def)
qed

lemma duplicate_41:
  assumes "\<forall>n. snd h n" "hex_id t"
  shows "\<exists>os os1 os2 n. git_oid_shorten_new h 0 = Some (Some os) \<and> git_oid_shorten_add h os (Some t) = Some (n, os1) \<and>
    git_oid_shorten_add h os1 (Some t) = Some (41, os2)"
proof -
  have z: "(0 :: nat) < 2 ^ 31" by simp
  obtain os where os: "git_oid_shorten_new h 0 = Some (Some os)" "good os [[] \<mapsto> 0] {}" "os_node_count os = 1" "os_min_length os = int 0" "\<not> os_full os"
    using shorten_new_ok [OF assms(1) z] by blast
  have c: "covered [[] \<mapsto> 0] {}" "os_node_count os + 40 < SHRT_MAX" using os(3) by (simp_all add: covered_def SHRT_MAX_def)
  obtain os1 M i where a: "git_oid_shorten_add h os (Some t) = Some (os_min_length os1, os1)" "good os1 M (insert (key t) {})"
    "os_node_count os1 \<le> os_node_count os + 40" "\<not> os_full os1" "os_min_length os1 = max (os_min_length os) (int (i + 1))" "i < 40"
    using shorten_add_ok [OF os(2) c(1) assms _ c(2) os(5)] by blast
  have "os_node_count os1 + 40 < SHRT_MAX" "os_min_length os1 \<le> 41" using a os by (simp_all add: SHRT_MAX_def)
  then show ?thesis using duplicate_add [OF a(2) assms(1,2) _ _ a(4)] os(1) a(1) by blast
qed

section \<open>Properties\<close>

text \<open>C27: git\_oid\_shorten\_add computes the shortest unambiguous abbreviation.  After any sequence of up to 800
  different ids the length it reports is at least the requested minimum, prefixes of that length
  tell the ids apart, and it is the least such length from the minimum and 1 on.  Every access to the trie is
  inside of the array, which grows as needed.\<close>

theorem shorten_unique:
  assumes "\<forall>n. snd h n" "m < 2 ^ 31" "list_all hex_id ts" "distinct (map key ts)" "length ts \<le> 800"
  shows "\<exists>os os' n. git_oid_shorten_new h m = Some (Some os) \<and> shorten_all h os ts = Some (int n, os') \<and> m \<le> n \<and>
    distinct (map (\<lambda>t. take n (key t)) ts) \<and> (n = m \<or> n = 1 \<or> \<not> distinct (map (\<lambda>t. take (n - 1) (key t)) ts))"
proof -
  have s: "distinct (map (\<lambda>t. take n (key t)) ts) = separates n (set (map key ts))" for n
  proof -
    have "distinct (map (take n) (map key ts)) = separates n (set (map key ts))"
      using assms(4) unfolding distinct_map [of "take n"] separates_def inj_on_def by blast
    then show ?thesis by (simp add: comp_def)
  qed
  obtain os where os: "git_oid_shorten_new h m = Some (Some os)" "good os [[] \<mapsto> 0] {}" "os_node_count os = 1" "os_min_length os = int m" "\<not> os_full os"
    using shorten_new_ok [OF assms(1,2)] by blast
  have "covered [[] \<mapsto> 0] {}" "os_node_count os + 40 * length ts < SHRT_MAX" "separates m {}"
    using os(3) assms(5) by (simp_all add: covered_def SHRT_MAX_def separates_def)
  then obtain os' n where "shorten_all h os ts = Some (int n, os')" "separates n (set (map key ts))" "m \<le> n"
    "n = m \<or> n = 1 \<or> \<not> separates (n - 1) (set (map key ts))"
    using shorten_all_ok [OF os(2) _ assms(1,3,4) _ _ os(5,4), of m] by auto
  then show ?thesis using os(1) by (auto simp: s)
qed

theorem shorten_unique_witness:
  "\<exists>os os' n. git_oid_shorten_new (\<lambda>_. zero_node, \<lambda>_. True) 1 = Some (Some os) \<and>
     shorten_all (\<lambda>_. zero_node, \<lambda>_. True) os [replicate 40 49, 49 # replicate 39 50] = Some (int n, os') \<and> 2 \<le> n"
proof -
  have f: "git__fromhex 49 = 1" "git__fromhex 50 = 2" by code_simp+
  have k: "key (replicate 40 49) = replicate 40 1" "key (49 # replicate 39 50) = 1 # replicate 39 2"
    by (simp_all add: key_def digits_def f)
  have "list_all hex_id [replicate 40 49, 49 # replicate 39 50]" by (simp add: hex_id_def list_all_iff f)
  moreover have ne: "replicate 40 1 \<noteq> 1 # replicate 39 (2 :: int)" by (simp add: numeral_eq_Suc)
  then have "distinct (map key [replicate 40 49, 49 # replicate 39 50])" by (simp add: k)
  ultimately obtain os os' n where n: "git_oid_shorten_new (\<lambda>_. zero_node, \<lambda>_. True) 1 = Some (Some os)"
    "shorten_all (\<lambda>_. zero_node, \<lambda>_. True) os [replicate 40 49, 49 # replicate 39 50] = Some (int n, os')" "1 \<le> n"
    "distinct (map (\<lambda>t. take n (key t)) [replicate 40 49, 49 # replicate 39 50])"
    using shorten_unique [of "(\<lambda>_. zero_node, \<lambda>_. True)" 1 "[replicate 40 49, 49 # replicate 39 50]"] by auto
  have "n \<noteq> 1" using n(4) by (auto simp: k)
  then show ?thesis using n by (intro exI [of _ os] exI [of _ os'] exI [of _ n]) simp
qed

text \<open>Outside of these conditions the shortener fails.  An id that is added twice makes it report 41 digits of
  an id that has 40.  A digit that is not hexadecimal is only noticed when a later id shares what precedes it; then
  it becomes the index -1 of a child.  And an addition that is refused leaves a leaf that the next one
  takes for an inner node.\<close>

theorem shorten_misuse:
  "(\<exists>os os1 os2 n. git_oid_shorten_new (\<lambda>_. zero_node, \<lambda>_. True) 0 = Some (Some os) \<and>
     git_oid_shorten_add (\<lambda>_. zero_node, \<lambda>_. True) os (Some (replicate 40 97)) = Some (n, os1) \<and>
     git_oid_shorten_add (\<lambda>_. zero_node, \<lambda>_. True) os1 (Some (replicate 40 97)) = Some (41, os2)) \<and>
   (\<exists>os os'. git_oid_shorten_new (\<lambda>_. zero_node, \<lambda>_. True) 0 = Some (Some os) \<and>
     shorten_all (\<lambda>_. zero_node, \<lambda>_. True) os [[97, 103], [97, 98]] = None) \<and>
   (\<exists>os os1 os2. git_oid_shorten_new (\<lambda>_. zero_node, \<lambda>_. True) 0 = Some (Some os) \<and>
     git_oid_shorten_add (\<lambda>_. zero_node, \<lambda>_. True) os (Some [97, 98]) = Some (1, os1) \<and>
     git_oid_shorten_add (\<lambda>_. zero_node, \<lambda>_. True) os1 (Some [97]) = Some (-1, os2) \<and>
     git_oid_shorten_add (\<lambda>_. zero_node, \<lambda>_. True) os2 (Some [97, 99]) = None)"
proof -
  let ?h = "(\<lambda>_. zero_node, \<lambda>_. True) :: trie_heap"
  have f: "git__fromhex 97 = 10" "git__fromhex 98 = 11" "git__fromhex 99 = 12" "git__fromhex 103 = -1" "git__fromhex 0 = -1"
    by code_simp+
  let ?os = "\<lparr>os_nodes = replicate 16 zero_node, os_node_count = 1, os_size = 16, os_min_length = 0, os_full = False\<rparr>"
  have n: "git_oid_shorten_new ?h 0 = Some (Some ?os)" by (simp add: git_oid_shorten_new_def resize_trie_def to_int_def Let_def)
  have r: "replicate 16 zero_node = [zero_node, zero_node] @ replicate 14 zero_node" "replicate 16 (0::int) = replicate 10 0 @ [0] @ replicate 5 0"
    by (simp_all add: replicate_add [symmetric] numeral_eq_Suc)
  let ?os1 = "\<lambda>t. \<lparr>os_nodes = (replicate 16 zero_node)[0 := Children ((replicate 16 0)[10 := -1]), 1 := Tail t], os_node_count = 2, os_size = 16, os_min_length = 1, os_full = False\<rparr>"
  have a1: "git_oid_shorten_add ?h ?os (Some (97 # t)) = Some (1, ?os1 t)" for t
    by (simp add: git_oid_shorten_add_def, subst shorten_loop.simps)
      (simp add: GIT_OID_HEXSZ_def hd0_def f children_at_def rdi_def rd_def zero_node_def push_leaf_def to_short_def SHRT_MAX_def set_child_def wri_def wr_def Let_def)
  let ?os2 = "\<lambda>t. \<lparr>os_nodes = (replicate 16 zero_node)[0 := Children ((replicate 16 0)[10 := 1]), 1 := Tail t], os_node_count = 2, os_size = 16, os_min_length = 1, os_full = False\<rparr>"
  have st: "shorten_loop ?h (97 # t') 0 0 False (?os1 t) = shorten_loop ?h (97 # t') 1 1 True (?os2 t)" for t t'
    by (subst shorten_loop.simps)
      (simp add: GIT_OID_HEXSZ_def hd0_def f children_at_def rdi_def rd_def zero_node_def to_short_def set_child_def wri_def wr_def Let_def list_update_swap)
  have b: "git_oid_shorten_add ?h (?os1 [103]) (Some [97, 98]) = None"
    unfolding git_oid_shorten_add_def option.case st
    by (subst shorten_loop.simps)
      (simp add: GIT_OID_HEXSZ_def hd0_def f split_leaf_def rdi_def rd_def zero_node_def push_leaf_def to_short_def SHRT_MAX_def set_child_def children_at_def wri_def wr_def Let_def)
  have c: "git_oid_shorten_add ?h (?os1 [98]) (Some [97]) = Some (-1, ?os2 [98])"
    unfolding git_oid_shorten_add_def option.case st
    by (subst shorten_loop.simps) (simp add: GIT_OID_HEXSZ_def hd0_def f)
  have d: "git_oid_shorten_add ?h (?os2 [98]) (Some [97, 99]) = None"
    unfolding git_oid_shorten_add_def option.case
    by (simp, subst shorten_loop.simps, simp add: GIT_OID_HEXSZ_def hd0_def f children_at_def rdi_def rd_def zero_node_def Let_def,
      subst shorten_loop.simps, simp add: GIT_OID_HEXSZ_def hd0_def f children_at_def rdi_def rd_def zero_node_def Let_def)
  have "hex_id (replicate 40 97)" by (simp add: hex_id_def list_all_iff f)
  then have "\<exists>os os1 os2 n. git_oid_shorten_new ?h 0 = Some (Some os) \<and> git_oid_shorten_add ?h os (Some (replicate 40 97)) = Some (n, os1) \<and>
    git_oid_shorten_add ?h os1 (Some (replicate 40 97)) = Some (41, os2)" by (intro duplicate_41) simp
  then show ?thesis using n a1 [of "[103]"] a1 [of "[98]"] b c d by auto
qed

end
