(* ===== verification/Message.thy ===== *)
theory Message
  imports BufText
begin

text \<open>
  Cleaning up messages, todo-later/libgit2/src/message.c.  The message is the list of its bytes before
  the NUL; the position in it is the rest of the list.
\<close>

text \<open>The characters are unsigned here.\<close>

primrec line_length_without_trailing_spaces :: "byte list \<Rightarrow> nat \<Rightarrow> nat option" where
  "line_length_without_trailing_spaces line 0 = Some 0"
| "line_length_without_trailing_spaces line (Suc len) = do {
     c \<leftarrow> rd line len;
     (if \<not> git__isspace (uint c) then Some (Suc len) else line_length_without_trailing_spaces line len) }"

definition line_length :: "byte list \<Rightarrow> nat" where
  "line_length rest = (if 10 \<in> set rest then length (takeWhile (\<lambda>c. c \<noteq> 10) rest) + 1 else length rest)"

lemma line_length_pos: "rest \<noteq> [] \<Longrightarrow> 0 < line_length rest"
  by (simp add: line_length_def)

text \<open>The results of the writes are ignored; empties is consecutive\_empty\_lines.\<close>

function prettify_loop :: "heap \<Rightarrow> bool \<Rightarrow> byte list \<Rightarrow> int \<Rightarrow> git_buf \<Rightarrow> git_buf option" where
  "prettify_loop h strip_comments rest empties out =
     (if rest = [] then Some out
      else
        let len = line_length rest in
        if strip_comments \<and> hd rest = 35 then prettify_loop h strip_comments (drop len rest) empties out
        else
          Option.bind (line_length_without_trailing_spaces rest len) (\<lambda>rtrimmed.
          if rtrimmed = 0 then
            Option.bind (int_incr empties) (\<lambda>empties1. prettify_loop h strip_comments (drop len rest) empties1 out)
          else
            Option.bind (if 0 < empties \<and> 0 < b_size out then map_option snd (git_buf_putc h out 10) else Some out) (\<lambda>out1.
            Option.bind (git_buf_put h out1 (Bytes rest) rtrimmed) (\<lambda>(_, out2).
            Option.bind (git_buf_putc h out2 10) (\<lambda>(_, out3).
            prettify_loop h strip_comments (drop len rest) 0 out3)))))"
  by pat_completeness auto
termination prettify_loop
  by (relation "measure (\<lambda>(_, _, rest, _). length rest)") (auto simp: line_length_pos)

declare prettify_loop.simps [simp del]

definition git_message__prettify :: "heap \<Rightarrow> git_buf \<Rightarrow> byte list \<Rightarrow> bool \<Rightarrow> (int \<times> git_buf) option" where
  "git_message__prettify h message_out message strip_comments = do {
     out \<leftarrow> prettify_loop h strip_comments message 0 message_out;
     Some (if git_buf_oom out then -1 else 0, out) }"

definition as_int :: "int \<Rightarrow> int" where
  "as_int v = (v + 2 ^ 31) mod 2 ^ 32 - 2 ^ 31"

text \<open>message\_out is the array of the caller, None for NULL; the result is the returned length and the array.\<close>

definition git_message_prettify :: "heap \<Rightarrow> byte list option \<Rightarrow> nat \<Rightarrow> byte list \<Rightarrow> bool \<Rightarrow> (int \<times> byte list option) option" where
  "git_message_prettify h message_out buffer_size message strip_comments = do {
     message_out \<leftarrow> (case message_out of
        Some m \<Rightarrow> (if buffer_size \<noteq> 0 then map_option Some (wr m 0 0) else Some (Some m))
      | None \<Rightarrow> Some None);
     (rc, buf) \<leftarrow> git_message__prettify h GIT_BUF_INIT message strip_comments;
     (out_size, message_out) \<leftarrow>
       (if rc < 0 then Some (-1, message_out)
        else case message_out of
          None \<Rightarrow> Some (int (b_size buf) + 1, None)
        | Some m \<Rightarrow>
            if buffer_size < szw (b_size buf + 1) then Some (-1, Some m)
            else do {
              m \<leftarrow> git_buf_copy_cstr m buffer_size buf;
              Some (int (b_size buf) + 1, Some m) });
     _ \<leftarrow> git_buf_free h buf;
     Some (as_int out_size, message_out) }"

end
