(* ===== verification/MessageProps.thy ===== *)
theory MessageProps
  imports Message BufTextProps
begin

text \<open>
  What a cleaned message is, that git\_message\_\_prettify produces it, and that it leaves a clean message alone.
\<close>

section \<open>What a cleaned message is\<close>

definition uspace :: "byte \<Rightarrow> bool" where
  "uspace c = git__isspace (uint c)"

definition rtrim_line :: "byte list \<Rightarrow> byte list" where
  "rtrim_line l = rev (dropWhile uspace (rev l))"

function msg_lines :: "byte list \<Rightarrow> byte list list" where
  "msg_lines m = (if m = [] then [] else takeWhile (\<lambda>c. c \<noteq> 10) m # msg_lines (drop (line_length m) m))"
  by pat_completeness auto
termination msg_lines
  by (relation "measure length") (auto simp: line_length_pos)

declare msg_lines.simps [simp del]

definition unlines :: "byte list list \<Rightarrow> byte list" where
  "unlines ls = concat (map (\<lambda>l. l @ [10]) ls)"

text \<open>Runs of empty lines become one empty line, at the beginning and at the end none.  The first argument says that
  something has been written, the second that empty lines wait.\<close>

primrec tidy :: "bool \<Rightarrow> bool \<Rightarrow> byte list list \<Rightarrow> byte list list" where
  "tidy started pending [] = []"
| "tidy started pending (l # ls) =
     (if l = [] then tidy started True ls
      else (if started \<and> pending then [[], l] else [l]) @ tidy True False ls)"

definition message_lines :: "bool \<Rightarrow> byte list \<Rightarrow> byte list list" where
  "message_lines strip m = map rtrim_line (filter (\<lambda>l. \<not> (strip \<and> l \<noteq> [] \<and> hd l = 35)) (msg_lines m))"

section \<open>The loop\<close>

lemma rtrim_len: "n \<le> length s \<Longrightarrow> line_length_without_trailing_spaces s n = Some (length (rtrim_line (take n s)))"
proof (induction n)
  case (Suc n)
  then have "take (Suc n) s = take n s @ [s ! n]" by (simp add: take_Suc_conv_app_nth)
  then show ?case using Suc by (auto simp: rtrim_line_def uspace_def)
qed (simp add: rtrim_line_def)

lemma take_rtrim: "take (length (rtrim_line l)) l = rtrim_line l"
proof -
  obtain r where "rev l = r @ dropWhile uspace (rev l)" by (metis takeWhile_dropWhile_id)
  then have "l = rtrim_line l @ rev r" unfolding rtrim_line_def by (metis rev_append rev_rev_ident)
  then show ?thesis by (metis append_eq_conv_conj)
qed

text \<open>The line end is a space itself.\<close>

lemma rtrim_newline: "rtrim_line (l @ [10]) = rtrim_line l"
  by (simp add: rtrim_line_def uspace_def git__isspace_def)

lemma split_line:
  assumes "10 \<in> set m"
  obtains a r where "m = a @ 10 # r" "10 \<notin> set a" "takeWhile (\<lambda>c. c \<noteq> 10) m = a" "line_length m = length a + 1"
proof -
  obtain a r where e: "m = a @ 10 # r" "10 \<notin> set a" using split_list_first [OF assms] by blast
  then have "takeWhile (\<lambda>c. c \<noteq> 10) m = a" by (induction a arbitrary: m) auto
  then show ?thesis using that [OF e] e by (simp add: line_length_def)
qed

lemma take_line: "take (line_length m) m = takeWhile (\<lambda>c. c \<noteq> 10) m @ (if 10 \<in> set m then [10] else [])"
proof (cases "10 \<in> set m")
  case True
  then show ?thesis by (rule split_line) simp
next
  case False
  then have w: "takeWhile (\<lambda>c. c \<noteq> 10) m = m" by (intro takeWhile_eq_all_conv [THEN iffD2]) blast
  show ?thesis unfolding w line_length_def using False by simp
qed

lemma line_length_le: "line_length m \<le> length m"
proof (cases "10 \<in> set m")
  case True
  then show ?thesis by (rule split_line) simp
qed (simp add: line_length_def)

lemma rtrim_take_line: "rtrim_line (take (line_length m) m) = rtrim_line (takeWhile (\<lambda>c. c \<noteq> 10) m)"
  by (simp add: take_line rtrim_newline)

lemma hd_line: "m \<noteq> [] \<Longrightarrow> c \<noteq> 10 \<Longrightarrow> hd m = c \<longleftrightarrow> takeWhile (\<lambda>c. c \<noteq> 10) m \<noteq> [] \<and> hd (takeWhile (\<lambda>c. c \<noteq> 10) m) = (c :: byte)"
  by (cases m) auto

lemma put_part_yields:
  assumes "buf_mem b" "n \<le> length bs" "b_size b + n + 1 < 2 ^ 61"
  shows "yields h (git_buf_put h b (Bytes bs) n) (content b @ take n bs)"
proof -
  have "git_buf_put h b (Bytes bs) n = git_buf_put h b (Bytes (take n bs)) (length (take n bs))"
  proof -
    have "arg_read b b' (Bytes bs) n = arg_read b b' (Bytes (take n bs)) n" for b' using assms(2) by (simp add: arg_read_def rd_blk_def)
    moreover have "length (take n bs) = n" using assms(2) by simp
    ultimately show ?thesis unfolding git_buf_put_def by presburger
  qed
  then show ?thesis using put_yields [OF assms(1), of "take n bs" h] assms by simp
qed

lemma prettify_loop_ok:
  "buf_ok b \<Longrightarrow> \<forall>n. snd h n \<Longrightarrow> 0 \<le> e \<Longrightarrow> e + int (length m) < 2 ^ 31 \<Longrightarrow> b_size b + 3 * length m + 4 < 2 ^ 60 \<Longrightarrow>
   \<exists>b'. prettify_loop h strip m e b = Some b' \<and> buf_ok b' \<and>
     content b' = content b @ unlines (tidy (content b \<noteq> []) (0 < e) (message_lines strip m))"
proof (induction "length m" arbitrary: m e b rule: less_induct)
  case less
  show ?case
  proof (cases "m = []")
    case True
    then show ?thesis using less.prems by (simp add: prettify_loop.simps message_lines_def msg_lines.simps unlines_def)
  next
    case ne: False
    define n where "n = line_length m"
    define l where "l = takeWhile (\<lambda>c. c \<noteq> 10) m"
    have n: "n \<le> length m" "0 < n" using line_length_le line_length_pos [OF ne] by (simp_all add: n_def)
    have ml: "msg_lines m = l # msg_lines (drop n m)" using ne by (subst msg_lines.simps) (simp add: n_def l_def)
    have short: "length (drop n m) < length m" "int (length (drop n m)) + 1 \<le> int (length m)" using n by auto
    show ?thesis
    proof (cases "strip \<and> hd m = 35")
      case True
      then have "message_lines strip m = message_lines strip (drop n m)"
        using hd_line [OF ne, of 35] by (simp add: message_lines_def ml l_def)
      moreover have "prettify_loop h strip m e b = prettify_loop h strip (drop n m) e b"
        using ne True by (subst prettify_loop.simps) (simp add: n_def)
      ultimately show ?thesis using less.hyps [OF short(1) less.prems(1,2,3)] less.prems(4,5) by simp
    next
      case False
      then have ms: "message_lines strip m = rtrim_line l # message_lines strip (drop n m)"
        using hd_line [OF ne, of 35] by (auto simp: message_lines_def ml l_def)
      have r: "line_length_without_trailing_spaces m n = Some (length (rtrim_line l))"
        using rtrim_len [OF n(1)] rtrim_take_line [of m] by (simp add: n_def l_def)
      show ?thesis
      proof (cases "rtrim_line l = []")
        case True
        have "prettify_loop h strip m e b = prettify_loop h strip (drop n m) (e + 1) b"
          using ne False True r less.prems(4) n
          by (subst prettify_loop.simps) (auto simp: n_def [symmetric] int_incr_def)
        then show ?thesis using less.hyps [OF short(1) less.prems(1,2), of "e + 1"] less.prems(3,4,5) short(2) ms True by simp
      next
        case full: False
        have rt: "rtrim_line (take n m) = rtrim_line l" using rtrim_take_line [of m] by (simp only: n_def l_def)
        have "take (length (rtrim_line l)) (take n m) = rtrim_line l" using take_rtrim [of "take n m"] by (simp only: rt)
        moreover have lr: "length (rtrim_line l) \<le> n"
          using arg_cong [OF calculation, of length] by simp
        ultimately have tk: "take (length (rtrim_line l)) m = rtrim_line l" by (simp only: take_take min_absorb1 [OF lr])
        let ?gap = "if content b \<noteq> [] \<and> 0 < e then [10] else []"
        have cz: "0 < b_size b \<longleftrightarrow> content b \<noteq> []" using length_content [OF buf_ok_mem [OF less.prems(1)]] by (metis length_greater_0_conv)
        have "\<exists>b1. (if 0 < e \<and> 0 < b_size b then map_option snd (git_buf_putc h b 10) else Some b) = Some b1 \<and> buf_ok b1 \<and> content b1 = content b @ ?gap"
        proof (cases "0 < e \<and> 0 < b_size b")
          case True
          have "b_size b + 2 < 2 ^ 61" using less.prems(5) by simp
          then obtain b1 where "git_buf_putc h b 10 = Some (0, b1)" "buf_ok b1" "content b1 = content b @ [10]"
            using yields_ok [OF putc_yields [OF buf_ok_mem [OF less.prems(1)], of h 10] less.prems(2)] by blast
          then show ?thesis using True cz by (simp only: if_True simp_thms) simp
        next
          case False
          then show ?thesis using less.prems(1) cz by (simp only: if_False simp_thms) auto
        qed
        then obtain b1 where b1: "(if 0 < e \<and> 0 < b_size b then map_option snd (git_buf_putc h b 10) else Some b) = Some b1" "buf_ok b1" "content b1 = content b @ ?gap" by blast
        have s1: "b_size b1 \<le> b_size b + 1"
          using arg_cong [OF b1(3), of length] length_content [OF buf_ok_mem [OF b1(2)]] length_content [OF buf_ok_mem [OF less.prems(1)]] by simp
        obtain b2 where b2: "git_buf_put h b1 (Bytes m) (length (rtrim_line l)) = Some (0, b2)" "buf_ok b2" "content b2 = content b1 @ rtrim_line l"
          using yields_ok [OF put_part_yields [OF buf_ok_mem [OF b1(2)], of "length (rtrim_line l)" m h] less.prems(2)] lr n s1 less.prems(5) tk by auto
        have s2: "b_size b2 = b_size b1 + length (rtrim_line l)"
          using arg_cong [OF b2(3), of length] length_content [OF buf_ok_mem [OF b2(2)]] length_content [OF buf_ok_mem [OF b1(2)]] by simp
        obtain b3 where b3: "git_buf_putc h b2 10 = Some (0, b3)" "buf_ok b3" "content b3 = content b2 @ [10]"
          using yields_ok [OF putc_yields [OF buf_ok_mem [OF b2(2)], of h 10] less.prems(2)] lr n s1 s2 less.prems(5) by auto
        have s3: "b_size b3 = b_size b2 + 1"
          using arg_cong [OF b3(3), of length] length_content [OF buf_ok_mem [OF b3(2)]] length_content [OF buf_ok_mem [OF b2(2)]] by simp
        have step: "prettify_loop h strip m e b = prettify_loop h strip (drop n m) 0 b3"
        proof -
          have c: "(m = []) = False" "(strip \<and> hd m = 35) = False" "(length (rtrim_line l) = 0) = False" using ne False full by auto
          show ?thesis
            by (subst prettify_loop.simps)
              (simp only: c if_False Let_def n_def [symmetric] r bind.bind_lunit b1(1) b2(1) b3(1) prod.case)
        qed
        have sz: "b_size b3 + 3 * length (drop n m) + 4 < 2 ^ 60" using s1 s2 s3 lr n less.prems(5) by simp
        have e0: "(0 :: int) + int (length (drop n m)) < 2 ^ 31" using less.prems(3,4) short(2) by simp
        have ne3: "content b3 \<noteq> []" using b3(3) by simp
        obtain b' where "prettify_loop h strip (drop n m) 0 b3 = Some b'" "buf_ok b'"
          "content b' = content b3 @ unlines (tidy True False (message_lines strip (drop n m)))"
          using less.hyps [OF short(1) b3(2) less.prems(2) order_refl e0 sz] ne3 by auto
        then show ?thesis
          unfolding step ms using full b3(3) b2(3) b1(3) by (auto simp: unlines_def)
      qed
    qed
  qed
qed

section \<open>Properties\<close>

fun no_double :: "byte list list \<Rightarrow> bool" where
  "no_double (a # b # ls) = ((a \<noteq> [] \<or> b \<noteq> []) \<and> no_double (b # ls))"
| "no_double ls = True"

definition clean :: "bool \<Rightarrow> byte list list \<Rightarrow> bool" where
  "clean strip ls \<longleftrightarrow> list_all (\<lambda>l. 10 \<notin> set l \<and> rtrim_line l = l \<and> \<not> (strip \<and> l \<noteq> [] \<and> hd l = 35)) ls \<and>
     no_double ls \<and> (ls \<noteq> [] \<longrightarrow> hd ls \<noteq> [] \<and> last ls \<noteq> [])"

lemma msg_lines_unlines: "list_all (\<lambda>l. 10 \<notin> set l) ls \<Longrightarrow> msg_lines (unlines ls) = ls"
proof (induction ls)
  case Nil
  then show ?case by (simp add: unlines_def msg_lines.simps)
next
  case (Cons l ls)
  have u: "unlines (l # ls) = l @ 10 # unlines ls" by (simp add: unlines_def)
  have t: "takeWhile (\<lambda>c. c \<noteq> 10) (l @ 10 # unlines ls) = l" using Cons.prems by (induction l) auto
  have "drop (line_length (l @ 10 # unlines ls)) (l @ 10 # unlines ls) = unlines ls" unfolding line_length_def t by simp
  then show ?case unfolding u using Cons t by (subst msg_lines.simps) simp
qed

lemma msg_lines_no_newline: "list_all (\<lambda>l. 10 \<notin> set l) (msg_lines m)"
proof (induction m rule: msg_lines.induct)
  case (1 m)
  then show ?case by (subst msg_lines.simps) (auto dest: set_takeWhileD)
qed

lemma rtrim_idem: "rtrim_line (rtrim_line l) = rtrim_line l"
  by (simp add: rtrim_line_def dropWhile_idem)

lemma rtrim_hd: "rtrim_line l \<noteq> [] \<Longrightarrow> hd (rtrim_line l) = hd l"
  using take_rtrim [of l] by (metis hd_take length_greater_0_conv)

lemma set_rtrim: "set (rtrim_line l) \<subseteq> set l"
  using set_dropWhileD by (fastforce simp: rtrim_line_def)

lemma tidy_set: "set (tidy st p ls) \<subseteq> insert [] (set ls)"
  by (induction ls arbitrary: st p) auto

lemma no_double_Cons: "x \<noteq> [] \<Longrightarrow> no_double (x # ls) = no_double ls"
  by (cases ls) auto

lemma tidy_no_double: "no_double (tidy st p ls)"
  by (induction ls arbitrary: st p) (auto simp: no_double_Cons)

lemma tidy_ends: "tidy st p ls \<noteq> [] \<Longrightarrow> last (tidy st p ls) \<noteq> [] \<and> (\<not> st \<longrightarrow> hd (tidy st p ls) \<noteq> [])"
proof (induction ls arbitrary: st p)
  case (Cons l ls)
  then show ?case by (cases "tidy True False ls = []") auto
qed simp

lemma clean_message: "clean strip (tidy False False (message_lines strip m))"
proof -
  have "10 \<notin> set l \<and> rtrim_line l = l \<and> \<not> (strip \<and> l \<noteq> [] \<and> hd l = 35)" if l: "l \<in> set (message_lines strip m)" for l
  proof -
    obtain l0 where l0: "l = rtrim_line l0" "l0 \<in> set (msg_lines m)" "\<not> (strip \<and> l0 \<noteq> [] \<and> hd l0 = 35)"
      using l by (auto simp: message_lines_def)
    have "10 \<notin> set l0" using msg_lines_no_newline [of m] l0(2) by (auto simp: list_all_iff)
    moreover have "l \<noteq> [] \<Longrightarrow> l0 \<noteq> [] \<and> hd l = hd l0" using rtrim_hd [of l0] l0(1) by (auto simp: rtrim_line_def)
    ultimately show ?thesis using l0 set_rtrim [of l0] rtrim_idem [of l0] by auto
  qed
  moreover have "10 \<notin> set ([] :: byte list) \<and> rtrim_line [] = []" by (simp add: rtrim_line_def)
  ultimately have "list_all (\<lambda>l. 10 \<notin> set l \<and> rtrim_line l = l \<and> \<not> (strip \<and> l \<noteq> [] \<and> hd l = 35)) (tidy False False (message_lines strip m))"
    using tidy_set [of False False "message_lines strip m"] unfolding list_all_iff by blast
  then show ?thesis using tidy_no_double tidy_ends unfolding clean_def by blast
qed

lemma tidy_same: "no_double ((if p then [] else [0]) # ls) \<Longrightarrow> ls \<noteq> [] \<longrightarrow> last ls \<noteq> [] \<Longrightarrow> tidy True p ls = (if p \<and> ls \<noteq> [] then [] # ls else ls)"
proof (induction ls arbitrary: p)
  case (Cons l ls)
  show ?case
  proof (cases "l = []")
    case True
    then have "\<not> p" "ls \<noteq> []" using Cons.prems by auto
    then show ?thesis using Cons.IH [of True] Cons.prems True by simp
  next
    case False
    then have "no_double ([0] # ls)" using Cons.prems(1) by (cases ls) auto
    then show ?thesis using Cons.IH [of False] Cons.prems(2) False by (cases "ls = []") auto
  qed
qed simp

lemma clean_fixed:
  assumes "clean strip ls"
  shows "tidy False False (message_lines strip (unlines ls)) = ls"
proof -
  have a: "\<forall>l \<in> set ls. 10 \<notin> set l \<and> rtrim_line l = l \<and> \<not> (strip \<and> l \<noteq> [] \<and> hd l = 35)" using assms by (simp add: clean_def list_all_iff)
  then have "msg_lines (unlines ls) = ls" by (intro msg_lines_unlines) (simp add: list_all_iff)
  moreover have "filter (\<lambda>l. \<not> (strip \<and> l \<noteq> [] \<and> hd l = 35)) ls = ls" using a by (intro filter_True) blast
  moreover have "map rtrim_line ls = ls" using a by (intro map_idI) blast
  ultimately have "message_lines strip (unlines ls) = ls" unfolding message_lines_def by simp
  moreover have "tidy False False ls = ls"
  proof (cases ls)
    case (Cons l ls')
    then have "l \<noteq> []" "no_double ([0] # ls')" "ls' \<noteq> [] \<longrightarrow> last ls' \<noteq> []" using assms
      by (auto simp: clean_def no_double_Cons)
    then show ?thesis using tidy_same [of False ls'] Cons by simp
  qed simp
  ultimately show ?thesis by simp
qed

lemma prettify_ok:
  assumes "\<forall>n. snd h n" "length m < 2 ^ 31"
  shows "\<exists>b. git_message__prettify h GIT_BUF_INIT m strip = Some (0, b) \<and> buf_ok b \<and> content b = unlines (tidy False False (message_lines strip m))"
proof -
  have "buf_ok GIT_BUF_INIT" "content GIT_BUF_INIT = []" "b_size GIT_BUF_INIT = 0" by (simp_all add: GIT_BUF_INIT_def buf_ok_def buf_mem_def content_def)
  then obtain b where b: "prettify_loop h strip m 0 GIT_BUF_INIT = Some b" "buf_ok b" "content b = unlines (tidy False False (message_lines strip m))"
    using prettify_loop_ok [of GIT_BUF_INIT h 0 m strip] assms by auto
  moreover have "\<not> git_buf_oom b" using b(2) by (auto simp: buf_ok_def buf_mem_def git_buf_oom_def split: buf_ptr.splits)
  ultimately show ?thesis by (simp add: git_message__prettify_def)
qed

lemma length_tidy: "length (unlines (tidy st p ls)) \<le> 2 * sum_list (map (\<lambda>l. length l + 1) ls)"
proof (induction ls arbitrary: st p)
  case (Cons l ls)
  show ?case using Cons [of st True] Cons [of True False] by (auto simp: unlines_def)
qed (simp add: unlines_def)

lemma length_msg_lines: "sum_list (map (\<lambda>l. length l + 1) (msg_lines m)) \<le> length m + 1"
proof (induction m rule: msg_lines.induct)
  case (1 m)
  show ?case
  proof (cases "10 \<in> set m")
    case True
    obtain a r where a: "m = a @ 10 # r" "takeWhile (\<lambda>c. c \<noteq> 10) m = a" "line_length m = length a + 1" using split_line [OF True] by metis
    then show ?thesis using 1 by (subst msg_lines.simps) auto
  next
    case False
    then have w: "takeWhile (\<lambda>c. c \<noteq> 10) m = m" "line_length m = length m" by (auto intro!: takeWhile_eq_all_conv [THEN iffD2] simp: line_length_def)
    show ?thesis by (subst msg_lines.simps) (simp add: w msg_lines.simps [of "[]"])
  qed
qed

lemma length_message: "length (unlines (tidy False False (message_lines strip m))) \<le> 2 * (length m + 1)"
proof -
  have "sum_list (map (\<lambda>l. length l + 1) (map rtrim_line (filter P ls))) \<le> sum_list (map (\<lambda>l. length l + 1) ls)" for P ls
  proof (induction ls)
    case (Cons l ls)
    then show ?case using length_dropWhile_le [of uspace "rev l"] by (simp add: rtrim_line_def)
  qed simp
  then have "sum_list (map (\<lambda>l. length l + 1) (message_lines strip m)) \<le> length m + 1"
    unfolding message_lines_def using length_msg_lines [of m] le_trans by blast
  then show ?thesis by (rule order_trans [OF length_tidy mult_le_mono2])
qed

text \<open>C29: git\_message\_\_prettify makes a message clean and leaves a clean one alone.  The result consists of lines
  that end in no white space, that do not start with a hash when comments are stripped, of which no two in a row are
  empty, and neither the first nor the last; they are the lines of the message, trimmed and without comments, with the
  runs of empty lines shortened.  Doing it again changes nothing.\<close>

theorem prettify_clean:
  assumes "\<forall>n. snd h n" "length m < 2 ^ 29"
  shows "\<exists>b ls. git_message__prettify h GIT_BUF_INIT m strip = Some (0, b) \<and> content b = unlines ls \<and> clean strip ls \<and>
    filter (\<lambda>l. l \<noteq> []) ls = filter (\<lambda>l. l \<noteq> []) (message_lines strip m) \<and>
    (\<exists>b2. git_message__prettify h GIT_BUF_INIT (content b) strip = Some (0, b2) \<and> content b2 = content b)"
proof -
  let ?ls = "tidy False False (message_lines strip m)"
  obtain b where b: "git_message__prettify h GIT_BUF_INIT m strip = Some (0, b)" "content b = unlines ?ls"
    using prettify_ok [OF assms(1), of m strip] assms(2) by auto
  have f: "filter (\<lambda>l. l \<noteq> []) (tidy st p xs) = filter (\<lambda>l. l \<noteq> []) xs" for st p xs by (induction xs arbitrary: st p) auto
  have "length (content b) < 2 ^ 31" using length_message [of strip m] assms(2) b(2) by simp
  then have "\<exists>b2. git_message__prettify h GIT_BUF_INIT (content b) strip = Some (0, b2) \<and> content b2 = content b"
    using prettify_ok [OF assms(1), of "content b" strip] clean_fixed [OF clean_message, of strip m] by (auto simp: b(2))
  then show ?thesis using b clean_message f by blast
qed

theorem prettify_clean_witness:
  "\<exists>b ls. git_message__prettify (\<lambda>_. 7, \<lambda>_. True) GIT_BUF_INIT [10, 97, 32, 10, 10, 10, 35, 98, 10, 99] True = Some (0, b) \<and>
     content b = unlines ls \<and> clean True ls \<and> filter (\<lambda>l. l \<noteq> []) ls = [[97], [99]]"
proof -
  have "message_lines True [10, 97, 32, 10, 10, 10, 35, 98, 10, 99] = [[], [97], [], [], [99]]" by code_simp
  then show ?thesis using prettify_clean [of "(\<lambda>_. 7, \<lambda>_. True)" "[10, 97, 32, 10, 10, 10, 35, 98, 10, 99]" True] by fastforce
qed

text \<open>The byte 85 counts as white space because the characters are unsigned: of a line that ends with the letter A with ring
  in UTF-8 (C3 85) only the first byte is left.\<close>

lemma prettify_breaks_utf8:
  "\<exists>b. git_message__prettify (\<lambda>_. 7, \<lambda>_. True) GIT_BUF_INIT [0xC3, 0x85, 10] False = Some (0, b) \<and> content b = [0xC3, 10]"
proof -
  have "unlines (tidy False False (message_lines False [0xC3, 0x85, 10])) = [0xC3, 10]" by code_simp
  then show ?thesis using prettify_ok [of "(\<lambda>_. 7, \<lambda>_. True)" "[0xC3, 0x85, 10]" False] by auto
qed

end
