(* ===== verification/Signature.thy ===== *)
theory Signature
  imports Buffer
begin

text \<open>
  Signatures of commits and tags, todo-later/libgit2/src/signature.c.  A char pointer of the structure is
  the C string it points to or None for NULL.  The text that is parsed ends with a NUL behind
  buffer\_end, up to which the number parser may run.
\<close>

record git_signature =
  sg_name :: "byte list option"
  sg_email :: "byte list option"
  sg_time :: "64 word"
  sg_offset :: int

definition zero_signature :: git_signature where
  "zero_signature = \<lparr>sg_name = None, sg_email = None, sg_time = 0, sg_offset = 0\<rparr>"

definition contains_angle_brackets :: "byte list \<Rightarrow> bool" where
  "contains_angle_brackets input = (60 \<in> set input \<or> 62 \<in> set input)"

text \<open>The string that the copy starts, up to its first NUL.  git\_\_substrdup does not check the allocation.\<close>

definition git__substrdup :: "alloc \<Rightarrow> byte list \<Rightarrow> nat \<Rightarrow> byte list option" where
  "git__substrdup ok start n = (if ok (n + 1) then map_option (takeWhile (\<lambda>c. c \<noteq> 0)) (rd_blk start 0 n) else None)"

text \<open>The len characters at ptr; the two loops move the ends.\<close>

definition extract_trimmed :: "alloc \<Rightarrow> byte list \<Rightarrow> byte list option" where
  "extract_trimmed ok s =
     (let s = dropWhile (\<lambda>c. git__isspace (schar c)) s;
          s = rev (dropWhile (\<lambda>c. git__isspace (schar c)) (rev s)) in
      git__substrdup ok s (length s))"

text \<open>The structure has 32 bytes.\<close>

definition git_signature_new ::
  "alloc \<Rightarrow> byte list \<Rightarrow> byte list \<Rightarrow> 64 word \<Rightarrow> int \<Rightarrow> (int \<times> git_signature option) option" where
  "git_signature_new ok name email time offset =
     (if contains_angle_brackets name \<or> contains_angle_brackets email then Some (-1, None)
      else if \<not> ok 32 then Some (-1, None)
      else do {
        p_name \<leftarrow> extract_trimmed ok name;
        p_email \<leftarrow> extract_trimmed ok email;
        (if p_name = [] then Some (-1, None)
         else Some (0, Some \<lparr>sg_name = Some p_name, sg_email = Some p_email, sg_time = time, sg_offset = offset\<rparr>)) })"

text \<open>strdup of a string, which must not be NULL; the result may be.\<close>

definition git__strdup :: "alloc \<Rightarrow> byte list option \<Rightarrow> byte list option option" where
  "git__strdup ok str = (case str of None \<Rightarrow> None | Some s \<Rightarrow> Some (if ok (length s + 1) then Some s else None))"

definition git_signature_dup :: "alloc \<Rightarrow> git_signature option \<Rightarrow> git_signature option option" where
  "git_signature_dup ok sig = (case sig of
       None \<Rightarrow> Some None
     | Some sig \<Rightarrow>
         if \<not> ok 32 then Some None
         else do {
           name \<leftarrow> git__strdup ok (sg_name sig);
           email \<leftarrow> git__strdup ok (sg_email sig);
           Some (Some \<lparr>sg_name = name, sg_email = email, sg_time = sg_time sig, sg_offset = sg_offset sig\<rparr>) })"

text \<open>Division of C, towards 0.\<close>

definition cdiv :: "int \<Rightarrow> int \<Rightarrow> int" where
  "cdiv a b = (if a < 0 then - (- a div b) else a div b)"

definition crem :: "int \<Rightarrow> int \<Rightarrow> int" where
  "crem a b = a - cdiv a b * b"

text \<open>now is the time, utc\_as\_local what mktime makes of its UTC fields.\<close>

definition git_signature_now :: "alloc \<Rightarrow> int \<Rightarrow> int \<Rightarrow> byte list \<Rightarrow> byte list \<Rightarrow> (int \<times> git_signature option) option" where
  "git_signature_now ok now utc_as_local name email =
     (let offset = cdiv (now - utc_as_local) 60;
          offset = (offset + 2 ^ 31) mod 2 ^ 32 - 2 ^ 31 in do {
        (rc, sig) \<leftarrow> git_signature_new ok name email (word_of_int now) offset;
        Some (if rc < 0 then (-1, None) else (0, sig)) })"

text \<open>The time zone at tz\_start.\<close>

definition parse_zone :: "git_signature \<Rightarrow> byte list \<Rightarrow> git_signature" where
  "parse_zone sig tz_start =
     (let offset = (if hd0 tz_start \<noteq> 45 \<and> hd0 tz_start \<noteq> 43 then 0
                    else case git__strtol32 (tl tz_start) 10 of
                      (rc, n, _) \<Rightarrow> (case n of Some w \<Rightarrow> if rc < 0 then 0 else sint w | None \<Rightarrow> 0));
          hours = cdiv offset 100; mins = crem offset 100 in
      if hours < 14 \<and> mins < 59 then
        let o1 = hours * 60 + mins in sig\<lparr>sg_offset := (if hd0 tz_start = 45 then - o1 else o1)\<rparr>
      else sig)"

text \<open>buffer is the text from *buffer\_out to buffer\_end; the result has what is left of it.\<close>

definition git_signature__parse ::
  "alloc \<Rightarrow> byte list \<Rightarrow> byte list option \<Rightarrow> byte \<Rightarrow> (int \<times> git_signature \<times> byte list) option" where
  "git_signature__parse ok buffer header ender =
     (let sig = zero_signature in
      if ender \<notin> set buffer then Some (-1, sig, buffer)
      else
        let line = takeWhile (\<lambda>c. c \<noteq> ender) buffer;
            header_len = (case header of None \<Rightarrow> 0 | Some h \<Rightarrow> length h) in
        if header \<noteq> None \<and> (length line \<le> header_len \<or> Some (take header_len buffer) \<noteq> header) then Some (-1, sig, buffer)
        else
          let line = drop header_len line in do {
            email_start \<leftarrow> git__memrchr line 60 (length line);
            email_end \<leftarrow> git__memrchr line 62 (length line);
            (case (email_start, email_end) of
               (Some s, Some e) \<Rightarrow>
                 if e \<le> s then Some (-1, sig, buffer)
                 else do {
                   name \<leftarrow> extract_trimmed ok (take s line);
                   email \<leftarrow> extract_trimmed ok (drop (s + 1) (take e line));
                   (let sig = sig\<lparr>sg_name := Some name, sg_email := Some email\<rparr>;
                        out = tl (dropWhile (\<lambda>c. c \<noteq> ender) buffer) in
                    if e + 2 < length line then
                      let time_start = drop (header_len + (e + 2)) buffer in
                      (case git__strtol64 time_start 10 of
                         (rc, time, time_end) \<Rightarrow>
                           let sig = (case time of Some t \<Rightarrow> sig\<lparr>sg_time := t\<rparr> | None \<Rightarrow> sig) in
                           if rc < 0 then Some (-1, sig, buffer)
                           else (case time_end of
                               None \<Rightarrow> None
                             | Some te \<Rightarrow>
                                 let pos = length buffer - length te - header_len in
                                 Some (0, if pos + 1 < length line then parse_zone sig (tl te) else sig, out)))
                    else Some (0, sig, out)) }
             | _ \<Rightarrow> Some (-1, sig, buffer)) })"

text \<open>The printed forms of printf's conversions u and 02d, the latter for a number that is not negative.\<close>

fun decimal :: "nat \<Rightarrow> byte list" where
  "decimal n = (if n < 10 then [word_of_nat (48 + n)] else decimal (n div 10) @ [word_of_nat (48 + n mod 10)])"

declare decimal.simps [simp del]

definition decimal02 :: "nat \<Rightarrow> byte list" where
  "decimal02 n = (if n < 10 then 48 # decimal n else decimal n)"

text \<open>The format has 24 characters; a NULL string is None.\<close>

definition git_signature__writebuf :: "heap \<Rightarrow> git_buf \<Rightarrow> byte list option \<Rightarrow> git_signature \<Rightarrow> git_buf option" where
  "git_signature__writebuf h buf header sig =
     (if sg_offset sig = - (2 ^ 31) then None
      else
        let offset = nat \<bar>sg_offset sig\<bar>; sign = (if sg_offset sig < 0 then 45 else 43);
            hours = offset div 60; mins = offset mod 60 in do {
          name \<leftarrow> sg_name sig;
          email \<leftarrow> sg_email sig;
          (_, buf) \<leftarrow> git_buf_printf h buf 24
            (Some ((case header of None \<Rightarrow> [] | Some s \<Rightarrow> s) @ name @ [32, 60] @ email @ [62, 32] @
                   decimal (unat (ucast (sg_time sig) :: 32 word)) @ [32, sign] @ decimal02 hours @ decimal02 mins @ [10]));
          Some buf })"

end
