(* ===== verification/SignatureProps.thy ===== *)
theory SignatureProps
  imports Signature BufferProps
begin

text \<open>
  Writing a signature and reading it back, from decimal numbers to the whole line.
\<close>

section \<open>Numbers as text\<close>

lemma digit_byte: "d < 10 \<Longrightarrow> schar (word_of_nat (48 + d)) = 48 + int d"
proof -
  assume "d < 10"
  then have "d \<in> {0, 1, 2, 3, 4, 5, 6, 7, 8, 9}" by auto
  then show ?thesis by (elim insertE) (simp_all add: schar_def)
qed

lemma digit_value_byte: "d < 10 \<Longrightarrow> digit_value 10 (schar (word_of_nat (48 + d))) = int d"
  unfolding digit_byte by (simp add: digit_value_def)

definition is_digit :: "byte \<Rightarrow> bool" where
  "is_digit c = (c \<in> {48, 49, 50, 51, 52, 53, 54, 55, 56, 57})"

lemma digit_is: "d < 10 \<Longrightarrow> is_digit (word_of_nat (48 + d))"
proof -
  assume "d < 10"
  then have "d \<in> {0, 1, 2, 3, 4, 5, 6, 7, 8, 9}" by auto
  then show ?thesis by (elim insertE) (simp_all add: is_digit_def)
qed

lemma is_digit_value: "is_digit c \<Longrightarrow> digit_value 10 (schar c) < 10"
  by (auto simp: is_digit_def digit_value_def schar_def)

lemma digits_value_append: "digits_value b (p @ q) n = digits_value b q (digits_value b p n)"
  by (simp add: digits_value_def)

lemma decimal_ok: "decimal n \<noteq> [] \<and> list_all is_digit (decimal n) \<and> digits_value 10 (decimal n) 0 = int n"
proof (induction n rule: decimal.induct)
  case (1 n)
  show ?case
  proof (cases "n < 10")
    case True
    then have "decimal n = [word_of_nat (48 + n)]" by (subst decimal.simps) simp
    then show ?thesis using digit_is [OF True] digit_value_byte [OF True] by (simp add: digits_value_def del: of_nat_add)
  next
    case False
    have m: "n mod 10 < 10" by simp
    have "digits_value 10 [word_of_nat (48 + n mod 10)] (int (n div 10)) = int (n div 10) * 10 + int (n mod 10)"
      using digit_value_byte [OF m] by (simp add: digits_value_def del: of_nat_add)
    also have "\<dots> = int n" by (metis div_mult_mod_eq of_nat_add of_nat_mult of_nat_numeral)
    finally have "digits_value 10 [word_of_nat (48 + n mod 10)] (int (n div 10)) = int n" .
    moreover have "decimal n = decimal (n div 10) @ [word_of_nat (48 + n mod 10)]" using False by (subst decimal.simps) simp
    ultimately show ?thesis using 1 False digit_is [OF m] by (simp add: digits_value_append del: of_nat_add)
  qed
qed

lemma decimal02_ok: "n < 100 \<Longrightarrow> length (decimal02 n) = 2 \<and> list_all is_digit (decimal02 n) \<and> digits_value 10 (decimal02 n) 0 = int n"
proof -
  assume n: "n < 100"
  have one: "length (decimal k) = 1" if "k < 10" for k using that by (subst decimal.simps) simp
  have "decimal n = decimal (n div 10) @ [word_of_nat (48 + n mod 10)]" if "\<not> n < 10" using that by (subst decimal.simps) simp
  then have "length (decimal n) = (if n < 10 then 1 else 2)" using n one [of n] one [of "n div 10"] by simp
  moreover have "digits_value 10 (48 # decimal n) 0 = digits_value 10 (decimal n) 0" by (simp add: digits_value_def digit_value_def schar_def)
  moreover have "is_digit 48" by (simp add: is_digit_def)
  ultimately show ?thesis using decimal_ok [of n] by (simp add: decimal02_def)
qed

lemma digits_value_start: "digits_value 10 q n = n * 10 ^ length q + digits_value 10 q 0"
proof (induction q arbitrary: n)
  case (Cons c q)
  show ?case using Cons [of "n * 10 + digit_value 10 (schar c)"] Cons [of "digit_value 10 (schar c)"]
    by (simp add: digits_value_def algebra_simps)
qed (simp add: digits_value_def)

lemma digits_plain: "list_all is_digit p \<Longrightarrow> 10 \<notin> set p \<and> 60 \<notin> set p \<and> 62 \<notin> set p"
  by (auto simp: list_all_iff is_digit_def)

section \<open>Trimming and searching\<close>

definition strim :: "byte list \<Rightarrow> byte list" where
  "strim s = rev (dropWhile (\<lambda>c. git__isspace (schar c)) (rev (dropWhile (\<lambda>c. git__isspace (schar c)) s)))"

lemma set_strim: "set (strim s) \<subseteq> set s"
  unfolding strim_def using set_dropWhileD by (metis set_rev subsetI)

lemma extract_trimmed_ok: "extract_trimmed ok s = Some (strim s)" if "\<forall>n. ok n" "0 \<notin> set s"
proof -
  have "takeWhile (\<lambda>c. c \<noteq> 0) (strim s) = strim s" using that(2) set_strim [of s] by (auto simp: takeWhile_eq_all_conv)
  then show ?thesis using that(1) by (simp add: extract_trimmed_def git__substrdup_def strim_def rd_blk_def Let_def)
qed

lemma strim_append: "strim (s @ r) = strim s" if "strim s = s" "s \<noteq> []" "list_all (\<lambda>c. git__isspace (schar c)) r"
proof -
  let ?P = "\<lambda>c. git__isspace (schar c)"
  have hd: "\<not> ?P (hd s)"
  proof
    assume "?P (hd s)"
    then have "length (dropWhile ?P s) < length s" using that(2) by (cases s) (auto simp: less_Suc_eq_le length_dropWhile_le)
    moreover have "length (strim s) \<le> length (dropWhile ?P s)" using length_dropWhile_le [of ?P "rev (dropWhile ?P s)"] by (simp add: strim_def)
    ultimately show False using that(1) by simp
  qed
  then have d: "dropWhile ?P (s @ r) = s @ r" "dropWhile ?P s = s" using that(2) by (cases s; simp)+
  have "dropWhile ?P (rev r @ rev s) = dropWhile ?P (rev s)" using that(3) by (intro dropWhile_append2) (simp add: list_all_iff)
  then show ?thesis unfolding strim_def d by simp
qed

lemma strim_idem: "strim (strim s) = strim s"
proof -
  let ?P = "\<lambda>c. git__isspace (schar c)"
  define a where "a = dropWhile ?P s"
  have "strim s = rev (dropWhile ?P (rev a))" by (simp add: strim_def a_def)
  moreover have "dropWhile ?P (rev (dropWhile ?P (rev a))) = rev (dropWhile ?P (rev a))"
  proof (cases "rev (dropWhile ?P (rev a)) = []")
    case False
    then obtain x xs where x: "rev (dropWhile ?P (rev a)) = x # xs" by (cases "rev (dropWhile ?P (rev a))") auto
    obtain t where "rev a = t @ dropWhile ?P (rev a)" by (metis takeWhile_dropWhile_id)
    then have "a = rev (dropWhile ?P (rev a)) @ rev t" by (metis rev_append rev_rev_ident)
    then have "a = x # xs @ rev t" using x by simp
    then have "\<not> ?P x" unfolding a_def by (metis hd_dropWhile list.distinct(1) list.sel(1))
    then show ?thesis unfolding x by simp
  next
    case True
    then show ?thesis unfolding True by simp
  qed
  ultimately show ?thesis by (simp add: strim_def dropWhile_idem)
qed

lemma memrchr_last: "c \<notin> set v \<Longrightarrow> n = length u + 1 + length v \<Longrightarrow> n \<le> length (u @ c # v) \<Longrightarrow> git__memrchr (u @ c # v) c n = Some (Some (length u))"
proof (induction v arbitrary: n rule: rev_induct)
  case (snoc x v)
  have e: "git__memrchr (u @ c # (v @ [x])) c k = git__memrchr (u @ c # v) c k" if "k \<le> length (u @ c # v)" for k
    using that by (induction k) (auto simp: rd_def nth_append nth_Cons')
  define k where "k = length u + 1 + length v"
  have k: "n = Suc k" "k \<le> length (u @ c # v)" "k < length (u @ c # (v @ [x]))" using snoc.prems by (simp_all add: k_def)
  have "(u @ c # (v @ [x])) ! k = x" by (simp add: k_def nth_append)
  then have "git__memrchr (u @ c # (v @ [x])) c n = git__memrchr (u @ c # (v @ [x])) c k"
    using snoc.prems(1) k(1) rd_in [OF k(3)] by (auto simp del: rd_in)
  then show ?case using e [OF k(2)] snoc.IH [OF _ k_def k(2)] snoc.prems(1) by simp
qed (simp add: rd_def)

section \<open>Reading what is written\<close>

lemma small_words: "0 \<le> v \<Longrightarrow> v < 2 ^ 31 \<Longrightarrow> sint (word_of_int v :: 64 word) = v \<and> sint (ucast ((word_of_int v :: 64 word) AND 0xFFFFFFFF) :: 32 word) = v"
proof -
  assume v: "0 \<le> v" "v < 2 ^ 31"
  have a: "sint (word_of_int v :: 64 word) = v" using v by (intro sint_small) simp_all
  have u: "uint (word_of_int v :: 64 word) = v" using v by (simp add: unsigned_of_int take_bit_int_eq_self)
  have "(0xFFFFFFFF :: 64 word) = mask 32" by (simp add: mask_eq_exp_minus_1)
  then have "(word_of_int v :: 64 word) AND 0xFFFFFFFF = take_bit 32 (word_of_int v)" by (simp only: take_bit_eq_mask)
  also have "\<dots> = word_of_int (take_bit 32 v)" by (rule bit_word_eqI) (simp add: bit_take_bit_iff bit_word_of_int_iff)
  also have "take_bit 32 v = v" using v by (simp add: take_bit_int_eq_self)
  finally have "sint (ucast ((word_of_int v :: 64 word) AND 0xFFFFFFFF) :: 32 word) = signed_take_bit 31 v" using u by (simp add: signed_ucast_eq)
  moreover have "signed_take_bit 31 v = v" using v by (intro signed_take_bit_int_eq_self) simp_all
  ultimately show ?thesis using a by simp
qed

lemma strtol32_ok:
  assumes "p \<noteq> []" "list_all is_digit p" "rest = [] \<or> \<not> is_digit (hd rest)" "rest = [] \<or> 10 \<le> digit_value 10 (schar (hd rest))" "digits_value 10 p 0 < 2 ^ 31"
  shows "\<exists>w. git__strtol32 (p @ rest) 10 = (0, Some w, Some rest) \<and> sint w = digits_value 10 p 0"
proof -
  have d: "list_all (\<lambda>c. digit_value 10 (schar c) < 10) p" using assms(2) is_digit_value by (auto simp: list_all_iff)
  have v: "0 \<le> digits_value 10 p 0" using digits_value_mono [of 10 0 p] by simp
  have "git__strtol64 (p @ rest) 10 = (0, Some (word_of_int (digits_value 10 p 0)), Some rest)"
    by (rule strtol64_ok(1)) (use assms d in auto)
  then show ?thesis using small_words [OF v assms(5)] by (auto simp: git__strtol32_def Let_def)
qed

definition sig_line :: "byte list \<Rightarrow> byte list \<Rightarrow> byte list \<Rightarrow> nat \<Rightarrow> byte \<Rightarrow> nat \<Rightarrow> nat \<Rightarrow> byte list" where
  "sig_line hdr name email t sign hours mins = hdr @ name @ [32, 60] @ email @ [62, 32] @ decimal t @ [32, sign] @ decimal02 hours @ decimal02 mins"

lemma parse_zone_ok:
  assumes "hours < 14" "mins < 59" "sign = 45 \<or> sign = 43"
  shows "parse_zone sig (sign # decimal02 hours @ decimal02 mins @ 10 # rest) =
    sig\<lparr>sg_offset := (if sign = 45 then - int (hours * 60 + mins) else int (hours * 60 + mins))\<rparr>"
proof -
  let ?p = "decimal02 hours @ decimal02 mins"
  have h: "length (decimal02 hours) = 2 \<and> list_all is_digit (decimal02 hours) \<and> digits_value 10 (decimal02 hours) 0 = int hours"
    and m: "length (decimal02 mins) = 2 \<and> list_all is_digit (decimal02 mins) \<and> digits_value 10 (decimal02 mins) 0 = int mins"
    using decimal02_ok assms by simp_all
  have v: "digits_value 10 ?p 0 = int hours * 100 + int mins"
    using h m digits_value_start [of "decimal02 mins" "int hours"] by (simp add: digits_value_append)
  have ne: "?p \<noteq> []" using h by auto
  obtain w where w: "git__strtol32 (?p @ 10 # rest) 10 = (0, Some w, Some (10 # rest))" "sint w = int hours * 100 + int mins"
    using strtol32_ok [of ?p "10 # rest"] ne h m v assms by (auto simp: is_digit_def digit_value_def schar_def)
  have "cdiv (int hours * 100 + int mins) 100 = int hours" "crem (int hours * 100 + int mins) 100 = int mins"
    using assms by (simp_all add: cdiv_def crem_def)
  then show ?thesis using assms w by (auto simp: parse_zone_def hd0_def Let_def)
qed

lemma parse_written:
  assumes ok: "\<forall>n. ok n" and nm: "strim name = name" "name \<noteq> []" "60 \<notin> set name" "62 \<notin> set name" and em: "strim email = email" "60 \<notin> set email" "62 \<notin> set email"
    and nul: "0 \<notin> set name" "0 \<notin> set email" and nl: "10 \<notin> set hdr" "10 \<notin> set name" "10 \<notin> set email" and t: "t < 2 ^ 32" and z: "hours < 14" "mins < 59" "sign = 45 \<or> sign = 43"
  shows "git_signature__parse ok (sig_line hdr name email t sign hours mins @ 10 # rest) (Some hdr) 10 =
    Some (0, \<lparr>sg_name = Some name, sg_email = Some email, sg_time = word_of_nat t,
      sg_offset = (if sign = 45 then - int (hours * 60 + mins) else int (hours * 60 + mins))\<rparr>, rest)"
proof -
  let ?z = "decimal02 hours @ decimal02 mins"
  define buffer where "buffer = sig_line hdr name email t sign hours mins @ 10 # rest"
  have dt: "decimal t \<noteq> []" "list_all is_digit (decimal t)" "digits_value 10 (decimal t) 0 = int t" using decimal_ok [of t] by auto
  have dz: "list_all is_digit ?z" "length ?z = 4" using decimal02_ok [of hours] decimal02_ok [of mins] z by auto
  have s: "sign \<noteq> 10" "sign \<noteq> 60" "sign \<noteq> 62" using z(3) by auto
  define line where "line = name @ [32, 60] @ email @ [62, 32] @ decimal t @ [32, sign] @ ?z"
  have full: "buffer = (hdr @ line) @ 10 # rest" by (simp add: buffer_def sig_line_def line_def)
  have n10: "10 \<notin> set (hdr @ line)" using nl s digits_plain [OF dt(2)] digits_plain [OF dz(1)] by (auto simp: line_def)
  have tw: "takeWhile (\<lambda>c. c \<noteq> 10) buffer = hdr @ line" "dropWhile (\<lambda>c. c \<noteq> 10) buffer = 10 # rest"
  proof -
    have a: "\<forall>c \<in> set (hdr @ line). c \<noteq> 10" using n10 by blast
    show "takeWhile (\<lambda>c. c \<noteq> 10) buffer = hdr @ line" "dropWhile (\<lambda>c. c \<noteq> 10) buffer = 10 # rest"
      unfolding full using a by (simp_all add: takeWhile_append2 dropWhile_append2)
  qed
  let ?s = "length name + 1" and ?e = "length name + 2 + length email"
  let ?after = "32 # decimal t @ [32, sign] @ ?z"
  have l60: "line = (name @ [32]) @ 60 # (email @ 62 # ?after)" by (simp add: line_def)
  have "60 \<notin> set (email @ 62 # ?after)" using em s digits_plain [OF dt(2)] digits_plain [OF dz(1)] by auto
  then have ms: "git__memrchr line 60 (length line) = Some (Some ?s)" unfolding l60 by (subst memrchr_last) simp_all
  have l62: "line = (name @ [32, 60] @ email) @ 62 # ?after" by (simp add: line_def)
  have "62 \<notin> set ?after" using s digits_plain [OF dt(2)] digits_plain [OF dz(1)] by auto
  then have me: "git__memrchr line 62 (length line) = Some (Some ?e)" unfolding l62 by (subst memrchr_last) simp_all
  have sp: "git__isspace (schar 32)" by (simp add: git__isspace_def schar_def)
  have ex: "extract_trimmed ok (take ?s line) = Some name" "extract_trimmed ok (drop (?s + 1) (take ?e line)) = Some email"
    using extract_trimmed_ok [OF ok, of "name @ [32]"] extract_trimmed_ok [OF ok nul(2)] nul strim_append [OF nm(1,2), of "[32]"] nm(1) sp em(1) by (simp_all add: line_def)
  have le: "?e + 2 < length line" using dz(2) by (simp add: line_def)
  let ?te = "32 # sign # ?z @ 10 # rest"
  have ts: "drop (length hdr + (?e + 2)) buffer = decimal t @ ?te"
  proof -
    have "buffer = (hdr @ name @ [32, 60] @ email @ [62, 32]) @ decimal t @ ?te" by (simp add: full line_def)
    moreover have "length (hdr @ name @ [32, 60] @ email @ [62, 32]) = length hdr + (?e + 2)" by simp
    ultimately show ?thesis by (metis append_eq_conv_conj)
  qed
  have "list_all (\<lambda>c. digit_value 10 (schar c) < 10) (decimal t)" using dt(2) is_digit_value by (auto simp: list_all_iff)
  then have st: "git__strtol64 (decimal t @ ?te) 10 = (0, Some (word_of_int (int t)), Some ?te)"
    using strtol64_ok(1) [of 10 "decimal t" ?te] dt t by (simp add: digit_value_def schar_def)
  have ps: "length buffer - length ?te - length hdr + 1 < length line" using dz(2) by (simp add: full line_def)
  have h: "\<not> (length (hdr @ line) \<le> length hdr \<or> Some (take (length hdr) buffer) \<noteq> Some hdr)" using le by (auto simp: full)
  have mem: "10 \<in> set buffer" by (simp add: full)
  have se: "\<not> ?e \<le> ?s" by simp
  define s0 e0 te str where "s0 = ?s" and "e0 = ?e" and "te = ?te" and "str = decimal t @ ?te"
  note f = ms [folded s0_def] me [folded e0_def] ex [folded s0_def e0_def] le [folded e0_def] ts [folded e0_def str_def] st [folded str_def te_def]
    ps [folded te_def] se [folded s0_def e0_def]
  have pz: "parse_zone x (tl te) = x\<lparr>sg_offset := (if sign = 45 then - int (hours * 60 + mins) else int (hours * 60 + mins))\<rparr>" for x
    using parse_zone_ok [OF z, of x rest] by (simp add: te_def)
  have c: "(10 \<notin> set buffer) = False" "(Some hdr \<noteq> None \<and> (length (hdr @ line) \<le> length hdr \<or> Some (take (length hdr) buffer) \<noteq> Some hdr)) = False"
    "drop (length hdr) (hdr @ line) = line" "(e0 \<le> s0) = False" "((0 :: int) < 0) = False"
    using mem h f(9) by simp_all
  have "git_signature__parse ok buffer (Some hdr) 10 =
      Some (0, parse_zone (zero_signature\<lparr>sg_name := Some name, sg_email := Some email, sg_time := word_of_int (int t)\<rparr>) (tl te), rest)"
    unfolding git_signature__parse_def Let_def tw option.case c(1,2,3) if_False f(1,2) bind.bind_lunit prod.case c(4) f(3,4,6,7)
    using f(5,8) by (simp only: if_True c(5) if_False list.sel)
  then show ?thesis unfolding buffer_def [symmetric] pz by (simp add: zero_signature_def)
qed

lemma signature_new_ok:
  assumes "git_signature_new ok name email time offset = Some (0, Some sig)" "\<forall>n. ok n" "0 \<notin> set name" "0 \<notin> set email"
  shows "sig = \<lparr>sg_name = Some (strim name), sg_email = Some (strim email), sg_time = time, sg_offset = offset\<rparr>" "strim name \<noteq> []"
    "60 \<notin> set name" "62 \<notin> set name" "60 \<notin> set email" "62 \<notin> set email"
  using assms(1) by (auto simp: git_signature_new_def extract_trimmed_ok [OF assms(2,3)] extract_trimmed_ok [OF assms(2,4)] contains_angle_brackets_def split: if_splits)

lemma writebuf_sig_ok:
  assumes b: "buf_ok b" "\<forall>n. snd h n" and sz: "b_size b + length hdr + length name + length email + 200 < 2 ^ 60"
    and sig: "sig = \<lparr>sg_name = Some name, sg_email = Some email, sg_time = time, sg_offset = offset\<rparr>" and z: "\<bar>offset\<bar> div 60 < 14"
  shows "\<exists>b'. git_signature__writebuf h b (Some hdr) sig = Some b' \<and> buf_ok b' \<and>
    content b' = content b @ sig_line hdr name email (unat (ucast time :: 32 word)) (if offset < 0 then 45 else 43) (nat \<bar>offset\<bar> div 60) (nat \<bar>offset\<bar> mod 60) @ [10]"
proof -
  let ?t = "unat (ucast time :: 32 word)"
  let ?l = "sig_line hdr name email ?t (if offset < 0 then 45 else 43) (nat \<bar>offset\<bar> div 60) (nat \<bar>offset\<bar> mod 60)"
  have len: "length (decimal n) \<le> m + 1" if "n < 10 ^ (m + 1)" for n m
    using that
  proof (induction m arbitrary: n)
    case 0
    then show ?case by (subst decimal.simps) simp
  next
    case (Suc m)
    have "n div 10 < 10 ^ (m + 1)" using Suc.prems by (simp add: less_mult_imp_div_less)
    then show ?case using Suc.IH [of "n div 10"] by (subst decimal.simps) auto
  qed
  have t: "?t < 2 ^ 32" using unsigned_less [of "ucast time :: 32 word"] by simp
  then have "length (decimal ?t) \<le> 10" using len [of ?t 9] by simp
  moreover have "nat \<bar>offset\<bar> div 60 < 100" "nat \<bar>offset\<bar> mod 60 < 100" using z by (simp_all add: nat_div_distrib [symmetric] nat_less_iff)
  then have "length (decimal02 (nat \<bar>offset\<bar> div 60)) = 2" "length (decimal02 (nat \<bar>offset\<bar> mod 60)) = 2" using decimal02_ok by simp_all
  ultimately have ll: "length (?l @ [10]) \<le> length hdr + length name + length email + 100" by (simp add: sig_line_def)
  then have "b_size b + 2 * 24 + length (?l @ [10]) + 1 < 2 ^ 61" using sz by simp
  from yields_ok [OF printf_yields [OF buf_ok_mem [OF b(1)] this, of h] b(2)]
  obtain b' where b': "git_buf_printf h b 24 (Some (?l @ [10])) = Some (0, b')" "buf_ok b'" "content b' = content b @ ?l @ [10]" by auto
  have "offset \<noteq> - (2 ^ 31)" using z by auto
  then have "git_signature__writebuf h b (Some hdr) sig = Some b'" using b'(1) by (simp add: git_signature__writebuf_def sig sig_line_def Let_def)
  then show ?thesis using b' by blast
qed

lemma zone_fields:
  assumes "\<bar>offset\<bar> div 60 < (14 :: int)" "\<bar>offset\<bar> mod 60 < 59"
  shows "nat \<bar>offset\<bar> div 60 < 14" "nat \<bar>offset\<bar> mod 60 < 59"
proof -
  obtain n where n: "\<bar>offset\<bar> = int n" using zero_le_imp_eq_int [OF abs_ge_zero [of offset]] by auto
  have "int (n div 60) < 14" "int (n mod 60) < 59" using assms unfolding n by (simp_all add: zdiv_int zmod_int)
  then show "nat \<bar>offset\<bar> div 60 < 14" "nat \<bar>offset\<bar> mod 60 < 59" by (simp_all add: n)
qed

section \<open>Properties\<close>

text \<open>C30: Signatures survive writing and reading.  A signature that git\_signature\_new accepts, from a name and an
  email without line feeds and NUL characters, with a time that fits in 32 bits and a time zone below 14 hours and not at
  minute 59, is written by git\_signature\_\_writebuf behind the contents of the buffer as one line that
  git\_signature\_\_parse reads back exactly, leaving what follows.\<close>

theorem signature_roundtrip:
  assumes "git_signature_new ok name email time offset = Some (0, Some sig)" "\<forall>n. ok n" "\<forall>n. snd h n" "buf_ok b"
    "10 \<notin> set hdr" "10 \<notin> set name" "10 \<notin> set email" "uint time < 2 ^ 32" "\<bar>offset\<bar> div 60 < 14" "\<bar>offset\<bar> mod 60 < 59"
    "0 \<notin> set name" "0 \<notin> set email" "b_size b + length hdr + length name + length email + 200 < 2 ^ 60"
  shows "\<exists>b'. git_signature__writebuf h b (Some hdr) sig = Some b' \<and> buf_ok b' \<and> take (b_size b) (content b') = content b \<and>
    git_signature__parse ok (drop (b_size b) (content b') @ rest) (Some hdr) 10 = Some (0, sig, rest)"
proof -
  note new = signature_new_ok [OF assms(1,2,11,12)]
  have lt: "length (strim s) \<le> length s" for s
    using length_dropWhile_le [of "\<lambda>c. git__isspace (schar c)" s]
      length_dropWhile_le [of "\<lambda>c. git__isspace (schar c)" "rev (dropWhile (\<lambda>c. git__isspace (schar c)) s)"] by (simp add: strim_def)
  let ?t = "unat (ucast time :: 32 word)"
  have ut: "uint (ucast time :: 32 word) = uint time" using assms(8) by (simp add: unsigned_ucast_eq take_bit_int_eq_self)
  have tt: "?t < 2 ^ 32" using unsigned_less [of "ucast time :: 32 word"] by simp
  have wt: "word_of_nat ?t = time" using ut by (metis of_nat_unat ucast_eq uint_nat word_of_int_uint of_int_of_nat_eq)
  have sz: "b_size b + length hdr + length (strim name) + length (strim email) + 200 < 2 ^ 60" using assms(13) lt [of name] lt [of email] by linarith
  have z: "nat \<bar>offset\<bar> div 60 < 14" "nat \<bar>offset\<bar> mod 60 < 59" by (rule zone_fields [OF assms(9,10)])+
  obtain b' where b': "git_signature__writebuf h b (Some hdr) sig = Some b'" "buf_ok b'"
    "content b' = content b @ sig_line hdr (strim name) (strim email) ?t (if offset < 0 then 45 else 43) (nat \<bar>offset\<bar> div 60) (nat \<bar>offset\<bar> mod 60) @ [10]"
    using writebuf_sig_ok [OF assms(4,3) sz new(1) assms(9)] by blast
  have off: "(if (if offset < 0 then 45 else 43 :: byte) = 45 then - int (nat \<bar>offset\<bar> div 60 * 60 + nat \<bar>offset\<bar> mod 60)
      else int (nat \<bar>offset\<bar> div 60 * 60 + nat \<bar>offset\<bar> mod 60)) = offset" by (simp add: div_mult_mod_eq)
  have "git_signature__parse ok (sig_line hdr (strim name) (strim email) ?t (if offset < 0 then 45 else 43) (nat \<bar>offset\<bar> div 60) (nat \<bar>offset\<bar> mod 60) @ 10 # rest) (Some hdr) 10 =
      Some (0, sig, rest)"
  proof -
    have m: "60 \<notin> set (strim name)" "62 \<notin> set (strim name)" "60 \<notin> set (strim email)" "62 \<notin> set (strim email)"
      "10 \<notin> set (strim name)" "10 \<notin> set (strim email)" "0 \<notin> set (strim name)" "0 \<notin> set (strim email)"
      using new assms(6,7,11,12) set_strim by blast+
    have s: "(if offset < 0 then 45 else 43 :: byte) = 45 \<or> (if offset < 0 then 45 else 43 :: byte) = 43" by simp
    show ?thesis unfolding new(1)
      using parse_written [OF assms(2) strim_idem new(2) m(1,2) strim_idem m(3,4,7,8) assms(5) m(5,6) tt z s, of rest] unfolding off wt .
  qed
  then show ?thesis using b' length_content [OF buf_ok_mem [OF assms(4)]] by simp
qed


theorem signature_roundtrip_witness:
  "\<exists>sig b'. git_signature_new (\<lambda>_. True) [32, 65] [97, 64, 98] 1234 (-90) = Some (0, Some sig) \<and> sg_name sig = Some [65] \<and>
     git_signature__writebuf (\<lambda>_. 7, \<lambda>_. True) GIT_BUF_INIT (Some [97, 32]) sig = Some b' \<and>
     git_signature__parse (\<lambda>_. True) (content b' @ [120]) (Some [97, 32]) 10 = Some (0, sig, [120])"
proof -
  let ?sig = "\<lparr>sg_name = Some [65], sg_email = Some [97, 64, 98], sg_time = 1234, sg_offset = -90\<rparr>"
  have new: "git_signature_new (\<lambda>_. True) [32, 65] [97, 64, 98] 1234 (-90) = Some (0, Some ?sig)"
    by (simp add: git_signature_new_def contains_angle_brackets_def extract_trimmed_def git__substrdup_def rd_blk_def git__isspace_def schar_def Let_def)
  have b: "buf_ok GIT_BUF_INIT" "b_size GIT_BUF_INIT = 0" "content GIT_BUF_INIT = []"
    by (simp_all add: GIT_BUF_INIT_def buf_ok_def buf_mem_def content_def)
  obtain b' where "git_signature__writebuf (\<lambda>_. 7, \<lambda>_. True) GIT_BUF_INIT (Some [97, 32]) ?sig = Some b'"
    "git_signature__parse (\<lambda>_. True) (drop (b_size GIT_BUF_INIT) (content b') @ [120]) (Some [97, 32]) 10 = Some (0, ?sig, [120])"
    using signature_roundtrip [OF new, of "(\<lambda>_. 7, \<lambda>_. True)" GIT_BUF_INIT "[97, 32]" "[120]"] b by auto
  then show ?thesis using new b(2) by (intro exI [of _ ?sig] exI [of _ b']) simp
qed

text \<open>The conditions are needed: the zone +1400 is read as +0000 and +0059 too, a time from 2 to the 32 on is written
  without its upper bits, and git\_signature\_new accepts a name with a line feed, which ends the line.\<close>

lemma signature_losses:
  "map_option (\<lambda>(rc, sig, _). (rc, sg_offset sig)) (git_signature__parse (\<lambda>_. True) [65, 32, 60, 98, 62, 32, 49, 32, 43, 49, 52, 48, 48, 10] None 10) = Some (0, 0)"
  "map_option (\<lambda>(rc, sig, _). (rc, sg_offset sig)) (git_signature__parse (\<lambda>_. True) [65, 32, 60, 98, 62, 32, 49, 32, 43, 48, 48, 53, 57, 10] None 10) = Some (0, 0)"
  "decimal (unat (ucast (0x100000001 :: 64 word) :: 32 word)) = [49]"
  "map_option fst (git_signature_new (\<lambda>_. True) [65, 10, 66] [98] 0 0) = Some 0"
  by code_simp+

end
