(* ===== verification/Boxblur.thy ===== *)
theory Boxblur
  imports Prelude
begin

text \<open>
  The box blur of 32-bit bitmaps, first-takes/boxblur/boxblur\_old.c.  The four channels that the code handles
  in four parallel statements are one value of type rgba; its addition and subtraction are those of the four
  sums.  An array of the code whose allocation fails is an array without elements, so every access to it is
  undefined.  Indices are int, checked for the overflow of int32\_t where they are computed; the sums cannot
  overflow, because each is used as an index of dv, which has 256 * 513 elements at most, after every change.
\<close>

section \<open>Integers, loops and arrays\<close>

definition i32 :: "int \<Rightarrow> int option" where
  "i32 v = (if - (2 ^ 31) \<le> v \<and> v < 2 ^ 31 then Some v else None)"

definition rd_i :: "'a list \<Rightarrow> int \<Rightarrow> 'a option" where
  "rd_i xs i = (if i < 0 then None else rd xs (nat i))"

definition wr_i :: "'a list \<Rightarrow> int \<Rightarrow> 'a \<Rightarrow> 'a list option" where
  "wr_i xs i v = (if i < 0 then None else wr xs (nat i) v)"

text \<open>for (i = lo; i < hi; i++)\<close>

primrec for_n :: "nat \<Rightarrow> int \<Rightarrow> (int \<Rightarrow> 's \<Rightarrow> 's option) \<Rightarrow> 's \<Rightarrow> 's option" where
  "for_n 0 i f s = Some s"
| "for_n (Suc n) i f s = Option.bind (f i s) (for_n n (i + 1) f)"

definition for_loop :: "int \<Rightarrow> int \<Rightarrow> (int \<Rightarrow> 's \<Rightarrow> 's option) \<Rightarrow> 's \<Rightarrow> 's option" where
  "for_loop lo hi f s = for_n (nat (hi - lo)) lo f s"

text \<open>malloc of n elements in a number of bytes; junk is what the new memory holds.\<close>

definition fresh :: "alloc \<Rightarrow> (nat \<Rightarrow> 'a) \<Rightarrow> int \<Rightarrow> nat \<Rightarrow> 'a list" where
  "fresh ok junk bytes n = (if ok (nat (bytes mod 2 ^ 64)) then map junk [0..<n] else [])"

section \<open>Pixels\<close>

datatype rgba = RGBA (ch_a: int) (ch_r: int) (ch_g: int) (ch_b: int)

instantiation rgba :: ab_group_add
begin

definition zero_rgba :: rgba where
  "zero_rgba = RGBA 0 0 0 0"

definition plus_rgba :: "rgba \<Rightarrow> rgba \<Rightarrow> rgba" where
  "plus_rgba p q = RGBA (ch_a p + ch_a q) (ch_r p + ch_r q) (ch_g p + ch_g q) (ch_b p + ch_b q)"

definition uminus_rgba :: "rgba \<Rightarrow> rgba" where
  "uminus_rgba p = RGBA (- ch_a p) (- ch_r p) (- ch_g p) (- ch_b p)"

definition minus_rgba :: "rgba \<Rightarrow> rgba \<Rightarrow> rgba" where
  "minus_rgba p q = RGBA (ch_a p - ch_a q) (ch_r p - ch_r q) (ch_g p - ch_g q) (ch_b p - ch_b q)"

instance
  by standard (simp_all add: zero_rgba_def plus_rgba_def uminus_rgba_def minus_rgba_def rgba.expand)

end

definition of_bytes :: "byte \<Rightarrow> byte \<Rightarrow> byte \<Rightarrow> byte \<Rightarrow> rgba" where
  "of_bytes va vr vg vb = RGBA (uint va) (uint vr) (uint vg) (uint vb)"

text \<open>The pixel at byte p of the bitmap, and the one that the table dv gives for four sums.\<close>

definition pix_at :: "byte list \<Rightarrow> int \<Rightarrow> rgba option" where
  "pix_at pix p = do {
     va \<leftarrow> rd_i pix (p + 0);
     vr \<leftarrow> rd_i pix (p + 1);
     vg \<leftarrow> rd_i pix (p + 2);
     vb \<leftarrow> rd_i pix (p + 3);
     Some (of_bytes va vr vg vb) }"

definition pix_put :: "byte list \<Rightarrow> rgba \<Rightarrow> byte list \<Rightarrow> int \<Rightarrow> byte list option" where
  "pix_put dv s pix p = do {
     v \<leftarrow> rd_i dv (ch_a s); pix \<leftarrow> wr_i pix (p + 0) v;
     v \<leftarrow> rd_i dv (ch_r s); pix \<leftarrow> wr_i pix (p + 1) v;
     v \<leftarrow> rd_i dv (ch_g s); pix \<leftarrow> wr_i pix (p + 2) v;
     v \<leftarrow> rd_i dv (ch_b s); pix \<leftarrow> wr_i pix (p + 3) v;
     Some pix }"

text \<open>The arrays a, r, g and b.\<close>

record planes =
  pl_a :: "byte list"
  pl_r :: "byte list"
  pl_g :: "byte list"
  pl_b :: "byte list"

definition plane_at :: "planes \<Rightarrow> int \<Rightarrow> rgba option" where
  "plane_at pl i = do {
     va \<leftarrow> rd_i (pl_a pl) i;
     vr \<leftarrow> rd_i (pl_r pl) i;
     vg \<leftarrow> rd_i (pl_g pl) i;
     vb \<leftarrow> rd_i (pl_b pl) i;
     Some (of_bytes va vr vg vb) }"

definition plane_put :: "byte list \<Rightarrow> rgba \<Rightarrow> planes \<Rightarrow> int \<Rightarrow> planes option" where
  "plane_put dv s pl i = do {
     v \<leftarrow> rd_i dv (ch_a s); a \<leftarrow> wr_i (pl_a pl) i v;
     v \<leftarrow> rd_i dv (ch_r s); r \<leftarrow> wr_i (pl_r pl) i v;
     v \<leftarrow> rd_i dv (ch_g s); g \<leftarrow> wr_i (pl_g pl) i v;
     v \<leftarrow> rd_i dv (ch_b s); b \<leftarrow> wr_i (pl_b pl) i v;
     Some \<lparr>pl_a = a, pl_r = r, pl_g = g, pl_b = b\<rparr> }"

section \<open>The two passes\<close>

definition fill_dv :: "int \<Rightarrow> byte list \<Rightarrow> byte list option" where
  "fill_dv d dv = for_loop 0 (256 * d) (\<lambda>i dv. wr_i dv i (word_of_int (i div d))) dv"

text \<open>The ends of the window at each of n positions; factor is the distance of two positions, which the
  code writes only in the second pass.\<close>

definition fill_ends :: "int \<Rightarrow> int \<Rightarrow> int \<Rightarrow> int list \<times> int list \<Rightarrow> (int list \<times> int list) option" where
  "fill_ends n radius factor = for_loop 0 n (\<lambda>x (vmin, vmax). do {
     e \<leftarrow> i32 (x + radius + 1);
     e \<leftarrow> i32 (min e (n - 1) * factor);
     vmin \<leftarrow> wr_i vmin x e;
     e \<leftarrow> i32 (max (x - radius) 0 * factor);
     vmax \<leftarrow> wr_i vmax x e;
     Some (vmin, vmax) })"

definition row_sum :: "byte list \<Rightarrow> int \<Rightarrow> int \<Rightarrow> int \<Rightarrow> rgba option" where
  "row_sum pix w radius yi = for_loop (- radius) (radius + 1) (\<lambda>i s. do {
     p \<leftarrow> i32 ((yi + min (w - 1) (max i 0)) * 4);
     v \<leftarrow> pix_at pix p;
     Some (s + v) }) 0"

definition row_step :: "byte list \<Rightarrow> int list \<Rightarrow> int list \<Rightarrow> byte list \<Rightarrow> int \<Rightarrow> int \<Rightarrow> planes \<times> rgba \<times> int \<Rightarrow> (planes \<times> rgba \<times> int) option" where
  "row_step dv vmin vmax pix yw x st = (case st of (pl, s, yi) \<Rightarrow> do {
     pl \<leftarrow> plane_put dv s pl yi;
     e \<leftarrow> rd_i vmin x; p1 \<leftarrow> i32 ((yw + e) * 4);
     e \<leftarrow> rd_i vmax x; p2 \<leftarrow> i32 ((yw + e) * 4);
     v1 \<leftarrow> pix_at pix p1;
     v2 \<leftarrow> pix_at pix p2;
     Some (pl, s + (v1 - v2), yi + 1) })"

definition row_pass :: "byte list \<Rightarrow> int list \<Rightarrow> int list \<Rightarrow> byte list \<Rightarrow> int \<Rightarrow> int \<Rightarrow> int \<Rightarrow> planes \<Rightarrow> planes option" where
  "row_pass dv vmin vmax pix w h radius pl = do {
     (pl, _, _) \<leftarrow> for_loop 0 h (\<lambda>y (pl, yi, yw). do {
       s \<leftarrow> row_sum pix w radius yi;
       (pl, _, yi) \<leftarrow> for_loop 0 w (row_step dv vmin vmax pix yw) (pl, s, yi);
       yw \<leftarrow> i32 (yw + w);
       Some (pl, yi, yw) }) (pl, 0, 0);
     Some pl }"

definition col_sum :: "planes \<Rightarrow> int \<Rightarrow> int \<Rightarrow> int \<Rightarrow> rgba option" where
  "col_sum pl w radius x = do {
     yp \<leftarrow> i32 (- radius * w);
     (s, _) \<leftarrow> for_loop (- radius) (radius + 1) (\<lambda>i (s, yp). do {
       v \<leftarrow> plane_at pl (max 0 yp + x);
       yp \<leftarrow> i32 (yp + w);
       Some (s + v, yp) }) (0, yp);
     Some s }"

definition col_step :: "byte list \<Rightarrow> int list \<Rightarrow> int list \<Rightarrow> planes \<Rightarrow> int \<Rightarrow> int \<Rightarrow> int \<Rightarrow> byte list \<times> rgba \<times> int \<Rightarrow> (byte list \<times> rgba \<times> int) option" where
  "col_step dv vmin vmax pl w x y st = (case st of (pix, s, yi) \<Rightarrow> do {
     p \<leftarrow> i32 (yi * 4);
     pix \<leftarrow> pix_put dv s pix p;
     e \<leftarrow> rd_i vmin y;
     v1 \<leftarrow> plane_at pl (x + e);
     e \<leftarrow> rd_i vmax y;
     v2 \<leftarrow> plane_at pl (x + e);
     yi \<leftarrow> i32 (yi + w);
     Some (pix, s + (v1 - v2), yi) })"

definition col_pass :: "byte list \<Rightarrow> int list \<Rightarrow> int list \<Rightarrow> planes \<Rightarrow> int \<Rightarrow> int \<Rightarrow> int \<Rightarrow> byte list \<Rightarrow> byte list option" where
  "col_pass dv vmin vmax pl w h radius = for_loop 0 w (\<lambda>x pix. do {
     s \<leftarrow> col_sum pl w radius x;
     (pix, _, _) \<leftarrow> for_loop 0 h (col_step dv vmin vmax pl w x) (pix, s, x);
     Some pix })"

text \<open>One turn of the while loop over the bitmap and the arrays.\<close>

type_synonym blur_state = "byte list \<times> planes \<times> int list \<times> int list"

definition blur_once :: "byte list \<Rightarrow> int \<Rightarrow> int \<Rightarrow> int \<Rightarrow> blur_state \<Rightarrow> blur_state option" where
  "blur_once dv w h radius st = (case st of (pix, pl, vmin, vmax) \<Rightarrow> do {
     (vmin, vmax) \<leftarrow> fill_ends w radius 1 (vmin, vmax);
     pl \<leftarrow> row_pass dv vmin vmax pix w h radius pl;
     (vmin, vmax) \<leftarrow> fill_ends h radius w (vmin, vmax);
     pix \<leftarrow> col_pass dv vmin vmax pl w h radius pix;
     Some (pix, pl, vmin, vmax) })"

text \<open>A negative times (here reps) is counted down until it overflows.\<close>

definition boxblur_8888 :: "alloc \<Rightarrow> (nat \<Rightarrow> byte) \<Rightarrow> (nat \<Rightarrow> int) \<Rightarrow> byte list \<Rightarrow> int \<Rightarrow> int \<Rightarrow> int \<Rightarrow> int \<Rightarrow> byte list option" where
  "boxblur_8888 ok junk junk_i pix w h radius reps =
     (if radius < 1 \<or> 256 < radius then Some pix
      else do {
        n \<leftarrow> i32 (w * h);
        e \<leftarrow> i32 (max w h * 4);
        (let plane = fresh ok junk n (nat (n mod 2 ^ 64));
             ends = fresh ok junk_i e (nat (e mod 2 ^ 64) div 4);
             d = 2 * radius + 1 in do {
          dv \<leftarrow> fill_dv d (fresh ok junk (256 * d) (nat (256 * d)));
          (if reps < 0 then None
           else do {
             (pix, _) \<leftarrow> for_loop 0 reps (\<lambda>_. blur_once dv w h radius)
               (pix, \<lparr>pl_a = plane, pl_r = plane, pl_g = plane, pl_b = plane\<rparr>, ends, ends);
             Some pix }) }) })"

end
