(* ===== verification/BoxblurProps.thy ===== *)
theory BoxblurProps
  imports Boxblur
begin

text \<open>
  The running sums of the box blur against the means they stand for: loops and arrays, the two passes, images.
\<close>

section \<open>Loops and arrays\<close>

lemma for_n_inv:
  assumes "P lo s" "\<And>i s. lo \<le> i \<Longrightarrow> i < lo + int n \<Longrightarrow> P i s \<Longrightarrow> \<exists>s'. f i s = Some s' \<and> P (i + 1) s'"
  shows "\<exists>s'. for_n n lo f s = Some s' \<and> P (lo + int n) s'"
  using assms
proof (induction n arbitrary: lo s)
  case (Suc n)
  obtain s1 where s1: "f lo s = Some s1" "P (lo + 1) s1" using Suc.prems(2) [of lo s] Suc.prems(1) by auto
  have "\<exists>s'. for_n n (lo + 1) f s1 = Some s' \<and> P (lo + 1 + int n) s'"
    by (rule Suc.IH [OF s1(2)]) (rule Suc.prems(2), auto)
  then show ?case using s1 by (simp add: algebra_simps)
qed simp

lemma for_loop_inv:
  assumes "lo \<le> hi" "P lo s" "\<And>i s. lo \<le> i \<Longrightarrow> i < hi \<Longrightarrow> P i s \<Longrightarrow> \<exists>s'. f i s = Some s' \<and> P (i + 1) s'"
  shows "\<exists>s'. for_loop lo hi f s = Some s' \<and> P hi s'"
  using for_n_inv [of P lo s "nat (hi - lo)" f] assms by (simp add: for_loop_def)

lemma for_n_None:
  assumes "P lo s" "k < n" "\<And>s. P (lo + int k) s \<Longrightarrow> f (lo + int k) s = None"
    "\<And>i s s'. lo \<le> i \<Longrightarrow> i < lo + int k \<Longrightarrow> P i s \<Longrightarrow> f i s = Some s' \<Longrightarrow> P (i + 1) s'"
  shows "for_n n lo f s = None"
  using assms
proof (induction n arbitrary: lo s k)
  case (Suc n)
  show ?case
  proof (cases k)
    case 0
    then show ?thesis using Suc.prems(1,3) by simp
  next
    case (Suc k')
    have e: "lo + 1 + int k' = lo + int k" using Suc by simp
    have "for_n n (lo + 1) f s1 = None" if "f lo s = Some s1" for s1
    proof (rule Suc.IH [of "lo + 1" s1 k'])
      show "P (lo + 1) s1" using Suc.prems(4) [OF _ _ Suc.prems(1) that] Suc by simp
      show "k' < n" using Suc.prems(2) Suc by simp
      show "f (lo + 1 + int k') s = None" if "P (lo + 1 + int k') s" for s using Suc.prems(3) that by (simp add: e)
      show "P (i + 1) s'" if "lo + 1 \<le> i" "i < lo + 1 + int k'" "P i s" "f i s = Some s'" for i s s'
        using Suc.prems(4) [of i s s'] that by (simp add: e)
    qed
    then show ?thesis by (cases "f lo s") simp_all
  qed
qed simp

lemma for_loop_None:
  assumes "P lo s" "lo \<le> k" "k < hi" "\<And>s. P k s \<Longrightarrow> f k s = None"
    "\<And>i s s'. lo \<le> i \<Longrightarrow> i < k \<Longrightarrow> P i s \<Longrightarrow> f i s = Some s' \<Longrightarrow> P (i + 1) s'"
  shows "for_loop lo hi f s = None"
  unfolding for_loop_def by (rule for_n_None [of P lo s "nat (k - lo)"]) (use assms in auto)

lemma rd_i_ok: "0 \<le> i \<Longrightarrow> i < int (length xs) \<Longrightarrow> rd_i xs i = Some (xs ! nat i)"
  by (simp add: rd_i_def rd_def nat_less_iff)

lemma rd_i_out: "int (length xs) \<le> i \<Longrightarrow> rd_i xs i = None"
  by (simp add: rd_i_def rd_def nat_less_iff)

lemma wr_i_ok: "0 \<le> i \<Longrightarrow> i < int (length xs) \<Longrightarrow> wr_i xs i v = Some (xs[nat i := v])"
  by (simp add: wr_i_def wr_def nat_less_iff)

lemma i32_ok: "- (2 ^ 31) \<le> v \<Longrightarrow> v < 2 ^ 31 \<Longrightarrow> i32 v = Some v"
  by (simp add: i32_def)

lemma nat_eq_nonneg: "0 \<le> i \<Longrightarrow> 0 \<le> j \<Longrightarrow> nat i = nat j \<longleftrightarrow> i = j"
  by auto

section \<open>Pixels\<close>

lemma rgba_simps [simp]:
  "ch_a (p + q) = ch_a p + ch_a q" "ch_r (p + q) = ch_r p + ch_r q" "ch_g (p + q) = ch_g p + ch_g q" "ch_b (p + q) = ch_b p + ch_b q"
  "ch_a 0 = 0" "ch_r 0 = 0" "ch_g 0 = 0" "ch_b 0 = 0"
  by (simp_all add: plus_rgba_def zero_rgba_def)

text \<open>Division of all channels, and channels between 0 and m.\<close>

definition quot :: "int \<Rightarrow> rgba \<Rightarrow> rgba" where
  "quot d s = RGBA (ch_a s div d) (ch_r s div d) (ch_g s div d) (ch_b s div d)"

definition in_range :: "int \<Rightarrow> rgba \<Rightarrow> bool" where
  "in_range m s = (0 \<le> ch_a s \<and> ch_a s \<le> m \<and> 0 \<le> ch_r s \<and> ch_r s \<le> m \<and> 0 \<le> ch_g s \<and> ch_g s \<le> m \<and> 0 \<le> ch_b s \<and> ch_b s \<le> m)"

lemma in_range_of_bytes: "in_range 255 (of_bytes a r g b)"
proof -
  have "0 \<le> uint c \<and> uint c \<le> 255" for c :: byte using uint_lt2p [of c] by simp
  then show ?thesis by (simp add: in_range_def of_bytes_def)
qed

lemma in_range_sum: "finite A \<Longrightarrow> (\<And>i. i \<in> A \<Longrightarrow> in_range m (f i)) \<Longrightarrow> in_range (int (card A) * m) (sum f A)"
proof (induction rule: finite_induct)
  case (insert x A)
  then have "in_range (int (card A) * m) (sum f A)" "in_range m (f x)" by auto
  then show ?case using insert(1,2) by (simp add: in_range_def algebra_simps)
qed (simp add: in_range_def)

definition pix_val :: "byte list \<Rightarrow> int \<Rightarrow> rgba" where
  "pix_val pix i = of_bytes (pix ! nat (i * 4)) (pix ! nat (i * 4 + 1)) (pix ! nat (i * 4 + 2)) (pix ! nat (i * 4 + 3))"

definition pl_val :: "planes \<Rightarrow> int \<Rightarrow> rgba" where
  "pl_val pl i = of_bytes (pl_a pl ! nat i) (pl_r pl ! nat i) (pl_g pl ! nat i) (pl_b pl ! nat i)"

definition planes_len :: "nat \<Rightarrow> planes \<Rightarrow> bool" where
  "planes_len n pl = (length (pl_a pl) = n \<and> length (pl_r pl) = n \<and> length (pl_g pl) = n \<and> length (pl_b pl) = n)"

definition dv_ok :: "int \<Rightarrow> byte list \<Rightarrow> bool" where
  "dv_ok d dv = (0 < d \<and> length dv = nat (256 * d) \<and> (\<forall>i. 0 \<le> i \<and> i < 256 * d \<longrightarrow> dv ! nat i = word_of_int (i div d)))"

lemma dv_read: "dv_ok d dv \<Longrightarrow> 0 \<le> i \<Longrightarrow> i \<le> 255 * d \<Longrightarrow> rd_i dv i = Some (word_of_int (i div d)) \<and> uint (word_of_int (i div d) :: byte) = i div d"
proof -
  assume a: "dv_ok d dv" "0 \<le> i" "i \<le> 255 * d"
  then have d: "0 < d" by (simp add: dv_ok_def)
  have "i div d \<le> 255 * d div d" using a(3) d by (intro zdiv_mono1) auto
  then have b: "i div d \<le> 255" using d by simp
  have "i < 256 * d" using a d by linarith
  then have "rd_i dv i = Some (word_of_int (i div d))" using a by (simp add: rd_i_ok dv_ok_def)
  moreover have "uint (word_of_int (i div d) :: byte) = i div d"
    using b a(2) d by (simp add: uint_word_of_int pos_imp_zdiv_nonneg_iff)
  ultimately show ?thesis by simp
qed

lemma fill_dv_ok: "0 < d \<Longrightarrow> length dv = nat (256 * d) \<Longrightarrow> \<exists>dv'. fill_dv d dv = Some dv' \<and> dv_ok d dv'"
proof -
  assume d: "0 < d" "length dv = nat (256 * d)"
  let ?P = "\<lambda>k xs. length xs = nat (256 * d) \<and> (\<forall>i. 0 \<le> i \<and> i < k \<longrightarrow> xs ! nat i = (word_of_int (i div d) :: byte))"
  have "\<exists>dv'. for_loop 0 (256 * d) (\<lambda>i dv. wr_i dv i (word_of_int (i div d))) dv = Some dv' \<and> ?P (256 * d) dv'"
  proof (rule for_loop_inv [where P = ?P])
    fix i and xs :: "byte list"
    assume i: "0 \<le> i" "i < 256 * d" and xs: "?P i xs"
    then show "\<exists>s'. wr_i xs i (word_of_int (i div d)) = Some s' \<and> ?P (i + 1) s'"
      by (auto simp: wr_i_ok nth_list_update nat_eq_nonneg)
  qed (use d in auto)
  then show ?thesis using d by (simp add: fill_dv_def dv_ok_def)
qed

lemma plane_at_ok: "planes_len n pl \<Longrightarrow> 0 \<le> i \<Longrightarrow> i < int n \<Longrightarrow> plane_at pl i = Some (pl_val pl i)"
  by (simp add: plane_at_def planes_len_def rd_i_ok pl_val_def)

lemma plane_at_out: "planes_len n pl \<Longrightarrow> int n \<le> i \<Longrightarrow> plane_at pl i = None"
  by (simp add: plane_at_def planes_len_def rd_i_out)

lemma pix_at_ok: "length pix = 4 * n \<Longrightarrow> 0 \<le> i \<Longrightarrow> i < int n \<Longrightarrow> pix_at pix (i * 4) = Some (pix_val pix i)"
  by (simp add: pix_at_def rd_i_ok pix_val_def)

lemma quot_bytes:
  assumes "dv_ok d dv" "in_range (255 * d) s"
  shows "rd_i dv (ch_a s) = Some (word_of_int (ch_a s div d))" "rd_i dv (ch_r s) = Some (word_of_int (ch_r s div d))"
    "rd_i dv (ch_g s) = Some (word_of_int (ch_g s div d))" "rd_i dv (ch_b s) = Some (word_of_int (ch_b s div d))"
    "of_bytes (word_of_int (ch_a s div d)) (word_of_int (ch_r s div d)) (word_of_int (ch_g s div d)) (word_of_int (ch_b s div d)) = quot d s"
proof -
  have r: "0 \<le> ch_a s" "ch_a s \<le> 255 * d" "0 \<le> ch_r s" "ch_r s \<le> 255 * d" "0 \<le> ch_g s" "ch_g s \<le> 255 * d" "0 \<le> ch_b s" "ch_b s \<le> 255 * d"
    using assms(2) by (simp_all add: in_range_def)
  note v = dv_read [OF assms(1) r(1,2)] dv_read [OF assms(1) r(3,4)] dv_read [OF assms(1) r(5,6)] dv_read [OF assms(1) r(7,8)]
  show "rd_i dv (ch_a s) = Some (word_of_int (ch_a s div d))" "rd_i dv (ch_r s) = Some (word_of_int (ch_r s div d))"
    "rd_i dv (ch_g s) = Some (word_of_int (ch_g s div d))" "rd_i dv (ch_b s) = Some (word_of_int (ch_b s div d))"
    using v by blast+
  show "of_bytes (word_of_int (ch_a s div d)) (word_of_int (ch_r s div d)) (word_of_int (ch_g s div d)) (word_of_int (ch_b s div d)) = quot d s"
    using v by (simp only: of_bytes_def quot_def)
qed

lemma plane_put_ok:
  assumes "dv_ok d dv" "in_range (255 * d) s" "planes_len n pl" "0 \<le> i" "i < int n"
  shows "\<exists>pl'. plane_put dv s pl i = Some pl' \<and> planes_len n pl' \<and> (\<forall>j. 0 \<le> j \<longrightarrow> pl_val pl' j = (if j = i then quot d s else pl_val pl j))"
proof -
  note q = quot_bytes [OF assms(1,2)]
  have w: "plane_put dv s pl i = Some \<lparr>pl_a = (pl_a pl)[nat i := word_of_int (ch_a s div d)], pl_r = (pl_r pl)[nat i := word_of_int (ch_r s div d)],
      pl_g = (pl_g pl)[nat i := word_of_int (ch_g s div d)], pl_b = (pl_b pl)[nat i := word_of_int (ch_b s div d)]\<rparr>" (is "_ = Some ?p")
    using assms(3-5) by (simp add: plane_put_def q(1-4) wr_i_ok planes_len_def)
  have n: "nat i < n" using assms(4,5) by (simp add: nat_less_iff)
  have "pl_val ?p j = (if j = i then quot d s else pl_val pl j)" if "0 \<le> j" for j
    using q(5) assms(3,4) that n by (simp add: pl_val_def planes_len_def nth_list_update nat_eq_nonneg)
  moreover have "planes_len n ?p" using assms(3) by (simp add: planes_len_def)
  ultimately show ?thesis using w by blast
qed

lemma pix_put_ok:
  assumes "dv_ok d dv" "in_range (255 * d) s" "length pix = 4 * n" "0 \<le> i" "i < int n"
  shows "\<exists>pix'. pix_put dv s pix (i * 4) = Some pix' \<and> length pix' = 4 * n \<and> (\<forall>j. 0 \<le> j \<longrightarrow> pix_val pix' j = (if j = i then quot d s else pix_val pix j))"
proof -
  note q = quot_bytes [OF assms(1,2)]
  let ?p = "pix[nat (i * 4) := word_of_int (ch_a s div d), nat (i * 4 + 1) := word_of_int (ch_r s div d),
      nat (i * 4 + 2) := word_of_int (ch_g s div d), nat (i * 4 + 3) := word_of_int (ch_b s div d)]"
  have w: "pix_put dv s pix (i * 4) = Some ?p" using assms(3-5) by (simp add: pix_put_def q(1-4) wr_i_ok)
  have n: "nat (i * 4) < 4 * n" "nat (i * 4 + 1) < 4 * n" "nat (i * 4 + 2) < 4 * n" "nat (i * 4 + 3) < 4 * n"
    using assms(4,5) by (simp_all add: nat_less_iff)
  have "pix_val ?p j = (if j = i then quot d s else pix_val pix j)" if j: "0 \<le> j" for j
  proof (cases "j = i")
    case True
    then show ?thesis using q(5) assms(3,4) n by (simp add: pix_val_def nth_list_update nat_eq_nonneg)
  next
    case False
    have ne: "nat (i * 4 + b) \<noteq> nat (j * 4 + a)" if "0 \<le> a" "a < 4" "0 \<le> b" "b < 4" for a b
    proof
      assume "nat (i * 4 + b) = nat (j * 4 + a)"
      then have "i * 4 + b = j * 4 + a" using that j assms(4) by (subst (asm) nat_eq_nonneg) auto
      then show False using that False by presburger
    qed
    have "?p ! nat (j * 4 + a) = pix ! nat (j * 4 + a)" if "0 \<le> a" "a < 4" for a
      using ne [OF that, of 0] ne [OF that, of 1] ne [OF that, of 2] ne [OF that, of 3] by (simp del: nat_mult_distrib)
    from this [of 0] this [of 1] this [of 2] this [of 3] show ?thesis using False by (simp add: pix_val_def)
  qed
  then show ?thesis using w assms(3) by auto
qed

section \<open>The sliding window\<close>

definition clamp :: "int \<Rightarrow> int \<Rightarrow> int" where
  "clamp n i = min (n - 1) (max i 0)"

definition window :: "int \<Rightarrow> int \<Rightarrow> (int \<Rightarrow> rgba) \<Rightarrow> int \<Rightarrow> rgba" where
  "window r n f x = (\<Sum>i \<in> {-r..r}. f (clamp n (x + i)))"

lemma clamp_bounds: "0 < n \<Longrightarrow> 0 \<le> clamp n i \<and> clamp n i < n"
  by (simp add: clamp_def)

lemma window_shift: "window r n f x = (\<Sum>k \<in> {x - r..x + r}. f (clamp n k))"
  unfolding window_def by (rule sum.reindex_bij_witness [of _ "\<lambda>k. k - x" "\<lambda>i. x + i"]) auto

lemma window_step:
  assumes "0 \<le> x" "x < n" "0 \<le> r"
  shows "window r n f (x + 1) = window r n f x + (f (min (x + r + 1) (n - 1)) - f (max (x - r) 0))"
proof -
  define S where "S = (\<Sum>k \<in> {x - r + 1..x + r}. f (clamp n k))"
  have "{x - r..x + r} = insert (x - r) {x - r + 1..x + r}" "{x + 1 - r..x + 1 + r} = insert (x + r + 1) {x - r + 1..x + r}" using assms by auto
  then have "window r n f x = f (clamp n (x - r)) + S" "window r n f (x + 1) = f (clamp n (x + r + 1)) + S"
    unfolding window_shift S_def by simp_all
  moreover have "clamp n (x + r + 1) = min (x + r + 1) (n - 1)" "clamp n (x - r) = max (x - r) 0" using assms by (auto simp: clamp_def)
  ultimately show ?thesis by simp
qed

lemma window_range: "(\<And>i. in_range 255 (f i)) \<Longrightarrow> 0 \<le> r \<Longrightarrow> in_range (255 * (2 * r + 1)) (window r n f x)"
  unfolding window_def using in_range_sum [of "{-r..r}" 255 "\<lambda>i. f (clamp n (x + i))"] by (simp add: algebra_simps)

lemma sum_upto_step: "lo \<le> i \<Longrightarrow> sum f {lo..<i + 1} = sum f {lo..<i} + f i" for i :: int and f :: "int \<Rightarrow> rgba"
proof -
  assume "lo \<le> i"
  then have "{lo..<i + 1} = insert i {lo..<i}" by auto
  then show ?thesis by (simp add: add.commute)
qed

lemma idx_bound: "0 \<le> x \<Longrightarrow> x < w \<Longrightarrow> 0 \<le> y \<Longrightarrow> y < h \<Longrightarrow> 0 \<le> y * w + x \<and> y * w + x < w * h" for x y w h :: int
proof -
  assume a: "0 \<le> x" "x < w" "0 \<le> y" "y < h"
  have "y * w + x < (y + 1) * w" using a by (simp add: algebra_simps)
  also have "\<dots> \<le> h * w" using a by (intro mult_right_mono) auto
  finally show ?thesis using a by (simp add: mult.commute)
qed

lemma idx_div: "0 \<le> x \<Longrightarrow> x < w \<Longrightarrow> (y * w + x) div w = y \<and> (y * w + x) mod w = x" for x y w :: int
  by simp

lemma idx_i32: "0 \<le> k \<Longrightarrow> k < n \<Longrightarrow> 4 * n < 2 ^ 31 \<Longrightarrow> i32 (k * 4) = Some (k * 4)"
  by (intro i32_ok) auto

section \<open>The ends of the windows\<close>

lemma fill_ends_ok:
  assumes "0 \<le> n" "n \<le> int m" "0 \<le> r" "0 < c" "n * c + r + 1 < 2 ^ 31" "length vmin = m" "length vmax = m"
  shows "\<exists>vmin' vmax'. fill_ends n r c (vmin, vmax) = Some (vmin', vmax') \<and> length vmin' = m \<and> length vmax' = m \<and>
    (\<forall>x. 0 \<le> x \<and> x < n \<longrightarrow> rd_i vmin' x = Some (min (x + r + 1) (n - 1) * c) \<and> rd_i vmax' x = Some (max (x - r) 0 * c))"
proof -
  let ?P = "\<lambda>k (a, b). length a = m \<and> length b = m \<and>
    (\<forall>x. 0 \<le> x \<and> x < k \<longrightarrow> a ! nat x = min (x + r + 1) (n - 1) * c \<and> b ! nat x = max (x - r) 0 * c)"
  have nc: "n \<le> n * c" using assms(1,4) by (simp add: mult_le_cancel_left1)
  have "\<exists>s'. for_loop 0 n (\<lambda>x (vmin, vmax). do {
     e \<leftarrow> i32 (x + r + 1); e \<leftarrow> i32 (min e (n - 1) * c); vmin \<leftarrow> wr_i vmin x e;
     e \<leftarrow> i32 (max (x - r) 0 * c); vmax \<leftarrow> wr_i vmax x e; Some (vmin, vmax) }) (vmin, vmax) = Some s' \<and> ?P n s'"
  proof (rule for_loop_inv [where P = ?P])
    fix i and s :: "int list \<times> int list"
    assume i: "0 \<le> i" "i < n" and s: "?P i s"
    obtain a b where ab: "s = (a, b)" by (cases s)
    have i0: "i32 (i + r + 1) = Some (i + r + 1)" using i nc assms by (intro i32_ok) linarith+
    have e: "0 \<le> min (i + r + 1) (n - 1) * c" "min (i + r + 1) (n - 1) * c \<le> n * c" "0 \<le> max (i - r) 0 * c" "max (i - r) 0 * c \<le> n * c"
      using i assms(3,4) by (intro mult_nonneg_nonneg mult_right_mono; simp)+
    then have i1: "i32 (min (i + r + 1) (n - 1) * c) = Some (min (i + r + 1) (n - 1) * c)" "i32 (max (i - r) 0 * c) = Some (max (i - r) 0 * c)"
      using assms(3,5) by (intro i32_ok; linarith)+
    have w: "wr_i a i v = Some (a[nat i := v])" "wr_i b i v = Some (b[nat i := v])" for v using i s ab assms(2) by (auto simp: wr_i_ok)
    have x: "nat x = nat i \<longleftrightarrow> x = i" if "0 \<le> x" for x using that i by auto
    have "i < int m" using i assms(2) by simp
    then have "?P (i + 1) (a[nat i := min (i + r + 1) (n - 1) * c], b[nat i := max (i - r) 0 * c])"
      using s i unfolding ab by (auto simp: nth_list_update x)
    then show "\<exists>s'. (case s of (vmin, vmax) \<Rightarrow> do {
     e \<leftarrow> i32 (i + r + 1); e \<leftarrow> i32 (min e (n - 1) * c); vmin \<leftarrow> wr_i vmin i e;
     e \<leftarrow> i32 (max (i - r) 0 * c); vmax \<leftarrow> wr_i vmax i e; Some (vmin, vmax) }) = Some s' \<and> ?P (i + 1) s'"
      by (simp add: ab i0 i1 w)
  qed (use assms in auto)
  then obtain a b where ab: "fill_ends n r c (vmin, vmax) = Some (a, b)" "?P n (a, b)" by (auto simp: fill_ends_def)
  then have "rd_i a x = Some (min (x + r + 1) (n - 1) * c) \<and> rd_i b x = Some (max (x - r) 0 * c)" if "0 \<le> x" "x < n" for x
    using that assms(2) by (simp add: rd_i_ok)
  then show ?thesis using ab by blast
qed

section \<open>The pass over the rows\<close>

lemma row_sum_ok:
  assumes "length pix = 4 * nat (w * h)" "4 * (w * h) < 2 ^ 31" "0 < w" "0 \<le> y" "y < h" "0 \<le> r"
  shows "row_sum pix w r (y * w) = Some (window r w (\<lambda>k. pix_val pix (y * w + k)) 0)"
proof -
  let ?f = "\<lambda>k. pix_val pix (y * w + clamp w k)"
  have "\<exists>s'. for_loop (- r) (r + 1) (\<lambda>i s. do { p \<leftarrow> i32 ((y * w + min (w - 1) (max i 0)) * 4); v \<leftarrow> pix_at pix p; Some (s + v) }) 0 = Some s' \<and>
    s' = sum ?f {-r..<r + 1}"
  proof (rule for_loop_inv [where P = "\<lambda>i s. s = sum ?f {-r..<i}"])
    fix i s
    assume i: "- r \<le> i" "i < r + 1" and s: "s = sum ?f {-r..<i}"
    have b: "0 \<le> y * w + clamp w i" "y * w + clamp w i < w * h" using idx_bound [of "clamp w i" w y h] clamp_bounds [of w i] assms by auto
    then have "i32 ((y * w + clamp w i) * 4) = Some ((y * w + clamp w i) * 4)" using assms(2) by (intro idx_i32)
    moreover have "pix_at pix ((y * w + clamp w i) * 4) = Some (pix_val pix (y * w + clamp w i))" using b by (intro pix_at_ok [OF assms(1)]) auto
    ultimately show "\<exists>s'. do { p \<leftarrow> i32 ((y * w + min (w - 1) (max i 0)) * 4); v \<leftarrow> pix_at pix p; Some (s + v) } = Some s' \<and> s' = sum ?f {-r..<i + 1}"
      using s by (simp add: sum_upto_step [OF i(1)] flip: clamp_def)
  qed (use assms in auto)
  moreover have "{-r..<r + 1} = {-r..r}" by auto
  ultimately show ?thesis by (simp add: row_sum_def window_def)
qed

text \<open>What the pass over the rows is to put at position j.\<close>

definition row_target :: "byte list \<Rightarrow> int \<Rightarrow> int \<Rightarrow> int \<Rightarrow> rgba" where
  "row_target pix w r j = quot (2 * r + 1) (window r w (\<lambda>k. pix_val pix (j div w * w + k)) (j mod w))"

lemma row_step_ok:
  assumes "dv_ok (2 * r + 1) dv" "0 \<le> r" "length pix = 4 * nat (w * h)" "4 * (w * h) < 2 ^ 31" "0 \<le> y" "y < h" "0 \<le> x" "x < w"
    "rd_i vmin x = Some (min (x + r + 1) (w - 1))" "rd_i vmax x = Some (max (x - r) 0)"
    "planes_len (nat (w * h)) pl" "\<forall>j. 0 \<le> j \<and> j < y * w + x \<longrightarrow> pl_val pl j = row_target pix w r j"
    "s = window r w (\<lambda>k. pix_val pix (y * w + k)) x"
  shows "\<exists>pl'. row_step dv vmin vmax pix (y * w) x (pl, s, y * w + x) =
      Some (pl', window r w (\<lambda>k. pix_val pix (y * w + k)) (x + 1), y * w + (x + 1)) \<and>
    planes_len (nat (w * h)) pl' \<and> (\<forall>j. 0 \<le> j \<and> j < y * w + (x + 1) \<longrightarrow> pl_val pl' j = row_target pix w r j)"
proof -
  have b: "0 \<le> y * w + x \<and> y * w + x < w * h" using idx_bound assms(5-8) by blast
  have r: "in_range (255 * (2 * r + 1)) s" unfolding assms(13) by (rule window_range) (use assms in \<open>auto simp: pix_val_def in_range_of_bytes\<close>)
  obtain pl' where pl': "plane_put dv s pl (y * w + x) = Some pl'" "planes_len (nat (w * h)) pl'"
    "\<forall>j. 0 \<le> j \<longrightarrow> pl_val pl' j = (if j = y * w + x then quot (2 * r + 1) s else pl_val pl j)"
    using plane_put_ok [OF assms(1) r assms(11), of "y * w + x"] b by auto
  have at: "i32 ((y * w + k) * 4) = Some ((y * w + k) * 4)" "pix_at pix ((y * w + k) * 4) = Some (pix_val pix (y * w + k))" if "0 \<le> k" "k < w" for k
  proof -
    have k: "0 \<le> y * w + k" "y * w + k < w * h" using idx_bound that assms(5,6) by blast+
    then show "i32 ((y * w + k) * 4) = Some ((y * w + k) * 4)" using assms(4) by (intro idx_i32)
    show "pix_at pix ((y * w + k) * 4) = Some (pix_val pix (y * w + k))" using k by (intro pix_at_ok [OF assms(3)]) auto
  qed
  have k: "0 \<le> min (x + r + 1) (w - 1)" "min (x + r + 1) (w - 1) < w" "0 \<le> max (x - r) 0" "max (x - r) 0 < w" using assms by auto
  have "row_target pix w r (y * w + x) = quot (2 * r + 1) s" using assms(13) idx_div [OF assms(7,8), of y] by (simp add: row_target_def)
  then have t: "\<forall>j. 0 \<le> j \<and> j < y * w + (x + 1) \<longrightarrow> pl_val pl' j = row_target pix w r j" using pl'(3) assms(12) by auto
  have "row_step dv vmin vmax pix (y * w) x (pl, s, y * w + x) =
      Some (pl', window r w (\<lambda>k. pix_val pix (y * w + k)) (x + 1), y * w + (x + 1))"
    unfolding row_step_def prod.case assms(13) pl'(1) [unfolded assms(13)] assms(9,10) bind.bind_lunit at(1) [OF k(1,2)] at(1) [OF k(3,4)] at(2) [OF k(1,2)] at(2) [OF k(3,4)]
      window_step [OF assms(7,8,2)] by simp
  then show ?thesis using pl'(2) t by blast
qed

lemma row_pass_ok:
  assumes "dv_ok (2 * r + 1) dv" "0 \<le> r" "length pix = 4 * nat (w * h)" "4 * (w * h) < 2 ^ 31" "0 < w" "0 < h" "planes_len (nat (w * h)) pl"
    "\<forall>x. 0 \<le> x \<and> x < w \<longrightarrow> rd_i vmin x = Some (min (x + r + 1) (w - 1)) \<and> rd_i vmax x = Some (max (x - r) 0)"
  shows "\<exists>pl'. row_pass dv vmin vmax pix w h r pl = Some pl' \<and> planes_len (nat (w * h)) pl' \<and>
    (\<forall>j. 0 \<le> j \<and> j < w * h \<longrightarrow> pl_val pl' j = row_target pix w r j)"
proof -
  let ?ok = "\<lambda>k pl. planes_len (nat (w * h)) pl \<and> (\<forall>j. 0 \<le> j \<and> j < k \<longrightarrow> pl_val pl j = row_target pix w r j)"
  let ?P = "\<lambda>y (pl, yi, yw). yi = y * w \<and> yw = y * w \<and> ?ok (y * w) pl"
  have "\<exists>s'. for_loop 0 h (\<lambda>y (pl, yi, yw). do {
       s \<leftarrow> row_sum pix w r yi;
       (pl, _, yi) \<leftarrow> for_loop 0 w (row_step dv vmin vmax pix yw) (pl, s, yi);
       yw \<leftarrow> i32 (yw + w);
       Some (pl, yi, yw) }) (pl, 0, 0) = Some s' \<and> ?P h s'"
  proof (rule for_loop_inv [where P = ?P])
    fix y and st :: "planes \<times> int \<times> int"
    assume y: "0 \<le> y" "y < h" and st: "?P y st"
    obtain pl1 where pl1: "st = (pl1, y * w, y * w)" "?ok (y * w) pl1" using st by (cases st) auto
    let ?win = "window r w (\<lambda>k. pix_val pix (y * w + k))"
    let ?Q = "\<lambda>x (pl, s, yi). yi = y * w + x \<and> s = ?win x \<and> ?ok (y * w + x) pl"
    have "\<exists>s'. for_loop 0 w (row_step dv vmin vmax pix (y * w)) (pl1, ?win 0, y * w) = Some s' \<and> ?Q w s'"
    proof (rule for_loop_inv [where P = ?Q])
      fix x and q :: "planes \<times> rgba \<times> int"
      assume x: "0 \<le> x" "x < w" and q: "?Q x q"
      obtain pl2 where pl2: "q = (pl2, ?win x, y * w + x)" "?ok (y * w + x) pl2" using q by (cases q) auto
      show "\<exists>s'. row_step dv vmin vmax pix (y * w) x q = Some s' \<and> ?Q (x + 1) s'"
        using row_step_ok [OF assms(1-4) y x, of vmin vmax pl2 "?win x"] pl2 x assms(8) by fastforce
    qed (use pl1 assms in auto)
    then obtain pl3 s3 where pl3: "for_loop 0 w (row_step dv vmin vmax pix (y * w)) (pl1, ?win 0, y * w) = Some (pl3, s3, y * w + w)" "?ok (y * w + w) pl3" by auto
    have b: "0 \<le> y * w" "y * w < w * h" "w \<le> w * h" using idx_bound [of 0 w y h] y assms(5,6) by auto
    then have "i32 (y * w + w) = Some (y * w + w)" using assms(4,5) by (intro i32_ok; linarith)
    moreover have "(y + 1) * w = y * w + w" by (simp add: algebra_simps)
    ultimately show "\<exists>s'. (case st of (pl, yi, yw) \<Rightarrow> do {
       s \<leftarrow> row_sum pix w r yi;
       (pl, _, yi) \<leftarrow> for_loop 0 w (row_step dv vmin vmax pix yw) (pl, s, yi);
       yw \<leftarrow> i32 (yw + w);
       Some (pl, yi, yw) }) = Some s' \<and> ?P (y + 1) s'"
      using pl3 by (simp add: pl1(1) row_sum_ok [OF assms(3-5) y assms(2)])
  qed (use assms in auto)
  then show ?thesis by (auto simp: row_pass_def mult.commute)
qed

section \<open>The pass over the columns\<close>

lemma max_mult: "0 < w \<Longrightarrow> max 0 (i * w) = max i 0 * w" for i w :: int
  by (cases "0 \<le> i") (auto simp: max_def mult_le_0_iff zero_le_mult_iff)

lemma col_sum_ok:
  assumes "planes_len (nat (w * h)) pl" "4 * (w * h) < 2 ^ 31" "0 \<le> x" "x < w" "0 < r" "r < h"
  shows "col_sum pl w r x = Some (window r h (\<lambda>k. pl_val pl (k * w + x)) 0)"
proof -
  let ?f = "\<lambda>k. pl_val pl (clamp h k * w + x)"
  have w: "0 < w" using assms by simp
  have rw: "(r + 1) * w \<le> w * h" "(- r) * w = - (r * w)" "0 \<le> r * w" "r * w \<le> (r + 1) * w"
    using mult_left_mono [of "r + 1" h w] w assms by (simp_all add: algebra_simps)
  have e: "i32 (i * w) = Some (i * w)" if "- r \<le> i" "i \<le> r + 1" for i
  proof -
    have "(- r) * w \<le> i * w" "i * w \<le> (r + 1) * w" using that w by (intro mult_right_mono; simp)+
    then show ?thesis using rw assms(2) by (intro i32_ok; linarith)
  qed
  have "\<exists>s'. for_loop (- r) (r + 1) (\<lambda>i (s, yp). do { v \<leftarrow> plane_at pl (max 0 yp + x); yp \<leftarrow> i32 (yp + w); Some (s + v, yp) }) (0, - r * w) = Some s' \<and>
    s' = (sum ?f {-r..<r + 1}, (r + 1) * w)"
  proof (rule for_loop_inv [where P = "\<lambda>i s. s = (sum ?f {-r..<i}, i * w)"])
    fix i and s :: "rgba \<times> int"
    assume i: "- r \<le> i" "i < r + 1" and s: "s = (sum ?f {-r..<i}, i * w)"
    have c: "max i 0 = clamp h i" using i assms by (simp add: clamp_def)
    have b: "0 \<le> clamp h i * w + x \<and> clamp h i * w + x < w * h" using idx_bound [of x w "clamp h i" h] clamp_bounds [of h i] assms by auto
    have "plane_at pl (max 0 (i * w) + x) = Some (pl_val pl (clamp h i * w + x))"
      unfolding max_mult [OF w] c using b by (intro plane_at_ok [OF assms(1)]) auto
    moreover have "i32 (i * w + w) = Some ((i + 1) * w)" using e [of "i + 1"] i by (simp add: algebra_simps)
    ultimately show "\<exists>s'. (case s of (s, yp) \<Rightarrow> do { v \<leftarrow> plane_at pl (max 0 yp + x); yp \<leftarrow> i32 (yp + w); Some (s + v, yp) }) = Some s' \<and>
        s' = (sum ?f {-r..<i + 1}, (i + 1) * w)"
      using s by (simp add: sum_upto_step [OF i(1)])
  qed (use assms in auto)
  moreover have "{-r..<r + 1} = {-r..r}" by auto
  ultimately show ?thesis using e [of "- r"] assms(5) by (simp add: col_sum_def window_def)
qed

text \<open>The first column already leaves the arrays when the window is higher than the image.\<close>

lemma col_sum_overrun:
  assumes "planes_len (nat (w * h)) pl" "0 \<le> x" "x < w" "0 < h" "h \<le> r"
  shows "col_sum pl w r x = None"
proof -
  have w: "0 < w" using assms by simp
  let ?f = "\<lambda>i (s, yp). do { v \<leftarrow> plane_at pl (max 0 yp + x); yp \<leftarrow> i32 (yp + w); Some (s + v, yp) }"
  have "for_loop (- r) (r + 1) ?f (0, - r * w) = None"
  proof (rule for_loop_None [where P = "\<lambda>i s. snd s = i * w" and k = h])
    fix s :: "rgba \<times> int"
    assume "snd s = h * w"
    moreover have "plane_at pl (max 0 (h * w) + x) = None"
      using assms by (intro plane_at_out [OF assms(1)]) (simp add: mult.commute)
    ultimately show "?f h s = None" by (cases s) simp
  next
    fix i and s s' :: "rgba \<times> int"
    assume "snd s = i * w" "?f i s = Some s'"
    then show "snd s' = (i + 1) * w" by (cases s) (auto simp: i32_def algebra_simps split: bind_splits if_splits)
  qed (use assms in auto)
  then show ?thesis by (cases "i32 (- r * w) = None") (auto simp: col_sum_def i32_def split: if_splits)
qed

definition col_target :: "planes \<Rightarrow> int \<Rightarrow> int \<Rightarrow> int \<Rightarrow> int \<Rightarrow> rgba" where
  "col_target pl w h r j = quot (2 * r + 1) (window r h (\<lambda>k. pl_val pl (k * w + j mod w)) (j div w))"

text \<open>Position j is written before column x and row y.\<close>

definition col_before :: "int \<Rightarrow> int \<Rightarrow> int \<Rightarrow> int \<Rightarrow> bool" where
  "col_before w x y j = (j mod w < x \<or> j mod w = x \<and> j div w < y)"

lemma col_step_ok:
  assumes "dv_ok (2 * r + 1) dv" "0 \<le> r" "planes_len (nat (w * h)) pl" "4 * (w * h) < 2 ^ 31" "0 \<le> x" "x < w" "0 \<le> y" "y < h"
    "rd_i vmin y = Some (min (y + r + 1) (h - 1) * w)" "rd_i vmax y = Some (max (y - r) 0 * w)"
    "length pix = 4 * nat (w * h)" "\<forall>j. 0 \<le> j \<and> j < w * h \<and> col_before w x y j \<longrightarrow> pix_val pix j = col_target pl w h r j"
    "s = window r h (\<lambda>k. pl_val pl (k * w + x)) y"
  shows "\<exists>pix'. col_step dv vmin vmax pl w x y (pix, s, y * w + x) =
      Some (pix', window r h (\<lambda>k. pl_val pl (k * w + x)) (y + 1), (y + 1) * w + x) \<and>
    length pix' = 4 * nat (w * h) \<and> (\<forall>j. 0 \<le> j \<and> j < w * h \<and> col_before w x (y + 1) j \<longrightarrow> pix_val pix' j = col_target pl w h r j)"
proof -
  let ?win = "window r h (\<lambda>k. pl_val pl (k * w + x))"
  have b: "0 \<le> y * w + x" "y * w + x < w * h" "w \<le> w * h" using idx_bound [OF assms(5-8)] idx_bound [of "w - 1" w 0 h] assms by auto
  have r: "in_range (255 * (2 * r + 1)) (?win y)" by (rule window_range) (use assms in \<open>auto simp: pl_val_def in_range_of_bytes\<close>)
  obtain pix' where pix': "pix_put dv (?win y) pix ((y * w + x) * 4) = Some pix'" "length pix' = 4 * nat (w * h)"
    "\<forall>j. 0 \<le> j \<longrightarrow> pix_val pix' j = (if j = y * w + x then quot (2 * r + 1) (?win y) else pix_val pix j)"
    using pix_put_ok [OF assms(1) r assms(11), of "y * w + x"] b by auto
  have at: "plane_at pl (x + k * w) = Some (pl_val pl (k * w + x))" if "0 \<le> k" "k < h" for k
    using idx_bound [OF assms(5,6) that] plane_at_ok [OF assms(3), of "k * w + x"] by (simp add: add.commute)
  have k: "0 \<le> min (y + r + 1) (h - 1)" "min (y + r + 1) (h - 1) < h" "0 \<le> max (y - r) 0" "max (y - r) 0 < h" using assms by auto
  have i: "i32 ((y * w + x) * 4) = Some ((y * w + x) * 4)" using b assms(4) by (intro idx_i32)
  have n: "i32 (y * w + x + w) = Some ((y + 1) * w + x)"
  proof -
    have "i32 (y * w + x + w) = Some (y * w + x + w)" using b assms(4-6) by (intro i32_ok; linarith)
    then show ?thesis by (simp add: algebra_simps)
  qed
  have "col_target pl w h r (y * w + x) = quot (2 * r + 1) (?win y)" using idx_div [OF assms(5,6), of y] by (simp add: col_target_def)
  moreover have "col_before w x (y + 1) j \<longleftrightarrow> col_before w x y j \<or> j = y * w + x" for j
  proof -
    have "j mod w = x \<and> j div w = y \<longleftrightarrow> j = y * w + x" using assms(5,6) mult_div_mod_eq [of w j] idx_div [of x w y] by (auto simp: mult.commute)
    then show ?thesis by (auto simp: col_before_def)
  qed
  ultimately have t: "\<forall>j. 0 \<le> j \<and> j < w * h \<and> col_before w x (y + 1) j \<longrightarrow> pix_val pix' j = col_target pl w h r j" using pix'(3) assms(12) by auto
  have "col_step dv vmin vmax pl w x y (pix, s, y * w + x) = Some (pix', ?win (y + 1), (y + 1) * w + x)"
    unfolding col_step_def prod.case assms(13) i bind.bind_lunit pix'(1) assms(9,10) at [OF k(1,2)] at [OF k(3,4)] n window_step [OF assms(7,8,2)] ..
  then show ?thesis using pix'(2) t by blast
qed

lemma col_pass_ok:
  assumes "dv_ok (2 * r + 1) dv" "0 < r" "r < h" "length pix = 4 * nat (w * h)" "4 * (w * h) < 2 ^ 31" "0 < w" "planes_len (nat (w * h)) pl"
    "\<forall>y. 0 \<le> y \<and> y < h \<longrightarrow> rd_i vmin y = Some (min (y + r + 1) (h - 1) * w) \<and> rd_i vmax y = Some (max (y - r) 0 * w)"
  shows "\<exists>pix'. col_pass dv vmin vmax pl w h r pix = Some pix' \<and> length pix' = 4 * nat (w * h) \<and>
    (\<forall>j. 0 \<le> j \<and> j < w * h \<longrightarrow> pix_val pix' j = col_target pl w h r j)"
proof -
  let ?ok = "\<lambda>x y pix. length pix = 4 * nat (w * h) \<and> (\<forall>j. 0 \<le> j \<and> j < w * h \<and> col_before w x y j \<longrightarrow> pix_val pix j = col_target pl w h r j)"
  have "\<exists>pix'. for_loop 0 w (\<lambda>x pix. do {
     s \<leftarrow> col_sum pl w r x;
     (pix, _, _) \<leftarrow> for_loop 0 h (col_step dv vmin vmax pl w x) (pix, s, x);
     Some pix }) pix = Some pix' \<and> ?ok w 0 pix'"
  proof (rule for_loop_inv [where P = "\<lambda>x. ?ok x 0"])
    fix x and pix1 :: "byte list"
    assume x: "0 \<le> x" "x < w" and pix1: "?ok x 0 pix1"
    let ?win = "window r h (\<lambda>k. pl_val pl (k * w + x))"
    let ?Q = "\<lambda>y (pix, s, yi). yi = y * w + x \<and> s = ?win y \<and> ?ok x y pix"
    have "\<exists>s'. for_loop 0 h (col_step dv vmin vmax pl w x) (pix1, ?win 0, x) = Some s' \<and> ?Q h s'"
    proof (rule for_loop_inv [where P = ?Q])
      fix y and q :: "byte list \<times> rgba \<times> int"
      assume y: "0 \<le> y" "y < h" and q: "?Q y q"
      obtain pix2 where pix2: "q = (pix2, ?win y, y * w + x)" "?ok x y pix2" using q by (cases q) auto
      have r0: "0 \<le> r" using assms by simp
      show "\<exists>s'. col_step dv vmin vmax pl w x y q = Some s' \<and> ?Q (y + 1) s'"
        using col_step_ok [OF assms(1) r0 assms(7,5) x y, of vmin vmax pix2 "?win y"] pix2 y assms(8) by fastforce
    qed (use pix1 assms in auto)
    then obtain pix3 s3 where pix3: "for_loop 0 h (col_step dv vmin vmax pl w x) (pix1, ?win 0, x) = Some (pix3, s3, h * w + x)" "?ok x h pix3" by auto
    have "col_before w x h j" if "0 \<le> j" "j < w * h" "col_before w (x + 1) 0 j" for j
    proof -
      have "(j div w) * w \<le> j" using div_mult_mod_eq [of j w] pos_mod_sign [OF assms(6), of j] by linarith
      then have "(j div w) * w < h * w" using that(2) by (simp add: mult.commute)
      then have "j div w < h" using assms(6) by (simp add: mult_less_cancel_right)
      moreover have "0 \<le> j div w" using that assms(6) by (simp add: pos_imp_zdiv_nonneg_iff)
      ultimately show ?thesis using that(3) by (auto simp: col_before_def)
    qed
    then show "\<exists>s'. (do { s \<leftarrow> col_sum pl w r x; (pix, _, _) \<leftarrow> for_loop 0 h (col_step dv vmin vmax pl w x) (pix1, s, x); Some pix }) = Some s' \<and> ?ok (x + 1) 0 s'"
      using pix3 by (simp add: col_sum_ok [OF assms(7,5) x assms(2,3)])
  next
    have "\<not> col_before w 0 0 j" if "0 \<le> j" for j
      using that assms(6) pos_mod_sign [of w j] by (simp add: col_before_def not_less pos_imp_zdiv_nonneg_iff)
    then show "?ok 0 0 pix" using assms(4) by blast
  qed (use assms in auto)
  moreover have "col_before w w 0 j" for j using assms(6) by (simp add: col_before_def)
  ultimately show ?thesis by (auto simp: col_pass_def)
qed

section \<open>Images\<close>

text \<open>An image gives the pixel in column x and row y; each pass replaces it by the mean over 2 * r + 1 pixels of its row or
  column, rounded down, where the pixels at the border stand for those outside.\<close>

type_synonym image = "int \<Rightarrow> int \<Rightarrow> rgba"

definition image_of :: "int \<Rightarrow> byte list \<Rightarrow> image" where
  "image_of w pix = (\<lambda>x y. pix_val pix (y * w + x))"

definition blur_rows :: "int \<Rightarrow> int \<Rightarrow> image \<Rightarrow> image" where
  "blur_rows r w img = (\<lambda>x y. quot (2 * r + 1) (\<Sum>i \<in> {-r..r}. img (clamp w (x + i)) y))"

definition blur_cols :: "int \<Rightarrow> int \<Rightarrow> image \<Rightarrow> image" where
  "blur_cols r h img = (\<lambda>x y. quot (2 * r + 1) (\<Sum>i \<in> {-r..r}. img x (clamp h (y + i))))"

definition box_blur :: "int \<Rightarrow> int \<Rightarrow> int \<Rightarrow> image \<Rightarrow> image" where
  "box_blur r w h img = blur_cols r h (blur_rows r w img)"

definition same_image :: "int \<Rightarrow> int \<Rightarrow> image \<Rightarrow> image \<Rightarrow> bool" where
  "same_image w h img img' = (\<forall>x y. 0 \<le> x \<and> x < w \<and> 0 \<le> y \<and> y < h \<longrightarrow> img x y = img' x y)"

lemma box_blur_cong: "same_image w h img img' \<Longrightarrow> same_image w h (box_blur r w h img) (box_blur r w h img')"
  using clamp_bounds by (auto simp: same_image_def box_blur_def blur_rows_def blur_cols_def intro!: arg_cong [of _ _ "quot _"] sum.cong)

lemma targets_blur:
  assumes "\<forall>j. 0 \<le> j \<and> j < w * h \<longrightarrow> pl_val pl j = row_target pix w r j" "\<forall>j. 0 \<le> j \<and> j < w * h \<longrightarrow> pix_val pix' j = col_target pl w h r j"
  shows "same_image w h (image_of w pix') (box_blur r w h (image_of w pix))"
  unfolding same_image_def
proof (intro allI impI)
  fix x y
  assume xy: "0 \<le> x \<and> x < w \<and> 0 \<le> y \<and> y < h"
  have p: "pl_val pl (k * w + x) = blur_rows r w (image_of w pix) x k" if "0 \<le> k" "k < h" for k
    using idx_bound [of x w k h] idx_div [of x w k] assms(1) xy that
    by (simp add: row_target_def blur_rows_def image_of_def window_def)
  have "pix_val pix' (y * w + x) = quot (2 * r + 1) (window r h (\<lambda>k. pl_val pl (k * w + x)) y)"
    using idx_bound [of x w y h] idx_div [of x w y] assms(2) xy by (simp add: col_target_def)
  also have "\<dots> = blur_cols r h (blur_rows r w (image_of w pix)) x y"
    unfolding blur_cols_def window_def using clamp_bounds [of h] xy p by (intro arg_cong [of _ _ "quot _"] sum.cong) auto
  finally show "image_of w pix' x y = box_blur r w h (image_of w pix) x y" by (simp add: image_of_def box_blur_def)
qed

section \<open>One turn\<close>

definition state_ok :: "int \<Rightarrow> int \<Rightarrow> blur_state \<Rightarrow> bool" where
  "state_ok w h st = (case st of (pix, pl, vmin, vmax) \<Rightarrow>
     length pix = 4 * nat (w * h) \<and> planes_len (nat (w * h)) pl \<and> length vmin = nat (max w h) \<and> length vmax = nat (max w h))"

lemma sides: "0 < w \<Longrightarrow> 0 < h \<Longrightarrow> w \<le> w * h \<and> h \<le> w * h" for w h :: int
  by (simp add: mult_le_cancel_left1 mult_le_cancel_right1)

lemma before_cols:
  assumes "dv_ok (2 * r + 1) dv" "0 < r" "r \<le> 256" "0 < w" "0 < h" "4 * (w * h) < 2 ^ 31" "state_ok w h (pix, pl, vmin, vmax)"
  shows "\<exists>vmin1 vmax1 pl1 vmin2 vmax2. fill_ends w r 1 (vmin, vmax) = Some (vmin1, vmax1) \<and> row_pass dv vmin1 vmax1 pix w h r pl = Some pl1 \<and>
    fill_ends h r w (vmin1, vmax1) = Some (vmin2, vmax2) \<and> state_ok w h (pix, pl1, vmin2, vmax2) \<and>
    (\<forall>j. 0 \<le> j \<and> j < w * h \<longrightarrow> pl_val pl1 j = row_target pix w r j) \<and>
    (\<forall>y. 0 \<le> y \<and> y < h \<longrightarrow> rd_i vmin2 y = Some (min (y + r + 1) (h - 1) * w) \<and> rd_i vmax2 y = Some (max (y - r) 0 * w))"
proof -
  note s = sides [OF assms(4,5)] and st = assms(7) [unfolded state_ok_def prod.case]
  let ?m = "nat (max w h)"
  have m: "w \<le> int ?m" "h \<le> int ?m" by linarith+
  have c1: "w * 1 + r + 1 < 2 ^ 31" using s assms(3,6) by (simp add: mult.commute)
  obtain vmin1 vmax1 where f1: "fill_ends w r 1 (vmin, vmax) = Some (vmin1, vmax1)" "length vmin1 = ?m" "length vmax1 = ?m"
    "\<forall>x. 0 \<le> x \<and> x < w \<longrightarrow> rd_i vmin1 x = Some (min (x + r + 1) (w - 1)) \<and> rd_i vmax1 x = Some (max (x - r) 0)"
    using fill_ends_ok [OF _ m(1) _ _ c1, of vmin vmax] assms(2,4) st by auto
  obtain pl1 where p: "row_pass dv vmin1 vmax1 pix w h r pl = Some pl1" "planes_len (nat (w * h)) pl1"
    "\<forall>j. 0 \<le> j \<and> j < w * h \<longrightarrow> pl_val pl1 j = row_target pix w r j"
    using row_pass_ok [OF assms(1) _ _ assms(6,4,5) _ f1(4), of pix pl] assms(2) st by auto
  have c: "h * w + r + 1 < 2 ^ 31" using assms(3,6) by (simp add: mult.commute)
  obtain vmin2 vmax2 where "fill_ends h r w (vmin1, vmax1) = Some (vmin2, vmax2)" "length vmin2 = ?m" "length vmax2 = ?m"
    "\<forall>x. 0 \<le> x \<and> x < h \<longrightarrow> rd_i vmin2 x = Some (min (x + r + 1) (h - 1) * w) \<and> rd_i vmax2 x = Some (max (x - r) 0 * w)"
    using fill_ends_ok [OF _ m(2) _ assms(4) c f1(2,3)] assms(2,5) by auto
  then show ?thesis using f1 p st by (auto simp: state_ok_def)
qed

lemma blur_once_ok:
  assumes "dv_ok (2 * r + 1) dv" "0 < r" "r \<le> 256" "0 < w" "r < h" "4 * (w * h) < 2 ^ 31" "state_ok w h st"
  shows "\<exists>st'. blur_once dv w h r st = Some st' \<and> state_ok w h st' \<and> same_image w h (image_of w (fst st')) (box_blur r w h (image_of w (fst st)))"
proof -
  obtain pix pl vmin vmax where st: "st = (pix, pl, vmin, vmax)" by (cases st)
  have h: "0 < h" using assms by simp
  obtain vmin1 vmax1 pl1 vmin2 vmax2 where b: "fill_ends w r 1 (vmin, vmax) = Some (vmin1, vmax1)" "row_pass dv vmin1 vmax1 pix w h r pl = Some pl1"
    "fill_ends h r w (vmin1, vmax1) = Some (vmin2, vmax2)" "state_ok w h (pix, pl1, vmin2, vmax2)"
    "\<forall>j. 0 \<le> j \<and> j < w * h \<longrightarrow> pl_val pl1 j = row_target pix w r j"
    "\<forall>y. 0 \<le> y \<and> y < h \<longrightarrow> rd_i vmin2 y = Some (min (y + r + 1) (h - 1) * w) \<and> rd_i vmax2 y = Some (max (y - r) 0 * w)"
    using before_cols [OF assms(1-4) h assms(6) assms(7) [unfolded st]] by blast
  have l: "length pix = 4 * nat (w * h)" "planes_len (nat (w * h)) pl1" using b(4) by (auto simp: state_ok_def)
  obtain pix' where c: "col_pass dv vmin2 vmax2 pl1 w h r pix = Some pix'" "length pix' = 4 * nat (w * h)"
    "\<forall>j. 0 \<le> j \<and> j < w * h \<longrightarrow> pix_val pix' j = col_target pl1 w h r j"
    using col_pass_ok [OF assms(1,2,5) l(1) assms(6,4) l(2) b(6)] by blast
  have "blur_once dv w h r st = Some (pix', pl1, vmin2, vmax2)" by (simp add: blur_once_def st b(1-3) c(1))
  then show ?thesis using b(4) c(2) targets_blur [OF b(5) c(3)] by (auto simp: state_ok_def st)
qed

lemma blur_once_overrun:
  assumes "dv_ok (2 * r + 1) dv" "0 < r" "r \<le> 256" "0 < w" "0 < h" "h \<le> r" "4 * (w * h) < 2 ^ 31" "state_ok w h st"
  shows "blur_once dv w h r st = None"
proof -
  obtain pix pl vmin vmax where st: "st = (pix, pl, vmin, vmax)" by (cases st)
  obtain vmin1 vmax1 pl1 vmin2 vmax2 where b: "fill_ends w r 1 (vmin, vmax) = Some (vmin1, vmax1)" "row_pass dv vmin1 vmax1 pix w h r pl = Some pl1"
    "fill_ends h r w (vmin1, vmax1) = Some (vmin2, vmax2)" "state_ok w h (pix, pl1, vmin2, vmax2)"
    using before_cols [OF assms(1-5) assms(7) assms(8) [unfolded st]] by blast
  have "planes_len (nat (w * h)) pl1" using b(4) by (simp add: state_ok_def)
  then have "col_sum pl1 w r 0 = None" using assms by (intro col_sum_overrun [of w h]) auto
  then have "col_pass dv vmin2 vmax2 pl1 w h r pix = None" unfolding col_pass_def
    by (intro for_loop_None [where P = "\<lambda>_ _. True" and k = 0]) (use assms in auto)
  then show ?thesis by (simp add: blur_once_def st b(1-3))
qed

text \<open>The arrays before the first turn.\<close>

lemma boxblur_start:
  assumes "\<forall>n. ok n" "1 \<le> radius" "radius \<le> 256" "0 < w" "0 < h" "4 * (w * h) < 2 ^ 31" "length pix = 4 * nat (w * h)"
  shows "\<exists>dv st. dv_ok (2 * radius + 1) dv \<and> state_ok w h st \<and> fst st = pix \<and>
    boxblur_8888 ok junk junk_i pix w h radius reps =
      (if reps < 0 then None else map_option fst (for_loop 0 reps (\<lambda>_. blur_once dv w h radius) st))"
proof -
  note s = sides [OF assms(4,5)]
  let ?d = "2 * radius + 1"
  obtain dv where dv: "fill_dv ?d (fresh ok junk (256 * ?d) (nat (256 * ?d))) = Some dv" "dv_ok ?d dv"
    using fill_dv_ok [of ?d "fresh ok junk (256 * ?d) (nat (256 * ?d))"] assms(1,2) by (auto simp: fresh_def)
  have n: "i32 (w * h) = Some (w * h)" "i32 (max w h * 4) = Some (max w h * 4)" using s assms(4-6) by (intro i32_ok; linarith)+
  have "(2 :: int) ^ 31 < 2 ^ 64" by simp
  then have m: "(w * h) mod 2 ^ 64 = w * h" "(max w h * 4) mod 2 ^ 64 = max w h * 4" using s assms(4-6) by (intro mod_pos_pos_trivial; linarith)+
  define plane where "plane = fresh ok junk (w * h) (nat (w * h))"
  define ends where "ends = fresh ok junk_i (max w h * 4) (nat (max w h * 4) div 4)"
  define st where "st = (pix, \<lparr>pl_a = plane, pl_r = plane, pl_g = plane, pl_b = plane\<rparr>, ends, ends)"
  have "nat (max w h * 4) div 4 = nat (max w h)" using assms(4) by (simp add: nat_mult_distrib)
  then have "state_ok w h st" using assms(1,7) by (simp add: st_def state_ok_def planes_len_def plane_def ends_def fresh_def)
  moreover have "boxblur_8888 ok junk junk_i pix w h radius reps =
      (if reps < 0 then None else map_option fst (for_loop 0 reps (\<lambda>_. blur_once dv w h radius) st))"
  proof -
    have g: "(radius < 1 \<or> 256 < radius) = False" using assms(2,3) by auto
    have f: "Option.bind F (\<lambda>(pix, _). Some pix) = map_option fst F" for F :: "blur_state option" by (cases F) auto
    show ?thesis unfolding boxblur_8888_def g if_False n bind.bind_lunit Let_def m dv(1) st_def plane_def ends_def f ..
  qed
  ultimately show ?thesis using dv(2) by (auto simp: st_def)
qed

section \<open>Properties\<close>

text \<open>C31: The running sums of boxblur\_8888 compute the box blur.  For a radius from 1 to 256 that is smaller than the height, and a
  bitmap of less than 2 to the 31 bytes, the code returns without undefined behaviour and leaves the bitmap whose pixels are
  those of the image blurred the given number of times, each time by the means over the rows and then over the columns.
  A radius below 1, or above 256 and below the height, changes nothing.\<close>

theorem boxblur_spec:
  assumes "\<forall>n. ok n" "radius < h" "0 < w" "4 * (w * h) < 2 ^ 31" "length pix = 4 * nat (w * h)" "0 \<le> reps"
  shows "\<exists>pix'. boxblur_8888 ok junk junk_i pix w h radius reps = Some pix' \<and> length pix' = length pix \<and>
    (if 1 \<le> radius \<and> radius \<le> 256 then same_image w h (image_of w pix') ((box_blur radius w h ^^ nat reps) (image_of w pix)) else pix' = pix)"
proof (cases "1 \<le> radius \<and> radius \<le> 256")
  case True
  then have r: "1 \<le> radius" "radius \<le> 256" "0 < h" "0 < radius" using assms(2) by auto
  obtain dv st where st: "dv_ok (2 * radius + 1) dv" "state_ok w h st" "fst st = pix"
    "boxblur_8888 ok junk junk_i pix w h radius reps = map_option fst (for_loop 0 reps (\<lambda>_. blur_once dv w h radius) st)"
    using boxblur_start [OF assms(1) r(1,2) assms(3) r(3) assms(4,5), of junk junk_i reps] assms(6) by auto
  let ?P = "\<lambda>k st. state_ok w h st \<and> same_image w h (image_of w (fst st)) ((box_blur radius w h ^^ nat k) (image_of w pix))"
  have "\<exists>st'. for_loop 0 reps (\<lambda>_. blur_once dv w h radius) st = Some st' \<and> ?P reps st'"
  proof (rule for_loop_inv [where P = ?P])
    fix k st1
    assume k: "0 \<le> k" and st1: "?P k st1"
    obtain st2 where st2: "blur_once dv w h radius st1 = Some st2" "state_ok w h st2" "same_image w h (image_of w (fst st2)) (box_blur radius w h (image_of w (fst st1)))"
      using blur_once_ok [OF st(1) r(4,2) assms(3,2,4)] st1 by blast
    have "nat (k + 1) = Suc (nat k)" using k by simp
    then have "same_image w h (image_of w (fst st2)) ((box_blur radius w h ^^ nat (k + 1)) (image_of w pix))"
      using st2(3) box_blur_cong [of w h "image_of w (fst st1)" _ radius] st1 by (simp add: same_image_def)
    then show "\<exists>s'. blur_once dv w h radius st1 = Some s' \<and> ?P (k + 1) s'" using st2 by blast
  qed (use assms st in \<open>auto simp: same_image_def\<close>)
  then show ?thesis using True st(4) assms(5) by (auto simp: state_ok_def)
next
  case False
  then show ?thesis by (auto simp: boxblur_8888_def)
qed

theorem boxblur_spec_witness:
  "\<exists>pix'. boxblur_8888 (\<lambda>_. True) (\<lambda>_. 7) (\<lambda>_. 7) [10, 20, 30, 40, 40, 50, 60, 71] 1 2 1 1 = Some pix' \<and> length pix' = 8 \<and>
     pix_val pix' 0 = RGBA 20 30 40 50 \<and> pix_val pix' 1 = RGBA 30 40 50 60"
proof -
  let ?pix = "[10, 20, 30, 40, 40, 50, 60, 71] :: byte list"
  have "box_blur 1 1 2 (image_of 1 ?pix) 0 0 = RGBA 20 30 40 50" "box_blur 1 1 2 (image_of 1 ?pix) 0 1 = RGBA 30 40 50 60" by code_simp+
  moreover obtain pix' where p: "boxblur_8888 (\<lambda>_. True) (\<lambda>_. 7) (\<lambda>_. 7) ?pix 1 2 1 1 = Some pix'" "length pix' = 8"
    "same_image 1 2 (image_of 1 pix') (box_blur 1 1 2 (image_of 1 ?pix))"
    using boxblur_spec [of "\<lambda>_. True" 1 2 1 ?pix 1 "\<lambda>_. 7" "\<lambda>_. 7"] by auto
  moreover have "image_of 1 pix' 0 0 = box_blur 1 1 2 (image_of 1 ?pix) 0 0" "image_of 1 pix' 0 1 = box_blur 1 1 2 (image_of 1 ?pix) 0 1"
    using p(3) by (simp_all only: same_image_def) auto
  ultimately show ?thesis by (simp add: image_of_def)
qed

text \<open>C32: A radius that is not smaller than the height makes boxblur\_8888 read behind the end of its arrays: the first sum over
  a column has no upper limit for the row, unlike the first sum over a row.\<close>

theorem boxblur_overread:
  assumes "\<forall>n. ok n" "1 \<le> radius" "radius \<le> 256" "h \<le> radius" "0 < h" "0 < w" "4 * (w * h) < 2 ^ 31" "length pix = 4 * nat (w * h)" "0 < reps"
  shows "boxblur_8888 ok junk junk_i pix w h radius reps = None"
proof -
  obtain dv st where st: "dv_ok (2 * radius + 1) dv" "state_ok w h st"
    "boxblur_8888 ok junk junk_i pix w h radius reps = map_option fst (for_loop 0 reps (\<lambda>_. blur_once dv w h radius) st)"
    using boxblur_start [OF assms(1-3,6,5,7,8), of junk junk_i reps] assms(9) by auto
  have "0 < radius" using assms(2) by simp
  then have n: "blur_once dv w h radius st = None" using blur_once_overrun [OF st(1) _ assms(3,6,5,4,7) st(2)] by blast
  have "for_loop 0 reps (\<lambda>_. blur_once dv w h radius) st = None"
    using n assms(9) by (intro for_loop_None [where P = "\<lambda>_ s. s = st" and k = 0]) auto
  then show ?thesis using st(3) by simp
qed

theorem boxblur_overread_witness: "boxblur_8888 (\<lambda>_. True) (\<lambda>_. 7) (\<lambda>_. 7) [1, 2, 3, 4] 1 1 1 1 = None"
  using boxblur_overread [of "\<lambda>_. True" 1 1 1 "[1, 2, 3, 4]" 1 "\<lambda>_. 7" "\<lambda>_. 7"] by simp

end
