(* ===== verification/Halffloat.thy ===== *)
theory Halffloat
  imports Prelude
begin

text \<open>
  Half precision numbers, todo-later/halffloat/halffloat.c.  A float is its 32 bits, as in the union Bits; si and
  ui are the same word, compared as signed and shifted logically through ui.  Left shifts of signed words wrap,
  right shifts keep the sign, as gcc documents.
\<close>

section \<open>What the code uses of float\<close>

text \<open>A finite float that is not negative is f32\_mant * 2 to the f32\_exp.\<close>

definition f32_mant :: "u32 \<Rightarrow> int" where
  "f32_mant b = (if uint b div 2 ^ 23 = 0 then uint b else 2 ^ 23 + uint b mod 2 ^ 23)"

definition f32_exp :: "u32 \<Rightarrow> int" where
  "f32_exp b = (if uint b div 2 ^ 23 = 0 then - 149 else uint b div 2 ^ 23 - 150)"

text \<open>The product of p, which is a power of 2, with b is exact; (int32\_t) cuts it off.  For infinity, a NaN and a product
  from 2 to the 31 on the result is not defined, and indef stands for it.\<close>

definition f32_mul_to_int :: "u32 \<Rightarrow> u32 \<Rightarrow> u32 \<Rightarrow> u32" where
  "f32_mul_to_int indef p b =
     (let m = f32_mant p * f32_mant b; e = f32_exp p + f32_exp b;
          n = (if e < 0 then m div 2 ^ nat (- e) else m * 2 ^ nat e) in
      if 255 \<le> uint b div 2 ^ 23 \<or> 2 ^ 31 \<le> n then indef else word_of_int n)"

function top_bit :: "int \<Rightarrow> int" where
  "top_bit n = (if n < 2 then 0 else 1 + top_bit (n div 2))"
  by pat_completeness auto
termination top_bit
  by (relation "measure nat") auto

declare top_bit.simps [simp del]

text \<open>The product of p, which is a power of 2, with the integer n below 2 to the 24: exact while the exponent is in range.\<close>

definition f32_mul_int :: "u32 \<Rightarrow> u32 \<Rightarrow> u32" where
  "f32_mul_int p n =
     (let k = top_bit (uint n) in
      if n = 0 then 0
      else word_of_int ((k + f32_exp p + 23 + 127) * 2 ^ 23 + (uint n * 2 ^ nat (23 - k) - 2 ^ 23)))"

section \<open>Constants\<close>

definition shift_n :: nat where
  "shift_n = 13"

definition shiftSign :: nat where
  "shiftSign = 16"

definition infN :: u32 where
  "infN = 0x7F800000"

definition maxN :: u32 where
  "maxN = 0x477FE000"

definition minN :: u32 where
  "minN = 0x38800000"

definition signN :: u32 where
  "signN = 0x80000000"

definition mulN :: u32 where
  "mulN = 0x52000000"

definition mulC :: u32 where
  "mulC = 0x33800000"

definition subC :: u32 where
  "subC = 0x003FF"

definition norC :: u32 where
  "norC = 0x00400"

text \<open>The variables that halffloat\_init sets.\<close>

record halffloat =
  infC :: u32
  nanN :: u32
  maxC :: u32
  minC :: u32
  signC :: u32
  maxD :: u32
  minD :: u32

definition halffloat_init :: halffloat where
  "halffloat_init =
     (let infC = signed_drop_bit shift_n infN;
          nanN = push_bit shift_n (infC + 1);
          maxC = signed_drop_bit shift_n maxN;
          minC = signed_drop_bit shift_n minN;
          signC = signed_drop_bit shiftSign signN in
      \<lparr>infC = infC, nanN = nanN, maxC = maxC, minC = minC, signC = signC,
       maxD = infC - maxC - 1, minD = minC - subC - 1\<rparr>)"

section \<open>Conversion\<close>

text \<open>v \<open>^=\<close> (x \<open>^\<close> v) \<open>&\<close> -c\<close>

definition pick :: "bool \<Rightarrow> u32 \<Rightarrow> u32 \<Rightarrow> u32" where
  "pick c x v = v XOR ((x XOR v) AND - (if c then 1 else 0))"

definition halffloat_compress :: "halffloat \<Rightarrow> u32 \<Rightarrow> u32 \<Rightarrow> 16 word" where
  "halffloat_compress K indef value =
     (let v = value;
          sign = v AND signN;
          v = v XOR sign;
          sign = drop_bit shiftSign sign;
          s = f32_mul_to_int indef mulN v;
          v = pick (v <s minN) s v;
          v = pick (v <s infN \<and> maxN <s v) infN v;
          v = pick (v <s nanN K \<and> infN <s v) (nanN K) v;
          v = drop_bit shift_n v;
          v = pick (maxC K <s v) (v - maxD K) v;
          v = pick (subC <s v) (v - minD K) v in
      ucast (v OR sign))"

definition halffloat_decompress :: "halffloat \<Rightarrow> 16 word \<Rightarrow> u32" where
  "halffloat_decompress K value =
     (let v = ucast value;
          sign = v AND signC K;
          v = v XOR sign;
          sign = push_bit shiftSign sign;
          v = pick (subC <s v) (v + minD K) v;
          v = pick (maxC K <s v) (v + maxD K) v;
          s = f32_mul_int mulC v;
          mask = v <s norC;
          v = push_bit shift_n v;
          v = pick mask s v in
      v OR sign)"

end
