(* ===== verification/HalffloatProps.thy ===== *)
theory HalffloatProps
  imports Halffloat
begin

text \<open>
  Half precision numbers: both conversions as functions of sign and magnitude, and what they keep and lose.
\<close>

section \<open>Words as integers\<close>

lemma pick_if: "pick c x v = (if c then x else v)"
proof -
  have "v XOR (x XOR v) = x" by (simp add: xor.assoc [symmetric] xor.commute)
  then show ?thesis by (simp add: pick_def)
qed

lemma sless_small: "uint a < 2 ^ 31 \<Longrightarrow> uint b < 2 ^ 31 \<Longrightarrow> a <s b \<longleftrightarrow> uint a < uint b" for a b :: u32
proof -
  have "sint w = uint w" if "uint w < 2 ^ 31" for w :: u32
    using that signed_take_bit_int_eq_self [of 31 "uint w"] order_trans [of "- (2 ^ 31)" 0 "uint w"] by (simp add: sint_uint)
  then show "uint a < 2 ^ 31 \<Longrightarrow> uint b < 2 ^ 31 \<Longrightarrow> a <s b \<longleftrightarrow> uint a < uint b" by (simp add: word_sless_alt)
qed

lemma unat_bound: "uint w < 2 ^ n \<Longrightarrow> unat w < 2 ^ n"
proof -
  assume "uint w < 2 ^ n"
  then have "int (unat w) < int (2 ^ n)" by (simp only: uint_nat [symmetric] of_nat_power of_nat_numeral)
  then show "unat w < 2 ^ n" by (simp only: of_nat_less_iff)
qed

text \<open>A bit above the value of a word is added by OR and taken out by AND and XOR.\<close>

lemma top_or:
  fixes w :: "'a::len word"
  assumes "uint w < 2 ^ n" "n < LENGTH('a)"
  shows "(w OR push_bit n 1) AND push_bit n 1 = push_bit n 1" "(w OR push_bit n 1) XOR push_bit n 1 = w" "w AND push_bit n 1 = 0"
proof -
  have b: "\<not> bit w n" using bit_word_less [OF unat_bound [OF assms(1)], of n] by blast
  have p: "bit (2 ^ n :: 'a word) k \<longleftrightarrow> k = n" if "k < LENGTH('a)" for k
    using that assms(2) by (auto simp: bit_exp_iff)
  show "(w OR push_bit n 1) AND push_bit n 1 = push_bit n 1" by (rule bit_word_eqI) (auto simp: bit_and_iff bit_or_iff p)
  show "(w OR push_bit n 1) XOR push_bit n 1 = w" by (rule bit_word_eqI) (use b in \<open>auto simp: bit_xor_iff bit_or_iff p\<close>)
  show "w AND push_bit n 1 = 0" by (rule bit_word_eqI) (use b in \<open>auto simp: bit_and_iff p\<close>)
qed

definition mark :: "'a::len word \<Rightarrow> bool \<Rightarrow> 'a word \<Rightarrow> 'a word" where
  "mark t s w = w OR (if s then t else 0)"

lemma split_top:
  fixes w :: "'a::len word"
  assumes "n = LENGTH('a) - 1"
  shows "\<exists>s v. w = mark (push_bit n 1) s v \<and> uint v < 2 ^ n"
proof (intro exI conjI)
  show "w = mark (push_bit n 1) (bit w n) (take_bit n w)"
  proof (rule bit_word_eqI)
    fix k
    assume "k < LENGTH('a)"
    then have "k = n \<or> k < n" using assms by auto
    then show "bit w k \<longleftrightarrow> bit (mark (push_bit n 1) (bit w n) (take_bit n w)) k"
      using assms by (auto simp: mark_def bit_simps)
  qed
  show "uint (take_bit n w) < 2 ^ n" by (simp add: unsigned_take_bit_eq)
qed

lemma hf_init:
  "infC halffloat_init = 0x3FC00" "nanN halffloat_init = 0x7F802000" "maxC halffloat_init = 0x23BFF" "minC halffloat_init = 0x1C400"
  "signC halffloat_init = 0xFFFF8000" "maxD halffloat_init = 0x1C000" "minD halffloat_init = 0x1C000"
  by code_simp+

section \<open>Magnitudes\<close>

text \<open>What becomes of the bits of a float that is not negative, and of those of a half.\<close>

definition small :: "int \<Rightarrow> int" where
  "small u = (if u < 2 ^ 23 then 0 else (2 ^ 23 + u mod 2 ^ 23) div 2 ^ nat (113 - u div 2 ^ 23))"

definition to_half :: "int \<Rightarrow> int" where
  "to_half u =
     (if u < 0x38800000 then small u div 2 ^ 13
      else if u \<le> 0x477FE000 then u div 2 ^ 13 - 0x1C000
      else if u \<le> 0x7F800000 then 0x7C00
      else max u 0x7F802000 div 2 ^ 13 - 0x38000)"

definition of_half :: "int \<Rightarrow> int" where
  "of_half m =
     (if m = 0 then 0
      else if m < 0x400 then (top_bit m + 103) * 2 ^ 23 + (m * 2 ^ nat (23 - top_bit m) - 2 ^ 23)
      else if m \<le> 0x7BFF then (m + 0x1C000) * 2 ^ 13
      else (m + 0x38000) * 2 ^ 13)"

lemma top_bit_bounds: "1 \<le> n \<Longrightarrow> 0 \<le> top_bit n \<and> 2 ^ nat (top_bit n) \<le> n \<and> n < 2 ^ nat (top_bit n + 1)"
proof (induction n rule: top_bit.induct)
  case (1 n)
  show ?case
  proof (cases "n < 2")
    case True
    then have "n = 1" using 1 by simp
    moreover have "top_bit 1 = 0" by (subst top_bit.simps) simp
    ultimately show ?thesis by simp
  next
    case False
    have t: "top_bit n = 1 + top_bit (n div 2)" using False by (subst top_bit.simps) simp
    have h: "0 \<le> top_bit (n div 2)" "2 ^ nat (top_bit (n div 2)) \<le> n div 2" "n div 2 < 2 ^ nat (top_bit (n div 2) + 1)" using 1 False by auto
    have e: "nat (top_bit n) = Suc (nat (top_bit (n div 2)))" "nat (top_bit n + 1) = Suc (nat (top_bit (n div 2) + 1))" using h(1) t by auto
    have "2 * 2 ^ nat (top_bit (n div 2)) \<le> n" "n < 2 * 2 ^ nat (top_bit (n div 2) + 1)" using h(2,3) by linarith+
    then show ?thesis unfolding e power_Suc using h(1) t by simp
  qed
qed

lemma small_bounds: "0 \<le> u \<Longrightarrow> u < 0x38800000 \<Longrightarrow> 0 \<le> small u \<and> small u < 2 ^ 23"
proof -
  assume u: "0 \<le> u" "u < 0x38800000"
  show ?thesis
  proof (cases "u < 2 ^ 23")
    case False
    have "u div 2 ^ 23 < 113" using u by simp
    then obtain k where k: "nat (113 - u div 2 ^ 23) = Suc k" by (cases "nat (113 - u div 2 ^ 23)") auto
    have m: "0 \<le> u mod 2 ^ 23" "u mod 2 ^ 23 < 2 ^ 23" by simp_all
    have "(2 ^ 23 + u mod 2 ^ 23) div 2 ^ Suc k \<le> (2 ^ 23 + u mod 2 ^ 23) div 2" by (intro zdiv_mono2) (use m in auto)
    also have "\<dots> < 2 ^ 23" using m by simp
    finally have "(2 ^ 23 + u mod 2 ^ 23) div 2 ^ Suc k < 2 ^ 23" .
    moreover have "0 \<le> (2 ^ 23 + u mod 2 ^ 23) div 2 ^ Suc k" using m by (intro pos_imp_zdiv_nonneg_iff [THEN iffD2]) auto
    moreover have "small u = (2 ^ 23 + u mod 2 ^ 23) div 2 ^ Suc k" unfolding small_def k using False by simp
    ultimately show ?thesis by simp
  qed (simp add: small_def)
qed

lemma to_half_bounds: "0 \<le> u \<Longrightarrow> u < 2 ^ 31 \<Longrightarrow> 0 \<le> to_half u \<and> to_half u < 2 ^ 15"
  using small_bounds [of u] by (auto simp: to_half_def max_def)

lemma mul_small:
  assumes "uint v < 0x38800000"
  shows "f32_mul_to_int indef mulN v = word_of_int (small (uint v))"
proof -
  have p: "f32_mant mulN = 2 ^ 23" "f32_exp mulN = 14" by (simp_all add: f32_mant_def f32_exp_def mulN_def)
  have d: "uint v div 2 ^ 23 < 113" using assms by simp
  have b: "0 \<le> small (uint v) \<and> small (uint v) < 2 ^ 23" using small_bounds [of "uint v"] assms by simp
  show ?thesis
  proof (cases "uint v < 2 ^ 23")
    case True
    then have "uint v div 2 ^ 23 = 0" by (simp add: div_pos_pos_trivial)
    moreover have "2 ^ 23 * uint v div 2 ^ 135 = 0" using True by (intro div_pos_pos_trivial) auto
    ultimately show ?thesis using True p by (simp add: f32_mul_to_int_def f32_mant_def f32_exp_def small_def)
  next
    case False
    have ne: "1 \<le> uint v div 2 ^ 23" using False by simp
    define e where "e = nat (113 - uint v div 2 ^ 23)"
    have q: "14 + (uint v div 2 ^ 23 - 150) < 0" "nat (- (14 + (uint v div 2 ^ 23 - 150))) = 23 + e" using d by (auto simp: e_def)
    have "2 ^ 23 * (2 ^ 23 + uint v mod 2 ^ 23) div 2 ^ (23 + e) = small (uint v)" 
    proof -
      have "small (uint v) = (2 ^ 23 + uint v mod 2 ^ 23) div 2 ^ e" using False by (simp add: small_def e_def)
      moreover have "2 ^ 23 * a div (2 ^ 23 * b) = a div b" for a b :: int by (rule div_mult_mult1) simp
      ultimately show ?thesis by (simp only: power_add)
    qed
    moreover have "f32_mant v = 2 ^ 23 + uint v mod 2 ^ 23" "f32_exp v = uint v div 2 ^ 23 - 150" using ne by (simp_all add: f32_mant_def f32_exp_def)
    ultimately have "f32_mul_to_int indef mulN v = (if 255 \<le> uint v div 2 ^ 23 \<or> 2 ^ 31 \<le> small (uint v) then indef else word_of_int (small (uint v)))"
      unfolding f32_mul_to_int_def Let_def p by (simp only: q if_True)
    then show ?thesis using b d by simp
  qed
qed

section \<open>Both conversions on magnitudes\<close>

abbreviation W :: "int \<Rightarrow> u32" where
  "W \<equiv> word_of_int"

lemma uint_W: "0 \<le> a \<Longrightarrow> a < 2 ^ 31 \<Longrightarrow> uint (W a) = a"
  by (simp add: uint_word_of_int)

lemma W_less: "0 \<le> a \<Longrightarrow> a < 2 ^ 31 \<Longrightarrow> 0 \<le> b \<Longrightarrow> b < 2 ^ 31 \<Longrightarrow> W a <s W b \<longleftrightarrow> a < b"
  using sless_small [of "W a" "W b"] by (simp add: uint_W)

lemma W_shift_down: "0 \<le> a \<Longrightarrow> a < 2 ^ 31 \<Longrightarrow> drop_bit 13 (W a) = W (a div 2 ^ 13)"
proof -
  assume a: "0 \<le> a" "a < 2 ^ 31"
  have "0 \<le> a div 2 ^ 13" "a div 2 ^ 13 < 2 ^ 31" using a by auto
  then have "uint (W (a div 2 ^ 13)) = a div 2 ^ 13" by (rule uint_W)
  moreover have "uint (drop_bit 13 (W a)) = a div 2 ^ 13" using uint_W [OF a] by (simp add: drop_bit_eq_div uint_div)
  ultimately show ?thesis by (metis word_uint_eqI)
qed

lemma W_shift_up: "push_bit 13 (W a) = W (a * 2 ^ 13)"
  by (simp add: push_bit_eq_mult)

lemma W_consts: "minN = W 0x38800000" "infN = W 0x7F800000" "maxN = W 0x477FE000" "subC = W 0x3FF" "norC = W 0x400"
  "nanN halffloat_init = W 0x7F802000" "maxC halffloat_init = W 0x23BFF" "maxD halffloat_init = W 0x1C000" "minD halffloat_init = W 0x1C000"
  by (simp_all add: minN_def infN_def maxN_def subC_def norC_def hf_init)

definition down :: "u32 \<Rightarrow> u32 \<Rightarrow> u32" where
  "down indef v =
     (let v = pick (v <s minN) (f32_mul_to_int indef mulN v) v;
          v = pick (v <s infN \<and> maxN <s v) infN v;
          v = pick (v <s nanN halffloat_init \<and> infN <s v) (nanN halffloat_init) v;
          v = drop_bit shift_n v;
          v = pick (maxC halffloat_init <s v) (v - maxD halffloat_init) v in
      pick (subC <s v) (v - minD halffloat_init) v)"

lemma down_ok:
  assumes u: "0 \<le> u" "u < 2 ^ 31"
  shows "down indef (W u) = W (to_half u)"
proof -
  define x1 where "x1 = (if u < 0x38800000 then small u else u)"
  define x2 where "x2 = (if x1 < 0x7F800000 \<and> 0x477FE000 < x1 then 0x7F800000 else x1)"
  define x3 where "x3 = (if x2 < 0x7F802000 \<and> 0x7F800000 < x2 then 0x7F802000 else x2)"
  define x4 where "x4 = x3 div 2 ^ 13"
  define x5 where "x5 = (if 0x23BFF < x4 then x4 - 0x1C000 else x4)"
  define x6 where "x6 = (if 0x3FF < x5 then x5 - 0x1C000 else x5)"
  have b1: "0 \<le> x1" "x1 < 2 ^ 31" using u small_bounds [of u] by (auto simp: x1_def)
  have b2: "0 \<le> x2" "x2 < 2 ^ 31" using b1 by (auto simp: x2_def)
  have b3: "0 \<le> x3" "x3 < 2 ^ 31" using b2 by (auto simp: x3_def)
  have b4: "0 \<le> x4" "x4 < 2 ^ 18" using b3 by (auto simp: x4_def)
  have b5: "0 \<le> x5" "x5 < 2 ^ 31" using b4 by (auto simp: x5_def)
  have s1: "pick (W u <s minN) (f32_mul_to_int indef mulN (W u)) (W u) = W x1"
    using mul_small [of "W u" indef] u W_less [of u "0x38800000"] by (simp add: pick_if W_consts W_less x1_def uint_W)
  have s2: "pick (W x1 <s infN \<and> maxN <s W x1) infN (W x1) = W x2" using b1 W_less [of x1 "0x7F800000"] W_less [of "0x477FE000" x1] by (simp add: pick_if W_consts W_less x2_def)
  have s3: "pick (W x2 <s nanN halffloat_init \<and> infN <s W x2) (nanN halffloat_init) (W x2) = W x3" using b2 W_less [of x2 "0x7F802000"] W_less [of "0x7F800000" x2] by (simp add: pick_if W_consts W_less x3_def)
  have s4: "drop_bit shift_n (W x3) = W x4" using b3 by (simp only: shift_n_def W_shift_down x4_def)
  have s5: "pick (maxC halffloat_init <s W x4) (W x4 - maxD halffloat_init) (W x4) = W x5" using b4 W_less [of "0x23BFF" x4] by (simp add: pick_if W_consts x5_def)
  have s6: "pick (subC <s W x5) (W x5 - minD halffloat_init) (W x5) = W x6" using b5 W_less [of "0x3FF" x5] by (simp add: pick_if W_consts x6_def)
  have "x6 = to_half u"
  proof (cases "u < 0x38800000")
    case True
    then have "x3 = small u" "small u < 2 ^ 23" using small_bounds [of u] u by (auto simp: x1_def x2_def x3_def)
    then have "x4 = small u div 2 ^ 13" "x4 < 0x400" by (simp_all add: x4_def)
    then show ?thesis using True by (simp add: x5_def x6_def to_half_def)
  next
    case False
    then have x1: "x1 = u" by (simp add: x1_def)
    consider "u \<le> 0x477FE000" | "0x477FE000 < u" "u \<le> 0x7F800000" | "0x7F800000 < u" by linarith
    then show ?thesis
    proof cases
      case 1
      then have "x4 = u div 2 ^ 13" by (simp add: x4_def x3_def x2_def x1)
      moreover have "0x1C400 \<le> u div 2 ^ 13" "u div 2 ^ 13 \<le> 0x23BFF" using 1 False by simp_all
      ultimately show ?thesis using 1 False by (simp add: x6_def x5_def to_half_def)
    next
      case 2
      then have "x3 = 0x7F800000" by (auto simp: x3_def x2_def x1)
      then show ?thesis using 2 False by (simp add: x6_def x5_def x4_def to_half_def)
    next
      case 3
      then have "x3 = max u 0x7F802000" by (simp add: x3_def x2_def x1 max_def)
      moreover define y where "y = max u 0x7F802000"
      ultimately have "x4 = y div 2 ^ 13" "0x3FC01 \<le> y div 2 ^ 13" by (simp_all add: x4_def)
      then show ?thesis using 3 False by (simp add: x6_def x5_def to_half_def flip: y_def)
    qed
  qed
  then show ?thesis unfolding down_def Let_def s1 s2 s3 s4 s5 s6 by simp
qed

lemma compress_mark:
  assumes "uint v < 2 ^ 31"
  shows "halffloat_compress halffloat_init indef (mark signN s v) = mark 0x8000 s (word_of_int (to_half (uint v)))"
proof -
  have p: "signN = push_bit 31 1" by (simp add: signN_def)
  have a: "mark signN s v AND signN = (if s then signN else 0)" "mark signN s v XOR (if s then signN else 0) = v"
    unfolding mark_def p using top_or [of v 31] assms by simp_all
  have d: "drop_bit shiftSign (if s then signN else 0) = (if s then 0x8000 else 0)" by (cases s) (simp_all add: signN_def shiftSign_def)
  have v: "v = W (uint v)" by simp
  have "down indef v = W (to_half (uint v))" using down_ok [of "uint v" indef] assms by simp
  then have "halffloat_compress halffloat_init indef (mark signN s v) = ucast (W (to_half (uint v)) OR (if s then 0x8000 else 0))"
    unfolding halffloat_compress_def Let_def a d down_def by simp
  moreover have "ucast (W (to_half (uint v))) = (word_of_int (to_half (uint v)) :: 16 word)"
    using to_half_bounds [of "uint v"] assms by (simp add: ucast_eq uint_W)
  ultimately show ?thesis by (simp add: mark_def unsigned_or_eq)
qed

lemma half_small:
  assumes "0 < m" "m < 0x400"
  obtains e f where "of_half m = e * 2 ^ 23 + f" "103 \<le> e" "e < 113" "0 \<le> f" "f < 2 ^ 23" "2 ^ 23 + f = m * 2 ^ nat (126 - e)"
proof -
  define k where "k = top_bit m"
  have k: "0 \<le> k" "2 ^ nat k \<le> m" "m < 2 ^ nat (k + 1)" using top_bit_bounds [of m] assms by (auto simp: k_def)
  have "k < 10"
  proof (rule ccontr)
    assume "\<not> k < 10"
    then have "(2 :: int) ^ 10 \<le> 2 ^ nat k" by (intro power_increasing) auto
    then show False using k(2) assms(2) by simp
  qed
  define p where "p = nat (23 - k)"
  have e: "(2 :: int) ^ 23 = 2 ^ nat k * 2 ^ p" "(2 :: int) ^ 24 = 2 ^ nat (k + 1) * 2 ^ p"
  proof -
    have "nat k + p = 23" "nat (k + 1) + p = 24" using k(1) \<open>k < 10\<close> by (auto simp: p_def)
    then show "(2 :: int) ^ 23 = 2 ^ nat k * 2 ^ p" "(2 :: int) ^ 24 = 2 ^ nat (k + 1) * 2 ^ p" by (simp_all only: power_add [symmetric])
  qed
  have "2 ^ nat k * 2 ^ p \<le> m * 2 ^ p" "m * 2 ^ p < 2 ^ nat (k + 1) * 2 ^ p" using k by simp_all
  then have f: "(2 :: int) ^ 23 \<le> m * 2 ^ p" "m * 2 ^ p < 2 ^ 24" by (simp_all only: e)
  show ?thesis
  proof (rule that [of "k + 103" "m * 2 ^ p - 2 ^ 23"])
    show "of_half m = (k + 103) * 2 ^ 23 + (m * 2 ^ p - 2 ^ 23)" using assms by (simp add: of_half_def k_def p_def)
  qed (use k(1) \<open>k < 10\<close> f in \<open>simp_all add: p_def\<close>)
qed

lemma of_half_bounds: "0 \<le> m \<Longrightarrow> m < 2 ^ 15 \<Longrightarrow> 0 \<le> of_half m \<and> of_half m < 2 ^ 31"
proof -
  assume m: "0 \<le> m" "m < 2 ^ 15"
  show ?thesis
  proof (cases "0 < m \<and> m < 0x400")
    case True
    then obtain e f where "of_half m = e * 2 ^ 23 + f" "103 \<le> e" "e < 113" "0 \<le> f" "f < 2 ^ 23" using half_small by metis
    then show ?thesis by simp
  qed (use m in \<open>auto simp: of_half_def\<close>)
qed

text \<open>A float that is cut off to a half and back.\<close>

definition cut :: "int \<Rightarrow> int" where
  "cut u =
     (if u < 0x38800000 then of_half (small u div 2 ^ 13)
      else if u \<le> 0x477FE000 then u div 2 ^ 13 * 2 ^ 13
      else if u \<le> 0x7F800000 then 0x7F800000
      else max u 0x7F802000 div 2 ^ 13 * 2 ^ 13)"

lemma of_to_half: "0 \<le> u \<Longrightarrow> u < 2 ^ 31 \<Longrightarrow> of_half (to_half u) = cut u"
proof -
  assume u: "0 \<le> u" "u < 2 ^ 31"
  consider "u < 0x38800000" | "0x38800000 \<le> u" "u \<le> 0x477FE000" | "0x477FE000 < u" "u \<le> 0x7F800000" | "0x7F800000 < u" by linarith
  then show ?thesis
  proof cases
    case 2
    then have "0x1C400 \<le> u div 2 ^ 13" "u div 2 ^ 13 \<le> 0x23BFF" by simp_all
    then show ?thesis using 2 by (simp add: to_half_def cut_def of_half_def)
  next
    case 4
    define y where "y = max u 0x7F802000"
    then have "0x3FC01 \<le> y div 2 ^ 13" by simp
    then show ?thesis using 4 by (simp add: to_half_def cut_def of_half_def flip: y_def)
  qed (simp_all add: to_half_def cut_def of_half_def)
qed

lemma to_of_half: "0 \<le> m \<Longrightarrow> m < 2 ^ 15 \<Longrightarrow> to_half (of_half m) = m"
proof -
  assume m: "0 \<le> m" "m < 2 ^ 15"
  consider "m = 0" | "0 < m" "m < 0x400" | "0x400 \<le> m" "m \<le> 0x7BFF" | "m = 0x7C00" | "0x7C00 < m" using m by linarith
  then show ?thesis
  proof cases
    case 2
    obtain e f where ef: "of_half m = e * 2 ^ 23 + f" "103 \<le> e" "e < 113" "0 \<le> f" "f < 2 ^ 23" "2 ^ 23 + f = m * 2 ^ nat (126 - e)"
      using half_small 2 by metis
    have d: "(e * 2 ^ 23 + f) div 2 ^ 23 = e" "(e * 2 ^ 23 + f) mod 2 ^ 23 = f" using ef(4,5) by simp_all
    have "(2 :: int) ^ nat (126 - e) = 2 ^ 13 * 2 ^ nat (113 - e)"
      using ef(3) unfolding power_add [symmetric] by (intro arg_cong [of _ _ "(^) 2"]) simp
    then have "(2 ^ 23 + f) div 2 ^ nat (113 - e) = m * 2 ^ 13" unfolding ef(6) by simp
    moreover have "\<not> e * 2 ^ 23 + f < 2 ^ 23" "e * 2 ^ 23 + f < 0x38800000" using ef by simp_all
    ultimately show ?thesis unfolding ef(1) to_half_def small_def d by simp
  next
    case 3
    then show ?thesis by (simp add: of_half_def to_half_def)
  next
    case 5
    then have "0x7F802000 \<le> of_half m" by (simp add: of_half_def)
    then show ?thesis using 5 by (simp add: to_half_def max_absorb1) (simp add: of_half_def)
  qed (simp_all add: of_half_def to_half_def small_def)
qed

lemma uint_16: "0 \<le> m \<Longrightarrow> m < 2 ^ 15 \<Longrightarrow> uint (word_of_int m :: 16 word) = m"
  by (simp add: uint_word_of_int)

lemma sign_bits:
  fixes w :: u32
  assumes "uint w < 2 ^ 15"
  shows "mark 0x8000 s w AND signC halffloat_init = (if s then 0x8000 else 0)" "mark 0x8000 s w XOR (if s then 0x8000 else 0) = w"
proof -
  have p: "(0x8000 :: u32) = push_bit 15 1" by simp
  have s: "signC halffloat_init = push_bit 15 1 OR NOT (mask 16)" unfolding hf_init by code_simp
  have m: "w AND NOT (mask 16) = 0"
  proof -
    have "j < 16" if "bit w j" for j using bit_word_less [OF unat_bound [OF assms] that] by simp
    then show ?thesis by (intro bit_word_eqI) (auto simp: bit_and_iff bit_not_iff bit_mask_iff)
  qed
  show "mark 0x8000 s w XOR (if s then 0x8000 else 0) = w" unfolding mark_def p using top_or [of w 15] assms by simp
  have c: "(push_bit 15 1 :: u32) AND NOT (mask 16) = 0" by code_simp
  have "mark 0x8000 s w AND NOT (mask 16) = 0" unfolding mark_def p using m c by (simp add: bit.conj_disj_distrib2)
  moreover have "mark 0x8000 s w AND push_bit 15 1 = (if s then 0x8000 else 0)" unfolding mark_def p using top_or [of w 15] assms by simp
  ultimately show "mark 0x8000 s w AND signC halffloat_init = (if s then 0x8000 else 0)" unfolding s by (simp add: bit.conj_disj_distrib)
qed

definition up :: "u32 \<Rightarrow> u32" where
  "up v =
     (let v = pick (subC <s v) (v + minD halffloat_init) v;
          v = pick (maxC halffloat_init <s v) (v + maxD halffloat_init) v;
          s = f32_mul_int mulC v;
          mask = v <s norC;
          v = push_bit shift_n v in
      pick mask s v)"

lemma up_ok:
  assumes m: "0 \<le> m" "m < 2 ^ 15"
  shows "up (W m) = W (of_half m)"
proof -
  define x1 where "x1 = (if 0x3FF < m then m + 0x1C000 else m)"
  define x2 where "x2 = (if 0x23BFF < x1 then x1 + 0x1C000 else x1)"
  have b: "0 \<le> x1" "x1 < 2 ^ 18" "0 \<le> x2" "x2 < 2 ^ 18" using m by (auto simp: x1_def x2_def)
  have s1: "pick (subC <s W m) (W m + minD halffloat_init) (W m) = W x1" using m W_less [of "0x3FF" m] by (simp add: pick_if W_consts x1_def)
  have s2: "pick (maxC halffloat_init <s W x1) (W x1 + maxD halffloat_init) (W x1) = W x2" using b W_less [of "0x23BFF" x1] by (simp add: pick_if W_consts x2_def)
  have s3: "W x2 <s norC \<longleftrightarrow> x2 < 0x400" using b W_less [of x2 "0x400"] by (simp add: W_consts)
  have p: "f32_exp mulC = - 47" by (simp add: f32_exp_def mulC_def)
  have z: "W x2 = 0 \<longleftrightarrow> x2 = 0"
  proof
    assume "W x2 = 0"
    then have "uint (W x2) = 0" by simp
    then show "x2 = 0" using uint_W [of x2] b by simp
  qed simp
  have u: "uint (W x2) = x2" using b by (intro uint_W) auto
  have s4: "f32_mul_int mulC (W x2) = W (of_half x2)" if "x2 < 0x400"
    using that b by (simp add: f32_mul_int_def of_half_def Let_def p z u add.commute)
  have "up (W m) = (if x2 < 0x400 then W (of_half x2) else W (x2 * 2 ^ 13))"
    unfolding up_def Let_def s1 s2 s3 shift_n_def W_shift_up using s4 by (simp add: pick_if)
  also have "\<dots> = W (of_half m)"
  proof (cases "m < 0x400")
    case True
    then have "x2 = m" by (simp add: x1_def x2_def)
    then show ?thesis using True by simp
  next
    case False
    then have "x2 = (if m \<le> 0x7BFF then m + 0x1C000 else m + 0x38000)" by (auto simp: x1_def x2_def)
    then show ?thesis using False by (simp add: of_half_def)
  qed
  finally show ?thesis .
qed

lemma decompress_mark:
  assumes "0 \<le> m" "m < 2 ^ 15"
  shows "halffloat_decompress halffloat_init (mark 0x8000 s (word_of_int m)) = mark signN s (W (of_half m))"
proof -
  have u: "uint (W m) = m" using assms by (intro uint_W) auto
  have "ucast (word_of_int m :: 16 word) = W m" using uint_16 [OF assms] by (simp add: ucast_eq)
  then have v: "ucast (mark 0x8000 s (word_of_int m :: 16 word)) = mark 0x8000 s (W m)" by (simp add: mark_def unsigned_or_eq)
  have sb: "mark 0x8000 s (W m) AND signC halffloat_init = (if s then 0x8000 else 0)" "mark 0x8000 s (W m) XOR (if s then 0x8000 else 0) = W m"
    using sign_bits [of "W m" s] assms u by simp_all
  have d: "push_bit shiftSign (if s then 0x8000 else 0) = (if s then signN else 0)" by (cases s) (simp_all add: signN_def shiftSign_def)
  have "halffloat_decompress halffloat_init (mark 0x8000 s (word_of_int m)) = up (W m) OR (if s then signN else 0)"
    unfolding halffloat_decompress_def Let_def v sb d up_def ..
  then show ?thesis by (simp add: up_ok [OF assms] mark_def)
qed

section \<open>Properties\<close>

text \<open>C33: Every half precision number, the infinities, the zeros, the subnormal numbers and all NaNs included, is the same after
  halffloat\_decompress and halffloat\_compress, whatever the undefined conversions to int32\_t give.\<close>

theorem halffloat_roundtrip: "halffloat_compress halffloat_init indef (halffloat_decompress halffloat_init h) = h"
proof -
  obtain s v where h: "h = mark (push_bit 15 1) s v" "uint v < 2 ^ 15" using split_top [of 15 h] by auto
  have b: "0 \<le> uint v" "uint v < 2 ^ 15" using h(2) by simp_all
  have "h = mark 0x8000 s (word_of_int (uint v))" using h(1) by simp
  then have "halffloat_decompress halffloat_init h = mark signN s (W (of_half (uint v)))" using decompress_mark [OF b, of s] by simp
  moreover have u: "uint (W (of_half (uint v))) = of_half (uint v)" using of_half_bounds [OF b] by (intro uint_W) auto
  ultimately show ?thesis
    using compress_mark [of "W (of_half (uint v))" indef s] of_half_bounds [OF b] to_of_half [OF b] h(1) by simp
qed

text \<open>What halffloat\_compress loses.  The bits of a float are its sign and its magnitude u.  After halffloat\_decompress
  the sign is the same; of a magnitude in the range of the normal half precision numbers the low 13 bits are cleared, one above the greatest of
  them is infinity, a NaN is a NaN, and one below the least is cut off to a multiple of the least subnormal number.\<close>

theorem halffloat_cut:
  assumes "uint v < 2 ^ 31"
  shows "\<exists>v'. halffloat_decompress halffloat_init (halffloat_compress halffloat_init indef (mark signN s v)) = mark signN s v' \<and>
    (if uint v < uint minN then uint v' = of_half (small (uint v) div 2 ^ 13)
     else if uint v \<le> uint maxN then v' = v AND NOT 0x1FFF
     else if uint v \<le> uint infN then v' = infN
     else uint infN < uint v' \<and> uint v' < 2 ^ 31)"
proof -
  let ?u = "uint v" and ?v' = "W (cut (uint v))"
  have u: "0 \<le> ?u" by simp
  have "0 \<le> to_half ?u" "to_half ?u < 2 ^ 15" using to_half_bounds [OF u assms] by simp_all
  then have e: "halffloat_decompress halffloat_init (halffloat_compress halffloat_init indef (mark signN s v)) = mark signN s ?v'"
    using compress_mark [OF assms] decompress_mark of_to_half [OF u assms] by simp
  have c: "0 \<le> cut ?u \<and> cut ?u < 2 ^ 31"
    using of_half_bounds [of "to_half ?u"] to_half_bounds [OF u assms] of_to_half [OF u assms] by simp
  have uc: "uint ?v' = cut ?u" using c by (intro uint_W) auto
  have k: "uint minN = 0x38800000" "uint maxN = 0x477FE000" "uint infN = 0x7F800000" by (simp_all add: minN_def maxN_def infN_def)
  have clear: "v AND NOT 0x1FFF = W (?u div 2 ^ 13 * 2 ^ 13)"
  proof -
    have m: "(0x1FFF :: u32) = mask 13" by code_simp
    have "v AND NOT 0x1FFF = push_bit 13 (drop_bit 13 v)" unfolding m
      by (rule bit_word_eqI) (auto simp: bit_and_iff bit_not_iff bit_mask_iff bit_push_bit_iff bit_drop_bit_eq)
    also have "\<dots> = W (?u div 2 ^ 13 * 2 ^ 13)" using W_shift_down [of ?u] W_shift_up assms by simp
    finally show ?thesis .
  qed
  have "if ?u < uint minN then uint ?v' = of_half (small ?u div 2 ^ 13)
     else if ?u \<le> uint maxN then ?v' = v AND NOT 0x1FFF
     else if ?u \<le> uint infN then ?v' = infN
     else uint infN < uint ?v' \<and> uint ?v' < 2 ^ 31"
  proof -
    have "0x3FC01 \<le> y div 2 ^ 13" if "0x7F802000 \<le> y" for y :: int using that by simp
    from this [of "max ?u 0x7F802000"] have "0x7F800000 < max ?u 0x7F802000 div 2 ^ 13 * 2 ^ 13" by simp
    then show ?thesis using c unfolding uc clear k by (auto simp: cut_def infN_def)
  qed
  then show ?thesis using e by blast
qed

text \<open>pi loses its low bits.\<close>

theorem halffloat_cut_witness:
  "halffloat_decompress halffloat_init (halffloat_compress halffloat_init 0 0x40490FDB) = 0x40490000 \<and> uint (0x40490FDB :: u32) < 2 ^ 31"
  using halffloat_cut [of "0x40490FDB" 0 False] by (auto simp: mark_def minN_def maxN_def)

end
