(* ===== verification/Pool.thy ===== *)
theory Pool
  imports Prelude
begin

text \<open>
  The chunked allocator, todo-later/libgit2/src/pool.c.  A page is known by a number, which stands for its
  address, and a pointer into the pool is the number of its page and the offset in data.  The links of the free
  list lie in the freed blocks; p\_link holds what they point to and enc is the eight bytes of a pointer.  Values of uint32\_t are
  natural numbers with the wrap-around written out (u32w).
\<close>

section \<open>Pages and pools\<close>

type_synonym ptr = "nat \<times> nat"

record git_pool_page =
  pg_id :: nat
  pg_size :: nat
  pg_avail :: nat
  pg_data :: "byte list"

text \<open>p\_fresh is the number of the next page that is allocated.\<close>

record git_pool =
  p_open :: "git_pool_page list"
  p_full :: "git_pool_page list"
  p_free_list :: "ptr option"
  p_link :: "ptr \<Rightarrow> ptr option"
  p_item_size :: nat
  p_page_size :: nat
  p_items :: nat
  p_has_string_alloc :: bool
  p_has_multi_item_alloc :: bool
  p_has_large_page_alloc :: bool
  p_fresh :: nat

definition pages :: "git_pool \<Rightarrow> git_pool_page list" where
  "pages pool = p_open pool @ p_full pool"

definition page_of :: "git_pool \<Rightarrow> nat \<Rightarrow> git_pool_page option" where
  "page_of pool i = find (\<lambda>pg. pg_id pg = i) (pages pool)"

text \<open>memcpy from and to the pool, inside of one page.\<close>

definition pool_read :: "git_pool \<Rightarrow> ptr \<Rightarrow> nat \<Rightarrow> byte list option" where
  "pool_read pool p n = do { pg \<leftarrow> page_of pool (fst p); rd_blk (pg_data pg) (snd p) n }"

definition set_data :: "nat \<Rightarrow> byte list \<Rightarrow> git_pool_page \<Rightarrow> git_pool_page" where
  "set_data i d pg = (if pg_id pg = i then pg\<lparr>pg_data := d\<rparr> else pg)"

definition pool_write :: "git_pool \<Rightarrow> ptr \<Rightarrow> byte list \<Rightarrow> git_pool option" where
  "pool_write pool p bs = do {
     pg \<leftarrow> page_of pool (fst p);
     d \<leftarrow> wr_blk (pg_data pg) (snd p) bs;
     Some (pool\<lparr>p_open := map (set_data (fst p) d) (p_open pool), p_full := map (set_data (fst p) d) (p_full pool)\<rparr>) }"

section \<open>Making and emptying a pool\<close>

definition GIT_POOL_MIN_USABLE :: nat where
  "GIT_POOL_MIN_USABLE = 4"

definition GIT_POOL_MIN_PAGESZ :: nat where
  "GIT_POOL_MIN_PAGESZ = 2 * 8"

text \<open>sys is the page size of the system, a page header has 16 bytes.\<close>

definition git_pool__system_page_size :: "nat \<Rightarrow> nat" where
  "git_pool__system_page_size sys = u32w (u32w sys + 2 ^ 32 - 2 * 8)"

definition git_pool__suggest_items_per_page :: "nat \<Rightarrow> nat \<Rightarrow> nat option" where
  "git_pool__suggest_items_per_page sys item_size =
     (let page_bytes = u32w (git_pool__system_page_size sys + 2 ^ 32 - 16) in
      if item_size = 0 then None else Some (page_bytes div item_size))"

definition git_pool_init :: "nat \<Rightarrow> nat \<Rightarrow> nat \<Rightarrow> (int \<times> git_pool) option" where
  "git_pool_init sys item_size items_per_page =
     (let item_size = (if item_size = 0 then 1 else item_size);
          item_size = (if 4 < item_size then u32w (item_size + 7) div 8 * 8 else if item_size = 3 then 4 else item_size) in do {
        items_per_page \<leftarrow> (if items_per_page = 0 then git_pool__suggest_items_per_page sys item_size else Some items_per_page);
        items_per_page \<leftarrow>
          (if u32w (item_size * items_per_page) < GIT_POOL_MIN_PAGESZ then
             (if item_size = 0 then None else Some (u32w ((GIT_POOL_MIN_PAGESZ + item_size - 1) div item_size)))
           else Some items_per_page);
        Some (0, \<lparr>p_open = [], p_full = [], p_free_list = None, p_link = (\<lambda>_. None), p_item_size = item_size,
          p_page_size = u32w (item_size * items_per_page), p_items = 0, p_has_string_alloc = False,
          p_has_multi_item_alloc = False, p_has_large_page_alloc = False, p_fresh = 0\<rparr>) })"

definition git_pool_clear :: "git_pool \<Rightarrow> git_pool" where
  "git_pool_clear pool = pool\<lparr>p_open := [], p_full := [], p_free_list := None, p_items := 0, p_has_string_alloc := False,
     p_has_multi_item_alloc := False, p_has_large_page_alloc := False\<rparr>"

definition git_pool_swap :: "git_pool \<times> git_pool \<Rightarrow> git_pool \<times> git_pool" where
  "git_pool_swap ab = (snd ab, fst ab)"

section \<open>Allocation\<close>

primrec insert_behind :: "git_pool_page \<Rightarrow> git_pool_page list \<Rightarrow> git_pool_page list" where
  "insert_behind page [] = [page]"
| "insert_behind page (scan # rest) = (if pg_avail page < pg_avail scan then scan # insert_behind page rest else page # scan # rest)"

definition pool_insert_page :: "git_pool_page list \<Rightarrow> git_pool_page \<Rightarrow> git_pool_page list" where
  "pool_insert_page opn page = (case opn of
       [] \<Rightarrow> [page]
     | scan # rest \<Rightarrow> if pg_avail scan < pg_avail page then page # scan # rest else scan # insert_behind page rest)"

definition pool_alloc_page :: "alloc \<Rightarrow> git_pool \<Rightarrow> nat \<Rightarrow> ptr option \<times> git_pool" where
  "pool_alloc_page ok pool sz =
     (let alloc_size = (if sz \<le> p_page_size pool then p_page_size pool else sz);
          pool = (if sz \<le> p_page_size pool then pool else pool\<lparr>p_has_large_page_alloc := True\<rparr>) in
      if \<not> ok (alloc_size + 16) then (None, pool)
      else
        let page = \<lparr>pg_id = p_fresh pool, pg_size = alloc_size, pg_avail = alloc_size - sz, pg_data = replicate alloc_size 0\<rparr>;
            pool = (if 0 < pg_avail page then pool\<lparr>p_open := pool_insert_page (p_open pool) page\<rparr> else pool\<lparr>p_full := page # p_full pool\<rparr>) in
        (Some (pg_id page, 0), pool\<lparr>p_items := u32w (p_items pool + 1), p_fresh := p_fresh pool + 1\<rparr>))"

text \<open>The smallest open page with enough space, with the pages before and behind it.\<close>

fun find_page :: "nat \<Rightarrow> git_pool_page list \<Rightarrow> git_pool_page \<Rightarrow> git_pool_page list \<Rightarrow> git_pool_page list \<times> git_pool_page \<times> git_pool_page list" where
  "find_page sz prev scan [] = (prev, scan, [])"
| "find_page sz prev scan (nxt # rest) =
     (if sz \<le> pg_avail nxt then find_page sz (prev @ [scan]) nxt rest else (prev, scan, nxt # rest))"

definition git_pool_malloc :: "alloc \<Rightarrow> git_pool \<Rightarrow> nat \<Rightarrow> ptr option \<times> git_pool" where
  "git_pool_malloc ok pool items =
     (let sz = u32w (items * p_item_size pool);
          pool = pool\<lparr>p_has_string_alloc := False\<rparr>;
          pool = (if 1 < items then pool\<lparr>p_has_multi_item_alloc := True\<rparr> else pool) in
      case (if 1 < items then None else p_free_list pool) of
        Some p \<Rightarrow> (Some p, pool\<lparr>p_free_list := p_link pool p\<rparr>)
      | None \<Rightarrow>
          (case p_open pool of
             [] \<Rightarrow> pool_alloc_page ok pool sz
           | scan # rest \<Rightarrow>
               if p_page_size pool \<le> sz \<or> pg_avail scan < sz then pool_alloc_page ok pool sz
               else
                 let pool = pool\<lparr>p_items := u32w (p_items pool + 1)\<rparr>;
                     (prev, scan, rest) = find_page sz [] scan rest;
                     p = (pg_id scan, pg_size scan - pg_avail scan);
                     scan = scan\<lparr>pg_avail := pg_avail scan - sz\<rparr> in
                 (Some p,
                  if pg_avail scan < p_item_size pool \<or> pg_avail scan < GIT_POOL_MIN_USABLE then
                    pool\<lparr>p_open := prev @ rest, p_full := scan # p_full pool\<rparr>
                  else if rest \<noteq> [] \<and> pg_avail scan < pg_avail (hd rest) then
                    pool\<lparr>p_open := pool_insert_page (prev @ rest) scan\<rparr>
                  else pool\<lparr>p_open := prev @ scan # rest\<rparr>)))"

definition git_pool_mallocz :: "alloc \<Rightarrow> git_pool \<Rightarrow> nat \<Rightarrow> (ptr option \<times> git_pool) option" where
  "git_pool_mallocz ok pool items = (case git_pool_malloc ok pool items of
       (None, pool) \<Rightarrow> Some (None, pool)
     | (Some p, pool) \<Rightarrow> do { pool \<leftarrow> pool_write pool p (replicate (szw (items * p_item_size pool)) 0); Some (Some p, pool) })"

section \<open>Strings\<close>

text \<open>str is the memory at the argument; a failed assert is None.\<close>

definition git_pool_strndup :: "alloc \<Rightarrow> git_pool \<Rightarrow> byte list \<Rightarrow> nat \<Rightarrow> (ptr option \<times> git_pool) option" where
  "git_pool_strndup ok pool str n =
     (if p_item_size pool \<noteq> 1 then None
      else if szw (n + 1) = 0 then Some (None, pool)
      else case git_pool_malloc ok pool (u32w (n + 1)) of
        (None, pool) \<Rightarrow> Some (None, pool\<lparr>p_has_string_alloc := True\<rparr>)
      | (Some p, pool) \<Rightarrow> do {
          bs \<leftarrow> rd_blk str 0 n;
          pool \<leftarrow> pool_write pool p bs;
          pool \<leftarrow> pool_write pool (fst p, snd p + n) [0];
          Some (Some p, pool\<lparr>p_has_string_alloc := True\<rparr>) })"

text \<open>Strings are the bytes before the NUL.\<close>

definition git_pool_strdup :: "alloc \<Rightarrow> git_pool \<Rightarrow> byte list \<Rightarrow> (ptr option \<times> git_pool) option" where
  "git_pool_strdup ok pool str = (if p_item_size pool \<noteq> 1 then None else git_pool_strndup ok pool (str @ [0]) (length str))"

definition git_pool_strdup_safe :: "alloc \<Rightarrow> git_pool \<Rightarrow> byte list option \<Rightarrow> (ptr option \<times> git_pool) option" where
  "git_pool_strdup_safe ok pool str = (case str of Some s \<Rightarrow> git_pool_strdup ok pool s | None \<Rightarrow> Some (None, pool))"

definition git_pool_strcat :: "alloc \<Rightarrow> git_pool \<Rightarrow> byte list \<Rightarrow> byte list \<Rightarrow> (ptr option \<times> git_pool) option" where
  "git_pool_strcat ok pool a b =
     (if p_item_size pool \<noteq> 1 then None
      else case git_pool_malloc ok pool (u32w (length a + length b + 1)) of
        (None, pool) \<Rightarrow> Some (None, pool\<lparr>p_has_string_alloc := True\<rparr>)
      | (Some p, pool) \<Rightarrow> do {
          pool \<leftarrow> (if a \<noteq> [] then pool_write pool p a else Some pool);
          pool \<leftarrow> (if b \<noteq> [] then pool_write pool (fst p, snd p + length a) b else Some pool);
          pool \<leftarrow> pool_write pool (fst p, snd p + length a + length b) [0];
          Some (Some p, pool\<lparr>p_has_string_alloc := True\<rparr>) })"

section \<open>Giving blocks back\<close>

text \<open>item->next = nxt\<close>

definition set_link :: "(ptr option \<Rightarrow> byte list) \<Rightarrow> git_pool \<Rightarrow> ptr \<Rightarrow> ptr option \<Rightarrow> git_pool option" where
  "set_link enc pool item nxt = do {
     pool \<leftarrow> pool_write pool item (enc nxt);
     Some (pool\<lparr>p_link := (p_link pool)(item := nxt)\<rparr>) }"

definition git_pool_free :: "(ptr option \<Rightarrow> byte list) \<Rightarrow> git_pool \<Rightarrow> ptr option \<Rightarrow> git_pool option" where
  "git_pool_free enc pool item =
     (if p_item_size pool < 8 then None
      else case item of
        None \<Rightarrow> Some pool
      | Some p \<Rightarrow> do {
          pool \<leftarrow> set_link enc pool p (p_free_list pool);
          Some (pool\<lparr>p_free_list := Some p\<rparr>) })"

text \<open>The loop from items[i] down to items[1].\<close>

primrec link_items :: "(ptr option \<Rightarrow> byte list) \<Rightarrow> ptr list \<Rightarrow> nat \<Rightarrow> git_pool \<Rightarrow> git_pool option" where
  "link_items enc ptrs 0 pool = Some pool"
| "link_items enc ptrs (Suc i) pool = do {
     p \<leftarrow> rd ptrs (Suc i);
     nxt \<leftarrow> rd ptrs i;
     pool \<leftarrow> set_link enc pool p (Some nxt);
     link_items enc ptrs i pool }"

definition git_pool_free_array :: "(ptr option \<Rightarrow> byte list) \<Rightarrow> git_pool \<Rightarrow> nat \<Rightarrow> ptr list \<Rightarrow> git_pool option" where
  "git_pool_free_array enc pool n ptrs =
     (if p_item_size pool < 8 then None
      else if n = 0 then Some pool
      else do {
        pool \<leftarrow> link_items enc ptrs (n - 1) pool;
        p \<leftarrow> rd ptrs 0;
        pool \<leftarrow> set_link enc pool p (p_free_list pool);
        l \<leftarrow> rd ptrs (n - 1);
        Some (pool\<lparr>p_free_list := Some l\<rparr>) })"

section \<open>Questions\<close>

definition git_pool__open_pages :: "git_pool \<Rightarrow> nat" where
  "git_pool__open_pages pool = u32w (length (p_open pool))"

definition git_pool__full_pages :: "git_pool \<Rightarrow> nat" where
  "git_pool__full_pages pool = u32w (length (p_full pool))"

definition git_pool__ptr_in_pool :: "git_pool \<Rightarrow> ptr \<Rightarrow> bool" where
  "git_pool__ptr_in_pool pool p = (\<exists>pg \<in> set (pages pool). pg_id pg = fst p \<and> snd p < pg_size pg)"

end
