(* ===== verification/PoolProps.thy ===== *)
theory PoolProps
  imports Pool
begin

text \<open>
  The blocks that a pool gives out: pages by number, the invariant on the blocks held and freed, writes into them, and
  a client whose calls in any order keep what it has put into its blocks.
\<close>

section \<open>Pages by number\<close>

lemma page_of_iff: "distinct (map pg_id (pages pool)) \<Longrightarrow> page_of pool i = Some pg \<longleftrightarrow> pg \<in> set (pages pool) \<and> pg_id pg = i"
proof -
  assume d: "distinct (map pg_id (pages pool))"
  have "find (\<lambda>pg. pg_id pg = i) xs = Some pg \<longleftrightarrow> pg \<in> set xs \<and> pg_id pg = i" if "distinct (map pg_id xs)" for xs
    using that by (induction xs) (auto simp: image_iff)
  then show ?thesis using d by (simp add: page_of_def)
qed

lemma page_of_None: "page_of pool i = None \<longleftrightarrow> i \<notin> pg_id ` set (pages pool)"
  by (auto simp: page_of_def find_None_iff image_iff)

lemma distinct_ids_mset: "mset (pages q) = mset (pages p) \<Longrightarrow> distinct (map pg_id (pages q)) = distinct (map pg_id (pages p))"
  by (metis mset_map mset_eq_imp_distinct_iff)

lemma page_of_mset:
  assumes "mset (pages q) = mset (pages p)" "distinct (map pg_id (pages p))"
  shows "page_of q = page_of p"
proof
  fix i
  have s: "set (pages q) = set (pages p)" using assms(1) by (rule mset_eq_setD)
  have d: "distinct (map pg_id (pages q))" using distinct_ids_mset [OF assms(1)] assms(2) by simp
  have "page_of q i = Some pg \<longleftrightarrow> page_of p i = Some pg" for pg
    unfolding page_of_iff [OF d] page_of_iff [OF assms(2)] s ..
  then show "page_of q i = page_of p i" by (metis not_Some_eq)
qed

text \<open>A page that is new, and a page that is replaced.\<close>

lemma page_added:
  assumes "mset (pages q) = add_mset pg (mset (pages p))" "distinct (map pg_id (pages p))" "page_of p (pg_id pg) = None"
  shows "distinct (map pg_id (pages q))" "page_of q = (page_of p)(pg_id pg \<mapsto> pg)"
proof -
  have m: "mset (map pg_id (pages q)) = mset (pg_id pg # map pg_id (pages p))" using assms(1) by simp
  show d: "distinct (map pg_id (pages q))"
    using assms(2,3) by (subst mset_eq_imp_distinct_iff [OF m]) (simp add: page_of_None)
  have s: "set (pages q) = insert pg (set (pages p))" using assms(1) by (metis set_mset_add_mset_insert set_mset_mset)
  show "page_of q = (page_of p)(pg_id pg \<mapsto> pg)"
  proof
    fix i
    have "page_of q i = Some x \<longleftrightarrow> ((page_of p)(pg_id pg \<mapsto> pg)) i = Some x" for x
      using assms(3) unfolding page_of_iff [OF d] s by (auto simp: page_of_iff [OF assms(2)] page_of_None image_iff)
    then show "page_of q i = ((page_of p)(pg_id pg \<mapsto> pg)) i" by (metis not_Some_eq)
  qed
qed

lemma page_replaced:
  assumes "mset (pages p) = add_mset a r" "mset (pages q) = add_mset b r" "distinct (map pg_id (pages p))" "pg_id b = pg_id a"
  shows "distinct (map pg_id (pages q))" "page_of p (pg_id a) = Some a" "page_of q = (page_of p)(pg_id a \<mapsto> b)"
proof -
  have m: "mset (map pg_id (pages q)) = mset (map pg_id (pages p))" using assms(1,2,4) by simp
  show d: "distinct (map pg_id (pages q))" using assms(3) mset_eq_imp_distinct_iff [OF m] by simp
  have s: "set (pages p) = insert a (set_mset r)" "set (pages q) = insert b (set_mset r)"
    using assms(1,2) by (metis set_mset_add_mset_insert set_mset_mset)+
  have n: "pg_id x \<noteq> pg_id a" if xr: "x \<in># r" for x
  proof
    assume e: "pg_id x = pg_id a"
    obtain r' where "r = add_mset x r'" using insert_DiffM [OF xr] by metis
    then have "image_mset pg_id (mset (pages p)) = add_mset (pg_id a) (add_mset (pg_id a) (image_mset pg_id r'))" using assms(1) e by simp
    then have "count (mset (map pg_id (pages p))) (pg_id a) \<ge> 2" by simp
    then show False using assms(3) by (simp add: distinct_count_atmost_1 split: if_splits)
  qed
  show "page_of p (pg_id a) = Some a" using s(1) by (simp add: page_of_iff [OF assms(3)])
  show "page_of q = (page_of p)(pg_id a \<mapsto> b)"
  proof
    fix i
    have "page_of q i = Some x \<longleftrightarrow> ((page_of p)(pg_id a \<mapsto> b)) i = Some x" for x
      using assms(4) unfolding page_of_iff [OF d] s by (cases "i = pg_id a") (auto simp: page_of_iff [OF assms(3)] s(1) dest: n)
    then show "page_of q i = ((page_of p)(pg_id a \<mapsto> b)) i" by (metis not_Some_eq)
  qed
qed

lemma mset_insert_behind: "mset (insert_behind pg opn) = add_mset pg (mset opn)"
  by (induction opn) auto

lemma mset_insert_page: "mset (pool_insert_page opn pg) = add_mset pg (mset opn)"
  by (auto simp: pool_insert_page_def mset_insert_behind split: list.split)

lemma find_page_ok:
  "find_page sz prev scan rest = (a, s, b) \<Longrightarrow> sz \<le> pg_avail scan \<Longrightarrow> a @ s # b = prev @ scan # rest \<and> sz \<le> pg_avail s"
  by (induction sz prev scan rest rule: find_page.induct) (auto split: if_splits)

section \<open>What holds of a pool and the blocks it has given out\<close>

type_synonym block = "ptr \<times> nat"

definition apart :: "block \<Rightarrow> block \<Rightarrow> bool" where
  "apart a b = (fst (fst a) \<noteq> fst (fst b) \<or> snd (fst a) + snd a \<le> snd (fst b) \<or> snd (fst b) + snd b \<le> snd (fst a))"

definition in_used :: "git_pool \<Rightarrow> block \<Rightarrow> bool" where
  "in_used pool b = (\<exists>pg. page_of pool (fst (fst b)) = Some pg \<and> snd (fst b) + snd b \<le> pg_size pg - pg_avail pg)"

primrec free_chain :: "(ptr \<Rightarrow> ptr option) \<Rightarrow> ptr option \<Rightarrow> ptr list \<Rightarrow> bool" where
  "free_chain link h [] = (h = None)"
| "free_chain link h (p # ps) = (h = Some p \<and> free_chain link (link p) ps)"

definition pages_ok :: "git_pool \<Rightarrow> bool" where
  "pages_ok pool = (distinct (map pg_id (pages pool)) \<and>
     (\<forall>i pg. page_of pool i = Some pg \<longrightarrow> i < p_fresh pool \<and> pg_avail pg \<le> pg_size pg \<and> length (pg_data pg) = pg_size pg))"

definition free_blocks :: "git_pool \<Rightarrow> ptr list \<Rightarrow> block list" where
  "free_blocks pool fl = map (\<lambda>p. (p, p_item_size pool)) fl"

definition pool_inv :: "git_pool \<Rightarrow> block list \<Rightarrow> ptr list \<Rightarrow> bool" where
  "pool_inv pool live fl = (pages_ok pool \<and> free_chain (p_link pool) (p_free_list pool) fl \<and>
     (\<forall>b \<in> set (live @ free_blocks pool fl). in_used pool b) \<and> sorted_wrt apart (live @ free_blocks pool fl))"

lemma apart_sym: "apart a b = apart b a"
  by (auto simp: apart_def)

lemma free_chain_cong: "(\<And>p. p \<in> set fl \<Longrightarrow> l p = l' p) \<Longrightarrow> free_chain l h fl = free_chain l' h fl"
  by (induction fl arbitrary: h) auto

text \<open>Only the pages, the item size and the free list count.\<close>

lemma pool_inv_cong:
  assumes "page_of q = page_of p" "distinct (map pg_id (pages q))" "p_fresh p \<le> p_fresh q" "p_item_size q = p_item_size p"
    "p_free_list q = p_free_list p" "p_link q = p_link p" "pool_inv p live fl"
  shows "pool_inv q live fl"
  using assms by (auto simp: pool_inv_def pages_ok_def in_used_def free_blocks_def dest: less_le_trans)

lemma pool_read_cong: "page_of q (fst p) = page_of r (fst p) \<Longrightarrow> pool_read q p n = pool_read r p n"
  by (simp add: pool_read_def)

lemma pool_read_used: "pages_ok pool \<Longrightarrow> in_used pool (p, n) \<Longrightarrow> \<exists>bs. pool_read pool p n = Some bs \<and> length bs = n"
  by (auto simp: pages_ok_def in_used_def pool_read_def rd_blk_def)

section \<open>Allocation\<close>

lemma apart_move: "sorted_wrt apart (xs @ b # ys) \<longleftrightarrow> sorted_wrt apart (b # xs @ ys)"
  by (auto simp: sorted_wrt_append apart_sym)

lemma apart_shrink: "apart (p, m) b \<Longrightarrow> n \<le> m \<Longrightarrow> apart (p, n) b"
  by (auto simp: apart_def)

lemma in_used_shrink: "in_used pool (p, m) \<Longrightarrow> n \<le> m \<Longrightarrow> in_used pool (p, n)"
  by (auto simp: in_used_def)

lemma take_block:
  assumes inv: "pool_inv pool live fl" and d: "distinct (map pg_id (pages q))" and q: "page_of q = (page_of pool)(i \<mapsto> pg')"
    and f: "p_fresh pool \<le> p_fresh q" "i < p_fresh q" "p_item_size q = p_item_size pool" "p_free_list q = p_free_list pool" "p_link q = p_link pool"
    and pg': "pg_avail pg' \<le> pg_size pg'" "length (pg_data pg') = pg_size pg'" "off + sz = pg_size pg' - pg_avail pg'"
    and old: "\<And>pg. page_of pool i = Some pg \<Longrightarrow> pg_size pg' = pg_size pg \<and> pg_data pg' = pg_data pg \<and> off = pg_size pg - pg_avail pg"
  shows "pool_inv q (((i, off), sz) # live) fl" "in_used pool (p, n) \<Longrightarrow> pool_read q p n = pool_read pool p n"
proof -
  have "i' < p_fresh q \<and> pg_avail pg \<le> pg_size pg \<and> length (pg_data pg) = pg_size pg" if "page_of q i' = Some pg" for i' pg
    using that inv f(1,2) pg' by (auto simp: q pool_inv_def pages_ok_def dest: less_le_trans split: if_splits)
  then have ok: "pages_ok q" using d by (simp add: pages_ok_def)
  have used: "in_used q b \<and> apart ((i, off), sz) b" if b: "in_used pool b" for b
  proof (cases "fst (fst b) = i")
    case True
    then obtain pg where pg: "page_of pool i = Some pg" "snd (fst b) + snd b \<le> pg_size pg - pg_avail pg" using b by (auto simp: in_used_def)
    then have "snd (fst b) + snd b \<le> off" using old [OF pg(1)] by simp
    then show ?thesis using True pg'(3) by (auto simp: in_used_def q apart_def)
  next
    case False
    then show ?thesis using b by (auto simp: in_used_def q apart_def)
  qed
  have new: "in_used q ((i, off), sz)" using pg'(3) by (simp add: in_used_def q)
  have fb: "free_blocks q fl = free_blocks pool fl" using f(3) by (simp add: free_blocks_def)
  show "pool_inv q (((i, off), sz) # live) fl"
    using inv ok used new f by (auto simp: pool_inv_def fb)
  show "pool_read q p n = pool_read pool p n" if "in_used pool (p, n)"
    using that old by (auto simp: pool_read_def q in_used_def)
qed

lemma alloc_page_ok:
  assumes inv: "pool_inv pool live fl" and a: "pool_alloc_page ok pool sz = (r, q)"
  shows "p_item_size q = p_item_size pool"
    "r = None \<Longrightarrow> pool_inv q live fl \<and> page_of q = page_of pool"
    "r = Some p \<Longrightarrow> pool_inv q ((p, sz) # live) fl \<and> (\<forall>p n. in_used pool (p, n) \<longrightarrow> pool_read q p n = pool_read pool p n)"
proof -
  define alloc_size where "alloc_size = (if sz \<le> p_page_size pool then p_page_size pool else sz)"
  define pool1 where "pool1 = (if sz \<le> p_page_size pool then pool else pool\<lparr>p_has_large_page_alloc := True\<rparr>)"
  define page where "page = \<lparr>pg_id = p_fresh pool1, pg_size = alloc_size, pg_avail = alloc_size - sz, pg_data = replicate alloc_size 0\<rparr>"
  define pool2 where "pool2 = (if 0 < pg_avail page then pool1\<lparr>p_open := pool_insert_page (p_open pool1) page\<rparr> else pool1\<lparr>p_full := page # p_full pool1\<rparr>)"
  have s1: "pages pool1 = pages pool" "page_of pool1 = page_of pool" "p_fresh pool1 = p_fresh pool" "p_item_size pool1 = p_item_size pool"
    "p_free_list pool1 = p_free_list pool" "p_link pool1 = p_link pool"
    by (simp_all add: pool1_def pages_def page_of_def fun_eq_iff)
  have aq: "(r, q) = (if \<not> ok (alloc_size + 16) then (None, pool1) else (Some (pg_id page, 0), pool2\<lparr>p_items := u32w (p_items pool2 + 1), p_fresh := p_fresh pool2 + 1\<rparr>))"
    unfolding a [symmetric] pool_alloc_page_def Let_def alloc_size_def pool1_def page_def pool2_def ..
  have s2: "p_item_size pool2 = p_item_size pool" "p_fresh pool2 = p_fresh pool" "p_free_list pool2 = p_free_list pool" "p_link pool2 = p_link pool"
    by (simp_all add: pool2_def s1)
  then show "p_item_size q = p_item_size pool" using aq s1 by (auto split: if_splits)
  have d: "distinct (map pg_id (pages pool))" using inv by (simp add: pool_inv_def pages_ok_def)
  show "pool_inv q live fl \<and> page_of q = page_of pool" if "r = None"
  proof -
    have "q = pool1" using aq that by (auto split: if_splits)
    then show ?thesis using pool_inv_cong [of pool1 pool live fl] s1 d inv by simp
  qed
  show "pool_inv q ((p, sz) # live) fl \<and> (\<forall>p n. in_used pool (p, n) \<longrightarrow> pool_read q p n = pool_read pool p n)" if "r = Some p"
  proof -
    have q: "q = pool2\<lparr>p_items := u32w (p_items pool2 + 1), p_fresh := p_fresh pool2 + 1\<rparr>" and p: "p = (p_fresh pool, 0)"
      using aq that by (auto simp: page_def s1 split: if_splits)
    have m: "mset (pages q) = add_mset page (mset (pages pool))"
      by (simp add: q pool2_def pages_def s1(1) [unfolded pages_def, symmetric] mset_insert_page)
    have n: "page_of pool (pg_id page) = None" using inv by (cases "page_of pool (pg_id page)") (auto simp: pool_inv_def pages_ok_def page_def s1)
    note pa = page_added [OF m d n]
    have sz: "sz \<le> alloc_size" by (simp add: alloc_size_def)
    have i: "pg_id page = p_fresh pool" by (simp add: page_def s1)
    have c: "p_fresh pool \<le> p_fresh q" "pg_id page < p_fresh q" "p_item_size q = p_item_size pool" "p_free_list q = p_free_list pool" "p_link q = p_link pool"
      "pg_avail page \<le> pg_size page" "length (pg_data page) = pg_size page" "0 + sz = pg_size page - pg_avail page"
      using sz s2 i by (simp_all add: q page_def)
    note t = take_block [OF inv pa c]
    show ?thesis unfolding p using t n unfolding i by auto
  qed
qed

lemma malloc_ok:
  assumes inv: "pool_inv pool live fl" and sz: "items * p_item_size pool < 2 ^ 32" and m: "git_pool_malloc ok pool items = (r, q)"
  shows "p_item_size q = p_item_size pool"
    "r = None \<Longrightarrow> pool_inv q live fl \<and> page_of q = page_of pool"
    "r = Some p \<Longrightarrow> \<exists>fl'. pool_inv q ((p, items * p_item_size pool) # live) fl' \<and> (\<forall>p n. in_used pool (p, n) \<longrightarrow> pool_read q p n = pool_read pool p n)"
proof -
  let ?sz = "items * p_item_size pool"
  have u: "u32w ?sz = ?sz" using sz by simp
  define pool0 where "pool0 = pool\<lparr>p_has_string_alloc := False\<rparr>"
  define pool1 where "pool1 = (if 1 < items then pool0\<lparr>p_has_multi_item_alloc := True\<rparr> else pool0)"
  have s1: "pages pool1 = pages pool" "page_of pool1 = page_of pool" "p_fresh pool1 = p_fresh pool" "p_item_size pool1 = p_item_size pool" "p_page_size pool1 = p_page_size pool"
    "p_free_list pool1 = p_free_list pool" "p_link pool1 = p_link pool" "p_open pool1 = p_open pool" "p_full pool1 = p_full pool" "p_items pool1 = p_items pool"
    by (simp_all add: pool1_def pool0_def pages_def page_of_def fun_eq_iff)
  have d: "distinct (map pg_id (pages pool))" using inv by (simp add: pool_inv_def pages_ok_def)
  have inv1: "pool_inv pool1 live fl" using pool_inv_cong [of pool1 pool live fl] s1 d inv by simp
  have pm: "git_pool_malloc ok pool items =
     (case (if 1 < items then None else p_free_list pool1) of
        Some p \<Rightarrow> (Some p, pool1\<lparr>p_free_list := p_link pool1 p\<rparr>)
      | None \<Rightarrow>
          (case p_open pool1 of
             [] \<Rightarrow> pool_alloc_page ok pool1 ?sz
           | scan # rest \<Rightarrow>
               if p_page_size pool1 \<le> ?sz \<or> pg_avail scan < ?sz then pool_alloc_page ok pool1 ?sz
               else
                 let pool = pool1\<lparr>p_items := u32w (p_items pool1 + 1)\<rparr>;
                     (prev, scan, rest) = find_page ?sz [] scan rest;
                     p = (pg_id scan, pg_size scan - pg_avail scan);
                     scan = scan\<lparr>pg_avail := pg_avail scan - ?sz\<rparr> in
                 (Some p,
                  if pg_avail scan < p_item_size pool \<or> pg_avail scan < GIT_POOL_MIN_USABLE then
                    pool\<lparr>p_open := prev @ rest, p_full := scan # p_full pool\<rparr>
                  else if rest \<noteq> [] \<and> pg_avail scan < pg_avail (hd rest) then
                    pool\<lparr>p_open := pool_insert_page (prev @ rest) scan\<rparr>
                  else pool\<lparr>p_open := prev @ scan # rest\<rparr>)))"
    unfolding git_pool_malloc_def Let_def u pool1_def pool0_def by (rule refl)
  consider
    (reuse) p fl' where "r = Some p" "fl = p # fl'" "q = pool1\<lparr>p_free_list := p_link pool1 p\<rparr>" "items \<le> 1"
  | (new_page) "pool_alloc_page ok pool1 ?sz = (r, q)"
  | (old_page) scan rest a s b s' where "p_open pool = scan # rest" "\<not> pg_avail scan < ?sz" "find_page ?sz [] scan rest = (a, s, b)" "s' = s\<lparr>pg_avail := pg_avail s - ?sz\<rparr>"
      "r = Some (pg_id s, pg_size s - pg_avail s)"
      "q = pool1\<lparr>p_items := u32w (p_items pool1 + 1), p_open := a @ b, p_full := s' # p_full pool\<rparr> \<or>
       q = pool1\<lparr>p_items := u32w (p_items pool1 + 1), p_open := pool_insert_page (a @ b) s'\<rparr> \<or> q = pool1\<lparr>p_items := u32w (p_items pool1 + 1), p_open := a @ s' # b\<rparr>"
  proof (cases "if 1 < items then None else p_free_list pool1")
    case (Some p)
    then have "items \<le> 1" "p_free_list pool = Some p" using s1 by (auto split: if_splits)
    moreover have "free_chain (p_link pool) (p_free_list pool) fl" using inv by (simp add: pool_inv_def)
    ultimately obtain fl' where "fl = p # fl'" by (cases fl) auto
    then show ?thesis using m Some \<open>items \<le> 1\<close> reuse [of p fl'] unfolding pm by auto
  next
    case None
    show ?thesis
    proof (cases "p_open pool")
      case Nil
      then show ?thesis using m None new_page unfolding pm by (simp add: s1)
    next
      case (Cons scan rest)
      show ?thesis
      proof (cases "p_page_size pool \<le> ?sz \<or> pg_avail scan < ?sz")
        case True
        then show ?thesis using m None Cons new_page unfolding pm by (simp add: s1)
      next
        case False
        obtain a s b where f: "find_page ?sz [] scan rest = (a, s, b)" by (cases "find_page ?sz [] scan rest")
        show ?thesis using m [unfolded pm None] False by (intro old_page [OF Cons _ f refl]) (auto simp: s1 Cons f Let_def split: if_splits)
      qed
    qed
  qed
  then have "p_item_size q = p_item_size pool \<and> (r = None \<longrightarrow> pool_inv q live fl \<and> page_of q = page_of pool) \<and>
    (\<forall>p. r = Some p \<longrightarrow> (\<exists>fl'. pool_inv q ((p, ?sz) # live) fl' \<and> (\<forall>p n. in_used pool (p, n) \<longrightarrow> pool_read q p n = pool_read pool p n)))"
  proof cases
    case reuse
    have pq: "page_of q = page_of pool" "pages q = pages pool" "p_fresh q = p_fresh pool" "p_item_size q = p_item_size pool" "p_link q = p_link pool" "p_free_list q = p_link pool p"
      using reuse(3) s1 by (simp_all add: fun_eq_iff page_of_def pages_def)
    have b: "in_used pool (p, p_item_size pool)" "?sz \<le> p_item_size pool" using inv reuse by (auto simp: pool_inv_def free_blocks_def)
    have s: "sorted_wrt apart ((p, p_item_size pool) # live @ free_blocks pool fl')"
      using inv unfolding reuse(2) pool_inv_def free_blocks_def list.map apart_move by simp
    have "apart (p, ?sz) x" if "apart (p, p_item_size pool) x" for x using apart_shrink [OF that b(2)] .
    then have "sorted_wrt apart ((p, ?sz) # live @ free_blocks pool fl')" using s unfolding sorted_wrt.simps by blast
    moreover have "in_used q x \<longleftrightarrow> in_used pool x" for x by (simp add: in_used_def pq)
    moreover have "free_blocks q fl' = free_blocks pool fl'" by (simp add: free_blocks_def pq)
    moreover have "pages_ok q" using inv pq by (simp add: pool_inv_def pages_ok_def)
    ultimately have "pool_inv q ((p, ?sz) # live) fl'"
      using inv reuse(2) pq in_used_shrink [OF b] by (auto simp: pool_inv_def free_blocks_def)
    moreover have "pool_read q p' n = pool_read pool p' n" for p' n by (simp add: pool_read_def pq)
    ultimately show ?thesis using reuse(1) pq by auto
  next
    case new_page
    have iu: "in_used pool1 (p', n) = in_used pool (p', n)" "pool_read pool1 p' n = pool_read pool p' n" for p' n by (simp_all add: in_used_def pool_read_def s1)
    show ?thesis using alloc_page_ok [OF inv1 new_page] s1 iu by auto
  next
    case old_page
    have fp: "a @ s # b = scan # rest" "?sz \<le> pg_avail s" using find_page_ok [OF old_page(3)] old_page(2) by auto
    have mp: "mset (pages pool) = add_mset s (mset (a @ b @ p_full pool))" using fp(1) old_page(1) by (simp add: pages_def flip: fp(1))
    have mq: "mset (pages q) = add_mset s' (mset (a @ b @ p_full pool))" using old_page(6) s1 by (auto simp: pages_def mset_insert_page)
    have id: "pg_id s' = pg_id s" by (simp add: old_page(4))
    note pr = page_replaced [OF mp mq d id]
    have po: "pg_avail s \<le> pg_size s" "length (pg_data s) = pg_size s" "pg_id s < p_fresh pool" using inv pr(2) by (auto simp: pool_inv_def pages_ok_def)
    have c: "p_fresh pool \<le> p_fresh q" "pg_id s < p_fresh q" "p_item_size q = p_item_size pool" "p_free_list q = p_free_list pool" "p_link q = p_link pool"
      "pg_avail s' \<le> pg_size s'" "length (pg_data s') = pg_size s'" "(pg_size s - pg_avail s) + ?sz = pg_size s' - pg_avail s'"
      using old_page(6) po s1 fp(2) by (auto simp: old_page(4))
    note t = take_block [OF inv pr(1,3) c]
    show ?thesis using t pr(2) old_page(4,5) c(3) by auto
  qed
  then show "p_item_size q = p_item_size pool"
    "r = None \<Longrightarrow> pool_inv q live fl \<and> page_of q = page_of pool"
    "r = Some p \<Longrightarrow> \<exists>fl'. pool_inv q ((p, ?sz) # live) fl' \<and> (\<forall>p n. in_used pool (p, n) \<longrightarrow> pool_read q p n = pool_read pool p n)" by blast+
qed

section \<open>Writing\<close>

lemma page_of_set_data:
  assumes "p_open q = map (set_data i d) (p_open p)" "p_full q = map (set_data i d) (p_full p)"
  shows "page_of q j = map_option (set_data i d) (page_of p j)" "map pg_id (pages q) = map pg_id (pages p)"
proof -
  have id: "pg_id (set_data i d pg) = pg_id pg" for pg by (simp add: set_data_def)
  have "find (\<lambda>pg. pg_id pg = j) (map (set_data i d) xs) = map_option (set_data i d) (find (\<lambda>pg. pg_id pg = j) xs)" for xs
    by (induction xs) (auto simp: id)
  from this [of "p_open p @ p_full p"] show "page_of q j = map_option (set_data i d) (page_of p j)" by (simp add: page_of_def pages_def assms)
  show "map pg_id (pages q) = map pg_id (pages p)" by (simp add: pages_def assms id)
qed

lemma pool_write_ok:
  assumes inv: "pool_inv pool live fl" and u: "in_used pool (p, n)" and w: "off + length bs \<le> n" and old: "pool_read pool p n = Some old"
  shows "\<exists>q. pool_write pool (fst p, snd p + off) bs = Some q \<and> pool_inv q live fl \<and> (\<forall>b. in_used q b = in_used pool b) \<and>
    p_item_size q = p_item_size pool \<and> p_free_list q = p_free_list pool \<and> p_link q = p_link pool \<and>
    pool_read q p n = Some (take off old @ bs @ drop (off + length bs) old) \<and>
    (\<forall>r m. apart (p, n) (r, m) \<longrightarrow> pool_read q r m = pool_read pool r m)"
proof -
  obtain pg where pg: "page_of pool (fst p) = Some pg" "snd p + n \<le> pg_size pg - pg_avail pg" using u by (auto simp: in_used_def)
  have l: "length (pg_data pg) = pg_size pg" "pg_id pg = fst p"
    using inv pg(1) by (auto simp: pool_inv_def pages_ok_def page_of_iff)
  have o: "old = take n (drop (snd p) (pg_data pg))" "snd p + n \<le> length (pg_data pg)" using old pg l by (auto simp: pool_read_def rd_blk_def split: if_splits)
  define d where "d = take (snd p + off) (pg_data pg) @ bs @ drop (snd p + off + length bs) (pg_data pg)"
  have wr: "wr_blk (pg_data pg) (snd p + off) bs = Some d" using o(2) w by (simp add: wr_blk_def d_def)
  define q where "q = pool\<lparr>p_open := map (set_data (fst p) d) (p_open pool), p_full := map (set_data (fst p) d) (p_full pool)\<rparr>"
  have qd: "p_open q = map (set_data (fst p) d) (p_open pool)" "p_full q = map (set_data (fst p) d) (p_full pool)" by (simp_all add: q_def)
  note po = page_of_set_data [OF qd]
  have ld: "length d = pg_size pg" using o(2) w l by (simp add: d_def)
  have uq: "in_used q b = in_used pool b" for b
  proof -
    have "pg_size (set_data (fst p) d x) = pg_size x" "pg_avail (set_data (fst p) d x) = pg_avail x" for x by (simp_all add: set_data_def)
    then show ?thesis by (cases "page_of pool (fst (fst b))") (simp_all add: in_used_def po(1))
  qed
  have len: "length (pg_data x) = pg_size x" if x: "page_of q j = Some x" for j x
  proof -
    obtain y where y: "page_of pool j = Some y" "x = set_data (fst p) d y" using x by (auto simp: po(1))
    then have "pg_id y = j" "length (pg_data y) = pg_size y" using inv by (auto simp: pool_inv_def pages_ok_def page_of_iff)
    then show ?thesis using y pg(1) ld by (auto simp: set_data_def)
  qed
  have "pages_ok q" unfolding pages_ok_def
  proof (intro conjI allI impI)
    show "distinct (map pg_id (pages q))" using inv by (simp add: po(2) pool_inv_def pages_ok_def)
    fix j x
    assume x: "page_of q j = Some x"
    then show "length (pg_data x) = pg_size x" by (rule len)
    obtain y where y: "page_of pool j = Some y" "x = set_data (fst p) d y" using x by (auto simp: po(1))
    then show "j < p_fresh q" "pg_avail x \<le> pg_size x" using inv by (auto simp: pool_inv_def pages_ok_def q_def set_data_def)
  qed
  then have iq: "pool_inv q live fl" using inv uq by (simp add: pool_inv_def free_blocks_def q_def)
  have rp: "pool_read q p n = rd_blk d (snd p) n" using pg(1) l(2) by (simp add: pool_read_def po(1) set_data_def)
  have "take n (drop (snd p) d) = take off old @ bs @ drop (off + length bs) old"
  proof -
    have lp: "length (take (snd p + off) (pg_data pg)) = snd p + off" using o(2) w by simp
    have "drop (snd p) d = drop (snd p) (take (snd p + off) (pg_data pg)) @ bs @ drop (snd p + off + length bs) (pg_data pg)"
      using lp by (simp add: d_def)
    also have "drop (snd p) (take (snd p + off) (pg_data pg)) = take off (drop (snd p) (pg_data pg))" by (simp add: drop_take)
    finally have e: "drop (snd p) d = take off (drop (snd p) (pg_data pg)) @ bs @ drop (snd p + off + length bs) (pg_data pg)" .
    have t: "length (take off (drop (snd p) (pg_data pg))) = off" using o(2) w by simp
    have "take n (drop (snd p) d) = take off (drop (snd p) (pg_data pg)) @ bs @ take (n - off - length bs) (drop (snd p + off + length bs) (pg_data pg))"
      unfolding e using t w by simp
    moreover have "take off old = take off (drop (snd p) (pg_data pg))" using w by (simp add: o(1) min_def)
    moreover have "drop (off + length bs) old = take (n - off - length bs) (drop (snd p + off + length bs) (pg_data pg))"
      by (simp add: o(1) drop_take add.commute add.left_commute)
    ultimately show ?thesis by simp
  qed
  then have rd: "pool_read q p n = Some (take off old @ bs @ drop (off + length bs) old)" using o(2) ld l(1) by (simp add: rp rd_blk_def)
  have fr: "pool_read q r m = pool_read pool r m" if "apart (p, n) (r, m)" for r m
  proof (cases "fst r = fst p")
    case False
    have "page_of q (fst r) = page_of pool (fst r)"
    proof (cases "page_of pool (fst r)")
      case (Some y)
      then have "pg_id y = fst r" using inv by (auto simp: pool_inv_def pages_ok_def page_of_iff)
      then show ?thesis using Some False by (simp add: po(1) set_data_def)
    qed (simp add: po(1))
    then show ?thesis by (simp add: pool_read_def)
  next
    case True
    then have "snd p + n \<le> snd r \<or> snd r + m \<le> snd p" using that by (auto simp: apart_def)
    then have "rd_blk d (snd r) m = rd_blk (pg_data pg) (snd r) m"
    proof
      assume a: "snd p + n \<le> snd r"
      then obtain k where k: "snd r = snd p + off + length bs + k" using w by (metis le_iff_add add.assoc le_trans add_le_mono1 nat_add_left_cancel_le)
      have "drop (snd r) d = drop (snd r) (pg_data pg)" using o(2) w by (simp add: d_def k add.commute add.left_commute)
      then show ?thesis using ld l(1) by (simp add: rd_blk_def)
    next
      assume a: "snd r + m \<le> snd p"
      have "take (snd r + m) d = take (snd r + m) (pg_data pg)" using o(2) w a by (simp add: d_def)
      then have "drop (snd r) (take (snd r + m) d) = drop (snd r) (take (snd r + m) (pg_data pg))" by (rule arg_cong)
      then have "take m (drop (snd r) d) = take m (drop (snd r) (pg_data pg))" by (simp add: drop_take)
      then show ?thesis using ld l(1) by (simp add: rd_blk_def)
    qed
    then show ?thesis using True pg(1) l(2) by (simp add: pool_read_def po(1) set_data_def)
  qed
  have "pool_write pool (fst p, snd p + off) bs = Some q" by (simp add: pool_write_def pg(1) wr q_def)
  moreover have "p_item_size q = p_item_size pool" "p_free_list q = p_free_list pool" "p_link q = p_link pool" by (simp_all add: q_def)
  ultimately show ?thesis using iq uq rd fr by blast
qed

section \<open>A client of the pool\<close>

text \<open>The calls of a client, each allocation with what the C allocator answers to it, and the blocks that the client holds with what it
  has put into them.  Calls that the functions do not allow are left out: a request of 4 GB or more, a write outside
  of the block, giving back a block that is smaller than an item or from a pool of items smaller than a pointer, string
  calls on a pool of items other than characters.\<close>

datatype pool_call =
    Alloc alloc nat
  | Put nat nat "byte list"
  | Release nat
  | Dup alloc "byte list"
  | Cat alloc "byte list" "byte list"

type_synonym client = "git_pool \<times> (ptr \<times> byte list) list"

definition hold :: "(ptr \<times> byte list) list \<Rightarrow> byte list \<Rightarrow> ptr option \<times> git_pool \<Rightarrow> client" where
  "hold held bs rq = (case rq of (None, q) \<Rightarrow> (q, held) | (Some p, q) \<Rightarrow> (q, (p, bs) # held))"

fun do_call :: "(ptr option \<Rightarrow> byte list) \<Rightarrow> pool_call \<Rightarrow> client \<Rightarrow> client option" where
  "do_call enc (Alloc ok items) (pool, held) =
     (if 2 ^ 32 \<le> items * p_item_size pool then Some (pool, held)
      else case git_pool_malloc ok pool items of
        (None, q) \<Rightarrow> Some (q, held)
      | (Some p, q) \<Rightarrow> do { bs \<leftarrow> pool_read q p (items * p_item_size pool); Some (q, (p, bs) # held) })"
| "do_call enc (Put k off bs) (pool, held) =
     (if k < length held \<and> off + length bs \<le> length (snd (held ! k)) then
        (case held ! k of (p, old) \<Rightarrow> do {
           q \<leftarrow> pool_write pool (fst p, snd p + off) bs;
           Some (q, held[k := (p, take off old @ bs @ drop (off + length bs) old)]) })
      else Some (pool, held))"
| "do_call enc (Release k) (pool, held) =
     (if k < length held \<and> 8 \<le> p_item_size pool \<and> p_item_size pool \<le> length (snd (held ! k)) then do {
        q \<leftarrow> git_pool_free enc pool (Some (fst (held ! k)));
        Some (q, take k held @ drop (Suc k) held) }
      else Some (pool, held))"
| "do_call enc (Dup ok s) (pool, held) =
     (if p_item_size pool = 1 \<and> length s + 1 < 2 ^ 32 then map_option (hold held (s @ [0])) (git_pool_strdup ok pool s) else Some (pool, held))"
| "do_call enc (Cat ok a b) (pool, held) =
     (if p_item_size pool = 1 \<and> length a + length b + 1 < 2 ^ 32 then map_option (hold held (a @ b @ [0])) (git_pool_strcat ok pool a b) else Some (pool, held))"

primrec pool_calls :: "(ptr option \<Rightarrow> byte list) \<Rightarrow> pool_call list \<Rightarrow> client \<Rightarrow> client option" where
  "pool_calls enc [] st = Some st"
| "pool_calls enc (c # cs) st = Option.bind (do_call enc c st) (pool_calls enc cs)"

definition blocks :: "(ptr \<times> byte list) list \<Rightarrow> block list" where
  "blocks held = map (\<lambda>(p, bs). (p, length bs)) held"

definition kept :: "git_pool \<Rightarrow> (ptr \<times> byte list) list \<Rightarrow> bool" where
  "kept pool held = (\<forall>(p, bs) \<in> set held. pool_read pool p (length bs) = Some bs)"

definition client_inv :: "client \<Rightarrow> bool" where
  "client_inv st = (case st of (pool, held) \<Rightarrow> kept pool held \<and> (\<exists>fl. pool_inv pool (blocks held) fl))"

lemma inv_used: "pool_inv pool live fl \<Longrightarrow> b \<in> set live \<Longrightarrow> in_used pool b"
  by (simp add: pool_inv_def)

lemma inv_apart: "pool_inv pool (b # live) fl \<Longrightarrow> b' \<in> set live \<Longrightarrow> apart b b'"
  by (simp add: pool_inv_def)

lemma kept_frame:
  "kept pool held \<Longrightarrow> pool_inv pool (blocks held) fl \<Longrightarrow> (\<forall>p n. in_used pool (p, n) \<longrightarrow> pool_read q p n = pool_read pool p n) \<Longrightarrow> kept q held"
  by (force simp: kept_def blocks_def dest: inv_used)

lemma kept_apart:
  "kept pool held \<Longrightarrow> (\<forall>r m. apart b (r, m) \<longrightarrow> pool_read q r m = pool_read pool r m) \<Longrightarrow> (\<And>b'. b' \<in> set (blocks held) \<Longrightarrow> apart b b') \<Longrightarrow> kept q held"
  by (force simp: kept_def blocks_def)

lemma pool_inv_move: "pool_inv pool (xs @ b # ys) fl \<longleftrightarrow> pool_inv pool (b # xs @ ys) fl"
proof -
  have "sorted_wrt apart ((xs @ b # ys) @ fb) \<longleftrightarrow> sorted_wrt apart ((b # xs @ ys) @ fb)" for fb
    using apart_move [of xs b "ys @ fb"] by simp
  then show ?thesis by (auto simp: pool_inv_def)
qed

text \<open>A new block into which the client's bytes are written.\<close>

lemma fresh_block:
  assumes inv: "pool_inv pool (blocks held) fl" "kept pool held" and m: "items * p_item_size pool < 2 ^ 32" "git_pool_malloc ok pool items = (Some p, q)"
  shows "\<exists>bs fl'. pool_read q p (items * p_item_size pool) = Some bs \<and> length bs = items * p_item_size pool \<and> pool_inv q (blocks ((p, bs) # held)) fl' \<and>
    kept q ((p, bs) # held) \<and> p_item_size q = p_item_size pool"
proof -
  obtain fl' where q: "pool_inv q ((p, items * p_item_size pool) # blocks held) fl'" "\<forall>p n. in_used pool (p, n) \<longrightarrow> pool_read q p n = pool_read pool p n"
    using malloc_ok(3) [OF inv(1) m refl] by blast
  have "pages_ok q" "in_used q (p, items * p_item_size pool)" using q(1) by (simp_all add: pool_inv_def)
  then obtain bs where bs: "pool_read q p (items * p_item_size pool) = Some bs" "length bs = items * p_item_size pool" using pool_read_used by blast
  have "kept q held" using kept_frame [OF inv(2,1) q(2)] .
  then have "kept q ((p, bs) # held)" using bs by (simp add: kept_def)
  moreover have "pool_inv q (blocks ((p, bs) # held)) fl'" using q(1) bs(2) by (simp add: blocks_def)
  ultimately show ?thesis using bs malloc_ok(1) [OF inv(1) m] by blast
qed

lemma put_block:
  assumes inv: "pool_inv pool (blocks ((p, old) # held)) fl" "kept pool ((p, old) # held)" and w: "off + length bs \<le> length old"
  shows "\<exists>q. pool_write pool (fst p, snd p + off) bs = Some q \<and> pool_inv q (blocks ((p, take off old @ bs @ drop (off + length bs) old) # held)) fl \<and>
    kept q ((p, take off old @ bs @ drop (off + length bs) old) # held) \<and> p_item_size q = p_item_size pool"
proof -
  let ?new = "take off old @ bs @ drop (off + length bs) old"
  have i: "pool_inv pool ((p, length old) # blocks held) fl" using inv(1) by (simp add: blocks_def)
  have u: "in_used pool (p, length old)" "pool_read pool p (length old) = Some old" using i inv(2) by (simp_all add: pool_inv_def kept_def)
  obtain q where q: "pool_write pool (fst p, snd p + off) bs = Some q" "pool_inv q ((p, length old) # blocks held) fl" "p_item_size q = p_item_size pool"
    "pool_read q p (length old) = Some ?new" "\<forall>r m. apart (p, length old) (r, m) \<longrightarrow> pool_read q r m = pool_read pool r m"
    using pool_write_ok [OF i u(1) w u(2)] by blast
  have l: "length ?new = length old" using w by simp
  have "kept pool held" using inv(2) by (simp add: kept_def)
  then have "kept q held" using kept_apart [OF _ q(5)] inv_apart [OF i] by blast
  then have "kept q ((p, ?new) # held)" using q(4) l by (simp add: kept_def)
  moreover have "pool_inv q (blocks ((p, ?new) # held)) fl" using q(2) l by (simp add: blocks_def)
  ultimately show ?thesis using q(1,3) by blast
qed

lemma flag_simps [simp]:
  "pool_inv (q\<lparr>p_has_string_alloc := f\<rparr>) live fl = pool_inv q live fl" "pool_read (q\<lparr>p_has_string_alloc := f\<rparr>) p n = pool_read q p n"
  "kept (q\<lparr>p_has_string_alloc := f\<rparr>) held = kept q held"
proof -
  have p: "page_of (q\<lparr>p_has_string_alloc := f\<rparr>) = page_of q" "pages (q\<lparr>p_has_string_alloc := f\<rparr>) = pages q" by (simp_all add: page_of_def pages_def fun_eq_iff)
  show "pool_inv (q\<lparr>p_has_string_alloc := f\<rparr>) live fl = pool_inv q live fl"
    by (simp add: pool_inv_def pages_ok_def in_used_def free_blocks_def p)
  show r: "pool_read (q\<lparr>p_has_string_alloc := f\<rparr>) p n = pool_read q p n" for p n by (simp add: pool_read_def p)
  show "kept (q\<lparr>p_has_string_alloc := f\<rparr>) held = kept q held" by (simp add: kept_def r)
qed

lemma put_block_if:
  assumes "pool_inv pool (blocks ((p, old) # held)) fl" "kept pool ((p, old) # held)" "off + length bs \<le> length old"
  shows "\<exists>q. (if bs \<noteq> [] then pool_write pool (fst p, snd p + off) bs else Some pool) = Some q \<and>
    pool_inv q (blocks ((p, take off old @ bs @ drop (off + length bs) old) # held)) fl \<and>
    kept q ((p, take off old @ bs @ drop (off + length bs) old) # held)"
proof (cases "bs = []")
  case True
  then show ?thesis using assms by simp
next
  case False
  then show ?thesis using put_block [OF assms] by auto
qed

lemma malloc_none:
  assumes "pool_inv pool (blocks held) fl" "kept pool held" "items * p_item_size pool < 2 ^ 32" "git_pool_malloc ok pool items = (None, q)"
  shows "client_inv (q, held)"
proof -
  have q: "pool_inv q (blocks held) fl" "page_of q = page_of pool" using malloc_ok(2) [OF assms(1,3,4)] by auto
  have "kept q held" using assms(2) by (simp add: kept_def pool_read_def q(2))
  then show ?thesis using q(1) by (auto simp: client_inv_def)
qed

lemma strcat_ok:
  assumes inv: "pool_inv pool (blocks held) fl" "kept pool held" and one: "p_item_size pool = 1" and l: "length a + length b + 1 < 2 ^ 32"
  shows "\<exists>rq. git_pool_strcat ok pool a b = Some rq \<and> client_inv (hold held (a @ b @ [0]) rq)"
proof -
  let ?n = "length a + length b + 1"
  have m: "?n * p_item_size pool < 2 ^ 32" using one l by simp
  obtain r q where rq: "git_pool_malloc ok pool ?n = (r, q)" by (cases "git_pool_malloc ok pool ?n")
  have u: "u32w ?n = ?n" using l by simp
  have s: "git_pool_strcat ok pool a b = (case git_pool_malloc ok pool ?n of
        (None, pool) \<Rightarrow> Some (None, pool\<lparr>p_has_string_alloc := True\<rparr>)
      | (Some p, pool) \<Rightarrow> do {
          pool \<leftarrow> (if a \<noteq> [] then pool_write pool p a else Some pool);
          pool \<leftarrow> (if b \<noteq> [] then pool_write pool (fst p, snd p + length a) b else Some pool);
          pool \<leftarrow> pool_write pool (fst p, snd p + length a + length b) [0];
          Some (Some p, pool\<lparr>p_has_string_alloc := True\<rparr>) })"
    unfolding git_pool_strcat_def u using one by simp
  show ?thesis
  proof (cases r)
    case None
    have "client_inv (q, held)" by (rule malloc_none [OF inv m]) (use rq None in simp)
    then show ?thesis using s rq None by (auto simp: hold_def client_inv_def)
  next
    case (Some p)
    obtain bs fl' where b0: "length bs = ?n" "pool_inv q (blocks ((p, bs) # held)) fl'" "kept q ((p, bs) # held)"
      using fresh_block [OF inv m, of ok p q] rq Some one by auto
    obtain q1 where q1: "(if a \<noteq> [] then pool_write q p a else Some q) = Some q1"
      "pool_inv q1 (blocks ((p, a @ drop (length a) bs) # held)) fl'" "kept q1 ((p, a @ drop (length a) bs) # held)"
      using put_block_if [OF b0(2,3), of 0 a] b0(1) unfolding add_0_right prod.collapse by auto
    obtain q2 where q2: "(if b \<noteq> [] then pool_write q1 (fst p, snd p + length a) b else Some q1) = Some q2"
      "pool_inv q2 (blocks ((p, a @ b @ drop (length a + length b) bs) # held)) fl'" "kept q2 ((p, a @ b @ drop (length a + length b) bs) # held)"
      using put_block_if [OF q1(2,3), of "length a" b] b0(1) by (auto simp: add.commute)
    obtain q3 where q3: "pool_write q2 (fst p, snd p + length a + length b) [0] = Some q3"
      "pool_inv q3 (blocks ((p, a @ b @ [0]) # held)) fl'" "kept q3 ((p, a @ b @ [0]) # held)"
      using put_block [OF q2(2,3), of "length a + length b" "[0]"] b0(1) by (auto simp: add.assoc)
    then show ?thesis unfolding s rq Some using q1(1) q2(1) q3(1) by (auto simp: hold_def client_inv_def)
  qed
qed



lemma malloc_granted: "\<forall>n. ok n \<Longrightarrow> git_pool_malloc ok pool items \<noteq> (None, q)"
  by (auto simp: git_pool_malloc_def pool_alloc_page_def Let_def split: if_splits option.splits list.splits prod.splits)

lemma strdup_ok:
  assumes inv: "pool_inv pool (blocks held) fl" "kept pool held" and one: "p_item_size pool = 1" and l: "length s + 1 < 2 ^ 32"
  shows "\<exists>rq. git_pool_strdup ok pool s = Some rq \<and> client_inv (hold held (s @ [0]) rq) \<and>
    p_item_size (snd rq) = 1 \<and> ((\<forall>n. ok n) \<longrightarrow> fst rq \<noteq> None)"
proof -
  let ?n = "length s + 1"
  have m: "?n * p_item_size pool < 2 ^ 32" using one l by simp
  obtain r q where rq: "git_pool_malloc ok pool ?n = (r, q)" by (cases "git_pool_malloc ok pool ?n")
  have u: "u32w ?n = ?n" "szw ?n \<noteq> 0" using l by (simp_all add: szw_def)
  have rs: "rd_blk (s @ [0]) 0 (length s) = Some s" by (simp add: rd_blk_def)
  have st: "git_pool_strdup ok pool s = (case git_pool_malloc ok pool ?n of
        (None, pool) \<Rightarrow> Some (None, pool\<lparr>p_has_string_alloc := True\<rparr>)
      | (Some p, pool) \<Rightarrow> do {
          pool \<leftarrow> pool_write pool p s;
          pool \<leftarrow> pool_write pool (fst p, snd p + length s) [0];
          Some (Some p, pool\<lparr>p_has_string_alloc := True\<rparr>) })"
    unfolding git_pool_strdup_def git_pool_strndup_def u(1) rs bind.bind_lunit using one u(2) by simp
  show ?thesis
  proof (cases r)
    case None
    have "client_inv (q, held)" by (rule malloc_none [OF inv m]) (use rq None in simp)
    moreover have "\<not> (\<forall>n. ok n)" using malloc_granted rq None by blast
    ultimately show ?thesis using st rq None malloc_ok(1) [OF inv(1) m rq] one by (auto simp: hold_def client_inv_def)
  next
    case (Some p)
    obtain bs fl' where b0: "length bs = ?n" "pool_inv q (blocks ((p, bs) # held)) fl'" "kept q ((p, bs) # held)" "p_item_size q = 1"
      using fresh_block [OF inv m, of ok p q] rq Some one by auto
    obtain q1 where q1: "pool_write q p s = Some q1" "pool_inv q1 (blocks ((p, s @ drop (length s) bs) # held)) fl'" "kept q1 ((p, s @ drop (length s) bs) # held)" "p_item_size q1 = 1"
      using put_block [OF b0(2,3), of 0 s] b0(1,4) by auto
    obtain q3 where q3: "pool_write q1 (fst p, snd p + length s) [0] = Some q3" "pool_inv q3 (blocks ((p, s @ [0]) # held)) fl'" "kept q3 ((p, s @ [0]) # held)" "p_item_size q3 = 1"
      using put_block [OF q1(2,3), of "length s" "[0]"] b0(1) q1(4) by auto
    then show ?thesis unfolding st rq Some using q1(1) by (auto simp: hold_def client_inv_def)
  qed
qed

lemma free_ok:
  assumes inv: "pool_inv pool (blocks ((p, bs) # held)) fl" "kept pool ((p, bs) # held)" and l: "8 \<le> p_item_size pool" "p_item_size pool \<le> length bs" and e: "\<And>x. length (enc x) = 8"
  shows "\<exists>q. git_pool_free enc pool (Some p) = Some q \<and> client_inv (q, held)"
proof -
  let ?h = "p_free_list pool" and ?it = "p_item_size pool"
  have i: "pool_inv pool ((p, length bs) # blocks held) fl" using inv(1) by (simp add: blocks_def)
  have u: "in_used pool (p, length bs)" "pool_read pool p (length bs) = Some bs" using i inv(2) by (simp_all add: pool_inv_def kept_def)
  have w: "0 + length (enc ?h) \<le> length bs" using e l by simp
  obtain q where q: "pool_write pool p (enc ?h) = Some q" "pool_inv q ((p, length bs) # blocks held) fl" "p_item_size q = ?it" "p_free_list q = ?h" "p_link q = p_link pool"
    "\<forall>r m. apart (p, length bs) (r, m) \<longrightarrow> pool_read q r m = pool_read pool r m"
    using pool_write_ok [OF i u(1) w u(2)] by auto
  have "kept pool held" using inv(2) by (simp add: kept_def)
  then have k: "kept q held" using kept_apart [OF _ q(6)] inv_apart [OF i] by blast
  have f: "free_blocks q xs = map (\<lambda>p. (p, ?it)) xs" for xs by (simp add: free_blocks_def q(3))
  have n: "p \<notin> set fl"
  proof
    assume "p \<in> set fl"
    then have "(p, ?it) \<in> set (free_blocks q fl)" by (simp add: f)
    then have "apart (p, length bs) (p, ?it)" using q(2) by (simp add: pool_inv_def)
    then show False using l by (simp add: apart_def)
  qed
  define q' where "q' = q\<lparr>p_link := (p_link q)(p := ?h), p_free_list := Some p\<rparr>"
  have g: "git_pool_free enc pool (Some p) = Some q'" using l(1) q(1) by (simp add: git_pool_free_def set_link_def q'_def)
  have pq: "page_of q' = page_of q" "pages q' = pages q" "free_blocks q' = free_blocks q" "p_fresh q' = p_fresh q"
    by (simp_all add: q'_def page_of_def pages_def free_blocks_def fun_eq_iff)
  have "sorted_wrt apart ((p, length bs) # blocks held @ free_blocks q fl)" using q(2) by (simp add: pool_inv_def)
  moreover have "apart (p, ?it) x" if "apart (p, length bs) x" for x using apart_shrink [OF that l(2)] .
  ultimately have "sorted_wrt apart ((p, ?it) # blocks held @ free_blocks q fl)" unfolding sorted_wrt.simps by blast
  then have s: "sorted_wrt apart (blocks held @ free_blocks q (p # fl))" unfolding f list.map apart_move .
  have "free_chain (p_link q) ?h fl" using q(2,4) by (simp add: pool_inv_def)
  moreover have "p_link q x = ((p_link q)(p := ?h)) x" if "x \<in> set fl" for x using that n by auto
  ultimately have "free_chain ((p_link q)(p := ?h)) ?h fl" using free_chain_cong by blast
  then have c: "free_chain (p_link q') (p_free_list q') (p # fl)" by (simp add: q'_def)
  have "in_used q (p, ?it)" using in_used_shrink [of q p "length bs"] l(2) q(2) by (simp add: pool_inv_def)
  then have "pool_inv q' (blocks held) (p # fl)" using q(2) s c
    by (auto simp: pool_inv_def pages_ok_def in_used_def pq f)
  moreover have "kept q' held" using k by (simp add: kept_def pool_read_def pq)
  ultimately show ?thesis using g by (auto simp: client_inv_def)
qed

lemma held_split: "k < length held \<Longrightarrow> held = take k held @ held ! k # drop (Suc k) held"
  by (rule id_take_nth_drop)

lemma held_move:
  assumes "kept pool held" "pool_inv pool (blocks held) fl" "k < length held"
  shows "kept pool (held ! k # take k held @ drop (Suc k) held)" "pool_inv pool (blocks (held ! k # take k held @ drop (Suc k) held)) fl"
proof -
  note e = held_split [OF assms(3)]
  have "set (held ! k # take k held @ drop (Suc k) held) = set held" by (subst (4) e) auto
  then show "kept pool (held ! k # take k held @ drop (Suc k) held)" using assms(1) by (simp add: kept_def)
  have "pool_inv pool (blocks (take k held @ held ! k # drop (Suc k) held)) fl" using assms(2) e by simp
  then show "pool_inv pool (blocks (held ! k # take k held @ drop (Suc k) held)) fl" unfolding blocks_def map_append list.map pool_inv_move .
qed

lemma call_ok:
  assumes e: "\<And>x. length (enc x) = 8" and inv: "client_inv st"
  shows "\<exists>st'. do_call enc c st = Some st' \<and> client_inv st'"
proof -
  obtain pool held where st: "st = (pool, held)" by (cases st)
  obtain fl where i: "kept pool held" "pool_inv pool (blocks held) fl" using inv by (auto simp: st client_inv_def)
  show ?thesis
  proof (cases c)
    case (Alloc ok items)
    show ?thesis
    proof (cases "2 ^ 32 \<le> items * p_item_size pool")
      case False
      then have m: "items * p_item_size pool < 2 ^ 32" by simp
      obtain r q where rq: "git_pool_malloc ok pool items = (r, q)" by (cases "git_pool_malloc ok pool items")
      show ?thesis
      proof (cases r)
        case None
        then show ?thesis using malloc_none [OF i(2,1) m] rq False by (simp add: st Alloc)
      next
        case (Some p)
        then show ?thesis using fresh_block [OF i(2,1) m, of ok p q] rq False by (auto simp: st Alloc client_inv_def)
      qed
    qed (use inv in \<open>simp add: st Alloc\<close>)
  next
    case (Put k off bs)
    show ?thesis
    proof (cases "k < length held \<and> off + length bs \<le> length (snd (held ! k))")
      case True
      obtain p old where po: "held ! k = (p, old)" by (cases "held ! k")
      let ?new = "take off old @ bs @ drop (off + length bs) old" and ?rest = "take k held @ drop (Suc k) held"
      have k: "k < length held" using True by simp
      have w: "off + length bs \<le> length old" using True po by simp
      obtain q where q: "pool_write pool (fst p, snd p + off) bs = Some q" "pool_inv q (blocks ((p, ?new) # ?rest)) fl" "kept q ((p, ?new) # ?rest)"
        using put_block [OF held_move(2) [OF i k, unfolded po] held_move(1) [OF i k, unfolded po] w] by blast
      have u: "held[k := (p, ?new)] = take k held @ (p, ?new) # drop (Suc k) held" using k by (rule upd_conv_take_nth_drop)
      have "kept q (held[k := (p, ?new)])" using q(3) unfolding u by (simp add: kept_def ball_Un)
      moreover have "pool_inv q (blocks (held[k := (p, ?new)])) fl" using q(2) unfolding u blocks_def map_append list.map pool_inv_move .
      ultimately show ?thesis using True q(1) po by (auto simp: st Put client_inv_def)
    qed (use inv in \<open>auto simp: st Put\<close>)
  next
    case (Release k)
    show ?thesis
    proof (cases "k < length held \<and> 8 \<le> p_item_size pool \<and> p_item_size pool \<le> length (snd (held ! k))")
      case True
      obtain p bs where pb: "held ! k = (p, bs)" by (cases "held ! k")
      have k: "k < length held" using True by simp
      show ?thesis using free_ok [where enc = enc, OF held_move(2) [OF i k, unfolded pb] held_move(1) [OF i k, unfolded pb] _ _ e] True pb by (auto simp: st Release)
    qed (use inv in \<open>auto simp: st Release\<close>)
  next
    case (Dup ok s)
    show ?thesis
    proof (cases "p_item_size pool = 1 \<and> length s + 1 < 2 ^ 32")
      case True
      then obtain rq where "git_pool_strdup ok pool s = Some rq" "client_inv (hold held (s @ [0]) rq)" using strdup_ok [OF i(2,1), of s ok] by blast
      then show ?thesis using True by (intro exI [of _ "hold held (s @ [0]) rq"]) (simp add: st Dup)
    qed (use inv in \<open>auto simp: st Dup\<close>)
  next
    case (Cat ok a b)
    show ?thesis
    proof (cases "p_item_size pool = 1 \<and> length a + length b + 1 < 2 ^ 32")
      case True
      then obtain rq where "git_pool_strcat ok pool a b = Some rq" "client_inv (hold held (a @ b @ [0]) rq)" using strcat_ok [OF i(2,1), of a b ok] by blast
      then show ?thesis using True by (intro exI [of _ "hold held (a @ b @ [0]) rq"]) (simp add: st Cat)
    qed (use inv in \<open>auto simp: st Cat\<close>)
  qed
qed

lemma calls_ok:
  assumes "\<And>x. length (enc x) = 8"
  shows "client_inv st \<Longrightarrow> \<exists>st'. pool_calls enc cs st = Some st' \<and> client_inv st'"
proof (induction cs arbitrary: st)
  case (Cons c cs)
  then obtain st1 where "do_call enc c st = Some st1" "client_inv st1" using call_ok [where enc = enc, OF assms] by blast
  then show ?case using Cons.IH [of st1] by simp
qed simp

lemma client_start: "git_pool_init sys item_size items_per_page = Some (0, pool0) \<Longrightarrow> client_inv (pool0, [])"
proof -
  assume a: "git_pool_init sys item_size items_per_page = Some (0, pool0)"
  have "pages pool0 = []" "p_free_list pool0 = None"
    using a unfolding git_pool_init_def Let_def Option.bind_eq_Some_conv pages_def by auto
  then show "client_inv (pool0, [])" by (auto simp: client_inv_def kept_def blocks_def pool_inv_def pages_ok_def page_of_def free_blocks_def intro: exI [of _ "[]"])
qed

section \<open>Properties\<close>

text \<open>C34: The blocks of a pool are safe.  After any sequence of allowed calls on a new pool, with allocations of pages that fail at will,
  no call has left the memory of a page, the blocks that the client holds do not overlap, and each still has the bytes that were last
  put into it: the copies and concatenations of strings too, after any later allocations and releases.\<close>

theorem pool_safe:
  assumes "git_pool_init sys item_size items_per_page = Some (0, pool0)" "\<And>x. length (enc x) = 8"
  shows "\<exists>pool held. pool_calls enc calls (pool0, []) = Some (pool, held) \<and> sorted_wrt apart (blocks held) \<and>
    (\<forall>(p, bs) \<in> set held. pool_read pool p (length bs) = Some bs \<and> (bs \<noteq> [] \<longrightarrow> git_pool__ptr_in_pool pool p))"
proof -
  have "client_inv (pool0, [])" by (rule client_start [OF assms(1)])
  then have "\<exists>st. pool_calls enc calls (pool0, []) = Some st \<and> client_inv st" by (rule calls_ok [where enc = enc, OF assms(2)])
  then obtain pool held fl where s: "pool_calls enc calls (pool0, []) = Some (pool, held)" "kept pool held" "pool_inv pool (blocks held) fl" by (auto simp: client_inv_def)
  have "git_pool__ptr_in_pool pool p" if "(p, bs) \<in> set held" "bs \<noteq> []" for p bs
  proof -
    have "(p, length bs) \<in> set (blocks held)" using that(1) by (force simp: blocks_def)
    then have "in_used pool (p, length bs)" by (rule inv_used [OF s(3)])
    then obtain pg where pg: "page_of pool (fst p) = Some pg" "snd p + length bs \<le> pg_size pg - pg_avail pg" by (auto simp: in_used_def)
    moreover have "snd p < pg_size pg" using pg(2) that(2) by (cases bs) auto
    moreover have "distinct (map pg_id (pages pool))" using s(3) by (simp add: pool_inv_def pages_ok_def)
    ultimately show ?thesis using that(2) by (auto simp: git_pool__ptr_in_pool_def page_of_iff intro!: bexI [of _ pg])
  qed
  then show ?thesis using s by (auto simp: kept_def pool_inv_def sorted_wrt_append)
qed

theorem pool_safe_witness:
  "\<exists>pool held. pool_calls (\<lambda>_. replicate 8 0) [Alloc (\<lambda>_. True) 1, Alloc (\<lambda>_. True) 2, Put 0 3 [7, 8], Release 1, Alloc (\<lambda>_. True) 1] (snd (the (git_pool_init 4096 8 4)), []) = Some (pool, held) \<and>
     sorted_wrt apart (blocks held)"
proof -
  have "git_pool_init 4096 8 4 = Some (0, snd (the (git_pool_init 4096 8 4)))" by (simp add: git_pool_init_def GIT_POOL_MIN_PAGESZ_def)
  from pool_safe [OF this, of "\<lambda>_. replicate 8 0" "[Alloc (\<lambda>_. True) 1, Alloc (\<lambda>_. True) 2, Put 0 3 [7, 8], Release 1, Alloc (\<lambda>_. True) 1]"]
  show ?thesis by auto
qed

lemma dups_ok:
  assumes "\<forall>n. ok n"
  shows "client_inv (pool, held) \<Longrightarrow> p_item_size pool = 1 \<Longrightarrow> \<forall>s \<in> set strs. length s + 1 < 2 ^ 32 \<Longrightarrow>
    \<exists>q held'. pool_calls enc (map (Dup ok) strs) (pool, held) = Some (q, held') \<and> client_inv (q, held') \<and>
      map snd held' = rev (map (\<lambda>s. s @ [0]) strs) @ map snd held"
proof (induction strs arbitrary: pool held)
  case (Cons s strs)
  obtain fl where i: "pool_inv pool (blocks held) fl" "kept pool held" using Cons.prems(1) by (auto simp: client_inv_def)
  have l: "length s + 1 < 2 ^ 32" using Cons.prems(3) by simp
  obtain r q where rq: "git_pool_strdup ok pool s = Some (r, q)" "client_inv (hold held (s @ [0]) (r, q))" "p_item_size q = 1" "r \<noteq> None"
    using strdup_ok [OF i Cons.prems(2) l, of ok] assms by auto
  then obtain p where p: "hold held (s @ [0]) (r, q) = (q, (p, s @ [0]) # held)" by (auto simp: hold_def)
  have "do_call enc (Dup ok s) (pool, held) = Some (q, (p, s @ [0]) # held)" using Cons.prems(2) l rq(1) p by simp
  moreover have "client_inv (q, (p, s @ [0]) # held)" using rq(2) p by simp
  ultimately show ?case using Cons.IH [of q "(p, s @ [0]) # held"] rq(3) Cons.prems(3) by auto
qed simp

text \<open>C35: Strings put into a string pool stay there.  When the C allocator grants all pages, git\_pool\_strdup gives a block for every
  string; when all are copied, the blocks do not overlap and each has its string with a NUL behind it.\<close>

theorem pool_strings:
  assumes "git_pool_init sys 1 items_per_page = Some (0, pool0)" "\<forall>n. ok n" "\<forall>s \<in> set strs. length s + 1 < 2 ^ 32"
  shows "\<exists>pool held. pool_calls enc (map (Dup ok) strs) (pool0, []) = Some (pool, held) \<and> sorted_wrt apart (blocks held) \<and>
    map snd held = rev (map (\<lambda>s. s @ [0]) strs) \<and> (\<forall>(p, bs) \<in> set held. pool_read pool p (length bs) = Some bs)"
proof -
  have "client_inv (pool0, [])" using client_start [OF assms(1)] .
  moreover have "p_item_size pool0 = 1" using assms(1) unfolding git_pool_init_def Let_def Option.bind_eq_Some_conv by auto
  ultimately obtain pool held where q: "pool_calls enc (map (Dup ok) strs) (pool0, []) = Some (pool, held)" "client_inv (pool, held)"
    "map snd held = rev (map (\<lambda>s. s @ [0]) strs)"
    using dups_ok [OF assms(2) _ _ assms(3), of pool0 "[]" enc] by auto
  then show ?thesis by (auto simp: client_inv_def kept_def pool_inv_def sorted_wrt_append)
qed

theorem pool_strings_witness:
  "\<exists>pool held. pool_calls (\<lambda>_. []) (map (Dup (\<lambda>_. True)) [[97, 98], [], [99]]) (snd (the (git_pool_init 4096 1 16)), []) = Some (pool, held) \<and>
     map snd held = [[99, 0], [0], [97, 98, 0]]"
proof -
  define pool0 where "pool0 = snd (the (git_pool_init 4096 1 16))"
  have i: "git_pool_init 4096 1 16 = Some (0, pool0)" by (simp add: pool0_def git_pool_init_def GIT_POOL_MIN_PAGESZ_def)
  have l: "\<forall>s \<in> set [[97, 98], [], [99 :: byte]]. length s + 1 < 2 ^ 32" by simp
  have r: "rev (map (\<lambda>s. s @ [0]) [[97, 98], [], [99 :: byte]]) = [[99, 0], [0], [97, 98, 0]]" by simp
  have t: "\<forall>n :: nat. (\<lambda>_. True) n" by simp
  show ?thesis using pool_strings [OF i t l, of "\<lambda>_. []"] unfolding r pool0_def [symmetric] by (elim exE conjE) (intro exI conjI)
qed

text \<open>A request of 2 to the 32 bytes is one of no bytes: two such blocks are at the same place.\<close>

lemma pool_size_wraps:
  "\<exists>pool q. git_pool_malloc (\<lambda>_. True) (snd (the (git_pool_init 4096 8 4))) 536870912 = (Some (0, 0), pool) \<and>
     git_pool_malloc (\<lambda>_. True) pool 536870912 = (Some (0, 0), q)"
  by (simp add: git_pool_init_def git_pool_malloc_def pool_alloc_page_def pool_insert_page_def GIT_POOL_MIN_PAGESZ_def u32w_def Let_def)

end
