(* ===== verification/Refs.thy ===== *)
theory Refs
  imports Buffer
begin

text \<open>
  Names of references, todo-later/libgit2/src/refs.c.  A name is the list of its bytes before the NUL and a
  pointer into it a position.  The branches for GIT\_USE\_ICONV are not compiled.
\<close>

definition GIT_EINVALIDSPEC :: int where
  "GIT_EINVALIDSPEC = -12"

definition GIT_EBUFS :: int where
  "GIT_EBUFS = -6"

definition GIT_REF_FORMAT_ALLOW_ONELEVEL :: u32 where
  "GIT_REF_FORMAT_ALLOW_ONELEVEL = 1"

definition GIT_REF_FORMAT_REFSPEC_PATTERN :: u32 where
  "GIT_REF_FORMAT_REFSPEC_PATTERN = 2"

definition GIT_REF_FORMAT_REFSPEC_SHORTHAND :: u32 where
  "GIT_REF_FORMAT_REFSPEC_SHORTHAND = 4"

section \<open>Segments\<close>

text \<open>The characters are signed, so those from 128 on are large as unsigned int.\<close>

definition is_valid_ref_char :: "byte \<Rightarrow> bool" where
  "is_valid_ref_char ch = (\<not> (scast ch :: u32) \<le> 32 \<and> ch \<notin> {126, 94, 58, 92, 63, 91, 42})"

definition GIT_FILELOCK_EXTENSION :: "byte list" where
  "GIT_FILELOCK_EXTENSION = [46, 108, 111, 99, 107]"

text \<open>The loop over the characters; None is the return of -1.\<close>

fun segment_loop :: "byte \<Rightarrow> nat \<Rightarrow> byte list \<Rightarrow> nat option" where
  "segment_loop prev n [] = Some n"
| "segment_loop prev n (c # current) =
     (if c = 0 \<or> c = 47 then Some n
      else if \<not> is_valid_ref_char c then None
      else if prev = 46 \<and> c = 46 then None
      else if prev = 64 \<and> c = 123 then None
      else segment_loop c (n + 1) current)"

definition ensure_segment_validity :: "byte list \<Rightarrow> nat option" where
  "ensure_segment_validity name =
     (if hd0 name = 46 then None
      else case segment_loop 0 0 name of
        None \<Rightarrow> None
      | Some segment_len \<Rightarrow>
          let lock_len = length GIT_FILELOCK_EXTENSION in
          if lock_len \<le> segment_len \<and> take lock_len (drop (segment_len - lock_len) name) = GIT_FILELOCK_EXTENSION then None
          else Some segment_len)"

definition is_all_caps_and_underscore :: "byte list \<Rightarrow> nat \<Rightarrow> bool option" where
  "is_all_caps_and_underscore name len =
     (if len = 0 then None
      else Some (list_all (\<lambda>i. let c = hd0 (drop i name) in \<not> ((c <s 65 \<or> 90 <s c) \<and> c \<noteq> 95)) [0..<len] \<and>
        \<not> (hd0 name = 95 \<or> hd0 (drop (len - 1) name) = 95)))"

section \<open>Names\<close>

text \<open>What is done with a segment that is not empty: Inl is the way to cleanup, with the error.\<close>

definition append_segment :: "heap \<Rightarrow> git_buf option \<Rightarrow> byte list \<Rightarrow> nat \<Rightarrow> nat \<Rightarrow> ((int \<times> git_buf option) + git_buf option) option" where
  "append_segment h buf current segment_len segments_count = (case buf of
       None \<Rightarrow> Some (Inr None)
     | Some buf \<Rightarrow>
         let cur_len = git_buf_len buf in do {
           (_, buf) \<leftarrow> git_buf_joinpath h buf (Own 0) (current @ [0]);
           buf \<leftarrow> git_buf_truncate buf (cur_len + segment_len + (if segments_count \<noteq> 0 then 1 else 0));
           Some (if git_buf_oom buf then Inl (-1, Some buf) else Inr (Some buf)) })"

text \<open>The length of the segment at current, and the pattern flag behind it.\<close>

definition next_segment :: "bool \<Rightarrow> byte list \<Rightarrow> (nat \<times> bool) option" where
  "next_segment pattern current = (case ensure_segment_validity current of
       Some segment_len \<Rightarrow> Some (segment_len, pattern)
     | None \<Rightarrow> if pattern \<and> hd0 current = 42 \<and> (hd0 (tl current) = 0 \<or> hd0 (tl current) = 47) then Some (1, False) else None)"

lemma hd0_drop: "hd0 (drop k s) \<noteq> 0 \<Longrightarrow> k < length s"
  by (rule ccontr) (simp add: hd0_def)

text \<open>Inr has the position of the last segment, its length and the number of segments.\<close>

function name_loop :: "heap \<Rightarrow> byte list \<Rightarrow> nat \<Rightarrow> bool \<Rightarrow> git_buf option \<Rightarrow> nat \<Rightarrow>
    ((int \<times> git_buf option) + (nat \<times> nat \<times> nat \<times> git_buf option)) option" where
  "name_loop h name current pattern buf segments_count =
     (case next_segment pattern (drop current name) of
        None \<Rightarrow> Some (Inl (GIT_EINVALIDSPEC, buf))
      | Some (segment_len, pattern') \<Rightarrow>
          Option.bind (if 0 < segment_len then append_segment h buf (drop current name) segment_len segments_count else Some (Inr buf)) (\<lambda>r.
          case r of
            Inl e \<Rightarrow> Some (Inl e)
          | Inr buf' \<Rightarrow>
              let segments_count' = (if 0 < segment_len then segments_count + 1 else segments_count) in
              if segment_len = 0 \<and> buf' = None then Some (Inl (GIT_EINVALIDSPEC, buf'))
              else if hd0 (drop (current + segment_len) name) = 0 then Some (Inr (current, segment_len, segments_count', buf'))
              else name_loop h name (current + segment_len + 1) pattern' buf' segments_count'))"
  by pat_completeness auto
termination name_loop
  by (relation "measure (\<lambda>(_, name, current, _). length name - current)") (use hd0_drop in fastforce)+

declare name_loop.simps [simp del]

text \<open>The tests behind the loop.\<close>

definition check_name :: "byte list \<Rightarrow> u32 \<Rightarrow> nat \<Rightarrow> nat \<Rightarrow> nat \<Rightarrow> int option" where
  "check_name name flags current segment_len segments_count =
     (if segment_len = 0 \<and> segments_count = 0 then Some GIT_EINVALIDSPEC
      else if current + segment_len = 0 then None
      else do {
        c \<leftarrow> rd name (current + segment_len - 1);
        (if c = 46 \<or> c = 47 then Some GIT_EINVALIDSPEC
         else if segments_count = 1 \<and> flags AND GIT_REF_FORMAT_ALLOW_ONELEVEL = 0 then Some GIT_EINVALIDSPEC
         else do {
           bad \<leftarrow> (if segments_count = 1 \<and> flags AND GIT_REF_FORMAT_REFSPEC_SHORTHAND = 0 then do {
                caps \<leftarrow> is_all_caps_and_underscore name segment_len;
                Some (\<not> (caps \<or> flags AND GIT_REF_FORMAT_REFSPEC_PATTERN \<noteq> 0 \<and> name = [42])) }
              else Some False);
           (if bad then Some GIT_EINVALIDSPEC
            else do {
              bad \<leftarrow> (if 1 < segments_count then
                   (if 47 \<in> set name then is_all_caps_and_underscore name (length (takeWhile (\<lambda>c. c \<noteq> 47) name)) else None)
                 else Some False);
              Some (if bad then GIT_EINVALIDSPEC else 0) }) }) })"

definition git_reference__normalize_name :: "heap \<Rightarrow> git_buf option \<Rightarrow> byte list \<Rightarrow> u32 \<Rightarrow> (int \<times> git_buf option) option" where
  "git_reference__normalize_name h buf name flags = do {
     (error, buf) \<leftarrow>
       (if hd0 name = 47 then Some (GIT_EINVALIDSPEC, buf)
        else do {
          buf \<leftarrow> (case buf of None \<Rightarrow> Some None | Some b \<Rightarrow> map_option Some (git_buf_clear b));
          r \<leftarrow> name_loop h name 0 (flags AND GIT_REF_FORMAT_REFSPEC_PATTERN \<noteq> 0) buf 0;
          (case r of
             Inl e \<Rightarrow> Some e
           | Inr (current, segment_len, segments_count, buf) \<Rightarrow> do {
               error \<leftarrow> check_name name flags current segment_len segments_count;
               Some (error, buf) }) });
     buf \<leftarrow> (case buf of None \<Rightarrow> Some None | Some b \<Rightarrow> if error \<noteq> 0 then map_option Some (git_buf_free h b) else Some (Some b));
     Some (error, buf) }"

definition git_reference_normalize_name :: "heap \<Rightarrow> byte list \<Rightarrow> nat \<Rightarrow> byte list \<Rightarrow> u32 \<Rightarrow> (int \<times> byte list) option" where
  "git_reference_normalize_name h buffer_out buffer_size name flags = do {
     (error, buf) \<leftarrow> git_reference__normalize_name h (Some GIT_BUF_INIT) name flags;
     (case buf of
        None \<Rightarrow> None
      | Some buf \<Rightarrow> do {
          (error, out) \<leftarrow>
            (if error < 0 then Some (error, buffer_out)
             else if szw (buffer_size + 2 ^ 64 - 1) < git_buf_len buf then Some (GIT_EBUFS, buffer_out)
             else do { out \<leftarrow> git_buf_copy_cstr buffer_out buffer_size buf; Some (0, out) });
          _ \<leftarrow> git_buf_free h buf;
          Some (error, out) }) }"

definition git_reference__normalize_name_lax :: "heap \<Rightarrow> byte list \<Rightarrow> nat \<Rightarrow> byte list \<Rightarrow> (int \<times> byte list) option" where
  "git_reference__normalize_name_lax h buffer_out out_size name =
     git_reference_normalize_name h buffer_out out_size name GIT_REF_FORMAT_ALLOW_ONELEVEL"

definition git_reference__is_valid_name :: "heap \<Rightarrow> byte list \<Rightarrow> u32 \<Rightarrow> bool option" where
  "git_reference__is_valid_name h refname flags = do {
     (error, _) \<leftarrow> git_reference__normalize_name h None refname flags;
     Some (\<not> error < 0) }"

definition git_reference_is_valid_name :: "heap \<Rightarrow> byte list \<Rightarrow> bool option" where
  "git_reference_is_valid_name h refname = git_reference__is_valid_name h refname GIT_REF_FORMAT_ALLOW_ONELEVEL"

section \<open>Shorthands\<close>

definition GIT_REFS_DIR :: "byte list" where
  "GIT_REFS_DIR = [114, 101, 102, 115, 47]"

definition GIT_REFS_HEADS_DIR :: "byte list" where
  "GIT_REFS_HEADS_DIR = GIT_REFS_DIR @ [104, 101, 97, 100, 115, 47]"

definition GIT_REFS_TAGS_DIR :: "byte list" where
  "GIT_REFS_TAGS_DIR = GIT_REFS_DIR @ [116, 97, 103, 115, 47]"

definition GIT_REFS_REMOTES_DIR :: "byte list" where
  "GIT_REFS_REMOTES_DIR = GIT_REFS_DIR @ [114, 101, 109, 111, 116, 101, 115, 47]"

definition git_reference__is_branch :: "byte list \<Rightarrow> bool" where
  "git_reference__is_branch ref_name = (git__prefixcmp ref_name GIT_REFS_HEADS_DIR = 0)"

definition git_reference__is_remote :: "byte list \<Rightarrow> bool" where
  "git_reference__is_remote ref_name = (git__prefixcmp ref_name GIT_REFS_REMOTES_DIR = 0)"

definition git_reference__is_tag :: "byte list \<Rightarrow> bool" where
  "git_reference__is_tag ref_name = (git__prefixcmp ref_name GIT_REFS_TAGS_DIR = 0)"

definition git_reference_shorthand :: "byte list \<Rightarrow> byte list" where
  "git_reference_shorthand name =
     (if git__prefixcmp name GIT_REFS_HEADS_DIR = 0 then drop (length GIT_REFS_HEADS_DIR) name
      else if git__prefixcmp name GIT_REFS_TAGS_DIR = 0 then drop (length GIT_REFS_TAGS_DIR) name
      else if git__prefixcmp name GIT_REFS_REMOTES_DIR = 0 then drop (length GIT_REFS_REMOTES_DIR) name
      else if git__prefixcmp name GIT_REFS_DIR = 0 then drop (length GIT_REFS_DIR) name
      else name)"

end
