(* ===== verification/Refspec.thy ===== *)
theory Refspec
  imports Refs Signature Fnmatch Vector
begin

text \<open>
  Refspecs, todo-later/libgit2/src/refspec.c.  A string is the list of its bytes before the NUL and None is the pointer NULL.
  The vector of remote heads holds pointers; two heads are compared by the comparison of the vector.
\<close>

record git_refspec =
  rs_string :: "byte list option"
  rs_src :: "byte list option"
  rs_dst :: "byte list option"
  rs_force :: bool
  rs_push :: bool
  rs_pattern :: bool
  rs_matching :: bool

definition zero_refspec :: git_refspec where
  "zero_refspec = \<lparr>rs_string = None, rs_src = None, rs_dst = None, rs_force = False, rs_push = False, rs_pattern = False, rs_matching = False\<rparr>"

definition strrchr :: "byte list \<Rightarrow> byte \<Rightarrow> nat option" where
  "strrchr s c = (if c \<in> set s then Some (length s - 1 - length (takeWhile (\<lambda>x. x \<noteq> c) (rev s))) else None)"

definition git__strndup :: "alloc \<Rightarrow> byte list \<Rightarrow> nat \<Rightarrow> byte list option" where
  "git__strndup ok str n = (let s = take n str in if ok (length s + 1) then Some s else None)"

section \<open>Parsing\<close>

text \<open>The tests of the two sides; False is the jump to invalid.\<close>

definition valid_sides :: "heap \<Rightarrow> git_refspec \<Rightarrow> bool \<Rightarrow> bool \<Rightarrow> bool option" where
  "valid_sides h refspec is_fetch is_glob =
     (let flags = GIT_REF_FORMAT_ALLOW_ONELEVEL OR GIT_REF_FORMAT_REFSPEC_SHORTHAND OR (if is_glob then GIT_REF_FORMAT_REFSPEC_PATTERN else 0) in do {
        src \<leftarrow> rs_src refspec;
        (if is_fetch then do {
           ok \<leftarrow> (if src = [] then Some True else git_reference__is_valid_name h src flags);
           (if \<not> ok then Some False
            else case rs_dst refspec of
              None \<Rightarrow> Some True
            | Some dst \<Rightarrow> if dst = [] then Some True else git_reference__is_valid_name h dst flags) }
         else do {
           ok \<leftarrow> (if src = [] then Some True else if is_glob then git_reference__is_valid_name h src flags else Some True);
           (if \<not> ok then Some False
            else case rs_dst refspec of
              None \<Rightarrow> git_reference__is_valid_name h src flags
            | Some dst \<Rightarrow> if dst = [] then Some False else git_reference__is_valid_name h dst flags) }) })"

definition git_refspec__parse :: "heap \<Rightarrow> byte list \<Rightarrow> bool \<Rightarrow> (int \<times> git_refspec) option" where
  "git_refspec__parse h input is_fetch =
     (let refspec = zero_refspec\<lparr>rs_push := \<not> is_fetch\<rparr>;
          (refspec, lhs) = (if hd0 input = 43 then (refspec\<lparr>rs_force := True\<rparr>, tl input) else (refspec, input));
          rhs = strrchr lhs 58 in
      if \<not> is_fetch \<and> rhs = Some 0 \<and> hd0 (tl lhs) = 0 then Some (0, refspec\<lparr>rs_matching := True\<rparr>)
      else
        let (refspec, is_glob) = (case rhs of
               None \<Rightarrow> (refspec, False)
             | Some p \<Rightarrow>
                 let r = drop (p + 1) lhs; rlen = length r in
                 (refspec\<lparr>rs_dst := git__strndup (snd h) r rlen\<rparr>, 1 \<le> rlen \<and> 42 \<in> set r));
            llen = (case rhs of None \<Rightarrow> length lhs | Some p \<Rightarrow> p);
            lglob = (1 \<le> llen \<and> 42 \<in> set (take llen lhs)) in
        if (if lglob then (rhs \<noteq> None \<and> \<not> is_glob) \<or> (rhs = None \<and> is_fetch) else rhs \<noteq> None \<and> is_glob)
        then Some (-1, refspec)
        else
          let is_glob = (lglob \<or> is_glob);
              refspec = refspec\<lparr>rs_pattern := is_glob, rs_src := git__strndup (snd h) lhs llen\<rparr> in do {
            valid \<leftarrow> valid_sides h refspec is_fetch is_glob;
            (if \<not> valid then Some (-1, refspec)
             else do {
               string \<leftarrow> git__strdup (snd h) (Some input);
               Some (if string = None then -1 else 0, refspec\<lparr>rs_string := string\<rparr>) }) })"

section \<open>The fields\<close>

definition git_refspec_src :: "git_refspec option \<Rightarrow> byte list option" where
  "git_refspec_src refspec = (case refspec of None \<Rightarrow> None | Some r \<Rightarrow> rs_src r)"

definition git_refspec_dst :: "git_refspec option \<Rightarrow> byte list option" where
  "git_refspec_dst refspec = (case refspec of None \<Rightarrow> None | Some r \<Rightarrow> rs_dst r)"

definition git_refspec_string :: "git_refspec option \<Rightarrow> byte list option" where
  "git_refspec_string refspec = (case refspec of None \<Rightarrow> None | Some r \<Rightarrow> rs_string r)"

definition git_refspec_force :: "git_refspec option \<Rightarrow> int option" where
  "git_refspec_force refspec = (case refspec of None \<Rightarrow> None | Some r \<Rightarrow> Some (of_bool (rs_force r)))"

definition git_refspec_direction :: "git_refspec option \<Rightarrow> int option" where
  "git_refspec_direction spec = (case spec of None \<Rightarrow> None | Some r \<Rightarrow> Some (of_bool (rs_push r)))"

definition git_refspec_is_wildcard :: "git_refspec option \<Rightarrow> bool option" where
  "git_refspec_is_wildcard spec = (case git_refspec_src spec of
       None \<Rightarrow> None
     | Some src \<Rightarrow> if length src = 0 then None else Some (src ! (length src - 1) = 42))"

definition git_refspec_src_matches :: "git_refspec option \<Rightarrow> byte list \<Rightarrow> bool" where
  "git_refspec_src_matches refspec refname = (case git_refspec_src refspec of None \<Rightarrow> False | Some src \<Rightarrow> p_fnmatch src refname 0 = 0)"

definition git_refspec_dst_matches :: "git_refspec option \<Rightarrow> byte list \<Rightarrow> bool" where
  "git_refspec_dst_matches refspec refname = (case git_refspec_dst refspec of None \<Rightarrow> False | Some dst \<Rightarrow> p_fnmatch dst refname 0 = 0)"

section \<open>Transforming\<close>

text \<open>out is the array of at least outlen bytes.  The pointer name may not leave its string, nor to be read in front of it.\<close>

definition refspec_transform_internal :: "byte list \<Rightarrow> nat \<Rightarrow> byte list option \<Rightarrow> byte list option \<Rightarrow> byte list \<Rightarrow> (int \<times> byte list) option" where
  "refspec_transform_internal out outlen from dest name = do {
     dest \<leftarrow> dest;
     (let baselen = length dest in
      if outlen \<le> baselen then Some (GIT_EBUFS, out)
      else if baselen = 0 then None
      else if dest ! (baselen - 1) \<noteq> 42 then map_option (Pair 0) (wr_blk out 0 (dest @ [0]))
      else do {
        from \<leftarrow> from;
        (let baselen = baselen - 1 in
         if length from = 0 \<or> length name < length from - 1 then None
         else
           let name = drop (length from - 1) name; namelen = length name in
           if outlen \<le> baselen + namelen then Some (GIT_EBUFS, out)
           else do {
             out \<leftarrow> wr_blk out 0 (take baselen dest);
             out \<leftarrow> wr_blk out baselen (name @ [0]);
             Some (0, out) }) }) }"

definition git_refspec_transform :: "byte list \<Rightarrow> nat \<Rightarrow> git_refspec \<Rightarrow> byte list \<Rightarrow> (int \<times> byte list) option" where
  "git_refspec_transform out outlen spec name = refspec_transform_internal out outlen (rs_src spec) (rs_dst spec) name"

definition git_refspec_rtransform :: "byte list \<Rightarrow> nat \<Rightarrow> git_refspec \<Rightarrow> byte list \<Rightarrow> (int \<times> byte list) option" where
  "git_refspec_rtransform out outlen spec name = refspec_transform_internal out outlen (rs_dst spec) (rs_src spec) name"

definition str_arg :: "byte list option \<Rightarrow> bytes_ptr" where
  "str_arg s = (case s of None \<Rightarrow> NoData | Some s \<Rightarrow> Bytes s)"

definition refspec_transform :: "heap \<Rightarrow> git_buf \<Rightarrow> byte list option \<Rightarrow> byte list option \<Rightarrow> byte list option \<Rightarrow> (int \<times> git_buf) option" where
  "refspec_transform h out from dest name =
     (let len = (\<lambda>s. case s of None \<Rightarrow> 0 | Some s \<Rightarrow> length s);
          to_len = len dest; from_len = len from; name_len = len name in do {
        (rc, out) \<leftarrow> git_buf_set h out (str_arg dest) to_len;
        (if rc < 0 then Some (-1, out)
         else do {
           (fixed, out) \<leftarrow> (if 0 < to_len then do {
                c \<leftarrow> buf_read out (to_len - 1) 1;
                (if c \<noteq> [42] then Some (True, out)
                 else do { out \<leftarrow> git_buf_shorten out 1; Some (False, out) }) }
              else Some (False, out));
           (if fixed then Some (0, out)
            else
              let from_len = (if 0 < from_len then from_len - 1 else from_len);
                  from_len = (if name_len < from_len then name_len else from_len) in
              git_buf_put h out (str_arg (map_option (drop from_len) name)) (name_len - from_len)) }) })"

definition git_refspec_transform_r :: "heap \<Rightarrow> git_buf \<Rightarrow> git_refspec \<Rightarrow> byte list option \<Rightarrow> (int \<times> git_buf) option" where
  "git_refspec_transform_r h out spec name = refspec_transform h out (rs_src spec) (rs_dst spec) name"

definition git_refspec_transform_l :: "heap \<Rightarrow> git_buf \<Rightarrow> git_refspec \<Rightarrow> byte list option \<Rightarrow> (int \<times> git_buf) option" where
  "git_refspec_transform_l h out spec name = refspec_transform h out (rs_dst spec) (rs_src spec) name"

definition git_refspec__serialize :: "heap \<Rightarrow> git_buf \<Rightarrow> git_refspec \<Rightarrow> (bool \<times> git_buf) option" where
  "git_refspec__serialize h out refspec = do {
     (_, out) \<leftarrow> (if rs_force refspec then git_buf_putc h out 43 else Some (0, out));
     (_, out) \<leftarrow> git_buf_printf h out 5 (Some ((case rs_src refspec of None \<Rightarrow> [] | Some s \<Rightarrow> s) @ [58] @ (case rs_dst refspec of None \<Rightarrow> [] | Some s \<Rightarrow> s)));
     Some (\<not> git_buf_oom out, out) }"

section \<open>Guessing what a shorthand stands for\<close>

record git_remote_head =
  rh_local :: int
  rh_oid :: "byte list"
  rh_loid :: "byte list"
  rh_name :: "byte list"

definition remote_head_cmp :: "git_remote_head \<Rightarrow> git_remote_head \<Rightarrow> int" where
  "remote_head_cmp a b = git__strcmp_cb (rh_name a) (rh_name b)"

definition formatters :: "byte list list" where
  "formatters = [GIT_REFS_DIR, GIT_REFS_TAGS_DIR, GIT_REFS_HEADS_DIR]"

text \<open>The string in a detached buffer.\<close>

definition detached_str :: "buf_ptr \<Rightarrow> byte list option option" where
  "detached_str p = (case p of Null \<Rightarrow> Some None | Mem m \<Rightarrow> do { n \<leftarrow> cstrlen m; Some (Some (take n m)) } | _ \<Rightarrow> None)"

text \<open>The loop over the formatters; key has whatever the uninitialized key holds.  Inl is the early return of -1.\<close>

primrec dwim_loop :: "heap \<Rightarrow> git_remote_head \<Rightarrow> git_remote_head git_vector \<Rightarrow> byte list \<Rightarrow> byte list list \<Rightarrow> git_refspec \<Rightarrow> git_buf \<Rightarrow>
    (unit + git_refspec \<times> git_buf) option" where
  "dwim_loop h key refs src [] cur buf = Some (Inr (cur, buf))"
| "dwim_loop h key refs src (f # fs) cur buf = do {
     buf \<leftarrow> git_buf_clear buf;
     (rc, buf) \<leftarrow> git_buf_printf h buf (length f + 2) (Some (f @ src));
     (if rc < 0 then Some (Inl ())
      else do {
        m \<leftarrow> ptr_bytes (b_ptr buf);
        n \<leftarrow> cstrlen m;
        (if fst (git_vector_search refs (key\<lparr>rh_name := take n m\<rparr>)) = 0 then do {
           (p, buf) \<leftarrow> git_buf_detach h buf;
           s \<leftarrow> detached_str p;
           dwim_loop h key refs src fs (cur\<lparr>rs_src := s\<rparr>) buf }
         else dwim_loop h key refs src fs cur buf) }) }"

definition REMOTES :: "byte list" where
  "REMOTES = [114, 101, 109, 111, 116, 101, 115, 47]"

definition git_refspec__dwim_one ::
  "heap \<Rightarrow> git_remote_head \<Rightarrow> git_refspec git_vector \<Rightarrow> git_refspec \<Rightarrow> git_remote_head git_vector \<Rightarrow> (int \<times> git_refspec git_vector) option" where
  "git_refspec__dwim_one h key out spec refs =
     (if \<not> snd h 32 then Some (-1, out)
      else do {
        string \<leftarrow> git__strdup (snd h) (rs_string spec);
        (let cur = zero_refspec\<lparr>rs_force := rs_force spec, rs_push := rs_push spec, rs_pattern := rs_pattern spec,
               rs_matching := rs_matching spec, rs_string := string\<rparr> in do {
           src \<leftarrow> rs_src spec;
           r \<leftarrow> (if git__prefixcmp src GIT_REFS_DIR \<noteq> 0 then dwim_loop h key refs src formatters cur GIT_BUF_INIT else Some (Inr (cur, GIT_BUF_INIT)));
           (case r of
              Inl _ \<Rightarrow> Some (-1, out)
            | Inr (cur, buf) \<Rightarrow> do {
                cur \<leftarrow> (if rs_src cur = None then do { s \<leftarrow> git__strdup (snd h) (Some src); Some (cur\<lparr>rs_src := s\<rparr>) } else Some cur);
                (if rs_src cur = None then Some (-1, out)
                 else do {
                   r \<leftarrow> (case rs_dst spec of
                      None \<Rightarrow> Some (Some (cur, buf))
                    | Some dst \<Rightarrow>
                        if git__prefixcmp dst GIT_REFS_DIR \<noteq> 0 then do {
                          (_, buf) \<leftarrow> git_buf_puts h buf (Bytes ((if git__prefixcmp dst REMOTES = 0 then GIT_REFS_DIR else GIT_REFS_HEADS_DIR) @ [0]));
                          (rc, buf) \<leftarrow> git_buf_puts h buf (Bytes (dst @ [0]));
                          (if rc < 0 then Some None
                           else do {
                             (p, buf) \<leftarrow> git_buf_detach h buf;
                             s \<leftarrow> detached_str p;
                             Some (Some (cur\<lparr>rs_dst := s\<rparr>, buf)) }) }
                        else Some (Some (cur, buf)));
                   (case r of
                      None \<Rightarrow> Some (-1, out)
                    | Some (cur, buf) \<Rightarrow> do {
                        _ \<leftarrow> git_buf_free h buf;
                        (case (rs_dst cur, rs_dst spec) of
                           (None, Some dst) \<Rightarrow> do {
                             s \<leftarrow> git__strdup (snd h) (Some dst);
                             (if s = None then Some (-1, out) else git_vector_insert (snd h) out (cur\<lparr>rs_dst := s\<rparr>)) }
                         | _ \<Rightarrow> git_vector_insert (snd h) out cur) }) }) }) }) })"

end
