(* ===== verification/RefsProps.thy ===== *)
theory RefsProps
  imports Refs BufTextProps "HOL-Library.Sublist"
begin

text \<open>
  Reference names are their segments: what the loop of git\_reference\_\_normalize\_name accepts and what it leaves in the
  buffer, the exact result of git\_reference\_normalize\_name, and that its result is a normal form.
\<close>

section \<open>What a valid segment is\<close>

definition valid_segment :: "byte list \<Rightarrow> bool" where
  "valid_segment s = (list_all is_valid_ref_char s \<and> \<not> prefix [46] s \<and> \<not> sublist [46, 46] s \<and> \<not> sublist [64, 123] s \<and> \<not> suffix GIT_FILELOCK_EXTENSION s)"

definition seg_of :: "byte list \<Rightarrow> byte list" where
  "seg_of s = takeWhile (\<lambda>c. c \<noteq> 47) s"

lemma sublist_pair: "sublist [a, b] (c # s) \<longleftrightarrow> (c = a \<and> prefix [b] s) \<or> sublist [a, b] s"
  by (auto simp: sublist_Cons_right prefix_Cons)

lemma prefix_single: "prefix [b] s \<longleftrightarrow> s \<noteq> [] \<and> hd s = b"
  by (cases s) auto

lemma segment_loop_ok:
  "0 \<notin> set s \<Longrightarrow> segment_loop prev n s =
     (if list_all is_valid_ref_char (seg_of s) \<and> \<not> sublist [46, 46] (prev # seg_of s) \<and> \<not> sublist [64, 123] (prev # seg_of s)
      then Some (n + length (seg_of s)) else None)"
proof (induction prev n s rule: segment_loop.induct)
  case (1 prev n)
  then show ?case by (simp add: seg_of_def sublist_pair)
next
  case (2 prev n c s)
  then have c: "c \<noteq> 0" "0 \<notin> set s" by auto
  show ?case
  proof (cases "c = 47")
    case True
    then show ?thesis by (simp add: seg_of_def sublist_pair)
  next
    case False
    then have e: "seg_of (c # s) = c # seg_of s" by (simp add: seg_of_def)
    have p: "sublist [a, b] (prev # c # t) \<longleftrightarrow> (prev = a \<and> c = b) \<or> sublist [a, b] (c # t)" for a b t
      by (subst sublist_pair) (auto simp: prefix_single)
    show ?thesis using 2 False c unfolding e p by auto
  qed
qed

lemma ensure_ok:
  assumes "0 \<notin> set s"
  shows "ensure_segment_validity s = (if valid_segment (seg_of s) then Some (length (seg_of s)) else None)"
proof -
  let ?g = "seg_of s"
  have h: "hd0 s = 46 \<longleftrightarrow> prefix [46] ?g"
    by (cases s) (auto simp: hd0_def seg_of_def)
  have z: "sublist [a, b] (0 # ?g) \<longleftrightarrow> sublist [a, b] ?g" if "a \<noteq> 0" for a b :: byte using that by (simp add: sublist_pair)
  have "take 5 (drop (length ?g - 5) s) = GIT_FILELOCK_EXTENSION \<longleftrightarrow> suffix GIT_FILELOCK_EXTENSION ?g" if l: "5 \<le> length ?g"
  proof -
    obtain r where r: "s = ?g @ r" unfolding seg_of_def using takeWhile_dropWhile_id [of "\<lambda>c. c \<noteq> 47" s] by metis
    have "take 5 (drop (length ?g - 5) (?g @ r)) = drop (length ?g - 5) ?g" using l by simp
    then have "take 5 (drop (length ?g - 5) s) = drop (length ?g - 5) ?g" using r by metis
    moreover have "suffix GIT_FILELOCK_EXTENSION ?g \<longleftrightarrow> drop (length ?g - 5) ?g = GIT_FILELOCK_EXTENSION"
      by (auto simp: suffix_def GIT_FILELOCK_EXTENSION_def) (metis append_take_drop_id)
    ultimately show ?thesis by simp
  qed
  moreover have "\<not> suffix GIT_FILELOCK_EXTENSION ?g" if "\<not> 5 \<le> length ?g"
    using that by (auto simp: suffix_def GIT_FILELOCK_EXTENSION_def)
  moreover have "length GIT_FILELOCK_EXTENSION = 5" by (simp add: GIT_FILELOCK_EXTENSION_def)
  ultimately show ?thesis
    by (auto simp: ensure_segment_validity_def segment_loop_ok [OF assms] z valid_segment_def h Let_def)
qed

section \<open>Names as lists of segments\<close>

function splits :: "byte list \<Rightarrow> byte list list" where
  "splits s = seg_of s # (if 47 \<in> set s then splits (drop (length (seg_of s) + 1) s) else [])"
  by pat_completeness auto
termination splits
  by (relation "measure length") (auto dest: length_pos_if_in_set)

declare splits.simps [simp del]

text \<open>The segments that a name has: empty ones are left out when the name is normalized and refused when not,
  and one wildcard may stand for a segment of a pattern.\<close>

primrec accept :: "bool \<Rightarrow> bool \<Rightarrow> byte list list \<Rightarrow> byte list list option" where
  "accept norm pat [] = Some []"
| "accept norm pat (s # ss) =
     (if s = [] then (if norm then accept norm pat ss else None)
      else if valid_segment s then map_option ((#) s) (accept norm pat ss)
      else if pat \<and> s = [42] then map_option ((#) s) (accept norm False ss)
      else None)"

definition join_segs :: "byte list \<Rightarrow> byte list list \<Rightarrow> byte list" where
  "join_segs c ss = (if c = [] then tl (concat (map ((#) 47) ss)) else c @ concat (map ((#) 47) ss))"

lemma join_segs_Cons: "s \<noteq> [] \<Longrightarrow> join_segs c (s # ss) = join_segs (if c = [] then s else c @ 47 # s) ss"
  by (simp add: join_segs_def)

lemma join_segs_Nil: "join_segs c [] = c"
  by (simp add: join_segs_def)

lemma seg_of_rest: "s = seg_of s @ drop (length (seg_of s)) s" "47 \<notin> set (seg_of s)"
  "drop (length (seg_of s)) s = [] \<longleftrightarrow> 47 \<notin> set s" "drop (length (seg_of s)) s \<noteq> [] \<Longrightarrow> hd (drop (length (seg_of s)) s) = 47"
proof -
  obtain r where r: "s = seg_of s @ r" "r = dropWhile (\<lambda>c. c \<noteq> 47) s" unfolding seg_of_def by simp
  then have d: "drop (length (seg_of s)) s = r" by (metis append_eq_conv_conj)
  show "s = seg_of s @ drop (length (seg_of s)) s" using r d by metis
  show "47 \<notin> set (seg_of s)" using set_takeWhileD [of 47 "\<lambda>c. c \<noteq> 47" s] by (auto simp: seg_of_def)
  show "drop (length (seg_of s)) s = [] \<longleftrightarrow> 47 \<notin> set s" unfolding d r(2) dropWhile_eq_Nil_conv by blast
  show "hd (drop (length (seg_of s)) s) = 47" if "drop (length (seg_of s)) s \<noteq> []" using hd_dropWhile [of "\<lambda>c. c \<noteq> 47" s] that unfolding d r(2) by blast
qed

lemma next_segment_ok:
  assumes "0 \<notin> set s"
  shows "next_segment pat s = (if valid_segment (seg_of s) then Some (length (seg_of s), pat) else if pat \<and> seg_of s = [42] then Some (1, False) else None)"
proof -
  have "hd0 s = 42 \<and> (hd0 (tl s) = 0 \<or> hd0 (tl s) = 47) \<longleftrightarrow> seg_of s = [42]"
  proof (cases s)
    case (Cons c t)
    then show ?thesis using assms by (cases t) (auto simp: hd0_def seg_of_def)
  qed (simp add: hd0_def seg_of_def)
  then show ?thesis by (simp add: next_segment_def ensure_ok [OF assms])
qed

lemma append_segment_ok:
  assumes ok: "\<forall>n. snd h n" and b: "buf_ok b" "0 \<notin> set (content b)" "content b \<noteq> [] \<Longrightarrow> last (content b) \<noteq> 47" "segs = 0 \<longleftrightarrow> content b = []"
    and s: "0 \<notin> set s" "seg_of s \<noteq> []" "length (content b) + length s + 2 < 2 ^ 61"
  shows "\<exists>b'. append_segment h (Some b) s (length (seg_of s)) segs = Some (Inr (Some b')) \<and> buf_ok b' \<and>
    content b' = (if content b = [] then seg_of s else content b @ 47 # seg_of s)"
proof -
  let ?c = "content b" and ?g = "seg_of s"
  have l: "length ?c = b_size b" using length_content [OF buf_ok_mem [OF b(1)]] .
  have t: "takeWhile (\<lambda>c. c \<noteq> 0) ?c = ?c" using b(2) by (auto simp: takeWhile_eq_all_conv)
  obtain b1 where b1: "git_buf_join h b 47 (Own 0) (s @ [0]) = Some (0, b1)" "buf_ok b1" "content b1 = join_path 47 ?c s"
    using yields_ok [OF join_own_yields [OF b(1) s(1)] ok, of 47] s(3) l t by auto
  obtain b2 where b2: "git_buf_truncate b1 (b_size b + length ?g + (if segs \<noteq> 0 then 1 else 0)) = Some b2" "buf_ok b2"
    "content b2 = take (b_size b + length ?g + (if segs \<noteq> 0 then 1 else 0)) (content b1)"
    using truncate_ok [OF b1(2)] by blast
  have o: "\<not> git_buf_oom b2" using b2(2) by (auto simp: git_buf_oom_def buf_ok_def buf_mem_def)
  have d: "dropWhile (\<lambda>c. c = 47) s = s" using s(2) by (cases s) (auto simp: seg_of_def)
  have g: "take (length ?g) s = ?g" using seg_of_rest(1) [of s] by (metis append_eq_conv_conj)
  have "join_path 47 ?c s = (if ?c = [] then s else ?c @ 47 # s)" using b(3) by (simp add: join_path_def d)
  then have "content b2 = (if ?c = [] then ?g else ?c @ 47 # ?g)" using b2(3) b1(3) b(4) g l by auto
  moreover have "append_segment h (Some b) s (length ?g) segs = Some (Inr (Some b2))"
    using b1(1) b2(1) o by (simp add: append_segment_def git_buf_joinpath_def git_buf_len_def Let_def)
  ultimately show ?thesis using b2(2) by blast
qed

definition buf_inv :: "git_buf option \<Rightarrow> nat \<Rightarrow> nat \<Rightarrow> bool" where
  "buf_inv buf segs pos = (case buf of None \<Rightarrow> True | Some b \<Rightarrow> buf_ok b \<and> 0 \<notin> set (content b) \<and> (segs = 0 \<longleftrightarrow> content b = []) \<and>
     (content b \<noteq> [] \<longrightarrow> last (content b) \<noteq> 47) \<and> length (content b) \<le> pos)"

definition buf_res :: "git_buf option \<Rightarrow> git_buf option \<Rightarrow> byte list list \<Rightarrow> bool" where
  "buf_res buf buf' ss = (case buf of None \<Rightarrow> buf' = None | Some b \<Rightarrow> \<exists>b'. buf' = Some b' \<and> buf_ok b' \<and> content b' = join_segs (content b) ss)"

definition loop_result :: "byte list \<Rightarrow> bool \<Rightarrow> git_buf option \<Rightarrow> nat \<Rightarrow> byte list \<Rightarrow> ((int \<times> git_buf option) + (nat \<times> nat \<times> nat \<times> git_buf option)) option \<Rightarrow> bool" where
  "loop_result name pat buf segs rest r = (case accept (buf \<noteq> None) pat (splits rest) of
       None \<Rightarrow> (\<exists>buf'. r = Some (Inl (-12, buf')) \<and> (buf' = None \<longleftrightarrow> buf = None) \<and> (\<forall>b. buf' = Some b \<longrightarrow> buf_ok b))
     | Some ss \<Rightarrow> (let l = length (last (splits rest)) in \<exists>buf'. r = Some (Inr (length name - l, l, segs + length ss, buf')) \<and> buf_res buf buf' ss))"

text \<open>The segment in front: what is added to the buffer, and what is left.\<close>

lemma first_segment:
  assumes "\<forall>n. snd h n" "0 \<notin> set s" "buf_inv buf segs pos" "pos + length s + 2 < 2 ^ 61"
  shows "\<exists>buf'. (if 0 < length (seg_of s) then append_segment h buf s (length (seg_of s)) segs else Some (Inr buf)) = Some (Inr buf') \<and>
    (buf' = None \<longleftrightarrow> buf = None) \<and> buf_inv buf' (if 0 < length (seg_of s) then segs + 1 else segs) (pos + length (seg_of s) + 1) \<and>
    (\<forall>b ss buf''. buf = Some b \<longrightarrow> buf_res buf' buf'' ss \<longrightarrow> buf_res buf buf'' (if seg_of s = [] then ss else seg_of s # ss))"
proof (cases "seg_of s = [] \<or> buf = None")
  case True
  then show ?thesis using assms(3) by (auto simp: append_segment_def buf_inv_def split: option.splits)
next
  case False
  then obtain b where b: "buf = Some b" "seg_of s \<noteq> []" by auto
  have i: "buf_ok b" "0 \<notin> set (content b)" "content b \<noteq> [] \<Longrightarrow> last (content b) \<noteq> 47" "segs = 0 \<longleftrightarrow> content b = []" "length (content b) \<le> pos"
    using assms(3) b(1) by (simp_all add: buf_inv_def)
  have l: "length (content b) + length s + 2 < 2 ^ 61" using i(5) assms(4) by linarith
  obtain b' where b': "append_segment h (Some b) s (length (seg_of s)) segs = Some (Inr (Some b'))" "buf_ok b'"
    "content b' = (if content b = [] then seg_of s else content b @ 47 # seg_of s)"
    using append_segment_ok [OF assms(1) i(1-4) assms(2) b(2) l] by blast
  have g: "0 \<notin> set (seg_of s)" "47 \<notin> set (seg_of s)" using assms(2) seg_of_rest(1) [of s] seg_of_rest(2) [of s] by (metis Un_iff set_append)+
  then have "last (seg_of s) \<noteq> 47" using b(2) last_in_set by metis
  then have "buf_inv (Some b') (segs + 1) (pos + length (seg_of s) + 1)" using b' g i b(2) by (auto simp: buf_inv_def)
  then show ?thesis using b b' by (auto simp: buf_res_def join_segs_Cons split: option.splits)
qed

lemma buf_res_None: "buf_res buf buf' ss \<Longrightarrow> buf' = None \<longleftrightarrow> buf = None"
  by (auto simp: buf_res_def split: option.splits)

lemma splits_ne: "splits s \<noteq> []"
  by (subst splits.simps) simp

lemma name_loop_ok:
  assumes "\<forall>n. snd h n" "0 \<notin> set name" "length name < 2 ^ 60" "pos \<le> length name" "buf_inv buf segs pos"
  shows "loop_result name pat buf segs (drop pos name) (name_loop h name pos pat buf segs)"
  using assms(4,5)
proof (induction "length name - pos" arbitrary: pos pat buf segs rule: less_induct)
  case less
  define cur where "cur = drop pos name"
  define g where "g = seg_of cur"
  have z: "0 \<notin> set cur" using assms(2) by (auto simp: cur_def dest: in_set_dropD)
  have lc: "length cur = length name - pos" by (simp add: cur_def)
  have sz: "pos + length cur + 2 < 2 ^ 61" using less.prems(1) assms(3) lc by simp
  have gl: "length g \<le> length cur" using length_takeWhile_le by (simp add: g_def seg_of_def)
  note ns = next_segment_ok [OF z, folded g_def]
  have rest: "drop (pos + length g) name = drop (length g) cur" by (simp add: cur_def add.commute)
  have stop: "hd0 (drop (pos + length g) name) = 0 \<longleftrightarrow> 47 \<notin> set cur"
  proof (cases "drop (length g) cur = []")
    case True
    then have "hd0 (drop (pos + length g) name) = 0" unfolding rest True by (simp add: hd0_def)
    then show ?thesis using seg_of_rest(3) [of cur] True by (simp add: g_def)
  next
    case False
    then have "hd (drop (length g) cur) = 47" using seg_of_rest(4) [of cur] by (simp add: g_def)
    then have "hd0 (drop (length g) cur) = 47" using False by (auto simp: hd0_def split: list.splits)
    moreover have "47 \<in> set cur" using False seg_of_rest(3) [of cur] by (simp add: g_def)
    ultimately show ?thesis by (simp add: rest)
  qed
  have sp: "splits cur = g # (if 47 \<in> set cur then splits (drop (length g + 1) cur) else [])" by (subst splits.simps) (simp add: g_def)
  obtain buf' where b': "(if 0 < length g then append_segment h buf cur (length g) segs else Some (Inr buf)) = Some (Inr buf')"
    "buf' = None \<longleftrightarrow> buf = None" "buf_inv buf' (if 0 < length g then segs + 1 else segs) (pos + length g + 1)"
    "\<And>b ss buf''. buf = Some b \<Longrightarrow> buf_res buf' buf'' ss \<Longrightarrow> buf_res buf buf'' (if g = [] then ss else g # ss)"
    using first_segment [OF assms(1) z less.prems(2) sz] unfolding g_def by blast
  define segs' where "segs' = (if 0 < length g then segs + 1 else segs)"
  show ?case
  proof (cases "next_segment pat cur")
    case None
    then have "\<not> valid_segment g" "\<not> (pat \<and> g = [42])" by (auto simp: ns split: if_splits)
    moreover have "valid_segment []" by (simp add: valid_segment_def GIT_FILELOCK_EXTENSION_def)
    ultimately have "accept norm pat (splits cur) = None" for norm unfolding sp by (cases "g = []") auto
    moreover have "name_loop h name pos pat buf segs = Some (Inl (-12, buf))" using None
      by (subst name_loop.simps) (simp add: GIT_EINVALIDSPEC_def flip: cur_def)
    ultimately show ?thesis using less.prems(2) by (auto simp: loop_result_def buf_inv_def simp flip: cur_def)
  next
    case (Some np)
    have "\<exists>pat'. next_segment pat cur = Some (length g, pat') \<and> (\<forall>norm ss. accept norm pat (g # ss) =
        (if g = [] then (if norm then accept norm pat' ss else None) else map_option ((#) g) (accept norm pat' ss)))"
    proof (cases "valid_segment g")
      case False
      then have "pat \<and> g = [42]" using Some by (simp add: ns split: if_splits)
      then show ?thesis using False by (intro exI [of _ False]) (simp add: ns)
    qed (intro exI [of _ pat], simp add: ns)
    then obtain pat' where p': "next_segment pat cur = Some (length g, pat')" "\<And>norm ss. accept norm pat (g # ss) =
        (if g = [] then (if norm then accept norm pat' ss else None) else map_option ((#) g) (accept norm pat' ss))" by blast
    have lp: "name_loop h name pos pat buf segs =
      (if length g = 0 \<and> buf' = None then Some (Inl (GIT_EINVALIDSPEC, buf'))
       else if hd0 (drop (pos + length g) name) = 0 then Some (Inr (pos, length g, segs', buf'))
       else name_loop h name (pos + length g + 1) pat' buf' segs')"
      unfolding segs'_def
      by (subst name_loop.simps) (simp only: p'(1) option.case prod.case b'(1) bind.bind_lunit sum.case Let_def flip: cur_def)
    consider "g = []" "buf = None" | "\<not> (g = [] \<and> buf = None)" "47 \<notin> set cur" | "\<not> (g = [] \<and> buf = None)" "47 \<in> set cur" by blast
    then show ?thesis
    proof cases
      case 1
      then show ?thesis using lp b'(2) by (simp add: loop_result_def sp p'(2) GIT_EINVALIDSPEC_def flip: cur_def)
    next
      case 2
      have "length g = length cur" using 2(2) seg_of_rest(3) [of cur] gl by (simp add: g_def)
      then have pos: "pos = length name - length g" using less.prems(1) lc by simp
      have "buf_res buf' buf' []" using b'(3) by (auto simp: buf_res_def buf_inv_def join_segs_Nil split: option.splits)
      then have "buf_res buf buf' (if g = [] then [] else [g])" using b'(2,4) by (cases buf) (auto simp: buf_res_def)
      moreover have "name_loop h name pos pat buf segs = Some (Inr (pos, length g, segs', buf'))" using lp 2 b'(2) stop by auto
      moreover have "accept (buf \<noteq> None) pat (splits cur) = Some (if g = [] then [] else [g])" unfolding sp p'(2) using 2 by auto
      moreover have "last (splits cur) = g" unfolding sp using 2(2) by simp
      moreover have "segs' = segs + length (if g = [] then [] else [g])" by (simp add: segs'_def)
      ultimately show ?thesis unfolding cur_def [symmetric] loop_result_def Let_def using pos by auto
    next
      case 3
      define pos2 where "pos2 = pos + length g + 1"
      have "drop (length g) cur \<noteq> []" using 3(2) seg_of_rest(3) [of cur] by (simp add: g_def)
      then have p2: "pos2 \<le> length name" using lc less.prems(1) by (simp add: pos2_def)
      have r2: "drop (length g + 1) cur = drop pos2 name" by (simp add: cur_def pos2_def add.commute add.left_commute)
      have "loop_result name pat' buf' segs' (drop pos2 name) (name_loop h name pos2 pat' buf' segs')"
        using less.hyps [of pos2 buf' segs' pat'] p2 b'(3) less.prems(1) by (simp add: pos2_def segs'_def)
      moreover have "name_loop h name pos pat buf segs = name_loop h name pos2 pat' buf' segs'" using lp 3 b'(2) stop by (auto simp: pos2_def)
      moreover have s2: "splits cur = g # splits (drop pos2 name)" using sp 3(2) r2 by simp
      moreover have "last (splits cur) = last (splits (drop pos2 name))" unfolding s2 using splits_ne by simp
      moreover have "accept (buf \<noteq> None) pat (splits cur) = (if g = [] then accept (buf' \<noteq> None) pat' (splits (drop pos2 name)) else map_option ((#) g) (accept (buf' \<noteq> None) pat' (splits (drop pos2 name))))"
        unfolding s2 p'(2) using 3(1) b'(2) by auto
      ultimately show ?thesis
        using b'(2,4) by (cases buf; cases "accept (buf' \<noteq> None) pat' (splits (drop pos2 name))")
          (auto simp: loop_result_def Let_def segs'_def buf_res_def simp flip: cur_def)
    qed
  qed
qed

section \<open>The tests on the whole name\<close>

definition all_caps :: "byte list \<Rightarrow> bool" where
  "all_caps s = (list_all (\<lambda>c. 65 \<le> c \<and> c \<le> 90 \<or> c = 95) s \<and> hd s \<noteq> 95 \<and> last s \<noteq> 95)"

definition proper :: "u32 \<Rightarrow> byte list \<Rightarrow> byte list list \<Rightarrow> bool" where
  "proper flags name segs =
     (segs \<noteq> [] \<and> last name \<noteq> 46 \<and> last name \<noteq> 47 \<and>
      (if length segs = 1 then flags AND 1 \<noteq> 0 \<and> (flags AND 4 \<noteq> 0 \<or> all_caps name \<or> flags AND 2 \<noteq> 0 \<and> name = [42])
       else \<not> all_caps (hd segs)))"

text \<open>The segments of a name that is accepted, with and without normalizing.\<close>

definition ref_name :: "bool \<Rightarrow> u32 \<Rightarrow> byte list \<Rightarrow> byte list list option" where
  "ref_name norm flags name =
     (if hd0 name = 47 then None
      else case accept norm (flags AND 2 \<noteq> 0) (splits name) of
        None \<Rightarrow> None
      | Some segs \<Rightarrow> if proper flags name segs then Some segs else None)"

lemma upper_signed: "\<not> ((c :: byte) <s 65 \<or> 90 <s c) \<longleftrightarrow> 65 \<le> c \<and> c \<le> 90"
proof -
  have m: "sint c = (uint c + 128) mod 256 - 128" by (simp add: sint_uint signed_take_bit_eq_take_bit_shift take_bit_eq_mod)
  have u: "0 \<le> uint c" "uint c < 256" using uint_lt2p [of c] by simp_all
  have "sint c = (if uint c < 128 then uint c else uint c - 256)"
  proof (cases "uint c < 128")
    case True
    then show ?thesis using m u by simp
  next
    case False
    then have "(uint c + 128) mod 256 = uint c + 128 - 256" using u by (simp add: mod_pos_geq)
    then show ?thesis using m False by simp
  qed
  moreover have "sint (65 :: byte) = 65" "sint (90 :: byte) = 90" by simp_all
  moreover have "65 \<le> c \<longleftrightarrow> 65 \<le> uint c" "c \<le> 90 \<longleftrightarrow> uint c \<le> 90" by (simp_all add: word_le_def)
  ultimately show ?thesis using u unfolding word_sless_alt by (auto split: if_splits)
qed

lemma all_caps_ok:
  assumes "g \<noteq> []" "name = g @ r"
  shows "is_all_caps_and_underscore name (length g) = Some (all_caps g)"
proof -
  have "hd0 (drop i name) = g ! i" if "i < length g" for i using that assms(2) by (simp add: hd0_def nth_append Cons_nth_drop_Suc [symmetric])
  then have *: "list_all (\<lambda>i. let c = hd0 (drop i name) in \<not> ((c <s 65 \<or> 90 <s c) \<and> c \<noteq> 95)) [0..<length g] \<longleftrightarrow>
      list_all (\<lambda>c. 65 \<le> c \<and> c \<le> 90 \<or> c = 95) g"
    using upper_signed by (simp add: Let_def list_all_length)
  have "hd0 (drop (length g - 1) name) = last g" using assms by (simp add: hd0_def nth_append last_conv_nth Cons_nth_drop_Suc [symmetric])
  moreover have "hd0 name = hd g" using assms by (cases g) (auto simp: hd0_def)
  ultimately show ?thesis using assms(1) unfolding is_all_caps_and_underscore_def * all_caps_def by simp
qed

lemma splits_simps: "splits s = (if 47 \<in> set s then seg_of s # splits (drop (length (seg_of s) + 1) s) else [s])"
proof (cases "47 \<in> set s")
  case False
  then show ?thesis using seg_of_rest(1,3) [of s] by (subst splits.simps) simp
qed (subst splits.simps, simp)

lemma last_splits: "last (splits s) = [] \<longleftrightarrow> s = [] \<or> last s = 47"
proof (induction s rule: splits.induct)
  case (1 s)
  show ?case
  proof (cases "47 \<in> set s")
    case True
    let ?d = "drop (length (seg_of s) + 1) s"
    have "drop (length (seg_of s)) s \<noteq> []" using True seg_of_rest(3) by blast
    then have "drop (length (seg_of s)) s = 47 # ?d" using seg_of_rest(4) [of s] by (metis Suc_eq_plus1 drop_Suc tl_drop list.collapse)
    then have "s = seg_of s @ 47 # ?d" using seg_of_rest(1) [of s] by argo
    then have a: "last s = (if ?d = [] then 47 else last ?d)" by (metis last_ConsL last_ConsR last_appendR list.distinct(1))
    have b: "last (splits s) = last (splits ?d)" using True splits_ne by (subst splits_simps) simp
    have "last (splits ?d) = [] \<longleftrightarrow> ?d = [] \<or> last ?d = 47" using 1 True .
    moreover have "s \<noteq> []" using True by auto
    ultimately show ?thesis unfolding a b by presburger
  next
    case False
    then show ?thesis using last_in_set [of s] by (subst splits_simps) fastforce
  qed
qed

lemma accept_Nil: "accept norm pat ss = Some [] \<Longrightarrow> \<forall>s\<in>set ss. s = []"
  by (induction ss arbitrary: pat) (auto split: if_splits)

lemma accept_first:
  assumes "accept norm pat (splits name) = Some segs" "hd0 name \<noteq> 47" "name \<noteq> []"
  shows "\<exists>segs'. segs = seg_of name # segs'" "seg_of name \<noteq> []"
proof -
  show g: "seg_of name \<noteq> []" using assms(2,3) by (cases name) (auto simp: seg_of_def hd0_def)
  show "\<exists>segs'. segs = seg_of name # segs'" using assms(1) g by (subst (asm) splits.simps) (auto split: if_splits)
qed

lemma check_name_ok:
  assumes "accept norm (flags AND 2 \<noteq> 0) (splits name) = Some segs" "hd0 name \<noteq> 47" "0 \<notin> set name"
  shows "check_name name flags (length name - length (last (splits name))) (length (last (splits name))) (length segs) =
    Some (if proper flags name segs then 0 else -12)"
proof (cases "name = []")
  case True
  then have "splits name = [[]]" by (subst splits_simps) simp
  then show ?thesis using True assms(1) by (cases norm) (auto simp: check_name_def proper_def GIT_EINVALIDSPEC_def)
next
  case False
  let ?l = "last (splits name)" and ?g = "seg_of name"
  obtain segs' where s: "segs = ?g # segs'" "?g \<noteq> []" using accept_first [OF assms(1,2) False] by blast
  have ll: "length (last (splits s)) \<le> length s" for s :: "byte list"
  proof (induction s rule: splits.induct)
    case (1 s)
    then show ?case using splits_ne by (subst splits_simps) fastforce
  qed
  have rd: "rd name (length name - 1) = Some (last name)" using False by (simp add: last_conv_nth)
  have r: "name = ?g @ drop (length ?g) name" using seg_of_rest(1) .
  note flags_defs = GIT_REF_FORMAT_ALLOW_ONELEVEL_def GIT_REF_FORMAT_REFSPEC_SHORTHAND_def GIT_REF_FORMAT_REFSPEC_PATTERN_def GIT_EINVALIDSPEC_def
  consider "last name = 46 \<or> last name = 47" | "last name \<noteq> 46" "last name \<noteq> 47" "segs' = []" | "last name \<noteq> 46" "last name \<noteq> 47" "segs' \<noteq> []" by blast
  then show ?thesis
  proof cases
    case 1
    then show ?thesis using False s rd ll [of name] by (auto simp: check_name_def proper_def flags_defs)
  next
    case 2
    have n: "47 \<notin> set name"
    proof
      assume "47 \<in> set name"
      then have sp: "splits name = ?g # splits (drop (length ?g + 1) name)" by (subst splits_simps) simp
      then have "\<exists>pat. accept norm pat (splits (drop (length ?g + 1) name)) = Some []" using assms(1) s 2(3) by (auto split: if_splits)
      then have "last (splits (drop (length ?g + 1) name)) = []" using accept_Nil splits_ne last_in_set by blast
      then show False using last_splits [of name] sp splits_ne False 2(2) by simp
    qed
    then have e: "splits name = [name]" "?g = name" by (subst splits_simps, simp) (use n in \<open>auto simp: seg_of_def takeWhile_eq_all_conv\<close>)
    have "is_all_caps_and_underscore name (length name) = Some (all_caps name)" using all_caps_ok [of name name "[]"] False by simp
    then show ?thesis using False s rd 2 e by (simp add: check_name_def proper_def flags_defs)
  next
    case 3
    have n: "47 \<in> set name"
    proof (rule ccontr)
      assume "47 \<notin> set name"
      then have "splits name = [name]" by (subst splits_simps) simp
      then show False using assms(1) s 3(3) by (auto split: if_splits)
    qed
    have l1: "length segs \<noteq> 1" "1 < length segs" using s 3(3) by (cases segs'; simp)+
    have "is_all_caps_and_underscore name (length (takeWhile (\<lambda>c. c \<noteq> 47) name)) = Some (all_caps ?g)"
      using all_caps_ok [OF s(2) r] by (simp add: seg_of_def)
    then show ?thesis using False s rd 3 n l1 ll [of name] by (simp add: check_name_def proper_def flags_defs)
  qed
qed

section \<open>Normalizing\<close>

lemma clear_ok:
  assumes "buf_mem b"
  shows "\<exists>b'. git_buf_clear b = Some b' \<and> buf_ok b' \<and> content b' = []"
  using clear_yields [OF assms, of "(\<lambda>_. 0, \<lambda>_. True)"] by (cases "git_buf_clear b") (auto simp: yields_def)

lemma free_ok_buf: "buf_ok b \<Longrightarrow> git_buf_free h b = Some GIT_BUF_INIT"
  by (auto simp: git_buf_free_def git_buf_init_def GIT_BUF_INIT_def buf_ok_def buf_mem_def)

lemma ref_name_ok:
  assumes "\<forall>n. snd h n" "0 \<notin> set name" "length name < 2 ^ 60" "\<And>b. buf = Some b \<Longrightarrow> buf_ok b"
  shows "case ref_name (buf \<noteq> None) flags name of
      None \<Rightarrow> git_reference__normalize_name h buf name flags = Some (-12, map_option (\<lambda>_. GIT_BUF_INIT) buf)
    | Some segs \<Rightarrow> \<exists>buf'. git_reference__normalize_name h buf name flags = Some (0, buf') \<and>
        (case buf of None \<Rightarrow> buf' = None | Some _ \<Rightarrow> \<exists>b'. buf' = Some b' \<and> buf_ok b' \<and> content b' = join_segs [] segs)"
proof (cases "hd0 name = 47")
  case True
  then show ?thesis using assms(4) by (cases buf) (simp_all add: ref_name_def git_reference__normalize_name_def GIT_EINVALIDSPEC_def free_ok_buf)
next
  case False
  define pat where "pat \<longleftrightarrow> flags AND 2 \<noteq> 0"
  obtain buf1 where b1: "(case buf of None \<Rightarrow> Some None | Some b \<Rightarrow> map_option Some (git_buf_clear b)) = Some buf1" "buf1 = None \<longleftrightarrow> buf = None"
    "\<And>b. buf1 = Some b \<Longrightarrow> buf_ok b \<and> content b = []"
  proof (cases buf)
    case (Some b)
    then obtain b' where "git_buf_clear b = Some b'" "buf_ok b'" "content b' = []" using clear_ok [OF buf_ok_mem [OF assms(4)]] by blast
    then show ?thesis using that [of "Some b'"] Some by simp
  qed (use that [of None] in simp)
  have i: "buf_inv buf1 0 0" using b1(3) by (auto simp: buf_inv_def split: option.splits)
  define r where "r = name_loop h name 0 pat buf1 0"
  have e: "git_reference__normalize_name h buf name flags = do {
      (error, buf) \<leftarrow> Option.bind r (\<lambda>r. case r of Inl e \<Rightarrow> Some e
         | Inr (current, segment_len, segments_count, buf) \<Rightarrow> do {
             error \<leftarrow> check_name name flags current segment_len segments_count; Some (error, buf) });
      buf \<leftarrow> (case buf of None \<Rightarrow> Some None | Some b \<Rightarrow> if error \<noteq> 0 then map_option Some (git_buf_free h b) else Some (Some b));
      Some (error, buf) }"
    unfolding git_reference__normalize_name_def using False b1(1) by (simp add: r_def pat_def GIT_REF_FORMAT_REFSPEC_PATTERN_def)
  have lr: "loop_result name pat buf1 0 name r" using name_loop_ok [OF assms(1-3) le0 i, of pat] by (simp add: r_def)
  show ?thesis
  proof (cases "accept (buf \<noteq> None) pat (splits name)")
    case None
    then obtain b' where "r = Some (Inl (-12, b'))" "b' = None \<longleftrightarrow> buf = None" "\<And>b. b' = Some b \<Longrightarrow> buf_ok b"
      using lr b1(2) by (auto simp: loop_result_def)
    then show ?thesis using None False unfolding e by (cases buf; cases b') (simp_all add: ref_name_def pat_def free_ok_buf)
  next
    case (Some segs)
    then obtain b' where b': "r = Some (Inr (length name - length (last (splits name)), length (last (splits name)), length segs, b'))" "buf_res buf1 b' segs"
      using lr b1(2) by (auto simp: loop_result_def Let_def)
    have c: "check_name name flags (length name - length (last (splits name))) (length (last (splits name))) (length segs) = Some (if proper flags name segs then 0 else -12)"
      using check_name_ok Some False assms(2) pat_def by blast
    have n: "ref_name (buf \<noteq> None) flags name = (if proper flags name segs then Some segs else None)" using False Some by (simp add: ref_name_def pat_def)
    show ?thesis
    proof (cases buf)
      case None
      then have "b' = None" using b1(2) b'(2) by (simp add: buf_res_def)
      then show ?thesis unfolding n unfolding e using None b'(1) c by simp
    next
      case (Some b)
      then obtain d where "b' = Some d" "buf_ok d" "content d = join_segs [] segs" using b1(2,3) b'(2) by (auto simp: buf_res_def)
      then show ?thesis unfolding n unfolding e using Some b'(1) c by (simp add: free_ok_buf)
    qed
  qed
qed

definition normal_name :: "u32 \<Rightarrow> byte list \<Rightarrow> byte list option" where
  "normal_name flags name = map_option (join_segs []) (ref_name True flags name)"

lemma copy_cstr_ok:
  assumes "buf_ok b" "length (content b) < n" "n \<le> length out"
  shows "git_buf_copy_cstr out n b = Some (content b @ 0 # drop (length (content b) + 1) out)"
proof -
  have l: "length (content b) = b_size b" using length_content [OF buf_ok_mem [OF assms(1)]] .
  obtain x xs where x: "out = x # xs" using assms(2,3) by (cases out) auto
  show ?thesis
  proof (cases "b_size b = 0")
    case True
    then show ?thesis using assms(2) l x by (simp add: git_buf_copy_cstr_def wr_def)
  next
    case False
    then obtain m where m: "b_ptr b = Mem m" "b_size b < length m" "0 < b_asize b" "content b = take (b_size b) m"
      using assms(1) by (auto simp: buf_ok_def buf_mem_def content_def split: buf_ptr.splits)
    have "buf_read b 0 (b_size b) = Some (content b)" using m False by (simp add: buf_read_def ptr_bytes_def rd_blk_def)
    moreover have "drop (b_size b) xs = xs ! b_size b # drop (Suc (b_size b)) xs" if "b_size b < length xs" using that by (simp add: Cons_nth_drop_Suc)
    moreover have "(content b @ drop (b_size b) (0 # xs)) [b_size b := 0] = content b @ 0 # drop (b_size b) xs"
      using l assms(2,3) x False by (cases "b_size b") (auto simp: list_update_append Cons_nth_drop_Suc [symmetric])
    ultimately show ?thesis using assms(2,3) l x m(3) False by (simp add: git_buf_copy_cstr_def wr_def wr_blk_def)
  qed
qed

section \<open>What normalizing does to the segments\<close>

lemma splits_free: "x \<in> set (splits s) \<Longrightarrow> 47 \<notin> set x"
proof (induction s rule: splits.induct)
  case (1 s)
  then show ?case using seg_of_rest(2) [of s] by (subst (asm) (2) splits.simps) (auto split: if_splits)
qed

lemma splits_join: "47 \<notin> set x \<Longrightarrow> \<forall>y\<in>set xs. 47 \<notin> set y \<Longrightarrow> splits (x @ concat (map ((#) 47) xs)) = x # xs"
proof (induction xs arbitrary: x)
  case Nil
  then show ?case by (subst splits_simps) simp
next
  case (Cons y ys)
  have "seg_of (x @ 47 # r) = x" for r using Cons.prems(1) by (induction x) (auto simp: seg_of_def)
  then show ?case using Cons by (subst splits_simps) simp
qed

lemma concat_splits: "concat (map ((#) 47) (splits s)) = 47 # s"
proof (induction s rule: splits.induct)
  case (1 s)
  show ?case
  proof (cases "47 \<in> set s")
    case True
    let ?d = "drop (length (seg_of s) + 1) s"
    have "drop (length (seg_of s)) s = 47 # ?d" using seg_of_rest(3,4) [of s] True by (metis Suc_eq_plus1 drop_Suc tl_drop list.collapse)
    then have "s = seg_of s @ 47 # ?d" using seg_of_rest(1) [of s] by argo
    then show ?thesis using 1 True by (subst splits_simps) simp
  next
    case False
    then show ?thesis by (subst splits_simps) simp
  qed
qed

lemma join_splits: "join_segs [] (splits s) = s"
  by (simp add: join_segs_def concat_splits)

lemma join_hd: "join_segs [] (x # xs) = x @ concat (map ((#) 47) xs)"
  by (simp add: join_segs_def)

lemma accept_filter: "accept norm pat ss = Some segs \<Longrightarrow> segs = filter (\<lambda>x. x \<noteq> []) ss"
  by (induction ss arbitrary: pat segs) (auto split: if_splits)

lemma accept_again: "accept norm pat ss = Some segs \<Longrightarrow> accept norm' pat segs = Some segs"
  by (induction ss arbitrary: pat segs) (auto split: if_splits)

lemma concat_filter: "length (concat (map f (filter P xs))) \<le> length (concat (map f xs))" "set (concat (map f (filter P xs))) \<subseteq> set (concat (map f xs))"
  by (induction xs) auto

lemma last_segment:
  assumes "s \<noteq> []" "last s \<noteq> 47"
  shows "last (last (splits s)) = last s"
proof -
  define xs x where "xs = butlast (splits s)" and "x = last (splits s)"
  have sp: "splits s = xs @ [x]" using splits_ne by (simp add: xs_def x_def)
  have "47 # s = concat (map ((#) 47) xs) @ 47 # x" using concat_splits [of s] unfolding sp by simp
  then have "last (47 # s) = last (47 # x)" by (simp only: last_appendR list.distinct not_False_eq_True)
  moreover have "x \<noteq> []" using last_splits [of s] assms by (simp add: x_def)
  ultimately show ?thesis using assms(1) by (simp add: x_def)
qed

lemma ref_name_stable:
  assumes "ref_name True flags name = Some segs"
  shows "splits (join_segs [] segs) = segs" "ref_name norm flags (join_segs [] segs) = Some segs" "segs = filter (\<lambda>x. x \<noteq> []) (splits name)"
    "set (join_segs [] segs) \<subseteq> set name" "length (join_segs [] segs) \<le> length name"
proof -
  let ?s = "join_segs [] segs"
  have a: "hd0 name \<noteq> 47" "accept True (flags AND 2 \<noteq> 0) (splits name) = Some segs" "proper flags name segs"
    using assms by (auto simp: ref_name_def split: if_splits option.splits)
  show f: "segs = filter (\<lambda>x. x \<noteq> []) (splits name)" using accept_filter [OF a(2)] .
  have free: "\<forall>x\<in>set segs. 47 \<notin> set x \<and> x \<noteq> []" using f splits_free by auto
  obtain g gs where g: "segs = g # gs" using a(3) by (cases segs) (auto simp: proper_def)
  show s: "splits ?s = segs" using free unfolding g join_hd by (intro splits_join) auto
  have sn: "?s \<noteq> []" using free by (simp add: g join_hd)
  have nn: "name \<noteq> []" using f g by (subst (asm) splits_simps) (auto split: if_splits)
  have ln: "last name \<noteq> 47" using a(3) by (simp add: proper_def)
  have l: "last segs = last (splits name)"
  proof -
    have "splits name = butlast (splits name) @ [last (splits name)]" using splits_ne by simp
    then have "segs = filter (\<lambda>x. x \<noteq> []) (butlast (splits name) @ [last (splits name)])" using f by argo
    then show ?thesis using last_splits [of name] nn ln by simp
  qed
  have l47: "last ?s \<noteq> 47" using last_splits [of ?s] sn s free g by (metis last_in_set list.distinct(1))
  have "last ?s = last name" using last_segment [OF sn l47] last_segment [OF nn ln] s l by simp
  moreover have "?s = name" if "length segs = 1"
  proof -
    have e: "segs = [g]" using that g by simp
    have "seg_of name = g" using accept_first [OF a(2,1) nn] e by auto
    moreover have "last (splits name) = g" using l e by simp
    moreover have "splits name = [g]"
    proof (rule ccontr)
      assume n: "splits name \<noteq> [g]"
      obtain r where "splits name = g # r" using \<open>seg_of name = g\<close> splits.simps [of name] by simp
      then have r: "splits name = g # r" "r \<noteq> []" using n by auto
      have "g \<noteq> []" using free g by simp
      then have "filter (\<lambda>x. x \<noteq> []) r = []" using f e r by simp
      moreover have "last r \<in> set r" "last r \<noteq> []" using r \<open>last (splits name) = g\<close> \<open>g \<noteq> []\<close> by auto
      ultimately show False by (auto simp: filter_empty_conv)
    qed
    ultimately show ?thesis using join_splits [of name] e by simp
  qed
  ultimately have "proper flags ?s segs" using a(3) by (auto simp: proper_def)
  moreover have "hd0 ?s \<noteq> 47" using free by (cases g) (auto simp: g join_hd hd0_def)
  ultimately show "ref_name norm flags ?s = Some segs" using accept_again [OF a(2), of norm] s by (simp add: ref_name_def)
  have c: "concat (map ((#) 47) segs) = 47 # ?s" by (simp add: g join_hd)
  show "length ?s \<le> length name"
    using concat_filter(1) [of "(#) 47" "\<lambda>x. x \<noteq> []" "splits name"] unfolding f [symmetric] c concat_splits by simp
  have "set (concat (map ((#) 47) gs)) \<subseteq> set name"
  proof (cases "gs = []")
    case False
    have "47 \<in> set name"
    proof (rule ccontr)
      assume "47 \<notin> set name"
      then have "splits name = [name]" by (subst splits_simps) simp
      then show False using f g False nn by simp
    qed
    then have "set (47 # name) = set name" by (simp add: insert_absorb)
    moreover have "set (concat (map ((#) 47) (g # gs))) \<subseteq> set (47 # name)"
      using concat_filter(2) [of "(#) 47" "\<lambda>x. x \<noteq> []" "splits name"] unfolding f [symmetric] concat_splits g .
    ultimately show ?thesis by (simp only: list.map concat.simps set_append Un_subset_iff)
  qed simp
  moreover have "set g \<subseteq> set name" using accept_first(1) [OF a(2,1) nn] g seg_of_rest(1) [of name] by (metis list.inject set_append sup_ge1)
  ultimately show "set ?s \<subseteq> set name" by (auto simp: g join_hd)
qed

section \<open>Properties\<close>

lemma normal_name_ok:
  assumes "\<forall>n. snd h n" "0 \<notin> set name" "length name < 2 ^ 60" "n \<le> length out" "n < 2 ^ 64"
  shows "git_reference_normalize_name h out n name flags = (case normal_name flags name of
      None \<Rightarrow> Some (-12, out)
    | Some s \<Rightarrow> if n = 0 then None else if n \<le> length s then Some (-6, out) else Some (0, s @ 0 # drop (length s + 1) out))"
proof -
  have i: "buf_ok GIT_BUF_INIT" by (simp add: buf_ok_def buf_mem_def GIT_BUF_INIT_def)
  note r = ref_name_ok [OF assms(1-3), of "Some GIT_BUF_INIT" flags]
  have wrap: "szw (n + 2 ^ 64 - 1) = n - 1" if "0 < n"
  proof -
    have "n + 2 ^ 64 - 1 = n - 1 + 2 ^ 64" using that by simp
    then have "szw (n + 2 ^ 64 - 1) = (n - 1) mod 2 ^ 64" by (simp only: szw_def mod_add_self2)
    then show ?thesis using assms(5) by simp
  qed
  show ?thesis
  proof (cases "ref_name True flags name")
    case None
    then show ?thesis using r i by (simp add: git_reference_normalize_name_def normal_name_def free_ok_buf)
  next
    case (Some segs)
    then obtain b where b: "git_reference__normalize_name h (Some GIT_BUF_INIT) name flags = Some (0, Some b)" "buf_ok b" "content b = join_segs [] segs"
      using r i by auto
    have l: "length (join_segs [] segs) = b_size b" "b_size b < 2 ^ 60"
      using length_content [OF buf_ok_mem [OF b(2)]] ref_name_stable(5) [OF Some] assms(3) by (simp_all add: b(3))
    have n: "normal_name flags name = Some (join_segs [] segs)" using Some by (simp add: normal_name_def)
    consider "n = 0" | "0 < n" "n \<le> b_size b" | "0 < n" "b_size b < n" by linarith
    then show ?thesis
    proof cases
      case 1
      then show ?thesis using b l n by (simp add: git_reference_normalize_name_def git_buf_len_def git_buf_copy_cstr_def)
    next
      case 2
      then have "szw (n + 2 ^ 64 - 1) = n - 1" using wrap by simp
      moreover have "n - 1 < b_size b" using 2 by simp
      ultimately show ?thesis using b l n 2 by (simp add: git_reference_normalize_name_def git_buf_len_def GIT_EBUFS_def free_ok_buf)
    next
      case 3
      then have "szw (n + 2 ^ 64 - 1) = n - 1" using wrap by simp
      moreover have "git_buf_copy_cstr out n b = Some (content b @ 0 # drop (length (content b) + 1) out)"
        using copy_cstr_ok [OF b(2) _ assms(4)] 3 l b(3) by simp
      moreover have "\<not> n - 1 < b_size b" using 3 by simp
      ultimately show ?thesis using b l n 3 by (simp add: git_reference_normalize_name_def git_buf_len_def free_ok_buf)
    qed
  qed
qed

lemma valid_name_ok:
  assumes "\<forall>n. snd h n" "0 \<notin> set name" "length name < 2 ^ 60"
  shows "git_reference__is_valid_name h name flags = Some (ref_name False flags name \<noteq> None)"
  using ref_name_ok [OF assms, of None flags] by (auto simp: git_reference__is_valid_name_def split: option.splits)

text \<open>A shorthand is the name of a branch, a tag or a remote reference without the directory.\<close>

lemma shorthand_kinds:
  assumes "0 \<notin> set name"
  shows "git_reference__is_branch name \<Longrightarrow> name = GIT_REFS_HEADS_DIR @ git_reference_shorthand name"
    "git_reference__is_tag name \<Longrightarrow> name = GIT_REFS_TAGS_DIR @ git_reference_shorthand name"
    "git_reference__is_remote name \<Longrightarrow> name = GIT_REFS_REMOTES_DIR @ git_reference_shorthand name"
    "suffix (git_reference_shorthand name) name"
proof -
  note defs = GIT_REFS_HEADS_DIR_def GIT_REFS_TAGS_DIR_def GIT_REFS_REMOTES_DIR_def GIT_REFS_DIR_def
  have p: "git__prefixcmp name d = 0 \<longleftrightarrow> (\<exists>r. name = d @ r)" if "0 \<notin> set d" for d using prefixcmp_eq [OF assms that] .
  have k: "git__prefixcmp name GIT_REFS_HEADS_DIR = 0 \<longleftrightarrow> (\<exists>r. name = GIT_REFS_HEADS_DIR @ r)"
    "git__prefixcmp name GIT_REFS_TAGS_DIR = 0 \<longleftrightarrow> (\<exists>r. name = GIT_REFS_TAGS_DIR @ r)"
    "git__prefixcmp name GIT_REFS_REMOTES_DIR = 0 \<longleftrightarrow> (\<exists>r. name = GIT_REFS_REMOTES_DIR @ r)"
    "git__prefixcmp name GIT_REFS_DIR = 0 \<longleftrightarrow> (\<exists>r. name = GIT_REFS_DIR @ r)"
    by (rule p; simp add: defs)+
  show "git_reference__is_branch name \<Longrightarrow> name = GIT_REFS_HEADS_DIR @ git_reference_shorthand name"
    by (auto simp: git_reference__is_branch_def git_reference_shorthand_def k)
  show "git_reference__is_tag name \<Longrightarrow> name = GIT_REFS_TAGS_DIR @ git_reference_shorthand name"
    by (auto simp: git_reference__is_tag_def git_reference_shorthand_def k) (simp add: defs)
  show "git_reference__is_remote name \<Longrightarrow> name = GIT_REFS_REMOTES_DIR @ git_reference_shorthand name"
    by (auto simp: git_reference__is_remote_def git_reference_shorthand_def k) (simp_all add: defs)
  show "suffix (git_reference_shorthand name) name" by (simp add: git_reference_shorthand_def suffix_drop)
qed

text \<open>C36: git\_reference\_normalize\_name does exactly this.  A name is split at the slashes and refused when it starts or
  ends with one, when it ends with a dot, when a segment that is not empty breaks the rules for segments (other than a
  wildcard, once, in a pattern), and when its first segment has the wrong case: a name of one segment needs the flag for it
  and has to be upper case without the flag for shorthands, and the first of several segments must not be upper case.  The
  result is the other segments, the empty ones left out, with one slash between them; a caller's array that is too small
  for it is left alone, but one of no bytes at all ends in a failed assertion.\<close>

theorem normalize_name_spec:
  assumes "\<forall>n. snd h n" "0 \<notin> set name" "length name < 2 ^ 60" "n \<le> length out" "n < 2 ^ 64"
  shows "git_reference_normalize_name h out n name flags = (case normal_name flags name of
      None \<Rightarrow> Some (GIT_EINVALIDSPEC, out)
    | Some s \<Rightarrow> if n = 0 then None else if n \<le> length s then Some (GIT_EBUFS, out) else Some (0, s @ 0 # drop (length s + 1) out))"
  unfolding GIT_EINVALIDSPEC_def GIT_EBUFS_def by (rule normal_name_ok [OF assms])

theorem normalize_name_spec_witness:
  "git_reference_normalize_name (\<lambda>_. 7, \<lambda>_. True) [1, 1, 1, 1, 1, 1] 6 [97, 47, 47, 42] 3 = Some (0, [97, 47, 42, 0, 1, 1]) \<and>
   git_reference_normalize_name (\<lambda>_. 7, \<lambda>_. True) [1, 1, 1, 1, 1, 1] 6 [47, 97, 47, 98] 3 = Some (-12, [1, 1, 1, 1, 1, 1])"
proof -
  have "normal_name 3 [97, 47, 47, 42] = Some [97, 47, 42]" "normal_name 3 [47, 97, 47, 98] = None" by code_simp+
  then show ?thesis using normalize_name_spec [of "(\<lambda>_. 7, \<lambda>_. True)" "[97, 47, 47, 42]" 6 "[1, 1, 1, 1, 1, 1]" 3]
      normalize_name_spec [of "(\<lambda>_. 7, \<lambda>_. True)" "[47, 97, 47, 98]" 6 "[1, 1, 1, 1, 1, 1]" 3]
    by (simp add: GIT_EINVALIDSPEC_def)
qed

text \<open>C37: A normalized name is normal: it is valid as it stands, normalizing it again gives it back, and its segments are
  those of the given name that are not empty.\<close>

theorem normalize_name_stable:
  assumes "\<forall>n. snd h n" "0 \<notin> set name" "length name < 2 ^ 60" "n \<le> length out" "n < 2 ^ 64"
    and "git_reference_normalize_name h out n name flags = Some (0, out')"
  shows "\<exists>s r. out' = s @ 0 # r \<and> 0 \<notin> set s \<and> splits s = filter (\<lambda>x. x \<noteq> []) (splits name) \<and>
    git_reference__is_valid_name h s flags = Some True \<and> git_reference_normalize_name h out n s flags = Some (0, out')"
proof -
  obtain segs where s: "ref_name True flags name = Some segs" "n \<noteq> 0" "length (join_segs [] segs) < n"
    "out' = join_segs [] segs @ 0 # drop (length (join_segs [] segs) + 1) out"
    using assms(6) normal_name_ok [OF assms(1-5), of flags] by (auto simp: normal_name_def split: option.splits if_splits)
  note st = ref_name_stable [OF s(1)]
  have z: "0 \<notin> set (join_segs [] segs)" "length (join_segs [] segs) < 2 ^ 60" using st(4,5) assms(2,3) by auto
  have "git_reference__is_valid_name h (join_segs [] segs) flags = Some True" using valid_name_ok [OF assms(1) z] st(2) by simp
  moreover have "git_reference_normalize_name h out n (join_segs [] segs) flags = Some (0, out')"
    using normal_name_ok [OF assms(1) z assms(4,5), of flags] st(2) s by (simp add: normal_name_def)
  ultimately show ?thesis using s(4) z(1) st(1,3) by blast
qed

theorem normalize_name_stable_witness:
  "\<exists>s r. [97, 47, 98, 0, 1, 1] = s @ (0 :: byte) # r \<and> splits s = [[97], [98]] \<and> git_reference__is_valid_name (\<lambda>_. 7, \<lambda>_. True) s 0 = Some True"
proof -
  have "normal_name 0 [97, 47, 47, 98] = Some [97, 47, 98]" by code_simp
  then have n: "git_reference_normalize_name (\<lambda>_. 7, \<lambda>_. True) [1, 1, 1, 1, 1, 1] 6 [97, 47, 47, 98] 0 = Some (0, [97, 47, 98, 0, 1, 1])"
    using normal_name_ok [of "(\<lambda>_. 7, \<lambda>_. True)" "[97, 47, 47, 98]" 6 "[1, 1, 1, 1, 1, 1]" 0] by simp
  have f: "filter (\<lambda>x. x \<noteq> []) (splits [97, 47, 47, 98]) = [[97], [98]]" by code_simp
  have h: "\<forall>n. snd (\<lambda>_::nat. 7::byte, \<lambda>_::nat. True) n" "0 \<notin> set [97, 47, 47, 98 :: byte]" "length [97, 47, 47, 98 :: byte] < 2 ^ 60"
    "6 \<le> length ([1, 1, 1, 1, 1, 1 :: byte])" "6 < (2 :: nat) ^ 64" by simp_all
  show ?thesis using normalize_name_stable [OF h n] unfolding f by blast
qed

end
