(* ===== verification/RefspecProps.thy ===== *)
theory RefspecProps
  imports Refspec RefsProps FnmatchProps
begin

text \<open>
  What the parser of refspecs accepts, that writing a refspec gives its text back, that a refspec with stars maps the names it
  matches there and back, and what is guessed for a shorthand.
\<close>

section \<open>What parsing yields\<close>

lemma strrchr_None: "strrchr s c = None \<longleftrightarrow> c \<notin> set s"
  by (simp add: strrchr_def)

lemma strrchr_Some:
  assumes "strrchr s c = Some p"
  shows "p < length s" "s = take p s @ c # drop (p + 1) s" "c \<notin> set (drop (p + 1) s)"
proof -
  have "c \<in> set s" using assms by (simp add: strrchr_def split: if_splits)
  then obtain a b where ab: "s = a @ c # b" "c \<notin> set b" by (meson split_list_last)
  then have "takeWhile (\<lambda>x. x \<noteq> c) (rev s) = rev b" by (auto simp: takeWhile_append)
  then have "p = length a" using assms ab by (simp add: strrchr_def)
  then show "p < length s" "s = take p s @ c # drop (p + 1) s" "c \<notin> set (drop (p + 1) s)" using ab by simp_all
qed

definition sign_of :: "git_refspec \<Rightarrow> byte list" where
  "sign_of spec = (if rs_force spec then [43] else [])"

definition spec_sides :: "git_refspec \<Rightarrow> byte list" where
  "spec_sides spec = (case rs_src spec of None \<Rightarrow> [] | Some s \<Rightarrow> s) @ (case rs_dst spec of None \<Rightarrow> [] | Some d \<Rightarrow> 58 # d)"

lemma drop_sign: "input = (if hd0 input = 43 then [43] else []) @ (if hd0 input = 43 then tl input else input)"
  by (cases input) (auto simp: hd0_def)

definition spec0 :: "bool \<Rightarrow> byte list \<Rightarrow> git_refspec" where
  "spec0 is_fetch input = zero_refspec\<lparr>rs_push := \<not> is_fetch, rs_force := (hd0 input = 43)\<rparr>"

lemma valid_sides_string: "valid_sides h (r\<lparr>rs_string := x\<rparr>) f g = valid_sides h r f g"
  by (cases r) (simp only: valid_sides_def git_refspec.simps)

text \<open>Either the refspec is a colon, or its sides are parts of the input and valid.\<close>

lemma parse_result:
  assumes ok: "\<forall>n. snd h n" and p: "git_refspec__parse h input is_fetch = Some (0, spec)" and z: "0 \<notin> set input"
  shows "(\<not> is_fetch \<and> input = sign_of spec @ [58] \<and> spec = (spec0 is_fetch input)\<lparr>rs_matching := True\<rparr>) \<or>
    \<not> rs_matching spec \<and> (\<exists>src. rs_src spec = Some src \<and> input = sign_of spec @ spec_sides spec \<and> (rs_dst spec = None \<longleftrightarrow> 58 \<notin> set input) \<and>
    (\<forall>d. rs_dst spec = Some d \<longrightarrow> 58 \<notin> set d) \<and> rs_string spec = Some input \<and>
    (rs_pattern spec \<longleftrightarrow> 42 \<in> set src) \<and> (\<forall>d. rs_dst spec = Some d \<longrightarrow> (rs_pattern spec \<longleftrightarrow> 42 \<in> set d)) \<and>
    valid_sides h spec is_fetch (rs_pattern spec) = Some True)"
proof -
  define lhs where "lhs = (if hd0 input = 43 then tl input else input)"
  define s0 where "s0 = spec0 is_fetch input"
  have inp: "input = (if hd0 input = 43 then [43] else []) @ lhs" using drop_sign [of input] by (simp add: lhs_def)
  have e: "(if hd0 input = 43 then (zero_refspec\<lparr>rs_push := \<not> is_fetch, rs_force := True\<rparr>, tl input) else (zero_refspec\<lparr>rs_push := \<not> is_fetch\<rparr>, input)) = (s0, lhs)"
    by (auto simp: s0_def spec0_def lhs_def zero_refspec_def)
  have dup: "git__strndup (snd h) s n = Some (take n s)" for s n using ok by (simp add: git__strndup_def)
  have sd: "git__strdup (snd h) (Some input) = Some (Some input)" using ok by (simp add: git__strdup_def)
  note vs = valid_sides_string
  have f: "rs_force s0 = (hd0 input = 43)" "\<not> rs_matching s0" "rs_dst s0 = None" by (simp_all add: s0_def spec0_def zero_refspec_def)
  consider "\<not> is_fetch \<and> strrchr lhs 58 = Some 0 \<and> hd0 (tl lhs) = 0" | "\<not> (\<not> is_fetch \<and> strrchr lhs 58 = Some 0 \<and> hd0 (tl lhs) = 0)" by blast
  then show ?thesis
  proof cases
    case 1
    then have "git_refspec__parse h input is_fetch = Some (0, s0\<lparr>rs_matching := True\<rparr>)" unfolding git_refspec__parse_def Let_def e prod.case by simp
    moreover have "lhs = [58]"
    proof -
      have "lhs = 58 # tl lhs" using strrchr_Some(2) [of lhs 58 0] 1 by (cases lhs) auto
      moreover have "0 \<notin> set (tl lhs)" using z by (cases input; cases "tl input") (auto simp: lhs_def)
      ultimately show ?thesis using 1 by (cases "tl lhs") (auto simp: hd0_def)
    qed
    ultimately show ?thesis using p 1 inp f by (auto simp: sign_of_def s0_def)
  next
    case nm: 2
    show ?thesis
  proof (cases "strrchr lhs 58")
    case None
    have n: "58 \<notin> set lhs" using None strrchr_None by blast
    define g where "g \<longleftrightarrow> 42 \<in> set lhs"
    define r where "r = s0\<lparr>rs_pattern := g, rs_src := Some lhs\<rparr>"
    have g1: "1 \<le> length lhs \<and> 42 \<in> set lhs \<longleftrightarrow> g" by (cases lhs) (auto simp: g_def)
    have "git_refspec__parse h input is_fetch = (if g \<and> is_fetch then Some (-1, s0) else Option.bind (valid_sides h r is_fetch g) (\<lambda>v. if \<not> v then Some (-1, r) else
        Some (0, r\<lparr>rs_string := Some input\<rparr>)))"
      unfolding git_refspec__parse_def Let_def e prod.case None option.case dup take_all [OF le_refl] g1 sd using nm
      by (simp add: r_def del: One_nat_def cong: if_cong)
    then have "spec = r\<lparr>rs_string := Some input\<rparr>" "valid_sides h r is_fetch g = Some True"
      using p by (cases "valid_sides h r is_fetch g"; auto split: if_splits)+
    then show ?thesis using n inp f by (auto simp: r_def sign_of_def spec_sides_def g_def vs)
  next
    case (Some q)
    note q = strrchr_Some [OF Some]
    define d where "d = drop (q + 1) lhs"
    define g where "g \<longleftrightarrow> 42 \<in> set (take q lhs)"
    define r where "r = s0\<lparr>rs_dst := Some d, rs_pattern := g, rs_src := Some (take q lhs)\<rparr>"
    have g1: "1 \<le> q \<and> 42 \<in> set (take q lhs) \<longleftrightarrow> g" by (cases q) (auto simp: g_def)
    have g2: "1 \<le> length d \<and> 42 \<in> set d \<longleftrightarrow> 42 \<in> set d" by (cases d) auto
    have "git_refspec__parse h input is_fetch = (if g \<noteq> (42 \<in> set d) then Some (-1, s0\<lparr>rs_dst := Some d\<rparr>) else Option.bind (valid_sides h r is_fetch g) (\<lambda>v. if \<not> v then Some (-1, r) else
        Some (0, r\<lparr>rs_string := Some input\<rparr>)))"
      unfolding git_refspec__parse_def Let_def e prod.case Some option.case d_def [symmetric] g1 g2 dup if_not_P [OF nm [unfolded Some]] take_all [OF le_refl] sd
      by (simp add: r_def del: One_nat_def cong: if_cong)
    then have s: "spec = r\<lparr>rs_string := Some input\<rparr>" "valid_sides h r is_fetch g = Some True" "g = (42 \<in> set d)"
      using p by (cases "valid_sides h r is_fetch g"; auto split: if_splits)+
    have "58 \<in> set lhs" using q(1,2) by (metis in_set_conv_decomp)
    moreover have "lhs = take q lhs @ 58 # d" using q(2) by (simp add: d_def)
    ultimately show ?thesis using s q(3) inp f by (auto simp: r_def sign_of_def spec_sides_def g_def d_def vs)
    qed
  qed
qed

section \<open>Writing a refspec\<close>

lemma serialize_ok:
  assumes ok: "\<forall>n. snd h n" and b: "buf_ok b" "b_size b < 2 ^ 60"
    and l: "length (case rs_src spec of None \<Rightarrow> [] | Some s \<Rightarrow> s) + length (case rs_dst spec of None \<Rightarrow> [] | Some s \<Rightarrow> s) < 2 ^ 59"
  shows "\<exists>b'. git_refspec__serialize h b spec = Some (True, b') \<and> buf_ok b' \<and>
    content b' = content b @ sign_of spec @ (case rs_src spec of None \<Rightarrow> [] | Some s \<Rightarrow> s) @ 58 # (case rs_dst spec of None \<Rightarrow> [] | Some s \<Rightarrow> s)"
proof -
  let ?t = "(case rs_src spec of None \<Rightarrow> [] | Some s \<Rightarrow> s) @ [58] @ (case rs_dst spec of None \<Rightarrow> [] | Some s \<Rightarrow> s)"
  obtain r b1 where b1: "(if rs_force spec then git_buf_putc h b 43 else Some (0, b)) = Some (r, b1)" "buf_ok b1" "content b1 = content b @ sign_of spec"
    using yields_ok [OF putc_yields [OF buf_ok_mem [OF b(1)]] ok, of 43] b by (cases "rs_force spec") (auto simp: sign_of_def)
  have "b_size b1 \<le> b_size b + 1" using length_content [OF buf_ok_mem [OF b1(2)]] length_content [OF buf_ok_mem [OF b(1)]] b1(3)
    by (cases "rs_force spec") (auto simp: sign_of_def)
  then have "b_size b1 + 2 * 5 + length ?t + 1 < 2 ^ 61" using b(2) l by simp
  then obtain b2 where b2: "git_buf_printf h b1 5 (Some ?t) = Some (0, b2)" "buf_ok b2" "content b2 = content b1 @ ?t"
    using yields_ok [OF printf_yields [OF buf_ok_mem [OF b1(2)]] ok] by blast
  have "\<not> git_buf_oom b2" using b2(2) by (auto simp: git_buf_oom_def buf_ok_def buf_mem_def)
  then show ?thesis using b1 b2 by (simp add: git_refspec__serialize_def)
qed

section \<open>Globs\<close>

definition plain :: "byte list \<Rightarrow> bool" where
  "plain s = list_all (\<lambda>c. c \<notin> {0, 42, 63, 91, 92}) s"

lemma star_accept: "accept norm pat (ss @ [[42]]) = Some segs \<Longrightarrow> \<forall>s\<in>set ss. s = [] \<or> valid_segment s"
proof (induction ss arbitrary: pat segs)
  case (Cons s ss)
  have "\<not> valid_segment [42]" by (simp add: valid_segment_def is_valid_ref_char_def)
  then have no: "accept norm False (ss @ [[42]]) = None" for ss by (induction ss) auto
  show ?case using Cons no by (auto split: if_splits)
qed simp

text \<open>In a valid pattern that ends with a star nothing else is special.\<close>

lemma glob_plain:
  assumes "ref_name norm flags (a @ [42]) = Some segs" "0 \<notin> set a"
  shows "plain a"
proof -
  let ?n = "a @ [42 :: byte]"
  obtain segs where acc: "accept norm (flags AND 2 \<noteq> 0) (splits ?n) = Some segs"
    using assms(1) by (auto simp: ref_name_def split: if_splits option.splits)
  define ss where "ss = butlast (splits ?n)"
  define x where "x = last (splits ?n)"
  have sp: "splits ?n = ss @ [x]" using splits_ne by (simp add: ss_def x_def)
  have l: "last x = 42" using last_segment [of ?n] by (simp add: x_def)
  have xn: "x \<noteq> []" using last_splits [of ?n] by (simp add: x_def)
  have bad: "\<not> valid_segment x" using l xn last_in_set [of x] by (auto simp: valid_segment_def list_all_iff is_valid_ref_char_def)
  have "x = [42]"
  proof (rule ccontr)
    assume n: "x \<noteq> [42]"
    have "accept norm pat (ss @ [x]) = None" for pat using bad n xn by (induction ss arbitrary: pat) auto
    then show False using acc sp by simp
  qed
  then have v: "\<forall>s\<in>set ss. s = [] \<or> valid_segment s" using star_accept acc sp by metis
  have "47 # a @ [42] = concat (map ((#) 47) ss) @ [47, 42]" using concat_splits [of ?n] unfolding sp \<open>x = [42]\<close> by simp
  then have "(47 # a) @ [42] = (concat (map ((#) 47) ss) @ [47]) @ [42]" by simp
  then have "47 # a = concat (map ((#) 47) ss) @ [47]" by (simp only: append_same_eq)
  then have "set (47 # a) = set (concat (map ((#) 47) ss) @ [47])" by argo
  moreover have "set (concat (map ((#) 47) ss)) \<subseteq> insert 47 (set (concat ss))" by (induction ss) auto
  ultimately have "set a \<subseteq> insert 47 (set (concat ss))" by auto
  moreover have "c \<notin> {42, 63, 91, 92}" if c: "c \<in> set (concat ss)" for c
  proof -
    obtain s where s: "s \<in> set ss" "c \<in> set s" using c by auto
    then have "valid_segment s" using v by fastforce
    then have "is_valid_ref_char c" using s(2) unfolding valid_segment_def list_all_iff by blast
    then show ?thesis by (simp add: is_valid_ref_char_def)
  qed
  ultimately have "c \<notin> {0, 42, 63, 91, 92}" if "c \<in> set a" for c
    using that assms(2) by (cases "c = 47") auto
  then show ?thesis unfolding plain_def list_all_iff by blast
qed

lemma tokens_plain: "plain a \<Longrightarrow> tokens 0 (a @ [42]) = map Lit a @ [Many]"
proof (induction a)
  case Nil
  have "tokens 0 [] = []" by (subst tokens.simps) (simp add: hd0_def)
  then show ?case by (subst tokens.simps) (simp add: hd0_def)
next
  case (Cons c a)
  then show ?case by (subst tokens.simps) (simp add: hd0_def plain_def)
qed

lemma glob_lits: "glob 0 (map Lit a @ [Many]) s \<longleftrightarrow> (\<exists>x. s = a @ x)"
proof (induction a arbitrary: s)
  case Nil
  have "list_all (\<lambda>x. \<not> crosses 0 x) s" by (simp add: list_all_iff crosses_def)
  then show ?case by (auto simp: FNM_LEADING_DIR_def)
next
  case (Cons c a)
  then show ?case by (auto simp: fnm_text_def FNM_CASEFOLD_def)
qed

lemma fnmatch_plain:
  assumes "plain a" "0 \<notin> set name"
  shows "p_fnmatch (a @ [42]) name 0 = 0 \<longleftrightarrow> (\<exists>x. name = a @ x)"
proof -
  have "stars (map Lit a @ [Many]) = 1" by (induction a) (simp_all add: stars_def)
  then have "p_fnmatch (a @ [42]) name 0 = (if \<exists>x. name = a @ x then 0 else FNM_NOMATCH)"
    using matcher_all [of 0 64] assms(2) unfolding matcher_ok_def answers_def p_fnmatch_def
    by (metis glob_lits tokens_plain [OF assms(1)] numeral_le_one_iff one_eq_numeral_iff semiring_norm(69) semiring_norm(85) and_zero_eq word_bw_comms(1))
  then show ?thesis by (simp add: FNM_NOMATCH_def)
qed

section \<open>Transforming\<close>

lemma valid_flags: "GIT_REF_FORMAT_ALLOW_ONELEVEL OR GIT_REF_FORMAT_REFSPEC_SHORTHAND OR (if True then GIT_REF_FORMAT_REFSPEC_PATTERN else 0) = 7"
  by (simp add: GIT_REF_FORMAT_ALLOW_ONELEVEL_def GIT_REF_FORMAT_REFSPEC_SHORTHAND_def GIT_REF_FORMAT_REFSPEC_PATTERN_def)

lemma valid_glob_sides:
  assumes ok: "\<forall>n. snd h n" and v: "valid_sides h spec is_fetch True = Some True"
    and s: "rs_src spec = Some (a @ [42])" "rs_dst spec = Some (b @ [42])" "0 \<notin> set a" "0 \<notin> set b" "length a < 2 ^ 59" "length b < 2 ^ 59"
  shows "plain a" "plain b"
proof -
  have n: "git_reference__is_valid_name h (x @ [42]) 7 = Some (ref_name False 7 (x @ [42]) \<noteq> None)" if "0 \<notin> set x" "length x < 2 ^ 59" for x
    using that by (intro valid_name_ok [OF ok]) auto
  have "ref_name False 7 (a @ [42]) \<noteq> None \<and> ref_name False 7 (b @ [42]) \<noteq> None"
    using v unfolding valid_sides_def valid_flags Let_def s(1,2) bind.bind_lunit option.case n [OF s(3,5)] n [OF s(4,6)] by (auto split: if_splits)
  then show "plain a" "plain b" using glob_plain s(3,4) by blast+
qed

lemma transform_ok:
  assumes ok: "\<forall>n. snd h n" and b: "buf_ok buf" and l: "length a < 2 ^ 59" "length b < 2 ^ 59" "length x < 2 ^ 59"
  shows "\<exists>buf'. refspec_transform h buf (Some (a @ [42])) (Some (b @ [42])) (Some (a @ x)) = Some (0, buf') \<and> buf_ok buf' \<and> content buf' = b @ x"
proof -
  obtain b1 where b1: "git_buf_set h buf (Bytes (b @ [42])) (length (b @ [42])) = Some (0, b1)" "buf_ok b1" "content b1 = b @ [42]"
    using yields_ok [OF set_yields [OF buf_ok_mem [OF b]] ok, of "b @ [42]"] l(2) by auto
  have sz: "b_size b1 = length b + 1" using length_content [OF buf_ok_mem [OF b1(2)]] b1(3) by simp
  obtain m where m: "b_ptr b1 = Mem m" "take (b_size b1) m = b @ [42]" "b_size b1 < length m"
    using b1(2,3) by (auto simp: buf_ok_def buf_mem_def content_def split: buf_ptr.splits)
  have "m ! length b = 42" using m(2) sz by (metis add.commute lessI nth_append_length nth_take plus_1_eq_Suc)
  then have r: "buf_read b1 (length b) 1 = Some [42]" using m sz by (simp add: buf_read_def ptr_bytes_def rd_blk_def take_Suc_conv_app_nth [of 0] hd_drop_conv_nth take_Suc)
  obtain b2 where b2: "git_buf_shorten b1 1 = Some b2" "buf_ok b2" "content b2 = b" using shorten_ok [OF b1(2), of 1] b1(3) sz by auto
  have "b_size b2 + length x + 1 < 2 ^ 61" using length_content [OF buf_ok_mem [OF b2(2)]] b2(3) l by simp
  then obtain b3 where b3: "git_buf_put h b2 (Bytes x) (length x) = Some (0, b3)" "buf_ok b3" "content b3 = b @ x"
    using yields_ok [OF put_yields [OF buf_ok_mem [OF b2(2)]] ok] b2(3) by blast
  have "refspec_transform h buf (Some (a @ [42])) (Some (b @ [42])) (Some (a @ x)) = Some (0, b3)"
    unfolding refspec_transform_def Let_def option.case str_arg_def b1(1) bind.bind_lunit prod.case
    using r b2(1) b3(1) by simp
  then show ?thesis using b3 by blast
qed

lemma transform_internal_ok:
  assumes "n \<le> length out"
  shows "refspec_transform_internal out n (Some (a @ [42])) (Some (b @ [42])) (a @ x) =
    Some (if n \<le> length b + max 1 (length x) then (GIT_EBUFS, out) else (0, b @ x @ 0 # drop (length b + length x + 1) out))"
proof -
  have "(b @ [42 :: byte]) ! length b = 42" by simp
  moreover have "wr_blk out 0 b = Some (b @ drop (length b) out)" if "length b < n" using that assms by (simp add: wr_blk_def)
  moreover have "wr_blk (b @ drop (length b) out) (length b) (x @ [0]) = Some (b @ x @ 0 # drop (length b + length x + 1) out)" if "length b + length x < n"
    using that assms by (simp add: wr_blk_def add.commute add.left_commute)
  ultimately show ?thesis unfolding refspec_transform_internal_def Let_def by (auto simp: max_def)
qed

section \<open>Properties\<close>

lemma length_sides:
  assumes "input = sign_of spec @ spec_sides spec" "length input < 2 ^ 59"
  shows "length (case rs_src spec of None \<Rightarrow> [] | Some s \<Rightarrow> s) + length (case rs_dst spec of None \<Rightarrow> [] | Some s \<Rightarrow> s) < 2 ^ 59"
  using assms by (auto simp: spec_sides_def split: option.splits)

text \<open>C38: Refspecs survive being parsed and written: git\_refspec\_\_serialize appends to the buffer the text that git\_refspec\_\_parse
  was given, with a colon behind it when it had none.\<close>

theorem refspec_roundtrip:
  assumes "\<forall>n. snd h n" "0 \<notin> set input" "length input < 2 ^ 59" "git_refspec__parse h input is_fetch = Some (0, spec)" "buf_ok b" "b_size b < 2 ^ 60"
  shows "\<exists>b'. git_refspec__serialize h b spec = Some (True, b') \<and> buf_ok b' \<and>
    content b' = content b @ input @ (if 58 \<in> set input then [] else [58])"
  using parse_result [OF assms(1,4,2)]
proof (elim disjE conjE exE)
  assume "input = sign_of spec @ [58]" "spec = (spec0 is_fetch input)\<lparr>rs_matching := True\<rparr>"
  then have i: "rs_src spec = None" "rs_dst spec = None" "sign_of spec @ [58] = input" by (simp_all add: spec0_def zero_refspec_def)
  then have "58 \<in> set input" by (metis in_set_conv_decomp)
  then show ?thesis using serialize_ok [OF assms(1,5,6), of spec] i by simp
next
  fix src assume s: "rs_src spec = Some src" "input = sign_of spec @ spec_sides spec" "rs_dst spec = None \<longleftrightarrow> 58 \<notin> set input"
  show ?thesis using serialize_ok [OF assms(1,5,6) length_sides [OF s(2) assms(3)]] s by (cases "rs_dst spec") (auto simp: spec_sides_def)
qed

definition sample_spec :: git_refspec where
  "sample_spec = \<lparr>rs_string = Some [43, 97, 47, 42, 58, 98, 47, 42], rs_src = Some ([97, 47] @ [42]), rs_dst = Some ([98, 47] @ [42]),
     rs_force = True, rs_push = False, rs_pattern = True, rs_matching = False\<rparr>"

lemma sample_parse: "git_refspec__parse (\<lambda>_. 7, \<lambda>_. True) [43, 97, 47, 42, 58, 98, 47, 42] True = Some (0, sample_spec)"
  by code_simp

lemma buf_init_ok: "buf_ok GIT_BUF_INIT" "b_size GIT_BUF_INIT < 2 ^ 60" "content GIT_BUF_INIT = []"
  by (simp_all add: buf_ok_def buf_mem_def GIT_BUF_INIT_def content_def)

lemma all_granted: "\<forall>n. snd (\<lambda>_::nat. 7::byte, \<lambda>_::nat. True) n"
  by simp

theorem refspec_roundtrip_witness:
  "\<exists>b. git_refspec__serialize (\<lambda>_. 7, \<lambda>_. True) GIT_BUF_INIT sample_spec = Some (True, b) \<and> content b = [43, 97, 47, 42, 58, 98, 47, 42]"
  using refspec_roundtrip [OF all_granted _ _ sample_parse buf_init_ok(1,2)] buf_init_ok(3) by auto

text \<open>C39: A refspec with stars at the ends of its sides maps the names under one directory to the names under another: a
  name matches the source exactly when it starts with what is before its star, likewise for the destination, the names
  that match are carried over with the rest unchanged, and back again.  The version for arrays does the
  same when there is room; it asks for one byte more than it needs when the rest is empty.\<close>

theorem refspec_maps:
  assumes "\<forall>n. snd h n" "0 \<notin> set input" "length input < 2 ^ 59" "git_refspec__parse h input is_fetch = Some (0, spec)"
    and "rs_src spec = Some (a @ [42])" "rs_dst spec = Some (b @ [42])" "buf_ok buf" "0 \<notin> set name" "length x < 2 ^ 59" "n \<le> length out"
  shows "(git_refspec_src_matches (Some spec) name \<longleftrightarrow> (\<exists>r. name = a @ r)) \<and>
    (git_refspec_dst_matches (Some spec) name \<longleftrightarrow> (\<exists>r. name = b @ r)) \<and>
    (\<exists>buf'. git_refspec_transform_r h buf spec (Some (a @ x)) = Some (0, buf') \<and> buf_ok buf' \<and> content buf' = b @ x) \<and>
    (\<exists>buf'. git_refspec_transform_l h buf spec (Some (b @ x)) = Some (0, buf') \<and> buf_ok buf' \<and> content buf' = a @ x) \<and>
    git_refspec_transform out n spec (a @ x) =
      Some (if n \<le> length b + max 1 (length x) then (GIT_EBUFS, out) else (0, b @ x @ 0 # drop (length b + length x + 1) out)) \<and>
    git_refspec_rtransform out n spec (b @ x) =
      Some (if n \<le> length a + max 1 (length x) then (GIT_EBUFS, out) else (0, a @ x @ 0 # drop (length a + length x + 1) out))"
proof -
  have p: "input = sign_of spec @ spec_sides spec" "rs_pattern spec" "valid_sides h spec is_fetch (rs_pattern spec) = Some True"
  proof -
    have "spec \<noteq> (spec0 is_fetch input)\<lparr>rs_matching := True\<rparr>" using assms(5) by (auto simp: spec0_def zero_refspec_def)
    then have "\<exists>src. rs_src spec = Some src \<and> input = sign_of spec @ spec_sides spec \<and> (rs_pattern spec \<longleftrightarrow> 42 \<in> set src) \<and>
        valid_sides h spec is_fetch (rs_pattern spec) = Some True" using parse_result [OF assms(1,4,2)] by blast
    then show "input = sign_of spec @ spec_sides spec" "rs_pattern spec" "valid_sides h spec is_fetch (rs_pattern spec) = Some True" using assms(5) by auto
  qed
  then have i: "input = sign_of spec @ a @ [42] @ 58 # b @ [42]" using assms(5,6) by (simp add: spec_sides_def)
  then have z: "0 \<notin> set a" "0 \<notin> set b" "length a < 2 ^ 59" "length b < 2 ^ 59" using assms(2,3) by (auto split: if_splits)
  have pl: "plain a" "plain b" using valid_glob_sides [OF assms(1) _ assms(5,6) z] p by simp_all
  have "git_refspec_src_matches (Some spec) name \<longleftrightarrow> (\<exists>r. name = a @ r)" "git_refspec_dst_matches (Some spec) name \<longleftrightarrow> (\<exists>r. name = b @ r)"
    using fnmatch_plain [OF pl(1) assms(8)] fnmatch_plain [OF pl(2) assms(8)] assms(5,6)
    by (simp_all add: git_refspec_src_matches_def git_refspec_dst_matches_def git_refspec_src_def git_refspec_dst_def)
  moreover note transform_ok [OF assms(1,7) z(3,4) assms(9)] transform_ok [OF assms(1,7) z(4,3) assms(9)]
  moreover note transform_internal_ok [OF assms(10), of a b x] transform_internal_ok [OF assms(10), of b a x]
  ultimately show ?thesis unfolding git_refspec_transform_r_def git_refspec_transform_l_def git_refspec_transform_def git_refspec_rtransform_def assms(5,6)
    by (intro conjI)
qed

theorem refspec_maps_witness:
  "git_refspec_src_matches (Some sample_spec) [97, 47, 120] \<and> \<not> git_refspec_dst_matches (Some sample_spec) [97, 47, 120] \<and>
   git_refspec_transform [1, 1, 1, 1, 1, 1] 6 sample_spec [97, 47, 120] = Some (0, [98, 47, 120, 0, 1, 1])"
proof -
  have s: "rs_src sample_spec = Some ([97, 47] @ [42])" "rs_dst sample_spec = Some ([98, 47] @ [42])" by (simp_all add: sample_spec_def)
  have l: "0 \<notin> set [43, 97, 47, 42, 58, 98, 47, 42 :: byte]" "length [43, 97, 47, 42, 58, 98, 47, 42 :: byte] < 2 ^ 59" "0 \<notin> set [97, 47, 120 :: byte]"
    "length [120 :: byte] < 2 ^ 59" "6 \<le> length [1, 1, 1, 1, 1, 1 :: byte]" by simp_all
  show ?thesis using refspec_maps [OF all_granted l(1,2) sample_parse s buf_init_ok(1) l(3,4,5)] by simp
qed

text \<open>A star that is not at the end is taken for text: the name that matches is mapped to the destination with its star.\<close>

lemma transform_inner_star:
  assumes "\<forall>n. snd h n" "buf_ok buf" "length t < 2 ^ 59" "t \<noteq> []" "last t \<noteq> 42"
  shows "\<exists>buf'. refspec_transform h buf from (Some t) name = Some (0, buf') \<and> content buf' = t"
proof -
  obtain b1 where b1: "git_buf_set h buf (Bytes t) (length t) = Some (0, b1)" "buf_ok b1" "content b1 = t"
    using yields_ok [OF set_yields [OF buf_ok_mem [OF assms(2)]] assms(1), of t] assms(3) by auto
  have sz: "b_size b1 = length t" using length_content [OF buf_ok_mem [OF b1(2)]] b1(3) by simp
  obtain m where m: "b_ptr b1 = Mem m" "take (b_size b1) m = t" "b_size b1 < length m"
    using b1(2,3) assms(4) by (auto simp: buf_ok_def buf_mem_def content_def split: buf_ptr.splits)
  have "m ! (length t - 1) = last t" using m(2) sz assms(4) by (metis diff_less last_conv_nth length_greater_0_conv less_one nth_take)
  then have "buf_read b1 (length t - 1) 1 = Some [last t]" using m sz assms(4)
    by (simp add: buf_read_def ptr_bytes_def rd_blk_def take_Suc hd_drop_conv_nth)
  then show ?thesis using b1 assms(4,5) by (simp add: refspec_transform_def str_arg_def Let_def)
qed

text \<open>The parser takes an empty destination, of which git\_refspec\_transform reads the byte in front.\<close>

lemma transform_empty_dst:
  "\<exists>spec. git_refspec__parse (\<lambda>_. 7, \<lambda>_. True) [97, 47, 98, 58] True = Some (0, spec) \<and> (\<forall>out n name. 0 < n \<longrightarrow> git_refspec_transform out n spec name = None)"
proof -
  have "git_refspec__parse (\<lambda>_. 7, \<lambda>_. True) [97, 47, 98, 58] True = Some (0, \<lparr>rs_string = Some [97, 47, 98, 58], rs_src = Some [97, 47, 98], rs_dst = Some [],
     rs_force = False, rs_push = False, rs_pattern = False, rs_matching = False\<rparr>)" by code_simp
  then show ?thesis by (auto simp: git_refspec_transform_def refspec_transform_internal_def)
qed

section \<open>Guessing\<close>

definition known :: "git_remote_head git_vector \<Rightarrow> byte list \<Rightarrow> bool" where
  "known refs name = (name \<in> rh_name ` set (v_contents refs))"

lemma search_iff: "fst (search_loop f k xs i) = 0 \<longleftrightarrow> (\<exists>x\<in>set xs. f k x = 0)"
  by (induction xs arbitrary: i) (auto simp: GIT_ENOTFOUND_def)

lemma search_known:
  assumes "v_cmp refs = Some remote_head_cmp" "\<forall>r\<in>set (v_contents refs). 0 \<notin> set (rh_name r)" "0 \<notin> set name"
  shows "fst (git_vector_search refs (key\<lparr>rh_name := name\<rparr>)) = 0 \<longleftrightarrow> known refs name"
proof -
  have "remote_head_cmp (key\<lparr>rh_name := name\<rparr>) r = 0 \<longleftrightarrow> name = rh_name r" if "r \<in> set (v_contents refs)" for r
    using strcmp_eq [OF assms(3)] assms(2) that by (simp add: remote_head_cmp_def git__strcmp_cb_def)
  then show ?thesis by (auto simp: git_vector_search_def git_vector_search2_def cmp_or_strict_def assms(1) search_iff known_def)
qed

text \<open>A buffer that is not empty holds its contents as a string.\<close>

lemma buf_str:
  assumes "buf_ok b" "content b = c" "c \<noteq> []" "0 \<notin> set c"
  shows "\<exists>m. ptr_bytes (b_ptr b) = Some m \<and> cstrlen m = Some (length c) \<and> take (length c) m = c \<and>
    git_buf_detach h b = Some (Mem m, GIT_BUF_INIT) \<and> detached_str (Mem m) = Some (Some c)"
proof -
  obtain m where m: "b_ptr b = Mem m" "take (b_size b) m = c" "b_size b < length m" "m ! b_size b = 0" "0 < b_asize b"
    using assms(1-3) by (auto simp: buf_ok_def buf_mem_def content_def split: buf_ptr.splits)
  have l: "b_size b = length c" using length_content [OF buf_ok_mem [OF assms(1)]] assms(2) by simp
  have "m = c @ 0 # drop (length c + 1) m" using m l by (metis Suc_eq_plus1 append_take_drop_id id_take_nth_drop)
  moreover have "cstrlen (c @ 0 # r) = Some (length c)" for r using takeWhile_nul [OF assms(4)] by (simp add: cstrlen_def)
  ultimately have "cstrlen m = Some (length c)" by metis
  then show ?thesis using m l by (simp add: ptr_bytes_def git_buf_detach_def git_buf_init_def GIT_BUF_INIT_def detached_str_def)
qed

text \<open>The candidates; a later one replaces an earlier one, and the last one stays in the buffer when there is no such head.\<close>

definition dwim_src :: "git_remote_head git_vector \<Rightarrow> byte list list \<Rightarrow> byte list \<Rightarrow> byte list option \<Rightarrow> byte list option" where
  "dwim_src refs fs src s = fold (\<lambda>f s. if known refs (f @ src) then Some (f @ src) else s) fs s"

definition left_over :: "git_remote_head git_vector \<Rightarrow> byte list list \<Rightarrow> byte list \<Rightarrow> byte list \<Rightarrow> byte list" where
  "left_over refs fs src c = (if fs = [] then c else if known refs (last fs @ src) then [] else last fs @ src)"

lemma dwim_loop_ok:
  assumes ok: "\<forall>n. snd h n" and v: "v_cmp refs = Some remote_head_cmp" "\<forall>r\<in>set (v_contents refs). 0 \<notin> set (rh_name r)"
    and s: "0 \<notin> set src" "length src < 2 ^ 58" and f: "\<forall>f\<in>set fs. f \<noteq> [] \<and> 0 \<notin> set f \<and> length f < 100" and b: "buf_ok buf"
  shows "\<exists>buf'. dwim_loop h key refs src fs cur buf = Some (Inr (cur\<lparr>rs_src := dwim_src refs fs src (rs_src cur)\<rparr>, buf')) \<and>
    buf_ok buf' \<and> content buf' = left_over refs fs src (content buf)"
  using f b
proof (induction fs arbitrary: cur buf)
  case Nil
  then show ?case by (simp add: dwim_src_def left_over_def)
next
  case (Cons f fs)
  let ?t = "f @ src"
  have t: "?t \<noteq> []" "0 \<notin> set ?t" "length f < 100" using Cons.prems(1) s by auto
  obtain b1 where b1: "git_buf_clear buf = Some b1" "buf_ok b1" "content b1 = []" using clear_ok [OF buf_ok_mem [OF Cons.prems(2)]] by blast
  have "b_size b1 = 0" using length_content [OF buf_ok_mem [OF b1(2)]] b1(3) by simp
  then have "b_size b1 + 2 * (length f + 2) + length ?t + 1 < 2 ^ 61" using s(2) t(3) by simp
  then obtain b2 where b2: "git_buf_printf h b1 (length f + 2) (Some ?t) = Some (0, b2)" "buf_ok b2" "content b2 = ?t"
    using yields_ok [OF printf_yields [OF buf_ok_mem [OF b1(2)]] ok] b1(3) by fastforce
  obtain m where m: "ptr_bytes (b_ptr b2) = Some m" "cstrlen m = Some (length ?t)" "take (length ?t) m = ?t"
    "git_buf_detach h b2 = Some (Mem m, GIT_BUF_INIT)" "detached_str (Mem m) = Some (Some ?t)"
    using buf_str [OF b2(2,3) t(1,2), of h] by blast
  have k: "fst (git_vector_search refs (key\<lparr>rh_name := ?t\<rparr>)) = 0 \<longleftrightarrow> known refs ?t" by (rule search_known [OF v t(2)])
  have step: "dwim_loop h key refs src (f # fs) cur buf = (if known refs ?t then dwim_loop h key refs src fs (cur\<lparr>rs_src := Some ?t\<rparr>) GIT_BUF_INIT
      else dwim_loop h key refs src fs cur b2)"
    unfolding dwim_loop.simps b1(1) bind.bind_lunit b2(1) prod.case m(1-3) k using m(4,5) by simp
  have fs: "\<forall>f\<in>set fs. f \<noteq> [] \<and> 0 \<notin> set f \<and> length f < 100" using Cons.prems(1) by simp
  show ?case
  proof (cases "known refs ?t")
    case True
    then show ?thesis using Cons.IH [OF fs buf_init_ok(1), of "cur\<lparr>rs_src := Some ?t\<rparr>"] step buf_init_ok(3) by (auto simp: dwim_src_def left_over_def)
  next
    case False
    then show ?thesis using Cons.IH [OF fs b2(2), of cur] step b2(3) by (auto simp: dwim_src_def left_over_def)
  qed
qed

text \<open>What the code makes of the two sides.\<close>

definition guess_src :: "git_remote_head git_vector \<Rightarrow> byte list \<Rightarrow> byte list" where
  "guess_src refs src =
     (if prefix GIT_REFS_DIR src then src
      else if known refs (GIT_REFS_HEADS_DIR @ src) then GIT_REFS_HEADS_DIR @ src
      else if known refs (GIT_REFS_TAGS_DIR @ src) then GIT_REFS_TAGS_DIR @ src
      else if known refs (GIT_REFS_DIR @ src) then GIT_REFS_DIR @ src
      else src)"

definition guess_dst :: "git_remote_head git_vector \<Rightarrow> byte list \<Rightarrow> byte list \<Rightarrow> byte list" where
  "guess_dst refs src dst =
     (if prefix GIT_REFS_DIR dst then dst
      else (if prefix GIT_REFS_DIR src \<or> known refs (GIT_REFS_HEADS_DIR @ src) then [] else GIT_REFS_HEADS_DIR @ src) @
        (if prefix REMOTES dst then GIT_REFS_DIR else GIT_REFS_HEADS_DIR) @ dst)"

lemma prefix_refs: "0 \<notin> set s \<Longrightarrow> git__prefixcmp s GIT_REFS_DIR = 0 \<longleftrightarrow> prefix GIT_REFS_DIR s" "0 \<notin> set s \<Longrightarrow> git__prefixcmp s REMOTES = 0 \<longleftrightarrow> prefix REMOTES s"
  using prefixcmp_eq [of s GIT_REFS_DIR] prefixcmp_eq [of s REMOTES] by (auto simp: prefix_def GIT_REFS_DIR_def REMOTES_def)

lemma puts_str:
  assumes "\<forall>n. snd h n" "buf_ok b" "0 \<notin> set s" "length (content b) + length s + 1 < 2 ^ 61"
  shows "\<exists>b'. git_buf_puts h b (Bytes (s @ [0])) = Some (0, b') \<and> buf_ok b' \<and> content b' = content b @ s"
  using yields_ok [OF puts_yields [OF buf_ok_mem [OF assms(2)] _ assms(3)] assms(1)] assms(4) length_content [OF buf_ok_mem [OF assms(2)]] by simp

text \<open>C40: git\_refspec\_\_dwim\_one adds one refspec, with the flags of the given one and with these sides.  The source stands for
  a branch, a tag or another reference, in this order, when the server has it and it does not start with refs/.  The
  destination is completed with refs/ or refs/heads/; but in front of it stands refs/heads/ and the source
  whenever the source was looked up and the server has no such branch, because the buffer is not cleared.\<close>

theorem dwim_one_spec:
  assumes "\<forall>n. snd h n" and "v_cmp refs = Some remote_head_cmp" "\<forall>r\<in>set (v_contents refs). 0 \<notin> set (rh_name r)"
    and "rs_string spec = Some str" "rs_src spec = Some src" "rs_dst spec = Some dst"
    and "0 \<notin> set src" "0 \<notin> set dst" "dst \<noteq> []" "length src < 2 ^ 58" "length dst < 2 ^ 58"
  shows "git_refspec__dwim_one h key out spec refs =
    git_vector_insert (snd h) out (spec\<lparr>rs_src := Some (guess_src refs src), rs_dst := Some (guess_dst refs src dst)\<rparr>)"
proof -
  define cur where "cur = zero_refspec\<lparr>rs_force := rs_force spec, rs_push := rs_push spec, rs_pattern := rs_pattern spec,
    rs_matching := rs_matching spec, rs_string := Some str\<rparr>"
  define looked where "looked \<longleftrightarrow> \<not> prefix GIT_REFS_DIR src"
  define s where "s = (if looked then dwim_src refs formatters src None else None)"
  define c where "c = (if looked then left_over refs formatters src [] else [])"
  have f: "\<forall>f\<in>set formatters. f \<noteq> [] \<and> 0 \<notin> set f \<and> length f < 100"
    by (simp add: formatters_def GIT_REFS_DIR_def GIT_REFS_TAGS_DIR_def GIT_REFS_HEADS_DIR_def)
  have dup: "git__strdup (snd h) (Some x) = Some (Some x)" for x using assms(1) by (simp add: git__strdup_def)
  obtain buf where buf: "(if git__prefixcmp src GIT_REFS_DIR \<noteq> 0 then dwim_loop h key refs src formatters cur GIT_BUF_INIT else Some (Inr (cur, GIT_BUF_INIT))) =
      Some (Inr (cur\<lparr>rs_src := s\<rparr>, buf))" "buf_ok buf" "content buf = c"
  proof (cases looked)
    case True
    have "rs_src cur = None" by (simp add: cur_def zero_refspec_def)
    then show ?thesis using that True dwim_loop_ok [OF assms(1-3,7,10) f buf_init_ok(1), of key cur] prefix_refs(1) [OF assms(7)] buf_init_ok(3)
      by (auto simp: s_def c_def looked_def)
  next
    case False
    have "cur\<lparr>rs_src := None\<rparr> = cur" by (simp add: cur_def zero_refspec_def)
    then show ?thesis using that [of GIT_BUF_INIT] False prefix_refs(1) [OF assms(7)] buf_init_ok(1,3) by (simp add: s_def c_def looked_def)
  qed
  have g: "(case s of None \<Rightarrow> src | Some x \<Rightarrow> x) = guess_src refs src"
    by (simp add: s_def looked_def guess_src_def dwim_src_def formatters_def)
  define cur2 where "cur2 = cur\<lparr>rs_src := Some (guess_src refs src)\<rparr>"
  have e2: "(if rs_src (cur\<lparr>rs_src := s\<rparr>) = None then Some (cur\<lparr>rs_src := s, rs_src := Some src\<rparr>) else Some (cur\<lparr>rs_src := s\<rparr>)) = Some cur2"
    using g by (cases s) (simp_all add: cur2_def)
  have n2: "rs_src cur2 = Some (guess_src refs src)" "rs_dst cur2 = None" by (simp_all add: cur2_def cur_def zero_refspec_def)
  let ?p = "if git__prefixcmp dst REMOTES = 0 then GIT_REFS_DIR else GIT_REFS_HEADS_DIR"
  have "length c \<le> 2 ^ 59" using assms(10) by (simp add: c_def left_over_def formatters_def GIT_REFS_HEADS_DIR_def GIT_REFS_DIR_def)
  moreover have p: "0 \<notin> set ?p" "length ?p \<le> 11" by (simp_all add: GIT_REFS_HEADS_DIR_def GIT_REFS_DIR_def)
  ultimately obtain b1 where b1: "git_buf_puts h buf (Bytes (?p @ [0])) = Some (0, b1)" "buf_ok b1" "content b1 = c @ ?p"
    using puts_str [OF assms(1) buf(2) p(1)] buf(3) by auto
  obtain b2 where b2: "git_buf_puts h b1 (Bytes (dst @ [0])) = Some (0, b2)" "buf_ok b2" "content b2 = (c @ ?p) @ dst"
    using puts_str [OF assms(1) b1(2) assms(8)] b1(3) \<open>length c \<le> 2 ^ 59\<close> p(2) assms(11) by auto
  have "0 \<notin> set c" using assms(7) by (auto simp: c_def left_over_def formatters_def GIT_REFS_HEADS_DIR_def GIT_REFS_DIR_def)
  then have z: "0 \<notin> set ((c @ ?p) @ dst)" "(c @ ?p) @ dst \<noteq> []" using p(1) assms(8,9) by auto
  obtain m where m: "git_buf_detach h b2 = Some (Mem m, GIT_BUF_INIT)" "detached_str (Mem m) = Some (Some ((c @ ?p) @ dst))"
    using buf_str [OF b2(2,3) z(2,1), of h] by blast
  have d: "guess_dst refs src dst = (if git__prefixcmp dst GIT_REFS_DIR \<noteq> 0 then (c @ ?p) @ dst else dst)"
    by (simp add: guess_dst_def prefix_refs [OF assms(8)] c_def looked_def left_over_def formatters_def)
  have free: "git_buf_free h buf = Some GIT_BUF_INIT" "git_buf_free h GIT_BUF_INIT = Some GIT_BUF_INIT" using free_ok_buf buf(2) buf_init_ok(1) by blast+
  have "cur2\<lparr>rs_dst := Some x\<rparr> = spec\<lparr>rs_src := Some (guess_src refs src), rs_dst := Some x\<rparr>" for x
    using assms(4) by (cases spec) (simp add: cur2_def cur_def zero_refspec_def)
  note fin = this [symmetric]
  show ?thesis
  proof (cases "git__prefixcmp dst GIT_REFS_DIR \<noteq> 0")
    case True
    show ?thesis
      unfolding git_refspec__dwim_one_def Let_def assms(4,5,6) dup bind.bind_lunit cur_def [symmetric] buf(1) sum.case prod.case e2 option.case
        b1(1) b2(1) m(1) fin d if_P [OF True]
      using assms(1) n2 m(2) free by simp
  next
    case False
    show ?thesis
      unfolding git_refspec__dwim_one_def Let_def assms(4,5,6) dup bind.bind_lunit cur_def [symmetric] buf(1) sum.case prod.case e2 option.case fin d if_not_P [OF False]
      using assms(1) n2 free by simp
  qed
qed

text \<open>A tag v of the server: the destination w becomes refs/heads/vrefs/heads/w.\<close>

definition sample_head :: git_remote_head where
  "sample_head = \<lparr>rh_local = 0, rh_oid = [], rh_loid = [], rh_name = GIT_REFS_TAGS_DIR @ [118]\<rparr>"

definition sample_refs :: "git_remote_head git_vector" where
  "sample_refs = \<lparr>v_alloc = 1, v_cmp = Some remote_head_cmp, v_contents = [sample_head], v_sorted = True\<rparr>"

definition sample_push :: git_refspec where
  "sample_push = \<lparr>rs_string = Some [118, 58, 119], rs_src = Some [118], rs_dst = Some [119], rs_force = False, rs_push = True,
     rs_pattern = False, rs_matching = False\<rparr>"

theorem dwim_one_spec_witness:
  "git_refspec__dwim_one (\<lambda>_. 7, \<lambda>_. True) sample_head \<lparr>v_alloc = 8, v_cmp = None, v_contents = [], v_sorted = False\<rparr> sample_push sample_refs =
    Some (0, \<lparr>v_alloc = 8, v_cmp = None, v_contents = [sample_push\<lparr>rs_src := Some (GIT_REFS_TAGS_DIR @ [118]),
      rs_dst := Some (GIT_REFS_HEADS_DIR @ [118] @ GIT_REFS_HEADS_DIR @ [119])\<rparr>], v_sorted = False\<rparr>)"
proof -
  have r: "v_cmp sample_refs = Some remote_head_cmp" "\<forall>r\<in>set (v_contents sample_refs). 0 \<notin> set (rh_name r)"
    by (simp_all add: sample_refs_def sample_head_def GIT_REFS_TAGS_DIR_def GIT_REFS_DIR_def)
  have p: "rs_string sample_push = Some [118, 58, 119]" "rs_src sample_push = Some [118]" "rs_dst sample_push = Some [119]" by (simp_all add: sample_push_def)
  have l: "0 \<notin> set [118 :: byte]" "0 \<notin> set [119 :: byte]" "[119 :: byte] \<noteq> []" "length [118 :: byte] < 2 ^ 58" "length [119 :: byte] < 2 ^ 58" by simp_all
  have g: "guess_src sample_refs [118] = GIT_REFS_TAGS_DIR @ [118]" "guess_dst sample_refs [118] [119] = GIT_REFS_HEADS_DIR @ [118] @ GIT_REFS_HEADS_DIR @ [119]"
    by code_simp+
  show ?thesis unfolding dwim_one_spec [OF all_granted r p l] g
    by (simp add: git_vector_insert_def make_room_def v_length_def)
qed

text \<open>The refspec of a single colon, which the parser takes for a push, has no sides and no string to copy.\<close>

lemma dwim_matching_crashes:
  "\<exists>spec. git_refspec__parse (\<lambda>_. 7, \<lambda>_. True) [58] False = Some (0, spec) \<and> (\<forall>h key out refs. snd h 32 \<longrightarrow> git_refspec__dwim_one h key out spec refs = None)"
proof -
  have "git_refspec__parse (\<lambda>_. 7, \<lambda>_. True) [58] False = Some (0, \<lparr>rs_string = None, rs_src = None, rs_dst = None,
     rs_force = False, rs_push = True, rs_pattern = False, rs_matching = True\<rparr>)" by code_simp
  then show ?thesis by (auto simp: git_refspec__dwim_one_def git__strdup_def)
qed

end
