(* ===== verification/Spec2Isabelle.thy ===== *)
theory Spec2Isabelle
  imports DeltaProps SortProps Pqueue OidProps RingProps ConvProps FnmatchProps BufTextProps OidText ShortenProps MessageProps SignatureProps BoxblurProps HalffloatProps PoolProps RefspecProps
begin

text \<open>
  Verification of the algorithmic core of the C code of this repository.

  The repository is an attic of Lua modules and of the C libraries they bind.  The C code with a
  logic of its own that does not consist of calls into an operating system is modelled here: the
  base layer of the git library (todo-later/libgit2/src), the platform independent part of the
  audio library (todo-later/portaudio/src/common), and the repository's own box blur (first-takes/boxblur)
  and half precision conversions (todo-later/halffloat).

  \<^bold>\<open>Conventions.\<close>  Every C function is a HOL function of the same name; stateful functions take and
  return the state.  A function that can run into undefined behaviour (an access outside of its
  object, a dangling pointer, a shift by the width, signed overflow, a failed assert, a loop that
  does not end) has a result of type option and None is that outcome, so an equation with Some is a proof of
  memory safety and of termination on that input; an error return of the code is an ordinary value
  inside of Some.  Fixed-width integers are words where the code computes with bits and nat with the wrap-around
  of size\_t written out (szw) where it computes sizes.  A pointer into an array is
  a position or the rest of the list.  What the code does not determine is an argument of
  the definitions: the answers of the allocator (ok: which sizes it grants), the contents of fresh
  memory (junk), the comparison functions and the texts that printf formats denote.  Loops that may not end are
  partial functions into option; all others are total functions with a termination proof.

  \<^bold>\<open>Theories and the code they model.\<close>

  \<^item> Prelude: checked array accesses (rd, wr, rd\_blk, wr\_blk), size\_t arithmetic, the allocator.

  \<^item> DeltaDefs (delta.c, delta.h, delta-apply.c): the index over the reference, the encoder and the decoder of
    binary deltas.  Delta proves the decoder against the meaning of a list of copy and insert
    instructions; DeltaIndex that fingerprints stay inside of the tables and entries inside of the index;
    DeltaEnc the loop invariant of the encoder; DeltaProps that decoding undoes encoding, that the encoder returns within
    its bounds, and, by reading arbitrary bytes as instructions in DeltaDecode, exactly which deltas the decoder
    accepts and exactly where it reads out of bounds.

  \<^item> Comparators (git\_\_bsearch of util.c): the locale cmp\_order, the contract between
    the sorting and searching routines and their comparison functions.  Tsort (tsort.c): the
    merge sort over runs, with the locale sorter for what a sorting routine promises its
    callers.  Vector (vector.c, vector.h): the pointer array, which sorts and searches through these two
    contracts.  SortProps holds their properties.

  \<^item> Pqueue (pqueue.c, pqueue.h, commit\_list.c, commit\_list.h): the binary heap, in the locale priority, and the list of commits by date.

  \<^item> Cstr (util.c, util.h): string comparison, number parsing, tokens, hashing, hexadecimal dump, insertion sort.

  \<^item> Oid (oid.c, oid.h, sha1\_lookup.c): object ids as text and bytes, comparisons, and the two searches in sorted
    tables of ids.  OidProps interprets cmp\_order on the id comparisons.  OidText writes the id lines of
    objects into a byte buffer and reads them back.  OidShorten is the trie in an array that finds the
    shortest unambiguous abbreviation; ShortenProps relates the array to the set of ids it stands for by
    an invariant over the paths of the trie, which opening a leaf and adding a leaf preserve.

  \<^item> Fnmatch (fnmatch.c, fnmatch.h): wildcard matching.  FnmatchProps gives patterns a meaning as lists of
    tokens and proves that the matcher decides it.

  \<^item> Buffer (buffer.c, buffer.h): the growable byte buffer.  BufferProps proves that the operations
    on contents implement operations on byte strings, that git\_buf\_splice does so unless the new contents fill its block,
    and that base64 can be decoded.  BufText (buf\_text.c, buf\_text.h) and
    BufTextProps: escaping, line ends, common prefix, byte order marks and statistics of the text in a buffer.

  \<^item> Message (message.c): cleaning up commit messages, written through the buffer.  MessageProps says what a clean message is,
    that git\_message\_\_prettify makes one, and that it leaves a clean one alone.

  \<^item> Signature (signature.c, and the copies of util.h): making, parsing and writing signatures.  SignatureProps shows
    that what is written is read back, and what of a signature the text loses.

  \<^item> Pool (pool.c, pool.h): the allocator of blocks inside of pages.  PoolProps keeps the blocks of a client and those of the free
    list apart and inside of the used part of the pages (pool\_inv), and follows a client through any calls.

  \<^item> Refs (the part of refs.c, refs.h that is about names): checking, normalizing and shortening the names of references.
    RefsProps states which names are accepted as a condition on their segments, and relates the loop and what it leaves in
    its buffer to the list of segments that is still ahead.

  \<^item> Refspec (refspec.c, refspec.h): parsing, writing and applying refspecs, and completing their shorthands.  RefspecProps
    rests on the segments of RefsProps, the meaning of patterns of FnmatchProps and the buffers of BufferProps: the star of a valid
    pattern is its last segment, nothing before it is special to the matcher, and the buffer receives the mapped name.

  \<^item> RingBuffer (pa\_ringbuffer.c, pa\_ringbuffer.h): the lock-free queue between two threads, with the sequential
    operations and an inductive step relation for one producer and one consumer.  RingProps
    proves the invariant, the locale fifo of bounded queues and its interpretation.

  \<^item> Converters (pa\_converters.c, pa\_dither.c): sample formats, dither and the choice of converters, with ConvProps.

  \<^item> Boxblur (boxblur\_old.c): the box blur of bitmaps with running sums, in loops that are iterations of a partial step.
    BoxblurProps proves it against the means over rows and columns of an image, and that a radius from the height on reads
    out of bounds.

  \<^item> Halffloat (halffloat.c): conversions between float and half precision on bits.  HalffloatProps reduces them to functions of
    sign and magnitude.

  \<^bold>\<open>How the parts interact.\<close>  The vector sorts with git\_\_tsort and searches with git\_\_bsearch, whose results
  need a comparison that is a total preorder; the ids provide one.  The heap serves the
  revision walk with the comparison of commit times.  The pattern matcher uses the character helpers of util.h, the
  buffer those of util.c and the allocator wrapper; the text operations and the id lines are written through the
  buffer, and their proofs use only what BufferProps promises of it; so are the messages and the signatures, whose numbers git\_\_strtol64
  reads back.  A refspec
  checks its sides with the rules for reference names, matches with the pattern matcher, writes into buffers and searches the
  vector of remote heads.  The audio callbacks move converted samples through the ring buffer.

  \<^bold>\<open>Bounds.\<close>  The round trip of the delta codec holds for targets below 256 MB and references below 2 GB, beyond which the
  unsigned int counters of the code wrap.  The stack of runs of git\_\_tsort has 128 entries and runs have
  at least 32 elements unless they end the array, so sorting is proved up to 4096 elements.  The matcher
  gives up after 64 nested stars, which the specification says.  Buffers are
  below 2 to the 61, where the growth by half does not wrap.  The id shortener has room for
  32766 nodes and an id takes at most 40, so 800 ids always fit.  The fuel of no definition shows in a property.
  The blur is proved for bitmaps below 2 to the 31 bytes, where no index overflows, requests to a pool below 4 GB, messages below 2 to
  the 29 characters, signatures with times below 2 to the 32,
  names of references below 2 to the 60 characters, refspecs below 2 to the 59.

  \<^bold>\<open>Not modelled.\<close>  The float converters and their dither (rounding of floating point), the repository layer of
  the git library (files, directories and the object database behind POSIX calls), its transports,
  the host interfaces of the audio library, its buffer processor (callbacks of the user and conversions of float samples), the experiments with vector
  instructions beside the box blur, and third-party code that is only bundled (zlib, regex, http-parser,
  xdiff, libharu, stb\_vorbis, re2, liblfds, bzip2, lzma, the bindings to OpenSSL and COM).  The log of error messages
  (giterr\_set) has no effect on any result and is left out.
\<close>

end
